(* ===== verification/Prelude.thy ===== *)
theory Prelude
  imports Main "HOL-Library.Char_ord" "HOL-Library.List_Lexorder" "HOL-Library.Word"
begin

text \<open>
  What every component shares: the C and C++ library facts the code relies on
  (NUL-terminated strings, \<^verbatim>\<open>strcasecmp\<close>, \<^verbatim>\<open>size_t\<close> arithmetic, decimal printing),
  and \<^verbatim>\<open>std::map\<close> as an association list kept in the order of its comparator, with
  the laws of lookup, insertion and assignment proved once in the locale \<open>std_map\<close>
  over any strict weak order.
\<close>

section \<open>Fact collections\<close>

named_theorems wf_intros \<open>preservation of the well-formedness invariants\<close>
named_theorems piece_simps \<open>content-level equations of the string pieces\<close>

section \<open>Errors of the C++ run time\<close>

datatype cpp_error =
    LengthError        \<comment> \<open>\<^verbatim>\<open>std::length_error\<close> of the \<^verbatim>\<open>std::string\<close> constructor\<close>
  | OutOfRange         \<comment> \<open>\<^verbatim>\<open>std::out_of_range\<close>\<close>
  | InvalidArgument    \<comment> \<open>\<^verbatim>\<open>std::invalid_argument\<close> of \<^verbatim>\<open>std::stoi\<close> and friends\<close>
  | InvalidRead        \<comment> \<open>a read outside the buffer a pointer points into\<close>
  | InvalidWrite       \<comment> \<open>a write outside the buffer a pointer points into\<close>
  | AssertFailed       \<comment> \<open>a failed assertion of the program, which aborts\<close>
  | JsonTypeError      \<comment> \<open>\<^verbatim>\<open>nlohmann::json::type_error\<close>\<close>
  | JsonParseError     \<comment> \<open>\<^verbatim>\<open>nlohmann::json::parse_error\<close>\<close>

section \<open>Results\<close>

text \<open>A computation that may not end (\<open>None\<close>) or throw (\<open>Inl\<close>).\<close>

type_synonym 'a run = "(cpp_error + 'a) option"

definition done_with :: "'a \<Rightarrow> 'a run" where
  "done_with x = Some (Inr x)"

definition run_then :: "'a run \<Rightarrow> ('a \<Rightarrow> 'b run) \<Rightarrow> 'b run" where
  "run_then r k = (case r of None \<Rightarrow> None | Some (Inl e) \<Rightarrow> Some (Inl e) | Some (Inr x) \<Rightarrow> k x)"

lemma run_then_simps [simp]:
  "run_then None k = None" "run_then (Some (Inl e)) k = Some (Inl e)" "run_then (Some (Inr x)) k = k x"
  "run_then (done_with x) k = k x" "done_with x = done_with y \<longleftrightarrow> x = y"
  by (simp_all add: run_then_def done_with_def)

lemma run_then_bind: "run_then r k = Option.bind r (case_sum (\<lambda>e. Some (Inl e)) k)"
  by (simp add: run_then_def split: option.split sum.split)

lemma run_then_mono [partial_function_mono]:
  assumes "mono_option B" and "\<And>y. mono_option (C y)"
  shows "mono_option (\<lambda>f. run_then (B f) (\<lambda>y. C y f))"
proof -
  have "mono_option (\<lambda>f. case_sum (\<lambda>e. Some (Inl e)) (\<lambda>y. C y f) x)" for x
    by (cases x) (simp_all add: assms(2) option.const_mono)
  then show ?thesis unfolding run_then_bind by (intro bind_mono assms(1))
qed

section \<open>Sizes\<close>

definition size_max :: nat where
  "size_max = 2 ^ 64"

text \<open>\<^verbatim>\<open>size_t\<close> subtraction wraps around.\<close>

definition size_sub :: "nat \<Rightarrow> nat \<Rightarrow> nat" where
  "size_sub a b = (if b \<le> a then a - b else size_max + a - b)"

lemma size_sub_le [simp]: "b \<le> a \<Longrightarrow> size_sub a b = a - b"
  by (simp add: size_sub_def)

lemma size_sub_wraps: "a < b \<Longrightarrow> b \<le> 2 \<Longrightarrow> 2 ^ 63 < size_sub a b"
  by (simp add: size_sub_def size_max_def)

section \<open>C strings\<close>

abbreviation NUL :: char where
  "NUL \<equiv> CHR 0x00"

text \<open>What a \<^verbatim>\<open>const char *\<close> reader sees of a buffer: everything before the first NUL.\<close>

definition c_str :: "string \<Rightarrow> string" where
  "c_str s = takeWhile (\<lambda>c. c \<noteq> NUL) s"

lemma c_str_id [simp]: "NUL \<notin> set s \<Longrightarrow> c_str s = s"
  by (auto simp: c_str_def takeWhile_eq_all_conv)

lemma c_str_Nil [simp]: "c_str [] = []"
  by (simp add: c_str_def)

lemma c_str_no_NUL: "NUL \<notin> set (c_str s)"
  by (auto simp: c_str_def dest: set_takeWhileD)

text \<open>\<^verbatim>\<open>tolower\<close> of the C locale.\<close>

definition tolower :: "char \<Rightarrow> char" where
  "tolower c = (if of_char c \<ge> (65::nat) \<and> of_char c \<le> (90::nat) then char_of (of_char c + 32 :: nat) else c)"

definition fold_case :: "string \<Rightarrow> string" where
  "fold_case s = map tolower (c_str s)"

text \<open>\<^verbatim>\<open>strcasecmp (a, b) == 0\<close>.\<close>

definition strcasecmp_eq :: "string \<Rightarrow> string \<Rightarrow> bool" where
  "strcasecmp_eq a b \<longleftrightarrow> fold_case a = fold_case b"

text \<open>\<^verbatim>\<open>strncasecmp (a, b, n) == 0\<close>.\<close>

definition strncasecmp_eq :: "string \<Rightarrow> string \<Rightarrow> nat \<Rightarrow> bool" where
  "strncasecmp_eq a b n \<longleftrightarrow> take n (fold_case a) = take n (fold_case b)"

text \<open>\<^verbatim>\<open>isspace\<close> of the C locale.\<close>

definition isspace :: "char \<Rightarrow> bool" where
  "isspace c \<longleftrightarrow> of_char c = (32::nat) \<or> (9 \<le> (of_char c::nat) \<and> of_char c \<le> (13::nat))"

definition isdigit :: "char \<Rightarrow> bool" where
  "isdigit c \<longleftrightarrow> 48 \<le> (of_char c::nat) \<and> of_char c \<le> (57::nat)"

definition digit_val :: "char \<Rightarrow> nat" where
  "digit_val c = of_char c - 48"

section \<open>Numbers as text\<close>

text \<open>\<^verbatim>\<open>std::to_string\<close> and \<^verbatim>\<open>printf ("%zu")\<close>.\<close>

fun show_nat :: "nat \<Rightarrow> string" where
  "show_nat n = (if n < 10 then [char_of (48 + n)]
                 else show_nat (n div 10) @ [char_of (48 + n mod 10)])"

declare show_nat.simps [simp del]

definition show_int :: "int \<Rightarrow> string" where
  "show_int i = (if i < 0 then CHR ''-'' # show_nat (nat (- i)) else show_nat (nat i))"

fun read_digits :: "nat \<Rightarrow> string \<Rightarrow> nat" where
  "read_digits acc [] = acc"
| "read_digits acc (c # cs) = (if isdigit c then read_digits (10 * acc + digit_val c) cs else acc)"

text \<open>The value \<^verbatim>\<open>strtol (s, nullptr, 10)\<close> computes: blanks, a sign, then digits.\<close>

definition read_int :: "string \<Rightarrow> int" where
  "read_int s =
     (case dropWhile isspace (c_str s) of
        [] \<Rightarrow> 0
      | c # cs \<Rightarrow> (if c = CHR ''-'' then - int (read_digits 0 cs)
                  else if c = CHR ''+'' then int (read_digits 0 cs)
                  else int (read_digits 0 (c # cs))))"

text \<open>A 32-bit \<^verbatim>\<open>int\<close> made from a wider integer keeps the low 32 bits.\<close>

definition to_int32 :: "int \<Rightarrow> int" where
  "to_int32 i = (i + 2 ^ 31) mod 2 ^ 32 - 2 ^ 31"

lemma to_int32_id: "- (2 ^ 31) \<le> i \<Longrightarrow> i < 2 ^ 31 \<Longrightarrow> to_int32 i = i"
  by (simp add: to_int32_def)

lemma to_int32_range: "- (2 ^ 31) \<le> to_int32 i \<and> to_int32 i < 2 ^ 31"
  by (simp add: to_int32_def)

lemma to_int32_mod: "to_int32 (i mod 2 ^ 64) = to_int32 i"
proof -
  have "i mod 2 ^ 64 mod 2 ^ 32 = i mod 2 ^ 32" by (rule mod_mod_cancel) simp
  then show ?thesis
    unfolding to_int32_def using mod_add_cong [of "i mod 2 ^ 64" "2 ^ 32" i "2 ^ 31" "2 ^ 31"] by simp
qed

lemma of_char_digit: "n < 10 \<Longrightarrow> (of_char (char_of (48 + n :: nat) :: char) :: nat) = 48 + n"
  by simp

lemma isdigit_digit [simp]: "n < 10 \<Longrightarrow> isdigit (char_of (48 + n :: nat))"
  by (simp add: isdigit_def)

lemma digit_val_digit [simp]: "n < 10 \<Longrightarrow> digit_val (char_of (48 + n :: nat)) = n"
  by (simp add: digit_val_def)

lemma read_digits_append:
  "list_all isdigit xs \<Longrightarrow> read_digits acc (xs @ ys) = read_digits (read_digits acc xs) ys"
  by (induction xs arbitrary: acc) auto

lemma show_nat_digits: "list_all isdigit (show_nat n)"
proof (induction n rule: show_nat.induct)
  case (1 n)
  then show ?case by (subst show_nat.simps) auto
qed

lemma read_show_nat: "read_digits 0 (show_nat n) = n"
proof (induction n rule: show_nat.induct)
  case (1 n)
  then show ?case
    by (subst show_nat.simps) (auto simp: read_digits_append show_nat_digits)
qed

section \<open>Ordered maps\<close>

text \<open>
  \<^verbatim>\<open>std::map\<close> with comparator \<open>lt\<close>: the entries in the comparator's order, two keys
  being the same when neither is before the other. \<open>smap_insert\<close> is
  \<^verbatim>\<open>insert\<close>/\<^verbatim>\<open>emplace\<close> (an existing entry stays), \<open>smap_assign\<close> is
  \<^verbatim>\<open>operator[] =\<close> (an existing entry keeps its key and takes the new value).
\<close>

type_synonym ('k, 'v) smap = "('k \<times> 'v) list"

fun smap_get :: "('k \<Rightarrow> 'k \<Rightarrow> bool) \<Rightarrow> ('k, 'v) smap \<Rightarrow> 'k \<Rightarrow> 'v option" where
  "smap_get lt [] k = None"
| "smap_get lt ((k', v) # m) k =
     (if lt k k' then None else if lt k' k then smap_get lt m k else Some v)"

fun smap_insert :: "('k \<Rightarrow> 'k \<Rightarrow> bool) \<Rightarrow> 'k \<Rightarrow> 'v \<Rightarrow> ('k, 'v) smap \<Rightarrow> ('k, 'v) smap" where
  "smap_insert lt k v [] = [(k, v)]"
| "smap_insert lt k v ((k', v') # m) =
     (if lt k k' then (k, v) # (k', v') # m
      else if lt k' k then (k', v') # smap_insert lt k v m
      else (k', v') # m)"

fun smap_assign :: "('k \<Rightarrow> 'k \<Rightarrow> bool) \<Rightarrow> 'k \<Rightarrow> 'v \<Rightarrow> ('k, 'v) smap \<Rightarrow> ('k, 'v) smap" where
  "smap_assign lt k v [] = [(k, v)]"
| "smap_assign lt k v ((k', v') # m) =
     (if lt k k' then (k, v) # (k', v') # m
      else if lt k' k then (k', v') # smap_assign lt k v m
      else (k', v) # m)"

text \<open>\<^verbatim>\<open>m[k]\<close> on a map of vectors, then \<^verbatim>\<open>emplace_back\<close>.\<close>

definition smap_push :: "('k \<Rightarrow> 'k \<Rightarrow> bool) \<Rightarrow> 'k \<Rightarrow> 'v \<Rightarrow> ('k, 'v list) smap \<Rightarrow> ('k, 'v list) smap" where
  "smap_push lt k v m = smap_assign lt k ((case smap_get lt m k of None \<Rightarrow> [] | Some vs \<Rightarrow> vs) @ [v]) m"

abbreviation keys :: "('k, 'v) smap \<Rightarrow> 'k list" where
  "keys m \<equiv> map fst m"

text \<open>The comparator's contract, as the standard requires it of every \<^verbatim>\<open>std::map\<close>.\<close>

locale strict_weak_order =
  fixes lt :: "'k \<Rightarrow> 'k \<Rightarrow> bool"
  assumes irreflexive: "\<not> lt a a"
    and transitive: "lt a b \<Longrightarrow> lt b c \<Longrightarrow> lt a c"
    and incomparable: "\<not> lt a b \<Longrightarrow> \<not> lt b c \<Longrightarrow> \<not> lt a c"
begin

lemma asymmetric: "lt a b \<Longrightarrow> \<not> lt b a"
  using irreflexive transitive by blast

definition same :: "'k \<Rightarrow> 'k \<Rightarrow> bool" where
  "same a b \<longleftrightarrow> \<not> lt a b \<and> \<not> lt b a"

lemma same_refl: "same a a"
  by (simp add: same_def irreflexive)

lemma same_sym: "same a b \<Longrightarrow> same b a"
  by (simp add: same_def)

lemma same_trans: "same a b \<Longrightarrow> same b c \<Longrightarrow> same a c"
  unfolding same_def using incomparable by blast

lemma lt_same_left: "lt a b \<Longrightarrow> same a a' \<Longrightarrow> lt a' b"
  unfolding same_def using incomparable by blast

lemma lt_same_right: "lt a b \<Longrightarrow> same b b' \<Longrightarrow> lt a b'"
  unfolding same_def using incomparable by blast

end

locale std_map = strict_weak_order lt
  for lt :: "'k \<Rightarrow> 'k \<Rightarrow> bool"
begin

abbreviation sorted_map :: "('k, 'v) smap \<Rightarrow> bool" where
  "sorted_map m \<equiv> sorted_wrt lt (keys m)"

lemma get_before: "\<forall>k' \<in> set (keys m). lt k k' \<Longrightarrow> smap_get lt m k = None"
  by (cases m) auto

lemma insert_keys: "set (keys (smap_insert lt k v m)) \<subseteq> insert k (set (keys m))"
  by (induction m) (auto simp: image_iff split: if_splits, (force+)?)

lemma assign_keys: "set (keys (smap_assign lt k v m)) \<subseteq> insert k (set (keys m))"
  by (induction m) (auto simp: image_iff split: if_splits, (force+)?)

lemma insert_sorted: "sorted_map m \<Longrightarrow> sorted_map (smap_insert lt k v m)"
proof (induction m)
  case (Cons e m)
  obtain k' v' where e: "e = (k', v')" by (cases e)
  have "\<forall>x \<in> set (keys (smap_insert lt k v m)). lt k' x" if "lt k' k"
    using Cons.prems insert_keys [of k v m] that by (fastforce simp: e)
  then show ?case
    using Cons by (auto simp: e intro: transitive)
qed simp

lemma assign_sorted: "sorted_map m \<Longrightarrow> sorted_map (smap_assign lt k v m)"
proof (induction m)
  case (Cons e m)
  obtain k' v' where e: "e = (k', v')" by (cases e)
  have "\<forall>x \<in> set (keys (smap_assign lt k v m)). lt k' x" if "lt k' k"
    using Cons.prems assign_keys [of k v m] that by (fastforce simp: e)
  then show ?case
    using Cons by (auto simp: e intro: transitive)
qed simp

lemma get_same: "same a b \<Longrightarrow> smap_get lt m a = smap_get lt m b"
proof (induction m)
  case (Cons e m)
  obtain k' v' where e: "e = (k', v')" by (cases e)
  have "lt a k' = lt b k'" "lt k' a = lt k' b"
    using lt_same_left lt_same_right Cons.prems same_sym by blast+
  then show ?case using Cons by (simp add: e)
qed simp

lemma get_assign:
  "smap_get lt (smap_assign lt k v m) x = (if same k x then Some v else smap_get lt m x)"
proof (induction m)
  case Nil
  then show ?case by (auto simp: same_def)
next
  case (Cons e m)
  obtain k' v' where e: "e = (k', v')" by (cases e)
  show ?case
  proof (cases "lt k k'")
    case True
    then show ?thesis
      by (auto simp: e same_def dest: transitive asymmetric)
  next
    case False
    show ?thesis
    proof (cases "lt k' k")
      case True
      have "same k x \<Longrightarrow> \<not> lt x k' \<and> lt k' x"
        using True asymmetric lt_same_right by blast
      then show ?thesis using Cons.IH False True by (auto simp: e)
    next
      case eq: False
      then have "same k k'" using False by (simp add: same_def)
      then have "same k x \<longleftrightarrow> same k' x" using same_sym same_trans by blast
      then show ?thesis using False eq by (auto simp: e same_def)
    qed
  qed
qed

lemma get_insert:
  "smap_get lt (smap_insert lt k v m) x =
     (if same k x \<and> smap_get lt m k = None then Some v else smap_get lt m x)"
proof (induction m)
  case Nil
  then show ?case by (auto simp: same_def)
next
  case (Cons e m)
  obtain k' v' where e: "e = (k', v')" by (cases e)
  show ?case
  proof (cases "lt k k'")
    case True
    then show ?thesis
      by (auto simp: e same_def dest: transitive asymmetric)
  next
    case False
    show ?thesis
    proof (cases "lt k' k")
      case True
      have "same k x \<Longrightarrow> \<not> lt x k' \<and> lt k' x"
        using True asymmetric lt_same_right by blast
      then show ?thesis using Cons.IH False True by (auto simp: e)
    next
      case eq: False
      then show ?thesis using False by (auto simp: e)
    qed
  qed
qed

lemma insert_absent: "smap_get lt m k = None \<Longrightarrow> smap_insert lt k v m = smap_assign lt k v m"
  by (induction m) (auto split: if_splits)

lemma insert_present: "smap_get lt m k \<noteq> None \<Longrightarrow> smap_insert lt k v m = m"
  by (induction m) (auto split: if_splits)

end

lemma smap_get_in: "smap_get lt m k = Some v \<Longrightarrow> \<exists>k'. (k', v) \<in> set m"
  by (induction lt m k rule: smap_get.induct) (auto split: if_splits)

section \<open>The comparators of the program\<close>

text \<open>\<^verbatim>\<open>std::less\<close> on \<^verbatim>\<open>std::string\<close> and on \<^verbatim>\<open>StringPiece\<close> contents: bytewise.\<close>

abbreviation str_lt :: "string \<Rightarrow> string \<Rightarrow> bool" where
  "str_lt a b \<equiv> a < b"

lemma Nil_str_lt [simp]: "str_lt [] s \<longleftrightarrow> s \<noteq> []"
  by (cases s) simp_all

interpretation str_map: std_map str_lt
  by unfold_locales auto

lemma str_same [simp]: "str_map.same a b \<longleftrightarrow> a = b"
  by (auto simp: str_map.same_def)

lemmas str_map_get = str_map.get_assign str_map.get_insert

end
