(* ===== verification/String_Piece.thy ===== *)
theory String_Piece
  imports Prelude
begin

text \<open>
  \<^verbatim>\<open>src/base/StringPiece.h\<close>: a window into a character buffer the piece does not own.
  A piece keeps the buffer, the offset of its first character and its length, because the
  code reads through it outside the window (\<^verbatim>\<open>route.data() + cursor\<close> up to the NUL) and
  because the length is an unsigned \<^verbatim>\<open>size_t\<close> that wraps around. \<open>sp_str\<close> is the content,
  and the lemmas say that comparison, order and prefix test depend on the content alone,
  which is why a map keyed by pieces can be modelled by a map keyed by strings.
\<close>

section \<open>The type\<close>

record string_piece =
  sp_buf :: string
  sp_off :: nat
  sp_len :: nat

definition sp_null :: string_piece where
  "sp_null = \<lparr>sp_buf = [], sp_off = 0, sp_len = 0\<rparr>"

definition sp_of_cstr :: "string \<Rightarrow> string_piece" where
  "sp_of_cstr s = \<lparr>sp_buf = s, sp_off = 0, sp_len = length (c_str s)\<rparr>"

definition sp_of_str :: "string \<Rightarrow> string_piece" where
  "sp_of_str s = \<lparr>sp_buf = s, sp_off = 0, sp_len = length s\<rparr>"

text \<open>\<^verbatim>\<open>StringPiece (p.begin () + i, n)\<close>.\<close>

definition sp_window :: "string_piece \<Rightarrow> nat \<Rightarrow> nat \<Rightarrow> string_piece" where
  "sp_window p i n = \<lparr>sp_buf = sp_buf p, sp_off = sp_off p + i, sp_len = n\<rparr>"

definition sp_empty :: "string_piece \<Rightarrow> bool" where
  "sp_empty p \<longleftrightarrow> sp_len p = 0"

definition sp_clear :: "string_piece \<Rightarrow> string_piece" where
  "sp_clear p = sp_null"

text \<open>
  A read through the piece's pointer at a signed distance: the buffer's bytes, the NUL that
  ends them, and nothing else.
\<close>

definition sp_read :: "string_piece \<Rightarrow> int \<Rightarrow> cpp_error + char" where
  "sp_read p i =
     (let a = int (sp_off p) + i in
      if a < 0 \<or> int (length (sp_buf p)) < a then Inl InvalidRead
      else if a = int (length (sp_buf p)) then Inr NUL
      else Inr (sp_buf p ! nat a))"

definition sp_nth :: "string_piece \<Rightarrow> nat \<Rightarrow> char" where
  "sp_nth p i = (case sp_read p (int i) of Inr c \<Rightarrow> c | Inl _ \<Rightarrow> NUL)"

definition sp_remove_prefix :: "string_piece \<Rightarrow> nat \<Rightarrow> string_piece" where
  "sp_remove_prefix p n = p\<lparr>sp_off := sp_off p + n, sp_len := size_sub (sp_len p) n\<rparr>"

definition sp_remove_suffix :: "string_piece \<Rightarrow> nat \<Rightarrow> string_piece" where
  "sp_remove_suffix p n = p\<lparr>sp_len := size_sub (sp_len p) n\<rparr>"

definition sp_shrink :: "string_piece \<Rightarrow> nat \<Rightarrow> nat \<Rightarrow> string_piece" where
  "sp_shrink p prefix suffix =
     p\<lparr>sp_off := sp_off p + prefix, sp_len := size_sub (size_sub (sp_len p) prefix) suffix\<rparr>"

section \<open>Comparison\<close>

text \<open>The sign of \<^verbatim>\<open>memcmp\<close> on the first \<open>n\<close> bytes.\<close>

fun memcmp :: "string \<Rightarrow> string \<Rightarrow> nat \<Rightarrow> int" where
  "memcmp (x # xs) (y # ys) (Suc n) =
     (if x = y then memcmp xs ys n else if x < y then -1 else 1)"
| "memcmp _ _ _ = 0"

abbreviation sp_ptr :: "string_piece \<Rightarrow> string" where
  "sp_ptr p \<equiv> drop (sp_off p) (sp_buf p)"

definition sp_eq :: "string_piece \<Rightarrow> string_piece \<Rightarrow> bool" where
  "sp_eq p q \<longleftrightarrow> sp_len p = sp_len q \<and> memcmp (sp_ptr p) (sp_ptr q) (sp_len p) = 0"

definition sp_cmp_prefix :: "string_piece \<Rightarrow> string_piece \<Rightarrow> int" where
  "sp_cmp_prefix p q =
     memcmp (sp_ptr p) (sp_ptr q) (if sp_len p < sp_len q then sp_len p else sp_len q)"

definition sp_lt :: "string_piece \<Rightarrow> string_piece \<Rightarrow> bool" where
  "sp_lt p q \<longleftrightarrow> (let r = sp_cmp_prefix p q in r < 0 \<or> (r = 0 \<and> sp_len p < sp_len q))"

definition sp_le :: "string_piece \<Rightarrow> string_piece \<Rightarrow> bool" where
  "sp_le p q \<longleftrightarrow> (let r = sp_cmp_prefix p q in r < 0 \<or> (r = 0 \<and> sp_len p \<le> sp_len q))"

definition sp_ge :: "string_piece \<Rightarrow> string_piece \<Rightarrow> bool" where
  "sp_ge p q \<longleftrightarrow> (let r = sp_cmp_prefix p q in r > 0 \<or> (r = 0 \<and> sp_len p \<ge> sp_len q))"

definition sp_gt :: "string_piece \<Rightarrow> string_piece \<Rightarrow> bool" where
  "sp_gt p q \<longleftrightarrow> (let r = sp_cmp_prefix p q in r > 0 \<or> (r = 0 \<and> sp_len p > sp_len q))"

definition sp_compare :: "string_piece \<Rightarrow> string_piece \<Rightarrow> int" where
  "sp_compare p q =
     (let r = sp_cmp_prefix p q in
      if r = 0 then (if sp_len p < sp_len q then -1 else if sp_len p > sp_len q then 1 else r)
      else r)"

definition sp_starts_with :: "string_piece \<Rightarrow> string_piece \<Rightarrow> bool" where
  "sp_starts_with p q \<longleftrightarrow> sp_len p \<ge> sp_len q \<and> memcmp (sp_ptr p) (sp_ptr q) (sp_len q) = 0"

text \<open>
  \<^verbatim>\<open>std::string (data (), size ())\<close>: a length no string can have throws, a window past the
  buffer's end reads outside it.
\<close>

definition sp_as_string :: "string_piece \<Rightarrow> cpp_error + string" where
  "sp_as_string p =
     (if sp_len p \<ge> 2 ^ 63 then Inl LengthError
      else if sp_off p + sp_len p > length (sp_buf p) then Inl InvalidRead
      else Inr (take (sp_len p) (sp_ptr p)))"

text \<open>\<^verbatim>\<open>StringPieceHashImpl\<close>: a polynomial of the signed characters, modulo \<open>2 ^ 64\<close>.\<close>

definition sp_hash :: "string_piece \<Rightarrow> 64 word" where
  "sp_hash p =
     foldl (\<lambda>result c. result * 131 + scast (word_of_nat (of_char c) :: 8 word)) 0
       (take (sp_len p) (sp_ptr p))"

section \<open>Contents\<close>

definition sp_valid :: "string_piece \<Rightarrow> bool" where
  "sp_valid p \<longleftrightarrow> sp_off p + sp_len p \<le> length (sp_buf p)"

definition sp_str :: "string_piece \<Rightarrow> string" where
  "sp_str p = take (sp_len p) (sp_ptr p)"

lemma sp_valid_null [simp]: "sp_valid sp_null" "sp_str sp_null = []"
  by (simp_all add: sp_valid_def sp_null_def sp_str_def)

lemma sp_valid_of_str [simp]: "sp_valid (sp_of_str s)" "sp_str (sp_of_str s) = s"
    "sp_len (sp_of_str s) = length s"
  by (simp_all add: sp_valid_def sp_of_str_def sp_str_def)

lemma length_sp_str [simp]: "sp_valid p \<Longrightarrow> length (sp_str p) = sp_len p"
  by (auto simp: sp_valid_def sp_str_def)

lemma sp_str_empty: "sp_valid p \<Longrightarrow> sp_str p = [] \<longleftrightarrow> sp_len p = 0"
  using length_sp_str [of p] by (metis length_0_conv)

lemma sp_remove_prefix_str:
  "sp_valid p \<Longrightarrow> n \<le> sp_len p \<Longrightarrow>
   sp_valid (sp_remove_prefix p n) \<and> sp_str (sp_remove_prefix p n) = drop n (sp_str p)"
  by (auto simp: sp_remove_prefix_def sp_valid_def sp_str_def drop_take add.commute)

lemma sp_remove_suffix_str:
  "sp_valid p \<Longrightarrow> n \<le> sp_len p \<Longrightarrow>
   sp_valid (sp_remove_suffix p n) \<and> sp_str (sp_remove_suffix p n) = take (sp_len p - n) (sp_str p)"
  by (auto simp: sp_remove_suffix_def sp_valid_def sp_str_def min_def)

lemma sp_str_of_cstr [simp]: "sp_str (sp_of_cstr s) = c_str s"
  by (simp add: sp_str_def sp_of_cstr_def c_str_def takeWhile_eq_take [symmetric])

lemma sp_valid_of_cstr [simp]: "sp_valid (sp_of_cstr s)"
  by (simp add: sp_valid_def sp_of_cstr_def c_str_def length_takeWhile_le)

lemma sp_nth_str: "sp_valid p \<Longrightarrow> i < sp_len p \<Longrightarrow> sp_nth p i = sp_str p ! i"
  by (auto simp: sp_nth_def sp_read_def sp_valid_def sp_str_def Let_def nat_int_add)

lemma sp_read_str: "sp_valid p \<Longrightarrow> i < sp_len p \<Longrightarrow> sp_read p (int i) = Inr (sp_str p ! i)"
  by (auto simp: sp_read_def sp_valid_def sp_str_def Let_def nat_int_add)

lemma sp_window_valid:
  "sp_valid p \<Longrightarrow> i + n \<le> sp_len p \<Longrightarrow> sp_valid (sp_window p i n)"
  by (simp add: sp_valid_def sp_window_def)

lemma sp_window_str:
  "i + n \<le> sp_len p \<Longrightarrow> sp_str (sp_window p i n) = take n (drop i (sp_str p))"
  by (simp add: sp_str_def sp_window_def take_drop add.commute min_def)

lemma sp_as_string_valid:
  "sp_valid p \<Longrightarrow> sp_len p < 2 ^ 63 \<Longrightarrow> sp_as_string p = Inr (sp_str p)"
  by (simp add: sp_as_string_def sp_valid_def sp_str_def)

lemma memcmp_take:
  "n \<le> length xs \<Longrightarrow> n \<le> length ys \<Longrightarrow> memcmp xs ys n = memcmp (take n xs) (take n ys) n"
  by (induction xs ys n rule: memcmp.induct) auto

lemma memcmp_0_iff:
  "n \<le> length xs \<Longrightarrow> n \<le> length ys \<Longrightarrow> memcmp xs ys n = 0 \<longleftrightarrow> take n xs = take n ys"
  by (induction xs ys n rule: memcmp.induct) auto

lemma memcmp_less:
  "n = min (length xs) (length ys) \<Longrightarrow>
   (memcmp xs ys n < 0 \<or> memcmp xs ys n = 0 \<and> length xs < length ys) \<longleftrightarrow> xs < ys"
  by (induction xs ys n rule: memcmp.induct) (auto simp: min_def split: if_splits)

lemma memcmp_sign: "memcmp xs ys n \<in> {-1, 0, 1}"
  by (induction xs ys n rule: memcmp.induct) auto

lemma memcmp_swap: "memcmp xs ys n = - memcmp ys xs n"
  by (induction xs ys n rule: memcmp.induct) auto

lemma sp_cmp_prefix_str:
  "sp_valid p \<Longrightarrow> sp_valid q \<Longrightarrow>
   sp_cmp_prefix p q = memcmp (sp_str p) (sp_str q) (min (sp_len p) (sp_len q))"
proof -
  assume "sp_valid p" "sp_valid q"
  then have "memcmp (sp_ptr p) (sp_ptr q) (min (sp_len p) (sp_len q)) =
      memcmp (take (sp_len p) (sp_ptr p)) (take (sp_len q) (sp_ptr q)) (min (sp_len p) (sp_len q))"
    by (subst (1 2) memcmp_take) (auto simp: sp_valid_def min_def)
  moreover have "(if sp_len p < sp_len q then sp_len p else sp_len q) = min (sp_len p) (sp_len q)"
    by simp
  ultimately show ?thesis
    by (simp only: sp_cmp_prefix_def sp_str_def)
qed

lemma sp_eq_str [piece_simps]: "sp_valid p \<Longrightarrow> sp_valid q \<Longrightarrow> sp_eq p q \<longleftrightarrow> sp_str p = sp_str q"
proof -
  assume v: "sp_valid p" "sp_valid q"
  have "sp_str p = sp_str q \<Longrightarrow> sp_len p = sp_len q"
    using v length_sp_str by metis
  then show ?thesis
    using v memcmp_0_iff [of "sp_len q" "sp_ptr p" "sp_ptr q"]
    by (auto simp: sp_eq_def sp_str_def sp_valid_def)
qed

lemma sp_lt_str [piece_simps]: "sp_valid p \<Longrightarrow> sp_valid q \<Longrightarrow> sp_lt p q \<longleftrightarrow> sp_str p < sp_str q"
  using memcmp_less [of _ "sp_str p" "sp_str q"]
  by (simp add: sp_lt_def Let_def sp_cmp_prefix_str)

lemma sp_gt_str [piece_simps]: "sp_valid p \<Longrightarrow> sp_valid q \<Longrightarrow> sp_gt p q \<longleftrightarrow> sp_str q < sp_str p"
  using memcmp_less [of _ "sp_str q" "sp_str p"] memcmp_swap [of "sp_str p" "sp_str q"]
  by (auto simp: sp_gt_def Let_def sp_cmp_prefix_str min.commute)

lemma sp_le_str [piece_simps]: "sp_valid p \<Longrightarrow> sp_valid q \<Longrightarrow> sp_le p q \<longleftrightarrow> sp_str p \<le> sp_str q"
proof -
  assume v: "sp_valid p" "sp_valid q"
  have "sp_le p q \<longleftrightarrow> \<not> sp_gt p q"
    by (auto simp: sp_le_def sp_gt_def Let_def)
  then show ?thesis using v by (simp add: sp_gt_str not_less)
qed

lemma sp_ge_str [piece_simps]: "sp_valid p \<Longrightarrow> sp_valid q \<Longrightarrow> sp_ge p q \<longleftrightarrow> sp_str q \<le> sp_str p"
proof -
  assume v: "sp_valid p" "sp_valid q"
  have "sp_ge p q \<longleftrightarrow> \<not> sp_lt p q"
    by (auto simp: sp_ge_def sp_lt_def Let_def)
  then show ?thesis using v by (simp add: sp_lt_str not_less)
qed

lemma sp_starts_with_str [piece_simps]:
  "sp_valid p \<Longrightarrow> sp_valid q \<Longrightarrow>
   sp_starts_with p q \<longleftrightarrow> take (length (sp_str q)) (sp_str p) = sp_str q"
proof -
  assume v: "sp_valid p" "sp_valid q"
  show ?thesis
  proof (cases "sp_len q \<le> sp_len p")
    case True
    then have "memcmp (sp_ptr p) (sp_ptr q) (sp_len q) = 0 \<longleftrightarrow> take (sp_len q) (sp_ptr p) = sp_str q"
      using v memcmp_0_iff [of "sp_len q" "sp_ptr p" "sp_ptr q"]
      by (simp add: sp_valid_def sp_str_def)
    moreover have "take (sp_len q) (sp_ptr p) = take (sp_len q) (sp_str p)"
      using True by (simp add: sp_str_def min_def)
    ultimately show ?thesis using True v by (simp add: sp_starts_with_def)
  next
    case False
    then have "length (take (length (sp_str q)) (sp_str p)) \<noteq> length (sp_str q)"
      using v by simp
    then show ?thesis using False by (auto simp: sp_starts_with_def)
  qed
qed

text \<open>
  The ordering of pieces is the ordering of their contents: the six comparison operators
  generated by the macro, \<^verbatim>\<open>compare\<close> and \<^verbatim>\<open>operator==\<close> agree with one total order on the
  contents, whatever buffers the pieces point into.
\<close>

theorem piece_order_is_content_order:
  assumes "sp_valid p" and "sp_valid q"
  shows "(sp_eq p q \<longleftrightarrow> sp_str p = sp_str q) \<and> (sp_lt p q \<longleftrightarrow> sp_str p < sp_str q) \<and>
    (sp_le p q \<longleftrightarrow> sp_str p \<le> sp_str q) \<and> (sp_gt p q \<longleftrightarrow> sp_str p > sp_str q) \<and>
    (sp_ge p q \<longleftrightarrow> sp_str p \<ge> sp_str q) \<and>
    sp_compare p q = (if sp_str p = sp_str q then 0 else if sp_str p < sp_str q then -1 else 1)"
proof -
  have "sp_compare p q = (if sp_ge p q \<and> sp_le p q then 0 else if sp_lt p q then -1 else 1)"
    using memcmp_sign [of "sp_ptr p" "sp_ptr q" "if sp_len p < sp_len q then sp_len p else sp_len q"]
    by (auto simp: sp_compare_def sp_lt_def sp_le_def sp_ge_def sp_cmp_prefix_def Let_def
        simp del: if_split split: if_split)
  then show ?thesis using assms by (auto simp: piece_simps)
qed

theorem piece_order_is_content_order_witness:
  "sp_lt (sp_window (sp_of_str ''/b/ab'') 3 1) (sp_of_str ''b'') \<and>
   sp_compare (sp_window (sp_of_str ''/b/ab'') 1 1) (sp_of_str ''b'') = 0"
proof -
  have v: "sp_valid (sp_window (sp_of_str ''/b/ab'') 3 1)"
      "sp_valid (sp_window (sp_of_str ''/b/ab'') 1 1)" "sp_valid (sp_of_str ''b'')"
    by (simp_all add: sp_valid_def sp_window_def sp_of_str_def)
  show ?thesis
    using piece_order_is_content_order [OF v(1) v(3)] piece_order_is_content_order [OF v(2) v(3)]
    by (simp add: sp_str_def sp_window_def sp_of_str_def)
qed

end
