(* ===== verification/Verb_Handler.thy ===== *)
theory Verb_Handler
  imports String_Piece
begin

text \<open>
  \<^verbatim>\<open>src/core/VerbHandler.h\<close>: the HTTP methods a route can have and the record of what is
  registered for a route. The wrapped handler is a type variable \<open>'h\<close>: the router stores,
  looks up and returns handlers without looking inside them. The queue id is \<open>None\<close> until
  \<^verbatim>\<open>Router::handle\<close> writes it (the C++ member is not initialised).
\<close>

datatype verb = ANY | GET | POST | PUT | DELETE | HEAD | PATCH

text \<open>The order of the enumeration, which is the order of \<^verbatim>\<open>std::map<Verb, ...>\<close>.\<close>

fun verb_num :: "verb \<Rightarrow> nat" where
  "verb_num ANY = 0"
| "verb_num GET = 1"
| "verb_num POST = 2"
| "verb_num PUT = 3"
| "verb_num DELETE = 4"
| "verb_num HEAD = 5"
| "verb_num PATCH = 6"

lemma verb_num_inj: "verb_num v = verb_num w \<Longrightarrow> v = w"
  by (cases v; cases w) simp_all

instantiation verb :: linorder
begin

definition less_eq_verb :: "verb \<Rightarrow> verb \<Rightarrow> bool" where
  "less_eq_verb v w \<longleftrightarrow> verb_num v \<le> verb_num w"

definition less_verb :: "verb \<Rightarrow> verb \<Rightarrow> bool" where
  "less_verb v w \<longleftrightarrow> verb_num v < verb_num w"

instance
  by standard (auto simp: less_eq_verb_def less_verb_def intro: verb_num_inj)

end

abbreviation verb_lt :: "verb \<Rightarrow> verb \<Rightarrow> bool" where
  "verb_lt v w \<equiv> v < w"

interpretation verb_map: std_map verb_lt
  by unfold_locales auto

lemma verb_same [simp]: "verb_map.same v w \<longleftrightarrow> v = w"
  by (auto simp: verb_map.same_def)

definition str_to_verb :: "string \<Rightarrow> verb" where
  "str_to_verb s =
     (if strcasecmp_eq s ''GET'' then GET
      else if strcasecmp_eq s ''PUT'' then PUT
      else if strcasecmp_eq s ''POST'' then POST
      else if strcasecmp_eq s ''DELETE'' then DELETE
      else if strcasecmp_eq s ''HEAD'' then HEAD
      else if strcasecmp_eq s ''PATCH'' then PATCH
      else ANY)"

fun verb_to_str :: "verb \<Rightarrow> string" where
  "verb_to_str ANY = ''ANY''"
| "verb_to_str GET = ''GET''"
| "verb_to_str POST = ''POST''"
| "verb_to_str PUT = ''PUT''"
| "verb_to_str DELETE = ''DELETE''"
| "verb_to_str HEAD = ''HEAD''"
| "verb_to_str PATCH = ''PATCH''"

record 'h verb_handler =
  verb_handler_map :: "(verb, 'h) smap"
  vh_path :: string
  compute_queue_id :: "int option"

definition empty_vh :: "'h verb_handler" where
  "empty_vh = \<lparr>verb_handler_map = [], vh_path = [], compute_queue_id = None\<rparr>"

lemma empty_vh_map [simp]: "verb_handler_map empty_vh = []"
  by (simp add: empty_vh_def)

lemma strcasecmp_tolower: "strcasecmp_eq (map tolower s) t \<longleftrightarrow> strcasecmp_eq s t"
proof -
  have t: "tolower (tolower c) = tolower c" "(tolower c = NUL) = (c = NUL)" for c
    by (auto simp: tolower_def char_of_eq_iff take_bit_eq_mod)
  have "fold_case (map tolower s) = fold_case s"
    by (simp add: fold_case_def c_str_def takeWhile_map comp_def t)
  then show ?thesis by (simp add: strcasecmp_eq_def)
qed

text \<open>
  Reading back the printed method gives the method, and reading a method ignores case.
\<close>

theorem verb_roundtrip:
  "str_to_verb (verb_to_str v) = v \<and> str_to_verb (map tolower s) = str_to_verb s"
proof
  show "str_to_verb (verb_to_str v) = v"
    by (cases v) (simp_all add: str_to_verb_def strcasecmp_eq_def fold_case_def tolower_def)
  show "str_to_verb (map tolower s) = str_to_verb s"
    by (simp add: str_to_verb_def strcasecmp_tolower)
qed

end
