(* ===== verification/Route_Table.thy ===== *)
theory Route_Table
  imports Verb_Handler "HOL-Library.Sublist"
begin

text \<open>
  \<^verbatim>\<open>src/core/RouteTable.h\<close> and \<^verbatim>\<open>RouteTable.cc\<close>: the tree of path segments behind
  the router. A node keeps what is registered for it and its children in the order of
  \<^verbatim>\<open>std::map<StringPiece, RouteTableNode *>\<close>; since the order of pieces is the order of
  their contents, the keys are strings. \<^verbatim>\<open>find_or_create\<close> returns a C++ reference: the model
  returns the tree and the path of child keys that leads to the referenced record, or
  \<open>None\<close> when the record belongs to a node that was never linked into the tree.
  \<^verbatim>\<open>find\<close> threads its two output arguments through the calls, and gives the record of the
  node found, or \<open>None\<close> for the end iterator.
\<close>

section \<open>The tree\<close>

datatype 'h node = Node (node_vh: "'h verb_handler") (node_children: "(string \<times> 'h node) list")

definition empty_node :: "'h node" where
  "empty_node = Node empty_vh []"

abbreviation child_get :: "(string \<times> 'h node) list \<Rightarrow> string \<Rightarrow> 'h node option" where
  "child_get ch k \<equiv> smap_get str_lt ch k"

abbreviation child_insert where
  "child_insert k n ch \<equiv> smap_insert str_lt k n ch"

abbreviation child_assign where
  "child_assign k n ch \<equiv> smap_assign str_lt k n ch"

text \<open>Where the scan \<^verbatim>\<open>while (cursor < route.size () and route[cursor] != '/') cursor++\<close> ends.\<close>

definition seg_end :: "string \<Rightarrow> nat \<Rightarrow> nat" where
  "seg_end route cursor = cursor + length (takeWhile (\<lambda>c. c \<noteq> CHR ''/'') (drop cursor route))"

section \<open>Registration\<close>

lemma seg_end_ge: "cursor \<le> seg_end route cursor"
  by (simp add: seg_end_def)

lemma seg_end_gt: "cursor < length route \<Longrightarrow> route ! cursor \<noteq> CHR ''/'' \<Longrightarrow> cursor < seg_end route cursor"
  by (cases "drop cursor route") (auto simp: seg_end_def nth_via_drop)

lemma seg_end_Suc: "cursor < seg_end route (Suc cursor)"
  using seg_end_ge [of "Suc cursor" route] by simp

function find_or_create :: "'h node \<Rightarrow> string \<Rightarrow> nat \<Rightarrow> 'h node \<times> string list option" where
  "find_or_create (Node vh ch) route cursor =
     (if length route \<le> cursor then (Node vh ch, Some [])
      else if cursor = 0 \<and> route = ''/'' then
        (let (new_node, loc) = find_or_create empty_node route (cursor + 1) in
         (case child_get ch route of
            None \<Rightarrow> (Node vh (child_insert route new_node ch), map_option (Cons route) loc)
          | Some _ \<Rightarrow> (Node vh ch, None)))
      else if cursor = length route - 1 \<and> route ! cursor = CHR ''/'' then (Node vh ch, Some [])
      else
        (let anchor = (if route ! cursor = CHR ''/'' then cursor + 1 else cursor);
             stop = seg_end route anchor;
             mid = take (stop - anchor) (drop anchor route) in
         (case child_get ch mid of
            Some child \<Rightarrow>
              (let (child', loc) = find_or_create child route stop in
               (Node vh (child_assign mid child' ch), map_option (Cons mid) loc))
          | None \<Rightarrow>
              (let (new_node, loc) = find_or_create empty_node route stop in
               (Node vh (child_insert mid new_node ch), map_option (Cons mid) loc)))))"
  by pat_completeness auto

termination
  by (relation "measure (\<lambda>(_, route, cursor). length route - cursor)")
    (auto simp: not_le seg_end_Suc intro!: diff_less_mono2 seg_end_gt)

text \<open>
  \<^verbatim>\<open>RouteTable::find_or_create\<close>. The set \<^verbatim>\<open>string_pieces_\<close> makes the tree keep pieces of
  the first string registered; an equal piece has the same content, so the tree depends on the
  content alone.
\<close>

definition table_find_or_create :: "'h node \<Rightarrow> string \<Rightarrow> 'h node \<times> string list option" where
  "table_find_or_create root route = find_or_create root (sp_str (sp_of_cstr route)) 0"

text \<open>Reading and writing the record a reference stands for.\<close>

fun vh_at :: "'h node \<Rightarrow> string list \<Rightarrow> 'h verb_handler option" where
  "vh_at n [] = Some (node_vh n)"
| "vh_at n (k # ks) = (case child_get (node_children n) k of None \<Rightarrow> None | Some c \<Rightarrow> vh_at c ks)"

fun vh_set :: "'h node \<Rightarrow> string list \<Rightarrow> 'h verb_handler \<Rightarrow> 'h node" where
  "vh_set (Node vh ch) [] vh' = Node vh' ch"
| "vh_set (Node vh ch) (k # ks) vh' =
     (case child_get ch k of
        None \<Rightarrow> Node vh ch
      | Some c \<Rightarrow> Node vh (child_assign k (vh_set c ks vh') ch))"

section \<open>Lookup\<close>

text \<open>
  The loop over the children: the first key that ends in a star and whose stem begins the
  segment, or the first key in braces, decides. \<open>param_name\<close> is the trimming of the key in
  braces; a key with nothing but blanks in its braces makes \<^verbatim>\<open>shrink\<close> wrap the length around.
\<close>

definition param_name :: "string \<Rightarrow> cpp_error + string" where
  "param_name param =
     (let size = length param;
          i = 1 + length (takeWhile (\<lambda>c. c = CHR '' '') (drop 1 param));
          j = size - 2 - length (takeWhile (\<lambda>c. c = CHR '' '') (rev (take (size - 1) param))) in
      sp_as_string (sp_shrink (sp_of_str param) i (size - 1 - j)))"

datatype 'n choice =
    NoChoice
  | Wildcard 'n
  | Param string 'n
  | BadParam cpp_error

definition is_wildcard :: "string \<Rightarrow> bool" where
  "is_wildcard param \<longleftrightarrow> param \<noteq> [] \<and> last param = CHR ''*''"

definition is_param :: "string \<Rightarrow> bool" where
  "is_param param \<longleftrightarrow> 2 < length param \<and> param ! 0 = CHR ''{'' \<and> last param = CHR ''}''"

fun pick_child :: "string \<Rightarrow> (string \<times> 'n) list \<Rightarrow> 'n choice" where
  "pick_child mid [] = NoChoice"
| "pick_child mid ((param, child) # kvs) =
     (if is_wildcard param \<and> take (length param - 1) mid = butlast param then Wildcard child
      else if is_param param then
        (case param_name param of Inl e \<Rightarrow> BadParam e | Inr name \<Rightarrow> Param name child)
      else pick_child mid kvs)"

lemma pick_child_in:
  "pick_child mid kvs = Wildcard n \<Longrightarrow> n \<in> snd ` set kvs"
  "pick_child mid kvs = Param name n \<Longrightarrow> n \<in> snd ` set kvs"
  by (induction kvs) (auto split: if_splits sum.splits)

lemma child_size: "n \<in> snd ` set ch \<Longrightarrow> size n < size (Node vh ch)"
  by (induction ch) (auto simp: less_Suc_eq_le intro: le_SucI trans_le_add2)

lemma child_get_size: "child_get ch k = Some n \<Longrightarrow> size n < size (Node vh ch)"
  using smap_get_in [of str_lt ch k n] child_size [of n ch vh] by force

type_synonym ('v) found = "cpp_error + 'v option \<times> (string, string) smap \<times> string"

lemma node_measure: "size n < size m \<Longrightarrow> Suc (Suc (3 * size n)) < 3 * size m"
    "size n < size m \<Longrightarrow> Suc (3 * size n) < 3 * size m" "size n < size m \<Longrightarrow> Suc (3 * size n) < Suc (3 * size m)"
    "size n < size m \<Longrightarrow> Suc (Suc (3 * size n)) < Suc (3 * size m)" for n m :: "'h node"
  by simp_all

text \<open>
  The body of \<^verbatim>\<open>RouteTableNode::find\<close> in three parts: the tests before the segment is cut
  out (\<open>find_route\<close>), the segment and the child of that name (\<open>walk\<close>), the loop over the
  wildcard and parameter children (\<open>match_pattern\<close>).
\<close>

function
  find_route :: "'h node \<Rightarrow> string_piece \<Rightarrow> nat \<Rightarrow> (string, string) smap \<Rightarrow> string \<Rightarrow>
    'h verb_handler found" and
  walk :: "'h node \<Rightarrow> string_piece \<Rightarrow> nat \<Rightarrow> (string, string) smap \<Rightarrow> string \<Rightarrow>
    'h verb_handler found" and
  match_pattern :: "'h node \<Rightarrow> string \<Rightarrow> string_piece \<Rightarrow> nat \<Rightarrow> (string, string) smap \<Rightarrow> string \<Rightarrow>
    'h verb_handler found"
where
  "find_route (Node vh ch) route cursor params match_path =
     (if (cursor = sp_len route \<and> verb_handler_map vh \<noteq> []) \<or> ch = [] then
        Inr (Some vh, params, match_path)
      else if cursor = sp_len route \<and> child_get ch ''*'' \<noteq> None then
        Inr (Some (node_vh (the (child_get ch ''*''))), params, match_path)
      else if cursor = sp_len route \<and> verb_handler_map vh = [] then
        Inr (None, params, match_path)
      else if cursor = 0 \<and> sp_str route = ''/'' then
        (case child_get ch (sp_str route) of
           None \<Rightarrow> walk (Node vh ch) route cursor params match_path
         | Some child \<Rightarrow>
            (case find_route child route (cursor + 1) params match_path of
               Inl e \<Rightarrow> Inl e
             | Inr (Some vh', params', match_path') \<Rightarrow> Inr (Some vh', params', match_path')
             | Inr (None, params', match_path') \<Rightarrow> walk (Node vh ch) route (cursor + 1) params' match_path'))
      else walk (Node vh ch) route cursor params match_path)"
| "walk (Node vh ch) route cursor params match_path =
     (case sp_read route (int cursor) of
        Inl e \<Rightarrow> Inl e
      | Inr c \<Rightarrow>
         (let anchor = (if c = CHR ''/'' then cursor + 1 else cursor);
              stop = (if anchor < sp_len route then seg_end (sp_str route) anchor else anchor);
              mid = sp_str (sp_window route anchor (stop - anchor)) in
          (case child_get ch mid of
             None \<Rightarrow> match_pattern (Node vh ch) mid route stop params match_path
           | Some child \<Rightarrow>
              (case find_route child route stop params match_path of
                 Inl e \<Rightarrow> Inl e
               | Inr (Some vh', params', match_path') \<Rightarrow> Inr (Some vh', params', match_path')
               | Inr (None, params', match_path') \<Rightarrow>
                   match_pattern (Node vh ch) mid route stop params' match_path'))))"
| "match_pattern (Node vh ch) mid route stop params match_path =
     (case pick_child mid ch of
        NoChoice \<Rightarrow> Inr (None, params, match_path)
      | BadParam e \<Rightarrow> Inl e
      | Wildcard child \<Rightarrow>
          Inr (Some (node_vh child), params, mid @ c_str (drop (sp_off route + stop) (sp_buf route)))
      | Param name child \<Rightarrow>
          find_route child route stop (smap_assign str_lt name mid params) match_path)"
  by pat_completeness auto

termination
proof (relation "measure (\<lambda>a. case a of
      Inl (n, _) \<Rightarrow> 3 * size n + 2
    | Inr (Inl (n, _)) \<Rightarrow> 3 * size n + 1
    | Inr (Inr (n, _)) \<Rightarrow> 3 * size n)")
qed (auto simp del: node.size dest!: pick_child_in intro: node_measure
    child_get_size child_size)

section \<open>The path of a route\<close>

text \<open>
  The specification works on the path of a route, the list of child keys from the root. A tree
  extended by a path has an empty record at every prefix of the path it had no node for.
\<close>

lemma length_dropWhile_less: "s \<noteq> [] \<Longrightarrow> P (hd s) \<Longrightarrow> length (dropWhile P s) < length s"
  by (cases s) (auto simp: less_Suc_eq_le length_dropWhile_le)

function segs :: "string \<Rightarrow> string list" where
  "segs s =
     (if s = [] \<or> s = ''/'' then []
      else (let t = (if hd s = CHR ''/'' then tl s else s) in
            takeWhile (\<lambda>c. c \<noteq> CHR ''/'') t # segs (dropWhile (\<lambda>c. c \<noteq> CHR ''/'') t)))"
  by pat_completeness auto

termination
proof (relation "measure length")
  fix s t
  assume "\<not> (s = [] \<or> s = ''/'')" and "t = (if hd s = CHR ''/'' then tl s else s)"
  then show "(dropWhile (\<lambda>c. c \<noteq> CHR ''/'') t, s) \<in> measure length"
    using length_dropWhile_less [of s "\<lambda>c. c \<noteq> CHR ''/''"]
      length_dropWhile_le [of "\<lambda>c. c \<noteq> CHR ''/''" "tl s"]
    by (cases s) (auto simp: less_Suc_eq_le)
qed simp

declare segs.simps [simp del] find_or_create.simps [simp del]

definition anchor_of :: "string \<Rightarrow> nat \<Rightarrow> nat" where
  "anchor_of route cursor = (if route ! cursor = CHR ''/'' then cursor + 1 else cursor)"

lemma segment_cut:
  "take (seg_end route a - a) (drop a route) = takeWhile (\<lambda>c. c \<noteq> CHR ''/'') (drop a route)"
  "drop (seg_end route a) route = dropWhile (\<lambda>c. c \<noteq> CHR ''/'') (drop a route)"
  by (simp_all add: seg_end_def takeWhile_eq_take [symmetric] dropWhile_eq_drop add.commute)

lemma segs_cut:
  assumes "cursor < length route" and "drop cursor route \<noteq> ''/''"
  shows "segs (drop cursor route) =
    take (seg_end route (anchor_of route cursor) - anchor_of route cursor) (drop (anchor_of route cursor) route)
      # segs (drop (seg_end route (anchor_of route cursor)) route)"
proof -
  have c: "drop cursor route = route ! cursor # drop (Suc cursor) route"
    using assms(1) by (simp add: Cons_nth_drop_Suc)
  then have a: "drop (anchor_of route cursor) route =
      (if hd (drop cursor route) = CHR ''/'' then tl (drop cursor route) else drop cursor route)"
    by (simp add: anchor_of_def)
  have r: "segs s = (let t = (if hd s = CHR ''/'' then tl s else s) in
      takeWhile (\<lambda>c. c \<noteq> CHR ''/'') t # segs (dropWhile (\<lambda>c. c \<noteq> CHR ''/'') t))"
    if "s \<noteq> []" "s \<noteq> ''/''" for s
    using that by (subst segs.simps) (simp only: simp_thms if_False)
  show ?thesis
    by (subst segment_cut)+ (use assms r [of "drop cursor route"] a in \<open>simp only: Let_def drop_eq_Nil not_le simp_thms\<close>)
qed

lemma last_slash:
  "cursor < length route \<Longrightarrow> drop cursor route = ''/'' \<longleftrightarrow> cursor = length route - 1 \<and> route ! cursor = CHR ''/''"
proof -
  assume c: "cursor < length route"
  then have e: "drop cursor route = route ! cursor # drop (Suc cursor) route"
    by (simp add: Cons_nth_drop_Suc)
  show ?thesis unfolding e using c by auto
qed

fun add_path :: "'h node \<Rightarrow> string list \<Rightarrow> 'h node" where
  "add_path n [] = n"
| "add_path (Node vh ch) (k # ks) =
     (case child_get ch k of
        Some c \<Rightarrow> Node vh (child_assign k (add_path c ks) ch)
      | None \<Rightarrow> Node vh (child_insert k (add_path empty_node ks) ch))"

lemma find_or_create_add_path:
  "cursor > 0 \<or> route \<noteq> ''/'' \<Longrightarrow>
   find_or_create n route cursor = (add_path n (segs (drop cursor route)), Some (segs (drop cursor route)))"
proof (induction n route cursor rule: find_or_create.induct)
  case (1 vh ch route cursor)
  define a where "a = anchor_of route cursor"
  define stop where "stop = seg_end route a"
  define mid where "mid = take (stop - a) (drop a route)"
  consider "length route \<le> cursor" | "cursor < length route" "drop cursor route = ''/''"
    | "cursor < length route" "drop cursor route \<noteq> ''/''" by linarith
  then show ?case
  proof cases
    case 1
    then show ?thesis by (simp add: find_or_create.simps segs.simps)
  next
    case 2
    then show ?thesis
      using "1.prems" last_slash [of cursor route]
      by (subst find_or_create.simps) (auto simp: segs.simps [of "''/''"])
  next
    case 3
    have m: "segs (drop cursor route) = mid # segs (drop stop route)"
      using segs_cut [OF 3] by (simp add: a_def stop_def mid_def)
    have p: "stop > 0"
      using seg_end_Suc [of cursor route] seg_end_gt [of cursor route] 3
      by (auto simp: stop_def a_def anchor_of_def)
    have n: "\<not> length route \<le> cursor" "\<not> (cursor = 0 \<and> route = ''/'')"
      "\<not> (cursor = length route - 1 \<and> route ! cursor = CHR ''/'')"
      using 3 "1.prems" last_slash [of cursor route] by auto
    have step: "find_or_create (Node vh ch) route cursor =
        (case child_get ch mid of
            Some child \<Rightarrow>
              (let (child', loc) = find_or_create child route stop in
               (Node vh (child_assign mid child' ch), map_option (Cons mid) loc))
          | None \<Rightarrow>
              (let (new_node, loc) = find_or_create empty_node route stop in
               (Node vh (child_insert mid new_node ch), map_option (Cons mid) loc)))"
      by (subst find_or_create.simps)
        (simp only: n if_False Let_def a_def anchor_of_def stop_def mid_def)
    have a: "a = (if route ! cursor = CHR ''/'' then cursor + 1 else cursor)"
      by (simp add: a_def anchor_of_def)
    show ?thesis
    proof (cases "child_get ch mid")
      case None
      show ?thesis
        using "1.IH"(2) [OF n a stop_def mid_def None] p by (simp add: step None m)
    next
      case (Some c)
      show ?thesis
        using "1.IH"(3) [OF n a stop_def mid_def Some] p by (simp add: step Some m)
    qed
  qed
qed

section \<open>What registration does to the records\<close>

lemma add_path_Cons:
  "add_path n (k # ks) =
     Node (node_vh n) (child_assign k (add_path (case child_get (node_children n) k of None \<Rightarrow> empty_node | Some c \<Rightarrow> c) ks)
       (node_children n))"
  by (cases n) (simp add: str_map.insert_absent split: option.split)

lemma vh_at_empty [simp]: "vh_at empty_node q = (if q = [] then Some empty_vh else None)"
  by (cases q) (simp_all add: empty_node_def)

lemma vh_at_add_path:
  "vh_at (add_path n p) q =
     (case vh_at n q of Some vh \<Rightarrow> Some vh | None \<Rightarrow> if prefix q p then Some empty_vh else None)"
proof (induction p arbitrary: n q)
  case Nil
  then show ?case by (cases q) (auto split: option.split)
next
  case (Cons k p)
  show ?case
  proof (cases q)
    case (Cons x q')
    then show ?thesis
      by (auto simp: add_path_Cons str_map_get Cons.IH simp del: add_path.simps split: option.splits)
  qed (simp add: add_path_Cons del: add_path.simps)
qed

lemma vh_at_set:
  "vh_at n p \<noteq> None \<Longrightarrow> vh_at (vh_set n p vh) q = (if q = p then Some vh else vh_at n q)"
proof (induction n p vh arbitrary: q rule: vh_set.induct)
  case (1 vh ch vh')
  then show ?case by (cases q) simp_all
next
  case (2 vh ch k ks vh')
  then show ?case by (cases q) (auto simp: str_map_get split: option.splits)
qed

lemma child_assign_same: "child_get ch k = Some c \<Longrightarrow> child_assign k c ch = ch"
  by (induction ch) (auto split: if_splits)

lemma add_path_present: "vh_at n p \<noteq> None \<Longrightarrow> add_path n p = n"
  by (induction n p rule: add_path.induct) (auto simp: child_assign_same split: option.splits)

lemma vh_set_same: "vh_at n p = Some vh \<Longrightarrow> vh_set n p vh = n"
  by (induction n p vh rule: vh_set.induct) (auto simp: child_assign_same split: option.splits)

text \<open>The invariant of a tree: every map in it is in its order, so no key occurs twice.\<close>

fun wf_node :: "'h node \<Rightarrow> bool" where
  "wf_node (Node vh ch) \<longleftrightarrow>
     sorted_wrt verb_lt (keys (verb_handler_map vh)) \<and> sorted_wrt str_lt (keys ch) \<and>
     (\<forall>kc \<in> set ch. wf_node (snd kc))"

lemma wf_empty_node [simp, wf_intros]: "wf_node empty_node"
  by (simp add: empty_node_def)

lemma wf_child_get: "wf_node (Node vh ch) \<Longrightarrow> child_get ch k = Some c \<Longrightarrow> wf_node c"
  using smap_get_in [of str_lt ch k c] by fastforce

lemma smap_assign_set: "set (smap_assign lt k v m) \<subseteq> set m \<union> (UNIV \<times> {v})"
  by (induction m) (auto split: if_splits)

lemma wf_child_assign:
  "wf_node (Node vh ch) \<Longrightarrow> wf_node c \<Longrightarrow> wf_node (Node vh (child_assign k c ch))"
  using smap_assign_set [of str_lt k c ch] by (fastforce intro: str_map.assign_sorted)

lemma wf_add_path [wf_intros]: "wf_node n \<Longrightarrow> wf_node (add_path n p)"
proof (induction p arbitrary: n)
  case (Cons k p)
  obtain vh ch where n: "n = Node vh ch" by (cases n)
  show ?case
    using Cons wf_child_get [of vh ch k]
    by (simp only: add_path_Cons n node.sel)
      (auto intro!: wf_child_assign simp del: wf_node.simps split: option.split)
qed simp

lemma wf_vh_set [wf_intros]:
  "wf_node n \<Longrightarrow> sorted_wrt verb_lt (keys (verb_handler_map vh)) \<Longrightarrow> wf_node (vh_set n p vh)"
proof (induction n p vh rule: vh_set.induct)
  case (2 vh ch k ks vh')
  then show ?case
    using wf_child_get [of vh ch k]
    by (auto intro!: wf_child_assign simp del: wf_node.simps split: option.split)
qed simp

lemma wf_vh_at: "wf_node n \<Longrightarrow> vh_at n p = Some vh \<Longrightarrow> sorted_wrt verb_lt (keys (verb_handler_map vh))"
proof (induction n p rule: vh_at.induct)
  case (1 n)
  then show ?case by (cases n) auto
next
  case (2 n k ks)
  then show ?case
    using wf_child_get [of "node_vh n" "node_children n" k] by (cases n) (auto split: option.splits)
qed

lemma find_or_create_root:
  "find_or_create n ''/'' 0 =
     (if child_get (node_children n) ''/'' = None then (add_path n [''/''], Some [''/'']) else (n, None))"
proof (cases n)
  case (Node vh ch)
  show ?thesis
    unfolding Node
    by (subst find_or_create.simps)
      (auto simp: find_or_create.simps empty_node_def split: option.split)
qed

definition route_path :: "string \<Rightarrow> string list" where
  "route_path route = (if route = ''/'' then [''/''] else segs route)"

lemma find_or_create_path:
  "find_or_create n route 0 =
     (if route = ''/'' \<and> vh_at n [''/''] \<noteq> None then (n, None)
      else (add_path n (route_path route), Some (route_path route)))"
  by (auto simp: find_or_create_root find_or_create_add_path route_path_def split: option.splits)

text \<open>
  Registering a route creates exactly the nodes of its path: afterwards every record that
  existed is unchanged, the prefixes of the path that had no node have an empty record, nothing
  else exists, and the reference returned is the record at the path. The one exception is the
  route that is a single slash, when it is registered again: the new node is not linked and the
  tree stays as it is.
\<close>

theorem find_or_create_adds_path:
  "find_or_create n route 0 = (n', loc) \<Longrightarrow>
   (if route = ''/'' \<and> vh_at n [''/''] \<noteq> None then loc = None \<and> n' = n
    else loc = Some (route_path route) \<and>
      (\<forall>q. vh_at n' q =
         (case vh_at n q of
            Some vh \<Rightarrow> Some vh
          | None \<Rightarrow> if prefix q (route_path route) then Some empty_vh else None)))"
  by (auto simp: find_or_create_path vh_at_add_path split: if_splits)

text \<open>An application: \<^verbatim>\<open>/a/b\<close> registered in an empty table.\<close>

theorem find_or_create_adds_path_witness:
  "snd (find_or_create (empty_node :: nat node) ''/a/b'' 0) = Some [''a'', ''b''] \<and>
   vh_at (fst (find_or_create (empty_node :: nat node) ''/a/b'' 0)) [''a''] = Some empty_vh \<and>
   vh_at (fst (find_or_create (empty_node :: nat node) ''/a/b'' 0)) [''b''] = None"
proof -
  have p: "route_path ''/a/b'' = [''a'', ''b'']" by (simp add: route_path_def segs.simps)
  show ?thesis
    using find_or_create_adds_path [of "empty_node :: nat node" "''/a/b''", OF surjective_pairing]
    by (simp add: p del: vh_at.simps)
qed

section \<open>What lookup finds\<close>

declare find_route.simps [simp del] walk.simps [simp del] match_pattern.simps [simp del]

definition cut_stop :: "string_piece \<Rightarrow> nat \<Rightarrow> nat" where
  "cut_stop r cursor = seg_end (sp_str r) (anchor_of (sp_str r) cursor)"

definition cut_mid :: "string_piece \<Rightarrow> nat \<Rightarrow> string" where
  "cut_mid r cursor =
     take (cut_stop r cursor - anchor_of (sp_str r) cursor) (drop (anchor_of (sp_str r) cursor) (sp_str r))"

lemma cut_anchor:
  assumes "sp_valid r" and "cursor < sp_len r" and "drop cursor (sp_str r) \<noteq> ''/''"
  shows "anchor_of (sp_str r) cursor < sp_len r"
proof -
  have "sp_str r ! cursor = CHR ''/'' \<Longrightarrow> cursor \<noteq> sp_len r - 1"
    using assms last_slash [of cursor "sp_str r"] by simp
  then show ?thesis
    using assms(2) by (cases "sp_str r ! cursor = CHR ''/''") (auto simp: anchor_of_def)
qed

lemma cut_segs:
  assumes "sp_valid r" and "cursor < sp_len r" and "drop cursor (sp_str r) \<noteq> ''/''"
  shows "segs (drop cursor (sp_str r)) = cut_mid r cursor # segs (drop (cut_stop r cursor) (sp_str r))"
    and "cursor < cut_stop r cursor" and "cut_stop r cursor \<le> sp_len r"
proof -
  show "segs (drop cursor (sp_str r)) = cut_mid r cursor # segs (drop (cut_stop r cursor) (sp_str r))"
    using segs_cut [of cursor "sp_str r"] assms by (simp add: cut_mid_def cut_stop_def)
  show "cursor < cut_stop r cursor"
    using seg_end_Suc [of cursor "sp_str r"] seg_end_gt [of cursor "sp_str r"] assms(1,2)
    by (auto simp: cut_stop_def anchor_of_def)
  show "cut_stop r cursor \<le> sp_len r"
    using cut_anchor [OF assms] assms(1)
      length_takeWhile_le [of "\<lambda>c. c \<noteq> CHR ''/''" "drop (anchor_of (sp_str r) cursor) (sp_str r)"]
    by (simp add: cut_stop_def seg_end_def)
qed

lemma walk_step:
  assumes "sp_valid r" and "cursor < sp_len r" and "drop cursor (sp_str r) \<noteq> ''/''"
  shows "walk (Node vh ch) r cursor ps mp =
    (case child_get ch (cut_mid r cursor) of
       None \<Rightarrow> match_pattern (Node vh ch) (cut_mid r cursor) r (cut_stop r cursor) ps mp
     | Some child \<Rightarrow>
        (case find_route child r (cut_stop r cursor) ps mp of
           Inl e \<Rightarrow> Inl e
         | Inr (Some vh', ps', mp') \<Rightarrow> Inr (Some vh', ps', mp')
         | Inr (None, ps', mp') \<Rightarrow>
             match_pattern (Node vh ch) (cut_mid r cursor) r (cut_stop r cursor) ps' mp'))"
proof -
  define a where "a = anchor_of (sp_str r) cursor"
  have c: "sp_read r (int cursor) = Inr (sp_str r ! cursor)"
    using assms by (simp add: sp_read_str)
  have a: "(if sp_str r ! cursor = CHR ''/'' then cursor + 1 else cursor) = a"
    by (simp add: a_def anchor_of_def)
  have s: "(if a < sp_len r then seg_end (sp_str r) a else a) = cut_stop r cursor"
    using cut_anchor [OF assms] by (simp add: a_def cut_stop_def)
  have m: "sp_str (sp_window r a (cut_stop r cursor - a)) = cut_mid r cursor"
    using cut_anchor [OF assms] cut_segs(3) [OF assms] seg_end_ge [of a "sp_str r"]
    by (simp add: sp_window_str cut_mid_def a_def cut_stop_def)
  show ?thesis
    by (subst walk.simps) (simp only: c sum.case a s m Let_def)
qed

lemma find_route_walks:
  assumes "cursor < sp_len r" and "cursor > 0 \<or> sp_str r \<noteq> ''/''" and "ch \<noteq> []"
  shows "find_route (Node vh ch) r cursor ps mp = walk (Node vh ch) r cursor ps mp"
  using assms by (subst find_route.simps) auto

lemma no_last_slash_drop:
  assumes "s = [] \<or> last s \<noteq> CHR ''/''" and "i < length s"
  shows "drop i s \<noteq> ''/''"
  using assms last_drop [of i s] by force

text \<open>
  A path with a handler is found, whatever patterns are registered beside it, and nothing is
  bound on the way.
\<close>

lemma find_route_static:
  assumes "sp_valid r" and "sp_str r = [] \<or> last (sp_str r) \<noteq> CHR ''/''" and "cursor \<le> sp_len r"
    and "vh_at n (segs (drop cursor (sp_str r))) = Some vh" and "verb_handler_map vh \<noteq> []"
  shows "find_route n r cursor ps mp = Inr (Some vh, ps, mp)"
  using assms
proof (induction "sp_len r - cursor" arbitrary: n cursor rule: less_induct)
  case less
  obtain vh0 ch where n: "n = Node vh0 ch" by (cases n)
  show ?case
  proof (cases "cursor = sp_len r")
    case True
    then show ?thesis using less.prems by (subst n, subst find_route.simps) (auto simp: n segs.simps)
  next
    case False
    then have lt: "cursor < sp_len r" using less.prems(3) by simp
    have nl: "drop cursor (sp_str r) \<noteq> ''/''"
      using less.prems(1,2) lt by (intro no_last_slash_drop) simp_all
    note cut = cut_segs [OF less.prems(1) lt nl]
    obtain c where c: "child_get ch (cut_mid r cursor) = Some c"
        "vh_at c (segs (drop (cut_stop r cursor) (sp_str r))) = Some vh"
      using less.prems(4) by (auto simp: cut(1) n split: option.splits)
    have "find_route c r (cut_stop r cursor) ps mp = Inr (Some vh, ps, mp)"
      using less.hyps [of "cut_stop r cursor" c] cut(2,3) lt c less.prems by simp
    moreover have "ch \<noteq> []" using c by auto
    moreover have "cursor > 0 \<or> sp_str r \<noteq> ''/''" using nl by auto
    ultimately show ?thesis
      by (simp add: n find_route_walks [OF lt] walk_step [OF less.prems(1) lt nl] c)
  qed
qed

text \<open>
  The nodes a request can reach: each key of the path is the segment itself, a parameter, or a
  wildcard whose stem begins the segment, which ends the path.
\<close>

fun covers :: "string list \<Rightarrow> string list \<Rightarrow> bool" where
  "covers [] ss \<longleftrightarrow> True"
| "covers (k # ks) [] \<longleftrightarrow> k = ''*'' \<and> ks = []"
| "covers (k # ks) (s # ss) \<longleftrightarrow>
     (k = s \<or> is_param k) \<and> covers ks ss \<or> is_wildcard k \<and> prefix (butlast k) s \<and> ks = []"

text \<open>A path that stops before the last segment stops at a leaf or at a wildcard.\<close>

definition complete_match :: "'h node \<Rightarrow> string list \<Rightarrow> string list \<Rightarrow> bool" where
  "complete_match n p ss \<longleftrightarrow>
     length p = length ss \<or> length p = Suc (length ss) \<or>
     (p \<noteq> [] \<and> is_wildcard (last p)) \<or> (\<forall>k. vh_at n (p @ [k]) = None)"

lemma pick_child_wildcard:
  "pick_child mid ch = Wildcard c \<Longrightarrow> \<exists>k. (k, c) \<in> set ch \<and> is_wildcard k \<and> prefix (butlast k) mid"
proof (induction mid ch rule: pick_child.induct)
  case (2 mid param child kvs)
  show ?case
  proof (cases "is_wildcard param \<and> take (length param - 1) mid = butlast param")
    case True
    then have "prefix (butlast param) mid" by (metis take_is_prefix)
    then show ?thesis using True 2 by auto
  next
    case False
    then have "pick_child mid kvs = Wildcard c" using "2.prems" by (auto split: if_splits sum.splits)
    then show ?thesis using 2 False by (force split: if_splits sum.splits)
  qed
qed simp

lemma pick_child_param:
  "pick_child mid ch = Param name c \<Longrightarrow> \<exists>k. (k, c) \<in> set ch \<and> is_param k \<and> param_name k = Inr name"
proof (induction mid ch rule: pick_child.induct)
  case (2 mid param child kvs)
  show ?case
  proof (cases "is_param param")
    case True
    then show ?thesis using "2.prems" by (auto split: if_splits sum.splits)
  next
    case False
    moreover have "\<not> (is_wildcard param \<and> take (length param - 1) mid = butlast param)"
      using "2.prems" by auto
    ultimately show ?thesis using "2.IH" "2.prems" by (simp split: if_splits) blast
  qed
qed simp

lemma child_get_member:
  assumes "sorted_wrt str_lt (keys ch)" and "(k, c) \<in> set ch"
  shows "child_get ch k = Some c"
  using assms
proof (induction ch)
  case (Cons e ch)
  obtain k' c' where e: "e = (k', c')" by (cases e)
  show ?case
  proof (cases "(k, c) = e")
    case False
    then have m: "(k, c) \<in> set ch" using Cons.prems(2) by simp
    then have "k \<in> set (keys ch)" by (metis fst_conv image_eqI image_set)
    then have "k' < k" using Cons.prems(1) by (auto simp: e)
    then show ?thesis using Cons.IH Cons.prems(1) m by (simp add: e less_not_sym)
  qed (simp add: e)
qed simp

lemma str_get_member: "child_get ch k = Some c \<Longrightarrow> (k, c) \<in> set ch"
  by (induction ch) (auto split: if_splits)

lemma vh_at_child:
  "child_get ch k = Some c \<Longrightarrow> vh_at (Node vh ch) (k # p) = vh_at c p"
  by simp

lemma complete_match_child:
  assumes "child_get ch k = Some c" and "complete_match c p ss"
  shows "complete_match (Node vh ch) (k # p) (s # ss)"
  using assms by (auto simp: complete_match_def)

text \<open>What is found is covered, and what is bound on the way are segments of the request.\<close>

definition bound_from :: "(string, string) smap \<Rightarrow> string list \<Rightarrow> (string, string) smap \<Rightarrow> bool" where
  "bound_from ps ss ps' \<longleftrightarrow>
     (\<forall>k v. smap_get str_lt ps' k = Some v \<longrightarrow> smap_get str_lt ps k = Some v \<or> v \<in> set ss)"

definition found_in :: "'h node \<Rightarrow> string list \<Rightarrow> (string, string) smap \<Rightarrow> 'h verb_handler found \<Rightarrow> bool" where
  "found_in n ss ps res \<longleftrightarrow>
     (case res of
        Inl e \<Rightarrow> (\<exists>k. is_param k \<and> param_name k = Inl e)
      | Inr (None, ps', mp') \<Rightarrow> bound_from ps ss ps'
      | Inr (Some vh, ps', mp') \<Rightarrow>
          bound_from ps ss ps' \<and> (\<exists>p. vh_at n p = Some vh \<and> covers p ss \<and> complete_match n p ss))"

lemma bound_from_refl [simp]: "bound_from ps ss ps"
  by (simp add: bound_from_def)

lemma bound_from_trans: "bound_from ps ss ps' \<Longrightarrow> bound_from ps' ss ps'' \<Longrightarrow> bound_from ps ss ps''"
  unfolding bound_from_def by blast

lemma bound_from_step: "bound_from ps ss ps' \<Longrightarrow> bound_from ps (s # ss) ps'"
  unfolding bound_from_def by auto

lemma bound_from_assign:
  "bound_from (smap_assign str_lt k s ps) (s # ss) ps' \<Longrightarrow> bound_from ps (s # ss) ps'"
  unfolding bound_from_def str_map.get_assign str_same by (metis list.set_intros(1) option.inject)

lemma found_in_child:
  assumes "child_get ch k = Some c" and "k = s \<or> is_param k" and "found_in c ss ps res"
  shows "found_in (Node vh ch) (s # ss) ps res"
proof -
  have "\<exists>p. vh_at (Node vh ch) p = Some v \<and> covers p (s # ss) \<and> complete_match (Node vh ch) p (s # ss)"
    if "vh_at c p = Some v" "covers p ss" "complete_match c p ss" for p v
    using that assms(1,2) complete_match_child [OF assms(1) that(3), of vh s]
    by (intro exI [of _ "k # p"]) simp
  then show ?thesis
    using assms(3) by (auto simp: found_in_def bound_from_step split: sum.splits option.splits)
qed

lemma found_in_assign:
  assumes "found_in n (s # ss) (smap_assign str_lt k s ps) res"
  shows "found_in n (s # ss) ps res"
  using assms
  by (auto simp: found_in_def split: sum.splits option.splits dest: bound_from_assign)

lemma pick_child_bad: "pick_child mid ch = BadParam e \<Longrightarrow> \<exists>k. is_param k \<and> param_name k = Inl e"
proof (induction mid ch rule: pick_child.induct)
  case (2 mid param child kvs)
  show ?case
  proof (cases "is_param param")
    case True
    then show ?thesis using "2.prems" by (auto split: if_splits sum.splits)
  next
    case False
    moreover have "\<not> (is_wildcard param \<and> take (length param - 1) mid = butlast param)"
      using "2.prems" by auto
    ultimately show ?thesis using "2.IH" "2.prems" by (simp split: if_splits)
  qed
qed simp

lemma match_pattern_found:
  assumes "sorted_wrt str_lt (keys ch)"
    and "\<And>k c ps. (k, c) \<in> set ch \<Longrightarrow> found_in c ss ps (find_route c r stop ps mp)"
  shows "found_in (Node vh ch) (mid # ss) ps (match_pattern (Node vh ch) mid r stop ps mp)"
proof (cases "pick_child mid ch")
  case NoChoice
  then show ?thesis by (simp add: match_pattern.simps found_in_def)
next
  case (BadParam e)
  then show ?thesis using pick_child_bad [OF BadParam] by (simp add: match_pattern.simps found_in_def)
next
  case (Wildcard c)
  obtain k where k: "(k, c) \<in> set ch" "is_wildcard k" "prefix (butlast k) mid"
    using pick_child_wildcard [OF Wildcard] by auto
  then have "vh_at (Node vh ch) [k] = Some (node_vh c)"
    using child_get_member [OF assms(1)] by simp
  moreover have "covers [k] (mid # ss)" "complete_match (Node vh ch) [k] (mid # ss)"
    using k by (simp_all add: complete_match_def)
  ultimately have "\<exists>p. vh_at (Node vh ch) p = Some (node_vh c) \<and> covers p (mid # ss) \<and>
      complete_match (Node vh ch) p (mid # ss)"
    by blast
  then show ?thesis using Wildcard by (simp add: match_pattern.simps found_in_def)
next
  case (Param name c)
  obtain k where k: "(k, c) \<in> set ch" "is_param k" using pick_child_param [OF Param] by auto
  have "found_in (Node vh ch) (mid # ss) (smap_assign str_lt name mid ps)
      (find_route c r stop (smap_assign str_lt name mid ps) mp)"
    using child_get_member [OF assms(1) k(1)] k assms(2) by (auto intro: found_in_child)
  then show ?thesis using Param by (simp add: match_pattern.simps found_in_assign)
qed

lemma found_in_retry:
  assumes "found_in n ss ps (Inr (None, ps', mp'))" and "found_in n ss ps' res"
  shows "found_in n ss ps res"
  using assms bound_from_trans [of ps ss ps']
  by (auto simp: found_in_def split: sum.splits option.splits)

lemma find_route_found:
  assumes "sp_valid r" and "sp_str r = [] \<or> last (sp_str r) \<noteq> CHR ''/''"
    and "cursor \<le> sp_len r" and "wf_node n"
  shows "found_in n (segs (drop cursor (sp_str r))) ps (find_route n r cursor ps mp)"
  using assms(3,4)
proof (induction "size n" arbitrary: n cursor ps mp rule: less_induct)
  case less
  obtain vh ch where n: "n = Node vh ch" by (cases n)
  have at_leaf: "complete_match n [] ss" if "ch = []" for ss
    using that by (simp add: complete_match_def n)
  show ?case
  proof (cases "cursor = sp_len r \<or> ch = []")
    case True
    then have "drop cursor (sp_str r) = [] \<or> ch = []" using assms(1) by auto
    moreover have "complete_match n [k] []" "covers [''*''] []" "complete_match n [] []" for k
      by (simp_all add: complete_match_def)
    ultimately show ?thesis
      using True at_leaf
      by (subst n, subst find_route.simps)
        (auto simp: found_in_def n segs.simps [of "[]"] intro: exI [of _ "[]"] exI [of _ "[''*'']"])
  next
    case False
    then have lt: "cursor < sp_len r" and ch: "ch \<noteq> []" using less.prems by auto
    have nl: "drop cursor (sp_str r) \<noteq> ''/''"
      using assms(1,2) lt by (intro no_last_slash_drop) simp_all
    note cut = cut_segs [OF assms(1) lt nl]
    let ?stop = "cut_stop r cursor" and ?mid = "cut_mid r cursor"
    have child: "found_in c (segs (drop ?stop (sp_str r))) ps (find_route c r ?stop ps mp)"
      if "(k, c) \<in> set ch" for k c ps mp
      using less.hyps [of c ?stop ps mp] child_size [of c ch vh] that cut(3) less.prems(2)
      by (force simp: n)
    have sorted: "sorted_wrt str_lt (keys ch)" using less.prems(2) by (simp add: n)
    note pat = match_pattern_found [OF sorted child]
    have "found_in n (?mid # segs (drop ?stop (sp_str r))) ps (walk n r cursor ps mp)"
    proof (cases "child_get ch ?mid")
      case None
      then show ?thesis using pat by (simp add: n walk_step [OF assms(1) lt nl])
    next
      case (Some c)
      then obtain k where "(k, c) \<in> set ch" using smap_get_in by metis
      then have f: "found_in n (?mid # segs (drop ?stop (sp_str r))) ps (find_route c r ?stop ps mp)"
        using child Some by (auto simp: n intro: found_in_child)
      show ?thesis
      proof (cases "find_route c r ?stop ps mp")
        case (Inr res)
        obtain v ps' mp' where res: "res = (v, ps', mp')" by (cases res)
        show ?thesis
        proof (cases v)
          case None
          show ?thesis
            using found_in_retry [of n _ ps ps' mp'] f pat
            by (simp add: Inr res None n walk_step [OF assms(1) lt nl] Some)
        qed (use f in \<open>simp add: Inr res n walk_step [OF assms(1) lt nl] Some\<close>)
      qed (use f in \<open>simp add: n walk_step [OF assms(1) lt nl] Some\<close>)
    qed
    moreover have "cursor > 0 \<or> sp_str r \<noteq> ''/''" using nl by auto
    ultimately show ?thesis by (simp add: n cut(1) find_route_walks [OF lt _ ch])
  qed
qed

text \<open>
  C5. A registered path wins over every pattern: if the segments of the request are the path of
  a node with a handler, lookup returns that node's record, whatever wildcard and parameter
  children lie beside the path, and binds no parameter.
\<close>

theorem find_static_wins:
  assumes "s = [] \<or> last s \<noteq> CHR ''/''"
    and "vh_at n (segs s) = Some vh" and "verb_handler_map vh \<noteq> []"
  shows "find_route n (sp_of_str s) 0 [] [] = Inr (Some vh, [], [])"
  using find_route_static [of "sp_of_str s" 0 n vh "[]" "[]"] assms by simp

definition one_route :: "string \<Rightarrow> 'h \<Rightarrow> 'h node" where
  "one_route route h =
     (let (n, loc) = find_or_create empty_node route 0 in
      (case loc of None \<Rightarrow> n
       | Some p \<Rightarrow> vh_set n p \<lparr>verb_handler_map = [(GET, h)], vh_path = route, compute_queue_id = Some (-1)\<rparr>))"

lemma one_route_set:
  "route \<noteq> ''/'' \<Longrightarrow> one_route route h =
     vh_set (add_path empty_node (segs route)) (segs route)
       \<lparr>verb_handler_map = [(GET, h)], vh_path = route, compute_queue_id = Some (-1)\<rparr>"
  by (simp add: one_route_def find_or_create_add_path)

lemma vh_at_one_route:
  "route \<noteq> ''/'' \<Longrightarrow> vh_at (one_route route h) (segs route) =
     Some \<lparr>verb_handler_map = [(GET, h)], vh_path = route, compute_queue_id = Some (-1)\<rparr>"
  by (simp add: one_route_set vh_at_set vh_at_add_path split: option.split)

lemma wf_one_route: "route \<noteq> ''/'' \<Longrightarrow> wf_node (one_route route h)"
  by (simp add: one_route_set wf_intros)

theorem find_static_wins_witness:
  "find_route (one_route ''/a/b'' (7::nat)) (sp_of_str ''/a/b'') 0 [] [] =
     Inr (Some \<lparr>verb_handler_map = [(GET, 7)], vh_path = ''/a/b'', compute_queue_id = Some (-1)\<rparr>, [], [])"
  by (rule find_static_wins) (simp_all add: vh_at_one_route)

text \<open>
  C4. Soundness of lookup on a well-formed tree: it either throws because of a parameter key that
  cannot be trimmed, or returns normally with every binding it adds being a segment of the request;
  and when it returns a record, that record stands in the tree at a path that covers the request
  segment by segment, stopping early only at a leaf or at a wildcard.
\<close>

theorem find_route_sound:
  assumes "wf_node n" and "s = [] \<or> last s \<noteq> CHR ''/''"
  shows "case find_route n (sp_of_str s) 0 [] [] of
      Inl e \<Rightarrow> \<exists>k. is_param k \<and> param_name k = Inl e
    | Inr (found, params, match_path) \<Rightarrow>
        (\<forall>k v. smap_get str_lt params k = Some v \<longrightarrow> v \<in> set (segs s)) \<and>
        (\<forall>vh. found = Some vh \<longrightarrow>
           (\<exists>p. vh_at n p = Some vh \<and> covers p (segs s) \<and> complete_match n p (segs s)))"
  using find_route_found [of "sp_of_str s" 0 n "[]" "[]"] assms
  by (auto simp: found_in_def bound_from_def split: sum.splits option.splits)

theorem find_route_sound_witness:
  "wf_node (one_route ''/u/{id}'' (7::nat)) \<and>
   (case find_route (one_route ''/u/{id}'' (7::nat)) (sp_of_str ''/u/42'') 0 [] [] of
      Inl e \<Rightarrow> \<exists>k. is_param k \<and> param_name k = Inl e
    | Inr (found, params, match_path) \<Rightarrow>
        (\<forall>k v. smap_get str_lt params k = Some v \<longrightarrow> v \<in> set (segs ''/u/42'')) \<and>
        (\<forall>vh. found = Some vh \<longrightarrow>
           (\<exists>p. vh_at (one_route ''/u/{id}'' (7::nat)) p = Some vh \<and> covers p (segs ''/u/42'') \<and>
             complete_match (one_route ''/u/{id}'' (7::nat)) p (segs ''/u/42''))))"
proof -
  have w: "wf_node (one_route ''/u/{id}'' (7::nat))" by (simp add: wf_one_route)
  show ?thesis
    by (rule conjI [OF w], rule find_route_sound [OF w]) simp
qed

section \<open>Parameter names\<close>

lemma takeWhile_blanks:
  "name \<noteq> [] \<Longrightarrow> hd name \<noteq> CHR '' '' \<Longrightarrow>
   length (takeWhile (\<lambda>c. c = CHR '' '') (replicate m (CHR '' '') @ name @ rest)) = m"
  by (induction m) (cases name; simp)+

text \<open>
  The name of a parameter is what is between the braces without the blanks around it; a key
  with blanks only is not a name: cutting the blanks off both ends wraps the length of the piece
  around, and building the string throws.
\<close>

theorem param_name_trims:
  assumes "name \<noteq> []" and "hd name \<noteq> CHR '' ''" and "last name \<noteq> CHR '' ''"
    and "m + length name + k < 2 ^ 62" and "0 < k"
  shows "param_name (''{'' @ replicate m (CHR '' '') @ name @ replicate k (CHR '' '') @ ''}'') = Inr name \<and>
    param_name (''{'' @ replicate k (CHR '' '') @ ''}'') = Inl LengthError"
proof
  let ?p = "''{'' @ replicate m (CHR '' '') @ name @ replicate k (CHR '' '') @ ''}''"
  have i: "length (takeWhile (\<lambda>c. c = CHR '' '') (drop 1 ?p)) = m"
    using takeWhile_blanks [OF assms(1,2)] by simp
  have "rev (take (length ?p - 1) ?p) = replicate k (CHR '' '') @ rev name @ replicate m (CHR '' '') @ ''{''"
    by (simp add: rev_replicate)
  then have j: "length (takeWhile (\<lambda>c. c = CHR '' '') (rev (take (length ?p - 1) ?p))) = k"
    using takeWhile_blanks [of "rev name" k "replicate m (CHR '' '') @ ''{''"] assms(1,3)
    by (simp add: hd_rev)
  show "param_name ?p = Inr name"
    unfolding param_name_def Let_def i j
    using assms(4) by (simp add: sp_shrink_def sp_of_str_def sp_as_string_def)
next
  let ?q = "''{'' @ replicate k (CHR '' '') @ ''}''"
  have i: "length (takeWhile (\<lambda>c. c = CHR '' '') (drop 1 ?q)) = k"
    using takeWhile_blanks [of "''}''" k "[]"] by simp
  have "rev (take (length ?q - 1) ?q) = replicate k (CHR '' '') @ ''{'' @ []"
    by (simp add: rev_replicate)
  then have j: "length (takeWhile (\<lambda>c. c = CHR '' '') (rev (take (length ?q - 1) ?q))) = k"
    using takeWhile_blanks [of "''{''" k "[]"] by simp
  show "param_name ?q = Inl LengthError"
    unfolding param_name_def Let_def i j
    using assms(4,5) by (simp add: sp_shrink_def sp_of_str_def sp_as_string_def size_sub_def size_max_def)
qed

theorem param_name_trims_witness:
  "param_name ''{  id }'' = Inr ''id'' \<and> param_name ''{ }'' = Inl LengthError"
  using param_name_trims [of "''id''" "Suc (Suc 0)" "Suc 0"] by simp

section \<open>Listing\<close>

function all_routes :: "'h node \<Rightarrow> string \<Rightarrow> (string \<times> 'h verb_handler) list" where
  "all_routes (Node vh ch) pre =
     (if ch = [] then [(pre, vh)]
      else (let pre' = (if pre \<noteq> [] \<and> last pre \<noteq> CHR ''/'' then pre @ ''/'' else pre) in
            concat (map (\<lambda>kc. all_routes (snd kc) (pre' @ fst kc)) ch)))"
  by pat_completeness auto

termination
  by (relation "measure (\<lambda>(n, _). size n)") (auto simp del: node.size intro!: child_size)

declare all_routes.simps [simp del]

text \<open>The prefix a path is listed under.\<close>

fun path_str :: "string \<Rightarrow> string list \<Rightarrow> string" where
  "path_str pre [] = pre"
| "path_str pre (k # ks) =
     path_str ((if pre \<noteq> [] \<and> last pre \<noteq> CHR ''/'' then pre @ ''/'' else pre) @ k) ks"

definition leaf_at :: "'h node \<Rightarrow> string list \<Rightarrow> bool" where
  "leaf_at n p \<longleftrightarrow> (\<forall>k. vh_at n (p @ [k]) = None)"

lemma vh_at_leaf: "vh_at (Node vh []) p = Some v \<longleftrightarrow> p = [] \<and> v = vh"
  by (cases p) auto

lemma leaf_at_Nil: "sorted_wrt str_lt (keys ch) \<Longrightarrow> leaf_at (Node vh ch) [] \<longleftrightarrow> ch = []"
  by (cases ch) (auto simp: leaf_at_def split: option.splits)

lemma leaf_at_Cons: "child_get ch k = Some c \<Longrightarrow> leaf_at (Node vh ch) (k # p) \<longleftrightarrow> leaf_at c p"
  by (simp add: leaf_at_def)

lemma all_routes_leaves:
  "wf_node n \<Longrightarrow>
   set (all_routes n pre) = {(path_str pre p, vh) | p vh. vh_at n p = Some vh \<and> leaf_at n p}"
proof (induction n pre rule: all_routes.induct)
  case (1 vh ch pre)
  let ?pre = "if pre \<noteq> [] \<and> last pre \<noteq> CHR ''/'' then pre @ ''/'' else pre"
  have sorted: "sorted_wrt str_lt (keys ch)" using "1.prems" by simp
  show ?case
  proof (cases "ch = []")
    case True
    then show ?thesis by (auto simp: all_routes.simps vh_at_leaf leaf_at_def)
  next
    case False
    have "set (all_routes (Node vh ch) pre) = (\<Union>kc \<in> set ch. set (all_routes (snd kc) (?pre @ fst kc)))"
      using False by (simp add: all_routes.simps Let_def)
    also have "\<dots> = (\<Union>kc \<in> set ch. {(path_str pre (fst kc # p), v) | p v.
        vh_at (snd kc) p = Some v \<and> leaf_at (snd kc) p})"
      using "1.IH" [OF False refl] "1.prems" by (intro SUP_cong refl) (simp add: Let_def)
    also have "\<dots> = {(path_str pre p, v) | p v. vh_at (Node vh ch) p = Some v \<and> leaf_at (Node vh ch) p}"
      (is "?A = ?B")
    proof
      show "?A \<subseteq> ?B"
      proof
        fix x assume "x \<in> ?A"
        then obtain k c p v where m: "(k, c) \<in> set ch" "x = (path_str pre (k # p), v)"
            "vh_at c p = Some v" "leaf_at c p"
          by auto
        then have "vh_at (Node vh ch) (k # p) = Some v" "leaf_at (Node vh ch) (k # p)"
          using child_get_member [OF sorted m(1)] leaf_at_Cons [of ch k c vh p] vh_at_child [of ch k c vh p]
          by simp_all
        then show "x \<in> ?B" using m(2) by blast
      qed
      show "?B \<subseteq> ?A"
      proof
        fix x assume "x \<in> ?B"
        then obtain p v where m: "x = (path_str pre p, v)" "vh_at (Node vh ch) p = Some v"
            "leaf_at (Node vh ch) p"
          by auto
        then obtain k q where p: "p = k # q" using leaf_at_Nil [OF sorted] False by (cases p) auto
        then obtain c where c: "child_get ch k = Some c" "vh_at c q = Some v"
          using m(2) by (auto split: option.splits)
        have "(k, c) \<in> set ch" using str_get_member [OF c(1)] .
        then show "x \<in> ?A" using m p c leaf_at_Cons [OF c(1)] by force
      qed
    qed
    finally show ?thesis .
  qed
qed

text \<open>
  The listing of a well-formed table gives exactly the leaves of the tree, each under the
  string of its path: a node with children is not listed, even when it has handlers.
\<close>

theorem all_routes_are_leaves:
  "wf_node n \<Longrightarrow>
   set (all_routes n []) = {(path_str [] p, vh) | p vh. vh_at n p = Some vh \<and> leaf_at n p}"
  by (rule all_routes_leaves)

theorem all_routes_are_leaves_witness:
  "wf_node (one_route ''/a/b'' (7::nat)) \<and>
   set (all_routes (one_route ''/a/b'' (7::nat)) []) =
     {(path_str [] p, vh) | p vh. vh_at (one_route ''/a/b'' (7::nat)) p = Some vh \<and>
        leaf_at (one_route ''/a/b'' (7::nat)) p}"
  using all_routes_are_leaves [of "one_route ''/a/b'' (7::nat)"] wf_one_route [of "''/a/b''" "7::nat"]
  by simp

end
