(* ===== verification/Code_Util.thy ===== *)
theory Code_Util
  imports Prelude
begin

text \<open>
  \<^verbatim>\<open>src/util/CodeUtil.cc\<close>: percent coding of paths. Decoding goes through
  \<^verbatim>\<open>std::strtol (hex, nullptr, 16)\<close>, so it accepts blanks, signs and half-read digits
  where a strict decoder would not; \<open>strtol16\<close> models that reader.
\<close>

section \<open>Encoding\<close>

definition hex_chars :: string where
  "hex_chars = ''0123456789ABCDEF''"

definition url_plain :: "char \<Rightarrow> bool" where
  "url_plain c \<longleftrightarrow>
     (CHR ''0'' \<le> c \<and> c \<le> CHR ''9'') \<or> (CHR ''A'' \<le> c \<and> c \<le> CHR ''Z'') \<or>
     (CHR ''a'' \<le> c \<and> c \<le> CHR ''z'') \<or> c = CHR ''-'' \<or> c = CHR ''.'' \<or>
     c = CHR ''_'' \<or> c = CHR ''~'' \<or> c = CHR ''/''"

definition encode_char :: "char \<Rightarrow> string" where
  "encode_char c =
     (if \<not> url_plain c
      then [CHR ''%'', hex_chars ! (of_char c div 16), hex_chars ! (of_char c mod 16)]
      else [c])"

fun url_encode :: "string \<Rightarrow> string" where
  "url_encode [] = []"
| "url_encode (c # cs) = encode_char c @ url_encode cs"

section \<open>Decoding\<close>

definition hex_val :: "char \<Rightarrow> nat option" where
  "hex_val c =
     (let n = of_char c :: nat in
      if 48 \<le> n \<and> n \<le> 57 then Some (n - 48)
      else if 65 \<le> n \<and> n \<le> 70 then Some (n - 55)
      else if 97 \<le> n \<and> n \<le> 102 then Some (n - 87) else None)"

fun read_hex :: "nat \<Rightarrow> string \<Rightarrow> nat" where
  "read_hex acc [] = acc"
| "read_hex acc (c # cs) = (case hex_val c of None \<Rightarrow> acc | Some d \<Rightarrow> read_hex (16 * acc + d) cs)"

definition skip_0x :: "string \<Rightarrow> string" where
  "skip_0x s =
     (case s of z # x # d # cs \<Rightarrow>
        (if z = CHR ''0'' \<and> (x = CHR ''x'' \<or> x = CHR ''X'') \<and> hex_val d \<noteq> None then d # cs else s)
      | _ \<Rightarrow> s)"

definition strtol16 :: "string \<Rightarrow> int" where
  "strtol16 s =
     (case dropWhile isspace (c_str s) of
        [] \<Rightarrow> 0
      | c # cs \<Rightarrow> (if c = CHR ''-'' then - int (read_hex 0 (skip_0x cs))
                  else if c = CHR ''+'' then int (read_hex 0 (skip_0x cs))
                  else int (read_hex 0 (skip_0x (c # cs)))))"

text \<open>\<^verbatim>\<open>static_cast<char>\<close> of a \<^verbatim>\<open>long\<close> keeps its low byte.\<close>

definition char_of_long :: "int \<Rightarrow> char" where
  "char_of_long i = char_of (nat (i mod 256))"

text \<open>
  The loop of \<^verbatim>\<open>url_decode\<close>: a percent sign with two characters left decodes them, any other
  character stands for itself but for the plus sign.
\<close>

fun url_decode :: "string \<Rightarrow> string" where
  "url_decode [] = []"
| "url_decode (c # cs) =
     (if c = CHR ''%'' \<and> 2 \<le> length cs
      then char_of_long (strtol16 (take 2 cs)) # url_decode (drop 2 cs)
      else if c = CHR ''+'' then CHR '' '' # url_decode cs
      else c # url_decode cs)"

definition is_url_encode :: "string \<Rightarrow> bool" where
  "is_url_encode s \<longleftrightarrow> CHR ''%'' \<in> set s \<or> CHR ''+'' \<in> set s"

section \<open>Lemmas\<close>

lemma hex_digit_cases: "n < 16 \<Longrightarrow> P (0::nat) \<Longrightarrow> P 1 \<Longrightarrow> P 2 \<Longrightarrow> P 3 \<Longrightarrow> P 4 \<Longrightarrow> P 5 \<Longrightarrow> P 6 \<Longrightarrow> P 7 \<Longrightarrow>
   P 8 \<Longrightarrow> P 9 \<Longrightarrow> P 10 \<Longrightarrow> P 11 \<Longrightarrow> P 12 \<Longrightarrow> P 13 \<Longrightarrow> P 14 \<Longrightarrow> P 15 \<Longrightarrow> P n"
  by (simp add: less_Suc_eq eval_nat_numeral) (elim disjE; simp add: eval_nat_numeral)

lemma hex_digit:
  "n < 16 \<Longrightarrow> hex_val (hex_chars ! n) = Some n \<and> \<not> isspace (hex_chars ! n) \<and>
   hex_chars ! n \<noteq> NUL \<and> hex_chars ! n \<noteq> CHR ''-'' \<and> hex_chars ! n \<noteq> CHR ''+'' \<and>
   hex_chars ! n \<noteq> CHR ''%'' \<and> url_plain (hex_chars ! n)"
  by (erule hex_digit_cases) (simp_all add: hex_chars_def hex_val_def isspace_def url_plain_def
      less_eq_char_def Let_def)

lemma strtol16_hex:
  "a < 16 \<Longrightarrow> b < 16 \<Longrightarrow> strtol16 [hex_chars ! a, hex_chars ! b] = int (16 * a + b)"
  using hex_digit [of a] hex_digit [of b] by (simp add: strtol16_def c_str_def skip_0x_def)

lemma char_hex_digits: "(of_char c :: nat) div 16 < 16" "(of_char c :: nat) mod 16 < 16"
  using nat_of_char_less_256 [of c] by (linarith, simp)

lemma decode_hex_char:
  "char_of_long (strtol16 [hex_chars ! (of_char c div 16), hex_chars ! (of_char c mod 16)]) = c"
proof -
  have "strtol16 [hex_chars ! (of_char c div 16), hex_chars ! (of_char c mod 16)] =
      int (of_char c)"
    by (subst strtol16_hex) (simp_all add: char_hex_digits)
  then show ?thesis
    by (simp add: char_of_long_def nat_mod_distrib)
qed

lemma url_plain_not_special: "url_plain c \<Longrightarrow> c \<noteq> CHR ''%'' \<and> c \<noteq> CHR ''+'' \<and> c \<noteq> NUL \<and> \<not> isspace c"
  by (auto simp: url_plain_def isspace_def less_eq_char_def)

lemma url_decode_encode_char: "url_decode (encode_char c @ s) = c # url_decode s"
  using decode_hex_char [of c] url_plain_not_special [of c] by (auto simp: encode_char_def)

lemma url_encode_chars: "c \<in> set (url_encode s) \<Longrightarrow> url_plain c \<or> c = CHR ''%''"
proof (induction s)
  case (Cons d s)
  show ?case
    using Cons hex_digit char_hex_digits [of d] by (auto simp: encode_char_def split: if_splits)
qed simp

lemma url_encode_no_NUL: "NUL \<notin> set (url_encode s)"
  using url_encode_chars [of NUL s] url_plain_not_special by fastforce

lemma url_encode_plain: "list_all url_plain s \<Longrightarrow> url_encode s = s"
  by (induction s) (auto simp: encode_char_def)

lemma url_encode_append: "url_encode (a @ b) = url_encode a @ url_encode b"
  by (induction a) auto

section \<open>Properties\<close>

text \<open>
  Round trip of the percent coding: decoding an encoded string gives it back, for every
  string of bytes, and the encoded string holds only unreserved characters, the slash and
  the percent sign.
\<close>

theorem url_decode_encode:
  "url_decode (url_encode s) = s \<and> list_all (\<lambda>c. url_plain c \<or> c = CHR ''%'') (url_encode s)"
proof -
  have "url_decode (url_encode s) = s"
    by (induction s) (simp_all add: url_decode_encode_char)
  then show ?thesis using url_encode_chars by (auto simp: list_all_iff)
qed

text \<open>
  The decoder is total and never longer than its input, and it is not injective: a
  percent sign before characters that are no hexadecimal digits decodes to a NUL, and a
  signed digit to the two's complement byte.
\<close>

theorem url_decode_lenient:
  "length (url_decode s) \<le> length s \<and> url_decode ''%zz'' = [NUL] \<and>
   url_decode ''%-1'' = [CHR 0xFF] \<and> url_decode ''%4'' = ''%4''"
proof -
  have "length (url_decode s) \<le> length s"
    by (induction s rule: url_decode.induct) (auto intro: le_SucI)
  moreover have "url_decode ''%zz'' = [NUL]" "url_decode ''%-1'' = [CHR 0xFF]" "url_decode ''%4'' = ''%4''"
    by (simp_all add: char_of_long_def strtol16_def c_str_def isspace_def skip_0x_def hex_val_def
        Let_def char_of_eq_iff)
  ultimately show ?thesis by simp
qed

end
