(* ===== verification/Path_Util.thy ===== *)
theory Path_Util
  imports Prelude
begin

text \<open>
  \<^verbatim>\<open>src/util/PathUtil.cc\<close>, \<^verbatim>\<open>FileUtil.cc\<close> and \<^verbatim>\<open>src/base/ErrorCode.cc\<close>: path parts,
  the two file-system queries and the status codes. The file system is a parameter, the
  function \<open>stat\<close> from paths to what the system call reports.
\<close>

section \<open>Status codes\<close>

datatype error_code =
    StatusOK | StatusNotFound | StatusCompressError | StatusCompressNotSupport
  | StatusNoComrpess | StatusUncompressError | StatusUncompressNotSupport | StatusNoUncomrpess
  | StatusFileRangeInvalid | StatusFileReadError | StatusFileWriteError | StatusJsonInvalid
  | StatusProxyError | StatusRouteVerbNotImplment | StatusRouteNotFound

fun error_num :: "error_code \<Rightarrow> int" where
  "error_num StatusOK = 0"
| "error_num StatusNotFound = 1"
| "error_num StatusCompressError = 2"
| "error_num StatusCompressNotSupport = 3"
| "error_num StatusNoComrpess = 4"
| "error_num StatusUncompressError = 5"
| "error_num StatusUncompressNotSupport = 6"
| "error_num StatusNoUncomrpess = 7"
| "error_num StatusFileRangeInvalid = 8"
| "error_num StatusFileReadError = 9"
| "error_num StatusFileWriteError = 10"
| "error_num StatusJsonInvalid = 11"
| "error_num StatusProxyError = 12"
| "error_num StatusRouteVerbNotImplment = 13"
| "error_num StatusRouteNotFound = 14"

definition error_code_table :: "(int \<times> string) list" where
  "error_code_table =
    [(error_num StatusOK, ''OK''),
     (error_num StatusCompressError, ''Compress Error''),
     (error_num StatusCompressNotSupport, ''Compress Not Support''),
     (error_num StatusNoComrpess, ''No Comrpession''),
     (error_num StatusUncompressError, ''Uncompress Error''),
     (error_num StatusUncompressNotSupport, ''Uncompress Not Support''),
     (error_num StatusNoUncomrpess, ''No Uncomrpess''),
     (error_num StatusNotFound, ''404 Not Found''),
     (error_num StatusFileRangeInvalid, ''File Range Invalid''),
     (error_num StatusFileReadError, ''File Read Error''),
     (error_num StatusFileWriteError, ''File Write Error''),
     (error_num StatusJsonInvalid, ''Invalid Json Syntax''),
     (error_num StatusProxyError, ''Http Proxy Error''),
     (error_num StatusRouteVerbNotImplment, ''Route Http Method not implement''),
     (error_num StatusRouteNotFound, ''Route Not Found'')]"

definition error_code_to_str :: "int \<Rightarrow> string" where
  "error_code_to_str code =
     (case map_of error_code_table code of None \<Rightarrow> ''unknown'' | Some s \<Rightarrow> s)"

lemma error_code_to_str_known: "map_of error_code_table (error_num e) \<noteq> None"
  by (cases e) (simp_all add: error_code_table_def)

lemma error_num_inject [simp]: "error_num a = error_num b \<longleftrightarrow> a = b"
  by (cases a; cases b; simp)

section \<open>Positions\<close>

text \<open>\<^verbatim>\<open>find_last_of\<close> and \<^verbatim>\<open>find_last_not_of\<close>: the last position with the property.\<close>

fun find_last :: "(char \<Rightarrow> bool) \<Rightarrow> string \<Rightarrow> nat option" where
  "find_last P [] = None"
| "find_last P (c # cs) =
     (case find_last P cs of Some i \<Rightarrow> Some (Suc i) | None \<Rightarrow> (if P c then Some 0 else None))"

definition substr :: "string \<Rightarrow> nat \<Rightarrow> nat \<Rightarrow> string" where
  "substr s pos n = take n (drop pos s)"

definition base :: "string \<Rightarrow> string" where
  "base filepath =
     (case find_last (\<lambda>c. c \<noteq> CHR ''/'') filepath of
        None \<Rightarrow> ''/''
      | Some pos1 \<Rightarrow>
          (let pos2 = (case find_last (\<lambda>c. c = CHR ''/'') (take (pos1 + 1) filepath) of
                         None \<Rightarrow> 0 | Some p \<Rightarrow> p + 1)
           in substr filepath pos2 (pos1 - pos2 + 1)))"

definition suffix :: "string \<Rightarrow> string" where
  "suffix filepath =
     (let pos1 = (case find_last (\<lambda>c. c = CHR ''/'') filepath of None \<Rightarrow> 0 | Some p \<Rightarrow> p + 1);
          file = drop pos1 filepath
      in case find_last (\<lambda>c. c = CHR ''.'') file of
           None \<Rightarrow> ''''
         | Some pos2 \<Rightarrow> drop (pos2 + 1) file)"

text \<open>\<^verbatim>\<open>back ()\<close> and \<^verbatim>\<open>front ()\<close> of an empty string read outside it.\<close>

definition concat_path :: "string \<Rightarrow> string \<Rightarrow> cpp_error + string" where
  "concat_path lhs rhs =
     (if lhs = [] \<or> rhs = [] then Inl InvalidRead
      else if last lhs = CHR ''/'' \<and> hd rhs = CHR ''/'' then Inr (butlast lhs @ rhs)
      else if last lhs \<noteq> CHR ''/'' \<and> hd rhs \<noteq> CHR ''/'' then Inr (lhs @ ''/'' @ rhs)
      else Inr (lhs @ rhs))"

section \<open>The file system\<close>

datatype file_kind = Regular | Directory | OtherKind

record file_stat =
  st_kind :: file_kind
  st_size :: nat

type_synonym file_system = "string \<Rightarrow> file_stat option"

definition is_dir :: "file_system \<Rightarrow> string \<Rightarrow> bool" where
  "is_dir stat path \<longleftrightarrow> (case stat (c_str path) of None \<Rightarrow> False | Some st \<Rightarrow> st_kind st = Directory)"

definition is_file :: "file_system \<Rightarrow> string \<Rightarrow> bool" where
  "is_file stat path \<longleftrightarrow> (case stat (c_str path) of None \<Rightarrow> False | Some st \<Rightarrow> st_kind st = Regular)"

definition file_size :: "file_system \<Rightarrow> string \<Rightarrow> error_code \<times> nat" where
  "file_size stat path =
     (case stat (c_str path) of None \<Rightarrow> (StatusNotFound, 0) | Some st \<Rightarrow> (StatusOK, st_size st))"

definition file_exists :: "file_system \<Rightarrow> string \<Rightarrow> bool" where
  "file_exists stat path = is_file stat path"

section \<open>Lemmas\<close>

lemma find_last_None: "find_last P s = None \<longleftrightarrow> (\<forall>c \<in> set s. \<not> P c)"
  by (induction s) (auto split: option.splits)

lemma find_last_Some:
  "find_last P s = Some i \<longleftrightarrow> i < length s \<and> P (s ! i) \<and> (\<forall>c \<in> set (drop (Suc i) s). \<not> P c)"
proof (induction s arbitrary: i)
  case (Cons c s)
  show ?case
  proof (cases "find_last P s")
    case None
    then have n: "\<forall>c \<in> set s. \<not> P c" by (simp add: find_last_None)
    show ?thesis
    proof (cases i)
      case (Suc j)
      then show ?thesis using None n by (auto simp: nth_mem)
    qed (use None n in auto)
  next
    case (Some j)
    then have j: "j < length s" "P (s ! j)" "\<forall>c \<in> set (drop (Suc j) s). \<not> P c"
      using Cons by auto
    show ?thesis
    proof (cases i)
      case 0
      then show ?thesis using Some j by (auto dest: nth_mem)
    next
      case (Suc k)
      then show ?thesis using Some Cons.IH [of k] Cons.IH [of j] by auto
    qed
  qed
qed simp

lemma find_last_append_hit:
  "P c \<Longrightarrow> \<forall>x \<in> set b. \<not> P x \<Longrightarrow> find_last P (a @ c # b) = Some (length a)"
  by (simp add: find_last_Some)

lemma find_last_last: "s \<noteq> [] \<Longrightarrow> P (last s) \<Longrightarrow> find_last P s = Some (length s - 1)"
  by (simp add: find_last_Some last_conv_nth)

section \<open>Properties\<close>

text \<open>
  \<^verbatim>\<open>base\<close> is the last component: for a directory part that is empty or ends in a slash, a
  name without slashes and any number of trailing slashes, it returns the name.
\<close>

theorem base_last_component:
  assumes "name \<noteq> []" and "CHR ''/'' \<notin> set name" and "dir = [] \<or> last dir = CHR ''/''"
  shows "base (dir @ name @ replicate n (CHR ''/'')) = name"
proof -
  let ?path = "dir @ name @ replicate n (CHR ''/'')"
  let ?p = "length dir + length name - 1"
  have len: "0 < length name" using assms(1) by simp
  have lastname: "last name \<noteq> CHR ''/''" using assms(1,2) last_in_set by metis
  have e: "?path = (dir @ butlast name) @ last name # replicate n (CHR ''/'')"
    using assms(1) by simp
  have p1: "find_last (\<lambda>c. c \<noteq> CHR ''/'') ?path = Some ?p"
    using lastname len unfolding e by (subst find_last_append_hit) (auto simp: Suc_leI)
  have t: "take (?p + 1) ?path = dir @ name" using len by simp
  have p2: "(case find_last (\<lambda>c. c = CHR ''/'') (dir @ name) of None \<Rightarrow> 0 | Some p \<Rightarrow> p + 1) = length dir"
  proof (cases "dir = []")
    case True
    then have "find_last (\<lambda>c. c = CHR ''/'') (dir @ name) = None"
      using assms(2) by (auto simp: find_last_None)
    then show ?thesis using True by simp
  next
    case False
    then have e: "dir @ name = butlast dir @ CHR ''/'' # name"
      using assms(3) by (metis append.assoc append_Cons append_Nil append_butlast_last_id)
    have "find_last (\<lambda>c. c = CHR ''/'') (dir @ name) = Some (length dir - 1)"
      using assms(2) unfolding e by (subst find_last_append_hit) auto
    then show ?thesis using False by simp
  qed
  have n: "?p - length dir + 1 = length name" using len by simp
  have "base ?path = substr ?path (length dir) (length name)"
    unfolding base_def p1 option.case t p2 Let_def n by (rule refl)
  then show ?thesis by (simp add: substr_def)
qed

theorem base_last_component_witness: "base ''/usr/lib/x.so//'' = ''x.so''"
  using base_last_component [of "''x.so''" "''/usr/lib/''" 2] by (simp add: numeral_2_eq_2)

text \<open>
  \<^verbatim>\<open>concat_path\<close> puts exactly one slash at the seam: with a left side that is not empty and
  does not end in two slashes, and a right side likewise, the result is the left side
  without its last slash, one slash, and the right side without its first.
\<close>

theorem concat_path_one_slash:
  assumes "lhs = l \<or> lhs = l @ ''/''" and "rhs = r \<or> rhs = CHR ''/'' # r"
    and "l \<noteq> []" and "last l \<noteq> CHR ''/''" and "r \<noteq> []" and "hd r \<noteq> CHR ''/''"
  shows "concat_path lhs rhs = Inr (l @ ''/'' @ r)"
  using assms by (auto simp: concat_path_def)

theorem concat_path_one_slash_witness: "concat_path ''/v1/'' ''/v2'' = Inr ''/v1/v2''"
  using concat_path_one_slash [of "''/v1/''" "''/v1''" "''/v2''" "''v2''"] by simp

end
