(* ===== verification/Router.thy ===== *)
theory Router
  imports Route_Table Code_Util Path_Util
begin

text \<open>
  \<^verbatim>\<open>src/core/Router.h\<close> and \<^verbatim>\<open>Router.cc\<close>. The router keeps the route table and, for
  listing, the set \<^verbatim>\<open>routes_\<close> of routes with their methods, in descending order of the route.
  A wrapped handler of type \<open>'h\<close> is run by the argument \<open>invoke\<close>, which works on the world
  \<open>'w\<close> (request, response and whatever a handler reaches) and may hand back a task of type
  \<open>'g\<close> that goes on the series of the server task.
\<close>

section \<open>State\<close>

record 'h router =
  routes_map :: "'h node"
  routes :: "(string, verb list) smap"

definition empty_router :: "'h router" where
  "empty_router = \<lparr>routes_map = empty_node, routes = []\<rparr>"

text \<open>
  What \<^verbatim>\<open>Router::call\<close> touches of the server task: the three request fields it fills in, the
  series, and the world of the handlers.
\<close>

record ('w, 'g) server_task =
  full_path :: string
  route_params :: "(string, string) smap"
  route_match_path :: string
  series :: "'g list"
  world :: 'w

section \<open>The set of routes\<close>

text \<open>
  \<^verbatim>\<open>RouteVerb\<close> is compared by its route alone, greater routes first, and its set of methods is
  mutable: the set of them is a map from routes to methods with that comparator.
\<close>

abbreviation route_gt :: "string \<Rightarrow> string \<Rightarrow> bool" where
  "route_gt l r \<equiv> r < l"

interpretation route_set: std_map route_gt
  by unfold_locales auto

lemma route_same [simp]: "route_set.same a b \<longleftrightarrow> a = b"
  by (auto simp: route_set.same_def)

text \<open>\<^verbatim>\<open>std::set<Verb>::insert\<close>.\<close>

fun verb_insert :: "verb \<Rightarrow> verb list \<Rightarrow> verb list" where
  "verb_insert v [] = [v]"
| "verb_insert v (w # ws) = (if v < w then v # w # ws else if w < v then w # verb_insert v ws else w # ws)"

definition add_route :: "verb \<Rightarrow> string \<Rightarrow> (string, verb list) smap \<Rightarrow> (string, verb list) smap" where
  "add_route verb route rs =
     (case smap_get route_gt rs route of
        Some verbs \<Rightarrow> smap_insert route_gt route [] (smap_assign route_gt route (verb_insert verb verbs) rs)
      | None \<Rightarrow> smap_insert route_gt route (verb_insert verb []) rs)"

definition add_route_list :: "verb list \<Rightarrow> string \<Rightarrow> (string, verb list) smap \<Rightarrow> (string, verb list) smap" where
  "add_route_list verb_list route rs =
     (case smap_get route_gt rs route of
        Some verbs \<Rightarrow>
          smap_insert route_gt route [] (smap_assign route_gt route (foldl (\<lambda>vs v. verb_insert v vs) verbs verb_list) rs)
      | None \<Rightarrow> smap_insert route_gt route (foldl (\<lambda>vs v. verb_insert v vs) [] verb_list) rs)"

section \<open>Registration\<close>

text \<open>
  A registration into the record the table returned. When that record belongs to a node outside
  the tree, the write goes into the lost node and the tree is unchanged; such a node is always
  fresh, so the method is never a duplicate there.
\<close>

definition vh_register :: "string \<Rightarrow> int \<Rightarrow> 'h \<Rightarrow> verb \<Rightarrow> 'h verb_handler \<Rightarrow> 'h verb_handler" where
  "vh_register route queue_id handler verb vh =
     (if smap_get verb_lt (verb_handler_map vh) verb \<noteq> None then vh
      else vh\<lparr>verb_handler_map := smap_insert verb_lt verb handler (verb_handler_map vh),
              vh_path := route, compute_queue_id := Some queue_id\<rparr>)"

definition handle :: "string \<Rightarrow> int \<Rightarrow> 'h \<Rightarrow> verb \<Rightarrow> 'h router \<Rightarrow> 'h router" where
  "handle route queue_id handler verb r =
     (let rs = add_route verb route (routes r);
          (n, loc) = table_find_or_create (routes_map r) (c_str route) in
      (case loc of
         None \<Rightarrow> r\<lparr>routes_map := n, routes := rs\<rparr>
       | Some p \<Rightarrow>
          (case vh_at n p of
             None \<Rightarrow> r\<lparr>routes_map := n, routes := rs\<rparr>
           | Some vh \<Rightarrow>
               r\<lparr>routes_map := vh_set n p (vh_register route queue_id handler verb vh), routes := rs\<rparr>)))"

section \<open>Dispatch\<close>

text \<open>The request path without its last slash, unless it is a single slash.\<close>

definition trim_slash :: "string \<Rightarrow> string_piece" where
  "trim_slash route =
     (let route2 = sp_of_str route in
      if sp_len route2 > 1 \<and> sp_nth route2 (sp_len route2 - 1) = CHR ''/''
      then sp_remove_suffix route2 1 else route2)"

definition call :: "('h \<Rightarrow> ('w, 'g) server_task \<Rightarrow> 'g option \<times> ('w, 'g) server_task) \<Rightarrow> 'h router \<Rightarrow>
    verb \<Rightarrow> string \<Rightarrow> ('w, 'g) server_task \<Rightarrow> cpp_error + error_code \<times> ('w, 'g) server_task" where
  "call invoke r verb route task =
     (case find_route (routes_map r) (trim_slash route) 0 [] [] of
        Inl e \<Rightarrow> Inl e
      | Inr (None, params, match_path) \<Rightarrow> Inr (StatusRouteNotFound, task)
      | Inr (Some vh, params, match_path) \<Rightarrow>
          (let has_verb = (smap_get verb_lt (verb_handler_map vh) verb \<noteq> None) in
           if smap_get verb_lt (verb_handler_map vh) ANY \<noteq> None \<or> has_verb then
             (let task1 = task\<lparr>full_path := vh_path vh, route_params := params,
                               route_match_path := match_path\<rparr>;
                  handler = (if has_verb then the (smap_get verb_lt (verb_handler_map vh) verb)
                             else the (smap_get verb_lt (verb_handler_map vh) ANY));
                  (go_task, task2) = invoke handler task1 in
              (case go_task of
                 None \<Rightarrow> Inr (StatusOK, task2)
               | Some g \<Rightarrow> Inr (StatusOK, task2\<lparr>series := series task2 @ [g]\<rparr>)))
           else Inr (StatusRouteVerbNotImplment, task)))"

section \<open>Listing\<close>

definition print_routes :: "'h router \<Rightarrow> string list" where
  "print_routes r =
     concat (map (\<lambda>(route, verbs). map (\<lambda>verb.
         ''[WFREST] '' @ verb_to_str verb @ [CHR 0x09] @
         c_str (if is_url_encode route then url_decode route else route) @ [CHR 0x0A]) verbs) (routes r))"

definition router_all_routes :: "'h router \<Rightarrow> (string \<times> string) list" where
  "router_all_routes r =
     concat (map (\<lambda>(pre, vh). map (\<lambda>(v, _). (verb_to_str v, c_str pre)) (verb_handler_map vh))
       (all_routes (routes_map r) []))"

section \<open>The set of routes keeps the methods\<close>

lemma verb_insert_set: "set (verb_insert v vs) = insert v (set vs)"
  by (induction vs) auto

lemma verb_insert_sorted: "sorted_wrt verb_lt vs \<Longrightarrow> sorted_wrt verb_lt (verb_insert v vs)"
  by (induction vs) (auto simp: verb_insert_set)

lemma add_route_eq:
  "add_route v route rs =
     smap_assign route_gt route (verb_insert v (case smap_get route_gt rs route of None \<Rightarrow> [] | Some vs \<Rightarrow> vs)) rs"
  by (auto simp: add_route_def route_set.insert_absent route_set.insert_present route_set.get_assign
      split: option.split)

lemma add_route_list_eq:
  "add_route_list vl route rs =
     smap_assign route_gt route
       (foldl (\<lambda>vs v. verb_insert v vs) (case smap_get route_gt rs route of None \<Rightarrow> [] | Some vs \<Rightarrow> vs) vl) rs"
  by (auto simp: add_route_list_def route_set.insert_absent route_set.insert_present route_set.get_assign
      split: option.split)

section \<open>Well-formed routers\<close>

definition wf_router :: "'h router \<Rightarrow> bool" where
  "wf_router r \<longleftrightarrow>
     wf_node (routes_map r) \<and> sorted_wrt route_gt (keys (routes r)) \<and>
     list_all (\<lambda>(_, vs). sorted_wrt verb_lt vs) (routes r)"

lemma wf_empty_router [wf_intros]: "wf_router empty_router"
  by (simp add: wf_router_def empty_router_def)

lemma wf_vh_register:
  "sorted_wrt verb_lt (keys (verb_handler_map vh)) \<Longrightarrow>
   sorted_wrt verb_lt (keys (verb_handler_map (vh_register route q h v vh)))"
  by (simp add: vh_register_def verb_map.insert_sorted)

lemma list_all_assign:
  "list_all (\<lambda>(_, x). P x) m \<Longrightarrow> P y \<Longrightarrow> list_all (\<lambda>(_, x). P x) (smap_assign lt k y m)"
  by (induction m) auto

lemma wf_add_route:
  assumes "sorted_wrt route_gt (keys rs)" and "list_all (\<lambda>(_, vs). sorted_wrt verb_lt vs) rs"
  shows "sorted_wrt route_gt (keys (add_route v route rs)) \<and>
    list_all (\<lambda>(_, vs). sorted_wrt verb_lt vs) (add_route v route rs)"
proof -
  define vs where "vs = verb_insert v (case smap_get route_gt rs route of None \<Rightarrow> [] | Some vs \<Rightarrow> vs)"
  have "sorted_wrt verb_lt (case smap_get route_gt rs route of None \<Rightarrow> [] | Some vs \<Rightarrow> vs)"
  proof (cases "smap_get route_gt rs route")
    case (Some vs)
    then obtain k where "(k, vs) \<in> set rs" using smap_get_in by metis
    then show ?thesis using assms(2) Some by (auto simp: list_all_iff)
  qed simp
  then have "sorted_wrt verb_lt vs" by (simp add: vs_def verb_insert_sorted)
  then have "list_all (\<lambda>(_, vs). sorted_wrt verb_lt vs) (smap_assign route_gt route vs rs)"
    by (rule list_all_assign [OF assms(2)])
  then show ?thesis
    using assms(1) by (simp add: add_route_eq vs_def [symmetric] route_set.assign_sorted)
qed

lemma table_find_or_create_eq:
  "table_find_or_create n route = find_or_create n (c_str route) 0"
  by (simp add: table_find_or_create_def)

lemma c_str_c_str [simp]: "c_str (c_str s) = c_str s"
  by (simp add: c_str_def takeWhile_idem)

lemma handle_table:
  "routes_map (handle route q h v r) =
     (if c_str route = ''/'' \<and> vh_at (routes_map r) [''/''] \<noteq> None then routes_map r
      else (let p = route_path (c_str route); n = add_path (routes_map r) p in
            vh_set n p (vh_register route q h v (the (vh_at n p)))))"
  by (auto simp: handle_def table_find_or_create_eq find_or_create_path Let_def vh_at_add_path
      split: option.split)

lemma vh_at_full_path: "vh_at (add_path n p) p \<noteq> None"
  by (simp add: vh_at_add_path split: option.split)

lemma wf_handle [wf_intros]: "wf_router r \<Longrightarrow> wf_router (handle route q h v r)"
proof -
  assume r: "wf_router r"
  let ?p = "route_path (c_str route)" and ?n = "add_path (routes_map r) (route_path (c_str route))"
  have "wf_node ?n" using r by (simp add: wf_router_def wf_intros)
  then have "wf_node (routes_map (handle route q h v r))"
    using r wf_vh_at [of ?n ?p] vh_at_full_path [of "routes_map r" ?p]
    by (auto simp: handle_table Let_def wf_router_def intro!: wf_vh_set wf_vh_register)
  moreover have "routes (handle route q h v r) = add_route v route (routes r)"
    by (auto simp: handle_def Let_def split: prod.split option.split)
  ultimately show ?thesis using r wf_add_route by (simp add: wf_router_def)
qed

section \<open>Registering and calling\<close>

lemma trim_slash_str:
  "route \<noteq> [] \<Longrightarrow> last route \<noteq> CHR ''/'' \<Longrightarrow> sp_str (trim_slash route) = route"
  "route \<noteq> [] \<Longrightarrow> sp_str (trim_slash (route @ ''/'')) = route"
  by (simp_all add: trim_slash_def Let_def sp_nth_str last_conv_nth sp_remove_suffix_str nth_append)

lemma trim_slash_valid: "sp_valid (trim_slash route)"
  by (simp add: trim_slash_def Let_def sp_remove_suffix_str)

text \<open>The outcome of running handler \<open>h\<close> on a task: what it hands back goes to the end of the series.\<close>

definition run_handler where
  "run_handler invoke h task =
     (case invoke h task of
        (None, task') \<Rightarrow> task'
      | (Some g, task') \<Rightarrow> task'\<lparr>series := series task' @ [g]\<rparr>)"

definition request_fields where
  "request_fields path params match_path task =
     task\<lparr>full_path := path, route_params := params, route_match_path := match_path\<rparr>"

text \<open>The handler a record has for a method: its own, else the one for any method.\<close>

definition verb_choice :: "'h verb_handler \<Rightarrow> verb \<Rightarrow> 'h option" where
  "verb_choice vh v =
     (case smap_get verb_lt (verb_handler_map vh) v of
        Some h \<Rightarrow> Some h
      | None \<Rightarrow> smap_get verb_lt (verb_handler_map vh) ANY)"

lemma call_found:
  assumes "find_route (routes_map r) (trim_slash route) 0 [] [] = Inr (Some vh, ps, mp)"
  shows "call invoke r v route task =
    (case verb_choice vh v of
       None \<Rightarrow> Inr (StatusRouteVerbNotImplment, task)
     | Some h \<Rightarrow> Inr (StatusOK, run_handler invoke h (request_fields (vh_path vh) ps mp task)))"
  using assms
  by (auto simp: call_def verb_choice_def run_handler_def request_fields_def Let_def
      split: option.splits prod.splits)

lemma call_not_found:
  "find_route (routes_map r) (trim_slash route) 0 [] [] = Inr (None, ps, mp) \<Longrightarrow>
   call invoke r v route task = Inr (StatusRouteNotFound, task)"
  by (simp add: call_def)

lemma vh_register_get:
  "smap_get verb_lt (verb_handler_map vh) v = None \<Longrightarrow>
   smap_get verb_lt (verb_handler_map (vh_register route q h v vh)) w =
     (if w = v then Some h else smap_get verb_lt (verb_handler_map vh) w)"
  by (auto simp: vh_register_def verb_map.get_insert)

definition record_of :: "'h router \<Rightarrow> string \<Rightarrow> 'h verb_handler" where
  "record_of r route =
     (case vh_at (routes_map r) (route_path route) of None \<Rightarrow> empty_vh | Some vh \<Rightarrow> vh)"

lemma handle_record:
  assumes "c_str route = route" and "route \<noteq> ''/'' \<or> vh_at (routes_map r) [''/''] = None"
  shows "vh_at (routes_map (handle route q h v r)) p =
    (if p = route_path route then Some (vh_register route q h v (record_of r route))
     else case vh_at (routes_map r) p of
        Some vh \<Rightarrow> Some vh
      | None \<Rightarrow> if prefix p (route_path route) then Some empty_vh else None)"
  using assms vh_at_full_path [of "routes_map r" "route_path route"]
  by (auto simp: handle_table Let_def vh_at_set vh_at_add_path record_of_def split: option.split)

lemma find_registered:
  assumes "NUL \<notin> set route" and "route \<noteq> []" and "last route \<noteq> CHR ''/''"
    and "smap_get verb_lt (verb_handler_map (record_of r route)) v = None"
    and "request = route \<or> request = route @ ''/''"
  shows "find_route (routes_map (handle route q h v r)) (trim_slash request) 0 [] [] =
      Inr (Some (vh_register route q h v (record_of r route)), [], [])"
    and "verb_choice (vh_register route q h v (record_of r route)) v = Some h"
    and "vh_path (vh_register route q h v (record_of r route)) = route"
proof -
  let ?vh = "vh_register route q h v (record_of r route)"
  have ns: "route \<noteq> ''/''" using assms(3) by auto
  then have at: "vh_at (routes_map (handle route q h v r)) (segs route) = Some ?vh"
    using handle_record [of route r q h v "segs route"] assms(1) by (simp add: route_path_def)
  have get: "smap_get verb_lt (verb_handler_map ?vh) v = Some h"
    using assms(4) by (simp add: vh_register_get)
  then have ne: "verb_handler_map ?vh \<noteq> []" by auto
  have tr: "sp_str (trim_slash request) = route"
    using assms(2,3,5) trim_slash_str by auto
  show "find_route (routes_map (handle route q h v r)) (trim_slash request) 0 [] [] = Inr (Some ?vh, [], [])"
    using trim_slash_valid at ne assms(2,3) by (intro find_route_static) (simp_all add: tr)
  show "verb_choice ?vh v = Some h" "vh_path ?vh = route"
    using get assms(4) by (simp_all add: verb_choice_def vh_register_def)
qed

text \<open>
  C2. Registration followed by a request. When a route without patterns is registered for a method
  it had no handler for, a request for that route with that method (with or without a slash at
  the end) runs exactly that handler, whatever else is registered, with the registered route as
  full path, no parameters and an empty match path, and what the handler hands back is put at the
  end of the series.
\<close>

theorem handle_then_call:
  assumes "NUL \<notin> set route" and "route \<noteq> []" and "last route \<noteq> CHR ''/''"
    and "smap_get verb_lt (verb_handler_map (record_of r route)) v = None"
    and "request = route \<or> request = route @ ''/''"
  shows "call invoke (handle route q h v r) v request task =
    Inr (StatusOK, run_handler invoke h (request_fields route [] [] task))"
  using find_registered [OF assms] by (simp add: call_found)

text \<open>A concrete interpretation of the handlers: number \<open>n\<close> logs itself and hands back the task \<open>n + 1\<close>.\<close>

definition log_handler :: "nat \<Rightarrow> (nat list, nat) server_task \<Rightarrow> nat option \<times> (nat list, nat) server_task" where
  "log_handler n task = (Some (n + 1), task\<lparr>world := world task @ [n]\<rparr>)"

definition idle_task :: "(nat list, nat) server_task" where
  "idle_task = \<lparr>full_path = [], route_params = [], route_match_path = [], series = [], world = []\<rparr>"

theorem handle_then_call_witness:
  "call log_handler (handle ''/a'' (-1) 7 GET empty_router) GET ''/a/'' idle_task =
     Inr (StatusOK, run_handler log_handler 7 (request_fields ''/a'' [] [] idle_task))"
  by (rule handle_then_call) (simp_all add: record_of_def empty_router_def split: option.split)

text \<open>
  A registration changes one record: after \<^verbatim>\<open>handle\<close> the record at the route's path is the
  old one with the handler added under its method (unless the method had one), the nodes on the
  way exist with an empty record if they did not before, and every other record is as it was.
\<close>

theorem handle_changes_one_record:
  assumes "NUL \<notin> set route" and "route \<noteq> ''/''"
  shows "vh_at (routes_map (handle route q h v r)) p =
    (if p = segs route then Some (vh_register route q h v (record_of r route))
     else case vh_at (routes_map r) p of
        Some vh \<Rightarrow> Some vh
      | None \<Rightarrow> if prefix p (segs route) then Some empty_vh else None)"
  using handle_record [of route r q h v p] assms by (simp add: route_path_def)

theorem handle_changes_one_record_witness:
  "vh_at (routes_map (handle ''/a/b'' 3 (7::nat) GET empty_router)) [''a''] = Some empty_vh"
  using handle_changes_one_record [of "''/a/b''" 3 "7::nat" GET empty_router "[''a'']"]
  by (simp add: segs.simps empty_router_def del: vh_at.simps)

text \<open>
  The first registration of a method for a route wins: registering the same route and method
  again, with whatever handler, leaves the table as it is.
\<close>

theorem handle_first_wins:
  "routes_map (handle route q2 h2 v (handle route q1 h1 v r)) = routes_map (handle route q1 h1 v r)"
proof (cases "c_str route = ''/'' \<and> vh_at (routes_map r) [''/''] \<noteq> None")
  case True
  then show ?thesis by (simp add: handle_table)
next
  case False
  let ?p = "route_path (c_str route)" and ?n = "routes_map (handle route q1 h1 v r)"
  let ?vh = "the (vh_at (add_path (routes_map r) ?p) ?p)"
  have n: "?n = vh_set (add_path (routes_map r) ?p) ?p (vh_register route q1 h1 v ?vh)"
    using False by (auto simp: handle_table Let_def)
  have at: "vh_at ?n ?p = Some (vh_register route q1 h1 v ?vh)"
    unfolding n by (simp only: vh_at_set [OF vh_at_full_path] simp_thms if_True)
  have has: "smap_get verb_lt (verb_handler_map (vh_register route q1 h1 v ?vh)) v \<noteq> None"
    by (auto simp: vh_register_def verb_map.get_insert)
  have id: "vh_register route q2 h2 v (vh_register route q1 h1 v ?vh) = vh_register route q1 h1 v ?vh"
    using has by (subst vh_register_def) simp
  have "add_path ?n ?p = ?n" "vh_set ?n ?p (vh_register route q1 h1 v ?vh) = ?n"
    using at by (simp_all add: add_path_present vh_set_same)
  then show ?thesis
    by (subst handle_table) (simp add: Let_def at id)
qed

text \<open>
  Dispatch that fails has no effect: when the call reports an error, no handler ran, the task
  (request fields, series and world) is the one passed in, and the error is that the route is not
  there or that it has no handler for the method.
\<close>

theorem call_error_keeps_task:
  assumes "call invoke r v route task = Inr (e, task')" and "e \<noteq> StatusOK"
  shows "task' = task \<and> e \<in> {StatusRouteNotFound, StatusRouteVerbNotImplment}"
  using assms
  by (auto simp: call_def Let_def split: sum.splits option.splits if_splits prod.splits)

theorem call_error_keeps_task_witness:
  "call log_handler (handle ''/a'' (-1) 7 GET empty_router) POST ''/a'' idle_task =
     Inr (StatusRouteVerbNotImplment, idle_task)"
proof -
  let ?r = "handle ''/a'' (-1) 7 GET empty_router" and ?vh = "vh_register ''/a'' (-1) (7::nat) GET empty_vh"
  have "vh_at (routes_map ?r) (segs ''/a'') = Some ?vh"
    using handle_record [of "''/a''" empty_router "-1" "7::nat" GET "segs ''/a''"]
    by (simp add: route_path_def record_of_def empty_router_def split: option.split)
  then have f: "find_route (routes_map ?r) (trim_slash ''/a'') 0 [] [] = Inr (Some ?vh, [], [])"
    using trim_slash_str(1) [of "''/a''"] trim_slash_valid
    by (intro find_route_static) (simp_all add: vh_register_def)
  have "call log_handler ?r POST ''/a'' idle_task = Inr (StatusRouteVerbNotImplment, idle_task)"
    by (simp add: call_found [OF f] verb_choice_def vh_register_def less_verb_def)
  then show ?thesis using call_error_keeps_task [of log_handler ?r POST "''/a''" idle_task] by simp
qed

lemma find_root:
  assumes "vh_at n [''/''] = Some vh" and "verb_handler_map vh \<noteq> []"
  shows "find_route n (trim_slash ''/'') 0 [] [] = Inr (Some vh, [], [])"
proof (cases n)
  case (Node vh0 ch)
  obtain c where c: "child_get ch ''/'' = Some c" "node_vh c = vh"
    using assms(1) by (auto simp: Node split: option.splits)
  then have ch: "ch \<noteq> []" by auto
  have t: "trim_slash ''/'' = sp_of_str ''/''" by (simp add: trim_slash_def)
  have "find_route c (sp_of_str ''/'') (0 + 1) [] [] = Inr (Some vh, [], [])"
    using c(2) assms(2) by (cases c) (simp add: find_route.simps)
  then show ?thesis
    unfolding Node t using c(1) ch by (subst find_route.simps) simp
qed

text \<open>
  The route that is a single slash accepts one registration: the first method registered for it
  is served, and a second method registered for it afterwards is lost, so that a request with it is
  answered with the error for a missing method.
\<close>

theorem root_second_verb_lost:
  assumes "vh_at (routes_map r) [''/''] = None" and "v \<noteq> w" and "v \<noteq> ANY"
  shows "call invoke (handle ''/'' q2 h2 w (handle ''/'' q1 h1 v r)) v ''/'' task =
      Inr (StatusOK, run_handler invoke h1 (request_fields ''/'' [] [] task)) \<and>
    call invoke (handle ''/'' q2 h2 w (handle ''/'' q1 h1 v r)) w ''/'' task =
      Inr (StatusRouteVerbNotImplment, task)"
proof -
  let ?vh = "vh_register ''/'' q1 h1 v empty_vh"
  have at: "vh_at (routes_map (handle ''/'' q1 h1 v r)) [''/''] = Some ?vh"
    using handle_record [of "''/''" r q1 h1 v "[''/'']"] assms(1)
    by (simp add: route_path_def record_of_def del: vh_at.simps)
  then have "routes_map (handle ''/'' q2 h2 w (handle ''/'' q1 h1 v r)) = routes_map (handle ''/'' q1 h1 v r)"
    by (subst handle_table) (simp del: vh_at.simps)
  then have f: "find_route (routes_map (handle ''/'' q2 h2 w (handle ''/'' q1 h1 v r))) (trim_slash ''/'') 0 [] [] =
      Inr (Some ?vh, [], [])"
    using find_root [OF at] by (simp add: vh_register_def)
  show ?thesis
    unfolding call_found [OF f] using assms(2,3)
    by (auto simp: verb_choice_def vh_register_def)
qed

theorem root_second_verb_lost_witness:
  "call log_handler (handle ''/'' (-1) 8 POST (handle ''/'' (-1) 7 GET empty_router)) POST ''/'' idle_task =
     Inr (StatusRouteVerbNotImplment, idle_task)"
  using root_second_verb_lost [of empty_router GET POST log_handler "-1" 8 "-1" 7 idle_task]
  by (simp add: empty_router_def del: vh_at.simps)

text \<open>Evaluation of concrete tables and lookups by rewriting.\<close>

lemmas table_eval = handle_table Let_def route_path_def segs.simps empty_router_def empty_node_def empty_vh_def
  vh_register_def less_char_def

lemmas lookup_eval = find_route.simps walk.simps match_pattern.simps sp_read_def sp_str_def sp_window_def
  sp_of_str_def seg_end_def is_wildcard_def is_param_def param_name_def sp_as_string_def sp_shrink_def

text \<open>
  Parameters of an abandoned branch stay bound: with \<^verbatim>\<open>/a/{x}/c\<close> and \<^verbatim>\<open>/{y}/b/d\<close>
  registered, a request for \<^verbatim>\<open>/a/b/d\<close> reaches the second route with \<open>x\<close> bound as well,
  a name the route does not have.
\<close>

theorem stale_parameter:
  "call log_handler (handle ''/{y}/b/d'' (-1) 8 GET (handle ''/a/{x}/c'' (-1) 7 GET empty_router)) GET ''/a/b/d'' idle_task =
     Inr (StatusOK, run_handler log_handler 8
       (request_fields ''/{y}/b/d'' [(''x'', ''b''), (''y'', ''a'')] [] idle_task))"
proof -
  have t: "trim_slash ''/a/b/d'' = sp_of_str ''/a/b/d''" by (simp add: trim_slash_def sp_nth_str)
  have f: "find_route (routes_map (handle ''/{y}/b/d'' (-1) 8 GET (handle ''/a/{x}/c'' (-1) (7::nat) GET empty_router)))
      (trim_slash ''/a/b/d'') 0 [] [] =
      Inr (Some \<lparr>verb_handler_map = [(GET, 8)], vh_path = ''/{y}/b/d'', compute_queue_id = Some (- 1)\<rparr>,
        [(''x'', ''b''), (''y'', ''a'')], [])"
    unfolding t by (simp add: table_eval lookup_eval)
  show ?thesis by (simp add: call_found [OF f] verb_choice_def)
qed



end
