(* ===== verification/Aspects.thy ===== *)
theory Aspects
  imports Router
begin

text \<open>
  \<^verbatim>\<open>src/core/Aspect.h\<close>, \<^verbatim>\<open>Aspect.cc\<close>, \<^verbatim>\<open>AopUtil.h\<close> and the request side of
  \<^verbatim>\<open>BluePrint.cc\<close> and \<^verbatim>\<open>BluePrint.inl\<close>: what a registered route does when the router calls it.
  The C++ code stores closures; here a closure is the data it captures (\<open>wrap\<close> for a route,
  \<open>callback\<close> for what it adds to the server task, \<open>go_task\<close> for what it hands to a compute
  queue) and a function that runs it. User handlers and aspects are type variables \<open>'h\<close> and
  \<open>'a\<close>, run by the functions of an \<open>app\<close>; they work on the user's world \<open>'u\<close>, and a handler
  that takes the series may also append tasks to it.
\<close>

section \<open>The application\<close>

datatype ('h, 'a) callback =
    GlobalAfter               \<comment> \<open>the lambda of the routes without aspects of their own\<close>
  | TupleAfter "'a list"      \<comment> \<open>the lambda of \<^verbatim>\<open>aop_process\<close>, which owns the tuple\<close>
  | Track                     \<comment> \<open>the track function of the server\<close>

record 'h go_task =
  queue_name :: string
  go_handler :: 'h
  go_series :: bool

record ('u, 'h, 'a) run_world =
  user :: 'u
  aspect_list :: "'a list"
  cb_list :: "('h, 'a) callback list"
  live_tuples :: nat

type_synonym ('u, 'h, 'a) task = "(('u, 'h, 'a) run_world, 'h go_task) server_task"

record ('u, 'h, 'a) app =
  run_plain :: "'h \<Rightarrow> 'u \<Rightarrow> 'u"
  run_with_series :: "'h \<Rightarrow> 'u \<Rightarrow> 'h go_task list \<Rightarrow> 'u \<times> 'h go_task list"
  before :: "'a \<Rightarrow> 'u \<Rightarrow> bool \<times> 'u"
  after :: "'a \<Rightarrow> 'u \<Rightarrow> bool \<times> 'u"

section \<open>Aspects\<close>

text \<open>\<^verbatim>\<open>aop_before\<close>, \<^verbatim>\<open>aop_after\<close>: \<^verbatim>\<open>for_each\<close> over the tuple with the flag \<^verbatim>\<open>ret\<close>.\<close>

definition aop_before :: "('u, 'h, 'a) app \<Rightarrow> 'a list \<Rightarrow> 'u \<Rightarrow> bool \<times> 'u" where
  "aop_before app tp u = foldl (\<lambda>(ret, u) item. if \<not> ret then (ret, u) else before app item u) (True, u) tp"

definition aop_after :: "('u, 'h, 'a) app \<Rightarrow> 'a list \<Rightarrow> 'u \<Rightarrow> bool \<times> 'u" where
  "aop_after app tp u = foldl (\<lambda>(ret, u) item. if \<not> ret then (ret, u) else after app item u) (True, u) tp"

text \<open>The loops over the global list: one that drops the results, one that stops at a failure.\<close>

definition global_before_all :: "('u, 'h, 'a) app \<Rightarrow> 'a list \<Rightarrow> 'u \<Rightarrow> 'u" where
  "global_before_all app as u = foldl (\<lambda>u a. snd (before app a u)) u as"

definition global_after_all :: "('u, 'h, 'a) app \<Rightarrow> 'a list \<Rightarrow> 'u \<Rightarrow> 'u" where
  "global_after_all app as u = foldl (\<lambda>u a. snd (after app a u)) u as"

fun global_before :: "('u, 'h, 'a) app \<Rightarrow> 'a list \<Rightarrow> 'u \<Rightarrow> bool \<times> 'u" where
  "global_before app [] u = (True, u)"
| "global_before app (a # as) u =
     (case before app a u of (ret, u') \<Rightarrow> if \<not> ret then (False, u') else global_before app as u')"

section \<open>Running a route\<close>

datatype ('h, 'a) wrap =
    PlainRoute bool "int option" 'h
  | AopRoute bool "int option" 'h "'a list"

abbreviation upd_user :: "'u \<Rightarrow> ('u, 'h, 'a) task \<Rightarrow> ('u, 'h, 'a) task" where
  "upd_user u t \<equiv> t\<lparr>world := (world t)\<lparr>user := u\<rparr>\<rparr>"

abbreviation user_of :: "('u, 'h, 'a) task \<Rightarrow> 'u" where
  "user_of t \<equiv> user (world t)"

definition add_callback :: "('h, 'a) callback \<Rightarrow> ('u, 'h, 'a) task \<Rightarrow> ('u, 'h, 'a) task" where
  "add_callback cb t = t\<lparr>world := (world t)\<lparr>cb_list := cb_list (world t) @ [cb]\<rparr>\<rparr>"

text \<open>\<^verbatim>\<open>handler (req, resp)\<close> or \<^verbatim>\<open>handler (req, resp, series)\<close>.\<close>

definition run_user :: "('u, 'h, 'a) app \<Rightarrow> bool \<Rightarrow> 'h \<Rightarrow> ('u, 'h, 'a) task \<Rightarrow> ('u, 'h, 'a) task" where
  "run_user app with_series h t =
     (if with_series
      then (let (u, s) = run_with_series app h (user_of t) (series t) in (upd_user u t)\<lparr>series := s\<rparr>)
      else upd_user (run_plain app h (user_of t)) t)"

definition create_go_task :: "int \<Rightarrow> bool \<Rightarrow> 'h \<Rightarrow> 'h go_task" where
  "create_go_task queue_id with_series h =
     \<lparr>queue_name = ''wfrest'' @ show_int queue_id, go_handler = h, go_series = with_series\<rparr>"

text \<open>The lambdas of the four \<^verbatim>\<open>BluePrint::ROUTE\<close> in \<^verbatim>\<open>BluePrint.cc\<close>.\<close>

definition plain_route :: "('u, 'h, 'a) app \<Rightarrow> bool \<Rightarrow> int option \<Rightarrow> 'h \<Rightarrow> ('u, 'h, 'a) task \<Rightarrow>
    'h go_task option \<times> ('u, 'h, 'a) task" where
  "plain_route app with_series queue h t =
     (let as = aspect_list (world t);
          t1 = upd_user (global_before_all app as (user_of t)) t;
          (go, t2) = (case queue of
                        None \<Rightarrow> (None, run_user app with_series h t1)
                      | Some q \<Rightarrow> (Some (create_go_task q with_series h), t1));
          t3 = (if aspect_list (world t2) \<noteq> [] then add_callback GlobalAfter t2 else t2) in
      (go, t3))"

text \<open>\<^verbatim>\<open>aop_process\<close> and \<^verbatim>\<open>aop_compute_process\<close>, after the \<^verbatim>\<open>new\<close> of the tuple.\<close>

definition aop_process :: "('u, 'h, 'a) app \<Rightarrow> bool \<Rightarrow> int option \<Rightarrow> 'h \<Rightarrow> 'a list \<Rightarrow>
    ('u, 'h, 'a) task \<Rightarrow> 'h go_task option \<times> ('u, 'h, 'a) task" where
  "aop_process app with_series queue h tp t =
     (case aop_before app tp (user_of t) of (ret, u) \<Rightarrow>
      (let t1 = upd_user u t in
       if \<not> ret then (None, t1)
       else (case global_before app (aspect_list (world t1)) u of (ret', u') \<Rightarrow>
             (let t2 = upd_user u' t1 in
              if \<not> ret' then (None, t2)
              else (case queue of
                      None \<Rightarrow> (None, add_callback (TupleAfter tp) (run_user app with_series h t2))
                    | Some q \<Rightarrow> (Some (create_go_task q with_series h), add_callback (TupleAfter tp) t2))))))"

definition aop_route :: "('u, 'h, 'a) app \<Rightarrow> bool \<Rightarrow> int option \<Rightarrow> 'h \<Rightarrow> 'a list \<Rightarrow>
    ('u, 'h, 'a) task \<Rightarrow> 'h go_task option \<times> ('u, 'h, 'a) task" where
  "aop_route app with_series queue h ap t =
     aop_process app with_series queue h ap (t\<lparr>world := (world t)\<lparr>live_tuples := live_tuples (world t) + 1\<rparr>\<rparr>)"

fun invoke :: "('u, 'h, 'a) app \<Rightarrow> ('h, 'a) wrap \<Rightarrow> ('u, 'h, 'a) task \<Rightarrow>
    'h go_task option \<times> ('u, 'h, 'a) task" where
  "invoke app (PlainRoute with_series queue h) t = plain_route app with_series queue h t"
| "invoke app (AopRoute with_series queue h ap) t = aop_route app with_series queue h ap t"

section \<open>Running the callbacks\<close>

text \<open>What a callback does when the task is finished; \<open>track\<close> is the track function.\<close>

fun run_callback :: "('u, 'h, 'a) app \<Rightarrow> ('u \<Rightarrow> 'u) \<Rightarrow> ('h, 'a) callback \<Rightarrow>
    ('u, 'h, 'a) run_world \<Rightarrow> ('u, 'h, 'a) run_world" where
  "run_callback app track GlobalAfter w = w\<lparr>user := global_after_all app (aspect_list w) (user w)\<rparr>"
| "run_callback app track (TupleAfter tp) w =
     w\<lparr>user := global_after_all app (aspect_list w) (snd (aop_after app tp (user w))),
       live_tuples := live_tuples w - 1\<rparr>"
| "run_callback app track Track w = w\<lparr>user := track (user w)\<rparr>"

definition run_callbacks :: "('u, 'h, 'a) app \<Rightarrow> ('u \<Rightarrow> 'u) \<Rightarrow> ('u, 'h, 'a) task \<Rightarrow> ('u, 'h, 'a) task" where
  "run_callbacks app track t =
     t\<lparr>world := foldl (\<lambda>w cb. run_callback app track cb w) (world t) (cb_list (world t))\<rparr>"

section \<open>Properties\<close>

lemma flag_fold_stopped:
  "foldl (\<lambda>(ret, u) item. if \<not> ret then (ret, u) else f item u) (False, u) tp = (False, u)"
  by (induction tp) simp_all

text \<open>
  The two ways of running \<^verbatim>\<open>before\<close> agree: the fold with the flag over a tuple gives the
  same verdict and the same world as the loop over a vector that returns at the first failure; no
  aspect after a failing one runs.
\<close>

theorem aop_before_stops:
  "aop_before app tp u = global_before app tp u"
proof (induction tp arbitrary: u)
  case Nil
  then show ?case by (simp add: aop_before_def)
next
  case (Cons a tp)
  obtain ret u' where b: "before app a u = (ret, u')" by (cases "before app a u")
  show ?case
    using Cons.IH [of u'] by (cases ret) (simp_all add: aop_before_def b flag_fold_stopped)
qed

text \<open>
  A failing \<^verbatim>\<open>before\<close>, of the route's own aspects or of a global one, keeps the handler of a
  route with aspects from running: no task is handed back, no callback is added, the series is
  untouched, and the world is what the aspects made of it. The tuple allocated for the request is
  not released, since only the callback deletes it.
\<close>

theorem aop_failure_stops:
  assumes "\<not> fst (aop_before app ap (user_of t)) \<or>
    \<not> fst (global_before app (aspect_list (world t)) (snd (aop_before app ap (user_of t))))"
  shows "fst (invoke app (AopRoute with_series queue h ap) t) = None \<and>
    cb_list (world (snd (invoke app (AopRoute with_series queue h ap) t))) = cb_list (world t) \<and>
    series (snd (invoke app (AopRoute with_series queue h ap) t)) = series t \<and>
    live_tuples (world (snd (invoke app (AopRoute with_series queue h ap) t))) = live_tuples (world t) + 1 \<and>
    user_of (snd (invoke app (AopRoute with_series queue h ap) t)) =
      (case aop_before app ap (user_of t) of
         (ok, u) \<Rightarrow> if ok then snd (global_before app (aspect_list (world t)) u) else u)"
  using assms
  by (cases "aop_before app ap (user_of t)") (auto simp: aop_route_def aop_process_def Let_def split: prod.split)

text \<open>A concrete application: handlers and aspects write their number into a log; aspect 0 refuses.\<close>

definition log_app :: "(nat list, nat, nat) app" where
  "log_app = \<lparr>run_plain = (\<lambda>h u. u @ [100 + h]), run_with_series = (\<lambda>h u s. (u @ [100 + h], s)),
     before = (\<lambda>a u. (a \<noteq> 0, u @ [a])), after = (\<lambda>a u. (True, u @ [50 + a]))\<rparr>"

definition log_task :: "nat list \<Rightarrow> (nat list, nat, nat) task" where
  "log_task as = \<lparr>full_path = [], route_params = [], route_match_path = [], series = [],
     world = \<lparr>user = [], aspect_list = as, cb_list = [], live_tuples = 0\<rparr>\<rparr>"

theorem aop_failure_stops_witness:
  "user_of (snd (invoke log_app (AopRoute False None 7 [1, 0, 2]) (log_task []))) = [1, 0] \<and>
   live_tuples (world (snd (invoke log_app (AopRoute False None 7 [1, 0, 2]) (log_task [])))) = 1"
  using aop_failure_stops [of log_app "[1, 0, 2]" "log_task []" False None 7]
  by (simp add: log_app_def log_task_def aop_before_def)

text \<open>
  C10. The order of a request on a route with aspects when every \<^verbatim>\<open>before\<close> succeeds: own
  \<^verbatim>\<open>before\<close>s, global \<^verbatim>\<open>before\<close>s, the handler, and when the task is finished the own
  \<^verbatim>\<open>after\<close>s and the global \<^verbatim>\<open>after\<close>s; the tuple is released exactly once.
\<close>

theorem aop_request_order:
  assumes "aop_before app ap (user_of t) = (True, u1)"
    and "global_before app (aspect_list (world t)) u1 = (True, u2)"
    and "cb_list (world t) = []"
  shows "fst (invoke app (AopRoute False None h ap) t) = None \<and>
    user_of (run_callbacks app track (snd (invoke app (AopRoute False None h ap) t))) =
      global_after_all app (aspect_list (world t)) (snd (aop_after app ap (run_plain app h u2))) \<and>
    live_tuples (world (run_callbacks app track (snd (invoke app (AopRoute False None h ap) t)))) =
      live_tuples (world t)"
  using assms
  by (simp add: aop_route_def aop_process_def run_user_def add_callback_def run_callbacks_def)

theorem aop_request_order_witness:
  "user_of (run_callbacks log_app id (snd (invoke log_app (AopRoute False None 7 [1, 2]) (log_task [3])))) =
     [1, 2, 3, 107, 51, 52, 53]"
  using aop_request_order [of log_app "[1, 2]" "log_task [3]" "[1, 2]" "[1, 2, 3]" 7 id]
  by (simp add: log_app_def log_task_def aop_before_def aop_after_def global_after_all_def)

lemma global_before_ok: "global_before app as u = (True, u') \<Longrightarrow> global_before_all app as u = u'"
  by (induction as arbitrary: u) (auto simp: global_before_all_def split: prod.splits if_splits)

text \<open>
  A route without aspects runs its handler whatever the global \<^verbatim>\<open>before\<close>s answer: all of
  them run, their verdicts are dropped, and the handler runs after them, in the request or, for a
  route with a queue, as the task handed back. When they all succeed the world is the same as
  for a route with an empty list of aspects.
\<close>

theorem plain_route_ignores_verdict:
  "user_of (snd (invoke app (PlainRoute False None h) t)) =
      run_plain app h (global_before_all app (aspect_list (world t)) (user_of t)) \<and>
   fst (invoke app (PlainRoute ws (Some q) h) t) = Some (create_go_task q ws h) \<and>
   (fst (global_before app (aspect_list (world t)) (user_of t)) \<longrightarrow>
      user_of (snd (invoke app (PlainRoute False None h) t)) =
      user_of (snd (invoke app (AopRoute False None h []) t)))"
  using global_before_ok [of app "aspect_list (world t)" "user_of t"]
  by (cases "global_before app (aspect_list (world t)) (user_of t)")
    (auto simp: plain_route_def Let_def run_user_def add_callback_def aop_route_def aop_process_def aop_before_def)

theorem plain_route_ignores_verdict_witness:
  "user_of (snd (invoke log_app (PlainRoute False None 7) (log_task [1, 0, 2]))) = [1, 0, 2, 107] \<and>
   user_of (snd (invoke log_app (PlainRoute False None 7) (log_task [1, 2]))) =
     user_of (snd (invoke log_app (AopRoute False None 7 []) (log_task [1, 2])))"
proof
  show "user_of (snd (invoke log_app (PlainRoute False None 7) (log_task [1, 0, 2]))) = [1, 0, 2, 107]"
    using plain_route_ignores_verdict [of log_app 7 "log_task [1, 0, 2]" False 0]
    by (simp add: log_app_def log_task_def global_before_all_def)
  show "user_of (snd (invoke log_app (PlainRoute False None 7) (log_task [1, 2]))) =
     user_of (snd (invoke log_app (AopRoute False None 7 []) (log_task [1, 2])))"
  proof -
    have "fst (global_before log_app (aspect_list (world (log_task [1, 2]))) (user_of (log_task [1, 2])))"
      by (simp add: log_app_def log_task_def)
    then show ?thesis using plain_route_ignores_verdict [of log_app 7 "log_task [1, 2]" False 0] by blast
  qed
qed

end
