(* ===== verification/Blue_Print.thy ===== *)
theory Blue_Print
  imports Aspects
begin

text \<open>
  \<^verbatim>\<open>src/core/BluePrint.h\<close>, \<^verbatim>\<open>BluePrint.cc\<close>, \<^verbatim>\<open>BluePrint.inl\<close>: the registration side. A
  blueprint is a router of wrapped routes. The overloads of \<^verbatim>\<open>ROUTE\<close> differ in the handler
  type (plain or with the series), in the compute queue, in the aspects, and in naming one method
  or a list of them; each has its definition, and \<^verbatim>\<open>GET\<close>, \<^verbatim>\<open>POST\<close>, \<^verbatim>\<open>DELETE\<close>,
  \<^verbatim>\<open>PATCH\<close>, \<^verbatim>\<open>PUT\<close>, \<^verbatim>\<open>HEAD\<close> are one definition with the method as argument. A suffix
  \<open>_s\<close> marks the series handler, \<open>_q\<close> the queue, \<open>_m\<close> the list of methods, \<open>_ap\<close> the aspects.
\<close>

record ('h, 'a) blue_print =
  bp_router :: "('h, 'a) wrap router"

definition empty_bp :: "('h, 'a) blue_print" where
  "empty_bp = \<lparr>bp_router = empty_router\<rparr>"

definition bp_handle :: "string \<Rightarrow> int \<Rightarrow> ('h, 'a) wrap \<Rightarrow> verb \<Rightarrow> ('h, 'a) blue_print \<Rightarrow> ('h, 'a) blue_print" where
  "bp_handle route queue_id wrap_handler verb bp = bp\<lparr>bp_router := handle route queue_id wrap_handler verb (bp_router bp)\<rparr>"

section \<open>Routes without aspects\<close>

definition ROUTE :: "string \<Rightarrow> 'h \<Rightarrow> verb \<Rightarrow> ('h, 'a) blue_print \<Rightarrow> ('h, 'a) blue_print" where
  "ROUTE route handler verb bp = bp_handle route (-1) (PlainRoute False None handler) verb bp"

definition ROUTE_q :: "string \<Rightarrow> int \<Rightarrow> 'h \<Rightarrow> verb \<Rightarrow> ('h, 'a) blue_print \<Rightarrow> ('h, 'a) blue_print" where
  "ROUTE_q route queue_id handler verb bp =
     bp_handle route queue_id (PlainRoute False (Some queue_id) handler) verb bp"

definition ROUTE_m :: "string \<Rightarrow> 'h \<Rightarrow> string list \<Rightarrow> ('h, 'a) blue_print \<Rightarrow> ('h, 'a) blue_print" where
  "ROUTE_m route handler methods bp =
     foldl (\<lambda>bp m. ROUTE route handler (str_to_verb m) bp) bp methods"

definition ROUTE_qm :: "string \<Rightarrow> int \<Rightarrow> 'h \<Rightarrow> string list \<Rightarrow> ('h, 'a) blue_print \<Rightarrow> ('h, 'a) blue_print" where
  "ROUTE_qm route queue_id handler methods bp =
     foldl (\<lambda>bp m. ROUTE_q route queue_id handler (str_to_verb m) bp) bp methods"

definition METHOD :: "verb \<Rightarrow> string \<Rightarrow> 'h \<Rightarrow> ('h, 'a) blue_print \<Rightarrow> ('h, 'a) blue_print" where
  "METHOD verb route handler bp = ROUTE route handler verb bp"

definition METHOD_q :: "verb \<Rightarrow> string \<Rightarrow> int \<Rightarrow> 'h \<Rightarrow> ('h, 'a) blue_print \<Rightarrow> ('h, 'a) blue_print" where
  "METHOD_q verb route queue_id handler bp = ROUTE_q route queue_id handler verb bp"

definition ROUTE_s :: "string \<Rightarrow> 'h \<Rightarrow> verb \<Rightarrow> ('h, 'a) blue_print \<Rightarrow> ('h, 'a) blue_print" where
  "ROUTE_s route handler verb bp = bp_handle route (-1) (PlainRoute True None handler) verb bp"

definition ROUTE_sq :: "string \<Rightarrow> int \<Rightarrow> 'h \<Rightarrow> verb \<Rightarrow> ('h, 'a) blue_print \<Rightarrow> ('h, 'a) blue_print" where
  "ROUTE_sq route queue_id handler verb bp =
     bp_handle route queue_id (PlainRoute True (Some queue_id) handler) verb bp"

definition ROUTE_sm :: "string \<Rightarrow> 'h \<Rightarrow> string list \<Rightarrow> ('h, 'a) blue_print \<Rightarrow> ('h, 'a) blue_print" where
  "ROUTE_sm route handler methods bp =
     foldl (\<lambda>bp m. ROUTE_s route handler (str_to_verb m) bp) bp methods"

definition ROUTE_sqm :: "string \<Rightarrow> int \<Rightarrow> 'h \<Rightarrow> string list \<Rightarrow> ('h, 'a) blue_print \<Rightarrow> ('h, 'a) blue_print" where
  "ROUTE_sqm route queue_id handler methods bp =
     foldl (\<lambda>bp m. ROUTE_sq route queue_id handler (str_to_verb m) bp) bp methods"

text \<open>The methods for a series handler without a queue pass \<open>-1\<close> as the queue.\<close>

definition METHOD_s :: "verb \<Rightarrow> string \<Rightarrow> 'h \<Rightarrow> ('h, 'a) blue_print \<Rightarrow> ('h, 'a) blue_print" where
  "METHOD_s verb route handler bp = ROUTE_sq route (-1) handler verb bp"

definition METHOD_sq :: "verb \<Rightarrow> string \<Rightarrow> int \<Rightarrow> 'h \<Rightarrow> ('h, 'a) blue_print \<Rightarrow> ('h, 'a) blue_print" where
  "METHOD_sq verb route queue_id handler bp = ROUTE_sq route queue_id handler verb bp"

section \<open>Routes with aspects\<close>

definition ROUTE_ap :: "string \<Rightarrow> 'h \<Rightarrow> verb \<Rightarrow> 'a list \<Rightarrow> ('h, 'a) blue_print \<Rightarrow> ('h, 'a) blue_print" where
  "ROUTE_ap route handler verb ap bp = bp_handle route (-1) (AopRoute False None handler ap) verb bp"

definition ROUTE_q_ap :: "string \<Rightarrow> int \<Rightarrow> 'h \<Rightarrow> verb \<Rightarrow> 'a list \<Rightarrow> ('h, 'a) blue_print \<Rightarrow> ('h, 'a) blue_print" where
  "ROUTE_q_ap route queue_id handler verb ap bp =
     bp_handle route queue_id (AopRoute False (Some queue_id) handler ap) verb bp"

definition ROUTE_m_ap :: "string \<Rightarrow> 'h \<Rightarrow> string list \<Rightarrow> 'a list \<Rightarrow> ('h, 'a) blue_print \<Rightarrow> ('h, 'a) blue_print" where
  "ROUTE_m_ap route handler methods ap bp =
     foldl (\<lambda>bp m. ROUTE_ap route handler (str_to_verb m) ap bp) bp methods"

definition ROUTE_qm_ap :: "string \<Rightarrow> int \<Rightarrow> 'h \<Rightarrow> string list \<Rightarrow> 'a list \<Rightarrow> ('h, 'a) blue_print \<Rightarrow> ('h, 'a) blue_print" where
  "ROUTE_qm_ap route queue_id handler methods ap bp =
     foldl (\<lambda>bp m. ROUTE_q_ap route queue_id handler (str_to_verb m) ap bp) bp methods"

definition METHOD_ap :: "verb \<Rightarrow> string \<Rightarrow> 'h \<Rightarrow> 'a list \<Rightarrow> ('h, 'a) blue_print \<Rightarrow> ('h, 'a) blue_print" where
  "METHOD_ap verb route handler ap bp = ROUTE_ap route handler verb ap bp"

definition METHOD_q_ap :: "verb \<Rightarrow> string \<Rightarrow> int \<Rightarrow> 'h \<Rightarrow> 'a list \<Rightarrow> ('h, 'a) blue_print \<Rightarrow> ('h, 'a) blue_print" where
  "METHOD_q_ap verb route queue_id handler ap bp = ROUTE_q_ap route queue_id handler verb ap bp"

definition ROUTE_s_ap :: "string \<Rightarrow> 'h \<Rightarrow> verb \<Rightarrow> 'a list \<Rightarrow> ('h, 'a) blue_print \<Rightarrow> ('h, 'a) blue_print" where
  "ROUTE_s_ap route handler verb ap bp = bp_handle route (-1) (AopRoute True None handler ap) verb bp"

definition ROUTE_sq_ap :: "string \<Rightarrow> int \<Rightarrow> 'h \<Rightarrow> verb \<Rightarrow> 'a list \<Rightarrow> ('h, 'a) blue_print \<Rightarrow> ('h, 'a) blue_print" where
  "ROUTE_sq_ap route queue_id handler verb ap bp =
     bp_handle route queue_id (AopRoute True (Some queue_id) handler ap) verb bp"

definition ROUTE_sm_ap :: "string \<Rightarrow> 'h \<Rightarrow> string list \<Rightarrow> 'a list \<Rightarrow> ('h, 'a) blue_print \<Rightarrow> ('h, 'a) blue_print" where
  "ROUTE_sm_ap route handler methods ap bp =
     foldl (\<lambda>bp m. ROUTE_s_ap route handler (str_to_verb m) ap bp) bp methods"

definition ROUTE_sqm_ap :: "string \<Rightarrow> int \<Rightarrow> 'h \<Rightarrow> string list \<Rightarrow> 'a list \<Rightarrow> ('h, 'a) blue_print \<Rightarrow> ('h, 'a) blue_print" where
  "ROUTE_sqm_ap route queue_id handler methods ap bp =
     foldl (\<lambda>bp m. ROUTE_sq_ap route queue_id handler (str_to_verb m) ap bp) bp methods"

definition METHOD_s_ap :: "verb \<Rightarrow> string \<Rightarrow> 'h \<Rightarrow> 'a list \<Rightarrow> ('h, 'a) blue_print \<Rightarrow> ('h, 'a) blue_print" where
  "METHOD_s_ap verb route handler ap bp = ROUTE_s_ap route handler verb ap bp"

definition METHOD_sq_ap :: "verb \<Rightarrow> string \<Rightarrow> int \<Rightarrow> 'h \<Rightarrow> 'a list \<Rightarrow> ('h, 'a) blue_print \<Rightarrow> ('h, 'a) blue_print" where
  "METHOD_sq_ap verb route queue_id handler ap bp = ROUTE_sq_ap route queue_id handler verb ap bp"

section \<open>Mounting a blueprint\<close>

text \<open>The lambda \<^verbatim>\<open>add_blueprint\<close> runs on every listed route: the record is replaced as a whole.\<close>

definition mount_path :: "string \<Rightarrow> string \<Rightarrow> string" where
  "mount_path url_prefix sub_prefix =
     (if url_prefix \<noteq> [] \<and> last url_prefix = CHR ''/'' then url_prefix @ sub_prefix
      else url_prefix @ ''/'' @ sub_prefix)"

definition mount_one :: "string \<Rightarrow> 'w router \<Rightarrow> string \<times> 'w verb_handler \<Rightarrow> 'w router" where
  "mount_one url_prefix r = (\<lambda>(sub_prefix, verb_handler).
     (let path = mount_path url_prefix sub_prefix;
          verb_list = map fst (verb_handler_map verb_handler);
          route = c_str path;
          rs = add_route_list verb_list route (routes r);
          (n, loc) = table_find_or_create (routes_map r) (c_str route) in
      (case loc of
         None \<Rightarrow> r\<lparr>routes_map := n, routes := rs\<rparr>
       | Some p \<Rightarrow> r\<lparr>routes_map := vh_set n p (verb_handler\<lparr>vh_path := route\<rparr>), routes := rs\<rparr>)))"

definition add_blueprint :: "('h, 'a) blue_print \<Rightarrow> string \<Rightarrow> ('h, 'a) blue_print \<Rightarrow> ('h, 'a) blue_print" where
  "add_blueprint other url_prefix bp =
     bp\<lparr>bp_router := foldl (mount_one url_prefix) (bp_router bp) (all_routes (routes_map (bp_router other)) [])\<rparr>"

section \<open>The paths of mounted routes\<close>

text \<open>
  Keys a route registered in the usual way has: not empty and without slash or NUL. (A doubled
  slash gives an empty key, the route that is a single slash the key with a slash.)
\<close>

definition good_key :: "string \<Rightarrow> bool" where
  "good_key k \<longleftrightarrow> k \<noteq> [] \<and> CHR ''/'' \<notin> set k \<and> NUL \<notin> set k"

definition good_table :: "'h node \<Rightarrow> bool" where
  "good_table n \<longleftrightarrow> (\<forall>p. vh_at n p \<noteq> None \<longrightarrow> list_all good_key p)"

definition good_prefix :: "string \<Rightarrow> bool" where
  "good_prefix u \<longleftrightarrow> u \<noteq> [] \<and> last u \<noteq> CHR ''/'' \<and> NUL \<notin> set u"

lemma takeWhile_key: "CHR ''/'' \<notin> set k \<Longrightarrow> takeWhile (\<lambda>c. c \<noteq> CHR ''/'') (k @ t) = k @ takeWhile (\<lambda>c. c \<noteq> CHR ''/'') t"
  "CHR ''/'' \<notin> set k \<Longrightarrow> dropWhile (\<lambda>c. c \<noteq> CHR ''/'') (k @ t) = dropWhile (\<lambda>c. c \<noteq> CHR ''/'') t"
  by (induction k) auto

lemma segs_slashed: "list_all good_key p \<Longrightarrow> segs (concat (map (Cons (CHR ''/'')) p)) = p"
proof (induction p)
  case Nil
  then show ?case by (simp add: segs.simps)
next
  case (Cons k p)
  let ?rest = "concat (map (Cons (CHR ''/'')) p)"
  have k: "k \<noteq> []" "CHR ''/'' \<notin> set k" using Cons.prems by (simp_all add: good_key_def)
  have "takeWhile (\<lambda>c. c \<noteq> CHR ''/'') ?rest = []" "dropWhile (\<lambda>c. c \<noteq> CHR ''/'') ?rest = ?rest"
    by (cases p; simp)+
  then show ?case
    using Cons k by (subst segs.simps) (simp add: takeWhile_key Let_def)
qed

lemma path_str_slashed:
  "pre \<noteq> [] \<Longrightarrow> last pre \<noteq> CHR ''/'' \<Longrightarrow> list_all good_key p \<Longrightarrow>
   path_str pre p = pre @ concat (map (Cons (CHR ''/'')) p)"
proof (induction p arbitrary: pre)
  case (Cons k p)
  have "last k \<noteq> CHR ''/''" "k \<noteq> []"
    using Cons.prems(3) by (auto simp: good_key_def dest: last_in_set)
  then show ?case using Cons by simp
qed simp

lemma slash_path_str:
  "list_all good_key p \<Longrightarrow> p \<noteq> [] \<Longrightarrow> CHR ''/'' # path_str [] p = concat (map (Cons (CHR ''/'')) p)"
proof (cases p)
  case (Cons k q)
  assume "list_all good_key p"
  then have "last k \<noteq> CHR ''/''" "k \<noteq> []" "list_all good_key q"
    by (auto simp: Cons good_key_def dest: last_in_set)
  then show ?thesis by (simp add: Cons path_str_slashed)
qed simp

lemma segs_append_slash:
  "u = [] \<or> last u \<noteq> CHR ''/'' \<Longrightarrow> segs (u @ CHR ''/'' # t) = segs u @ segs (CHR ''/'' # t)"
proof (induction u rule: segs.induct)
  case (1 u)
  show ?case
  proof (cases "u = []")
    case True
    then show ?thesis by (simp add: segs.simps [of "[]"])
  next
    case False
    define v where v_def: "v = (if hd u = CHR ''/'' then tl u else u)"
    have nu: "u \<noteq> ''/''" using 1 False by auto
    have v: "v \<noteq> []" "last v = last u"
      using nu False by (cases u; auto simp: v_def)+
    have rest: "dropWhile (\<lambda>c. c \<noteq> CHR ''/'') (v @ CHR ''/'' # t) =
        dropWhile (\<lambda>c. c \<noteq> CHR ''/'') v @ CHR ''/'' # t"
      "takeWhile (\<lambda>c. c \<noteq> CHR ''/'') (v @ CHR ''/'' # t) = takeWhile (\<lambda>c. c \<noteq> CHR ''/'') v"
      by (induction v) auto
    have "dropWhile (\<lambda>c. c \<noteq> CHR ''/'') v = [] \<or> last (dropWhile (\<lambda>c. c \<noteq> CHR ''/'') v) = last v"
      by (induction v) auto
    then have ih: "segs (dropWhile (\<lambda>c. c \<noteq> CHR ''/'') v @ CHR ''/'' # t) =
        segs (dropWhile (\<lambda>c. c \<noteq> CHR ''/'') v) @ segs (CHR ''/'' # t)"
      using "1.IH" [OF _ v_def] "1.prems" False nu v(2) by metis
    have hd: "(if hd (u @ CHR ''/'' # t) = CHR ''/'' then tl (u @ CHR ''/'' # t) else u @ CHR ''/'' # t) =
        v @ CHR ''/'' # t"
      using False by (simp add: v_def)
    have "segs u = takeWhile (\<lambda>c. c \<noteq> CHR ''/'') v # segs (dropWhile (\<lambda>c. c \<noteq> CHR ''/'') v)"
      using False nu by (subst segs.simps) (simp only: v_def [symmetric] Let_def if_False simp_thms)
    moreover have "segs (u @ CHR ''/'' # t) =
        takeWhile (\<lambda>c. c \<noteq> CHR ''/'') (v @ CHR ''/'' # t) # segs (dropWhile (\<lambda>c. c \<noteq> CHR ''/'') (v @ CHR ''/'' # t))"
      using False by (subst segs.simps) (simp only: hd Let_def, simp add: append_eq_Cons_conv del: dropWhile_append takeWhile_append)
    ultimately show ?thesis by (simp add: rest ih)
  qed
qed

lemma segs_mount:
  assumes "good_prefix u" and "list_all good_key p"
  shows "segs (u @ CHR ''/'' # path_str [] p) = segs u @ p"
proof (cases "p = []")
  case True
  then show ?thesis using assms(1) segs_append_slash [of u "[]"] by (simp add: good_prefix_def segs.simps [of "''/''"])
next
  case False
  then show ?thesis
    using assms segs_append_slash [of u "path_str [] p"]
    by (simp add: good_prefix_def slash_path_str segs_slashed)
qed

section \<open>What mounting does to the table\<close>

lemma c_str_path_str: "list_all good_key p \<Longrightarrow> NUL \<notin> set pre \<Longrightarrow> NUL \<notin> set (path_str pre p)"
  by (induction p arbitrary: pre) (auto simp: good_key_def)

definition mounted :: "string \<Rightarrow> string list \<Rightarrow> 'h verb_handler \<Rightarrow> 'h verb_handler" where
  "mounted u p vh = vh\<lparr>vh_path := u @ CHR ''/'' # path_str [] p\<rparr>"

lemma mount_one_table:
  assumes "good_prefix u" and "list_all good_key p"
  shows "vh_at (routes_map (mount_one u r (path_str [] p, vh))) q =
    (if q = segs u @ p then Some (mounted u p vh)
     else case vh_at (routes_map r) q of
        Some v \<Rightarrow> Some v
      | None \<Rightarrow> if prefix q (segs u @ p) then Some empty_vh else None)"
proof -
  let ?path = "u @ CHR ''/'' # path_str [] p"
  have m: "mount_path u (path_str [] p) = ?path"
    using assms(1) by (simp add: mount_path_def good_prefix_def)
  have c: "c_str ?path = ?path"
    using assms c_str_path_str [of p "[]"] by (simp add: good_prefix_def)
  have ns: "?path \<noteq> ''/''" using assms(1) by (auto simp: good_prefix_def append_eq_Cons_conv)
  have f: "table_find_or_create (routes_map r) ?path =
      (add_path (routes_map r) (segs u @ p), Some (segs u @ p))"
    using ns c find_or_create_add_path [of 0 ?path] segs_mount [OF assms]
    by (simp add: table_find_or_create_eq)
  show ?thesis
    using vh_at_full_path [of "routes_map r" "segs u @ p"]
    by (simp add: mount_one_def Let_def m c f vh_at_set vh_at_add_path mounted_def)
qed

text \<open>The listed routes of a table: leaves with their record.\<close>

definition leaf_entries :: "'h node \<Rightarrow> (string \<times> 'h verb_handler) list \<Rightarrow> bool" where
  "leaf_entries n es \<longleftrightarrow>
     (\<forall>e \<in> set es. \<exists>p vh. e = (path_str [] p, vh) \<and> vh_at n p = Some vh \<and> leaf_at n p)"

lemma leaf_entries_all: "wf_node n \<Longrightarrow> leaf_entries n (all_routes n [])"
  by (auto simp: leaf_entries_def all_routes_leaves)

lemma path_str_inj:
  assumes "list_all good_key p" and "list_all good_key q" and "path_str [] p = path_str [] q"
  shows "p = q"
proof -
  have "segs (''x'' @ CHR ''/'' # path_str [] p) = segs (''x'' @ CHR ''/'' # path_str [] q)"
    using assms(3) by simp
  moreover have "good_prefix ''x''" by (simp add: good_prefix_def)
  ultimately show ?thesis using segs_mount assms(1,2) by (metis same_append_eq)
qed

lemma mount_all_table:
  assumes "good_prefix u" and "good_table n" and "leaf_entries n es"
    and "vh_at n p = Some vh" and "(path_str [] p, vh) \<in> set es \<or> vh_at (routes_map r) (segs u @ p) = Some (mounted u p vh)"
  shows "vh_at (routes_map (foldl (mount_one u) r es)) (segs u @ p) = Some (mounted u p vh)"
  using assms(3,5)
proof (induction es arbitrary: r)
  case (Cons e es)
  obtain p' vh' where e: "e = (path_str [] p', vh')" "vh_at n p' = Some vh'"
    using Cons.prems(1) by (auto simp: leaf_entries_def)
  have good: "list_all good_key p" "list_all good_key p'"
    using assms(2,4) e(2) by (auto simp: good_table_def)
  have at: "vh_at (routes_map (mount_one u r e)) (segs u @ p) =
      (if p = p' then Some (mounted u p' vh')
       else case vh_at (routes_map r) (segs u @ p) of
          Some v \<Rightarrow> Some v
        | None \<Rightarrow> if prefix (segs u @ p) (segs u @ p') then Some empty_vh else None)"
    unfolding e(1) by (subst mount_one_table [OF assms(1) good(2)]) simp
  have "(path_str [] p, vh) \<in> set es \<or>
      vh_at (routes_map (mount_one u r e)) (segs u @ p) = Some (mounted u p vh)"
  proof (cases "p = p'")
    case True
    then show ?thesis using at e(2) assms(4) by simp
  next
    case False
    then have "(path_str [] p, vh) \<noteq> e" using path_str_inj [OF good] e(1) by auto
    then show ?thesis using Cons.prems(2) at False by auto
  qed
  then show ?case
    using Cons.IH [of "mount_one u r e"] Cons.prems(1) by (simp add: leaf_entries_def)
qed simp

lemma mount_all_frame:
  assumes "good_prefix u" and "good_table n" and "leaf_entries n es"
    and "vh_at (routes_map r) q = Some vh" and "\<And>p. leaf_at n p \<Longrightarrow> q \<noteq> segs u @ p"
  shows "vh_at (routes_map (foldl (mount_one u) r es)) q = Some vh"
  using assms(3,4)
proof (induction es arbitrary: r)
  case (Cons e es)
  obtain p' vh' where e: "e = (path_str [] p', vh')" "vh_at n p' = Some vh'" "leaf_at n p'"
    using Cons.prems(1) by (auto simp: leaf_entries_def)
  have good: "list_all good_key p'" using assms(2) e(2) by (auto simp: good_table_def)
  have "vh_at (routes_map (mount_one u r e)) q = Some vh"
    unfolding e(1) using Cons.prems(2) assms(5) [OF e(3)]
    by (subst mount_one_table [OF assms(1) good]) simp
  then show ?case using Cons.IH Cons.prems(1) by (simp add: leaf_entries_def)
qed simp

lemma add_blueprint_table:
  assumes "good_prefix u" and "wf_node (routes_map (bp_router other))"
    and "good_table (routes_map (bp_router other))"
  shows "vh_at (routes_map (bp_router other)) p = Some vh \<Longrightarrow> leaf_at (routes_map (bp_router other)) p \<Longrightarrow>
      vh_at (routes_map (bp_router (add_blueprint other u bp))) (segs u @ p) = Some (mounted u p vh)"
    and "vh_at (routes_map (bp_router bp)) q = Some vh \<Longrightarrow>
      (\<And>p. leaf_at (routes_map (bp_router other)) p \<Longrightarrow> q \<noteq> segs u @ p) \<Longrightarrow>
      vh_at (routes_map (bp_router (add_blueprint other u bp))) q = Some vh"
  using mount_all_table [OF assms(1,3) leaf_entries_all [OF assms(2)]]
    mount_all_frame [OF assms(1,3) leaf_entries_all [OF assms(2)]]
  by (auto simp: add_blueprint_def all_routes_leaves [OF assms(2)])

lemma slash_last:
  assumes "list_all good_key p" and "p \<noteq> []"
  shows "last (CHR ''/'' # path_str [] p) \<noteq> CHR ''/''"
proof -
  obtain q k where p: "p = q @ [k]" using assms(2) by (metis rev_exhaust)
  have "k \<noteq> []" "last k \<noteq> CHR ''/''" using assms(1) by (auto simp: p good_key_def dest: last_in_set)
  then show ?thesis unfolding slash_path_str [OF assms] by (simp add: p)
qed


lemma good_table_empty: "good_table (routes_map empty_router)"
  by (simp add: good_table_def empty_router_def)

lemma good_table_handle:
  assumes "good_table (routes_map r)" and "NUL \<notin> set route" and "route \<noteq> ''/''" and "list_all good_key (segs route)"
  shows "good_table (routes_map (handle route q h v r))"
proof -
  have "list_all good_key p" if "prefix p (segs route)" for p
    using that assms(4) by (auto simp: prefix_def)
  then show ?thesis
    using assms handle_record [of route r q h v]
    by (auto simp: good_table_def route_path_def split: if_splits option.splits)
qed

definition demo_bp :: "(nat, nat) blue_print" where
  "demo_bp = METHOD GET ''/x'' 7 empty_bp"

lemma demo_bp_good: "wf_node (routes_map (bp_router demo_bp))" "good_table (routes_map (bp_router demo_bp))"
  "vh_at (routes_map (bp_router demo_bp)) [''x''] = Some (vh_register ''/x'' (-1) (PlainRoute False None 7) GET empty_vh)"
  "leaf_at (routes_map (bp_router demo_bp)) [''x'']"
proof -
  have d: "bp_router demo_bp = handle ''/x'' (-1) (PlainRoute False None 7) GET empty_router"
    by (simp add: demo_bp_def METHOD_def ROUTE_def bp_handle_def empty_bp_def)
  have x: "route_path ''/x'' = [''x'']" "segs ''/x'' = [''x'']" by (simp_all add: route_path_def segs.simps)
  show "wf_node (routes_map (bp_router demo_bp))"
    unfolding d
    using wf_handle [OF wf_empty_router, of "''/x''" "-1" "PlainRoute False None 7 :: (nat, nat) wrap" GET]
    by (simp only: wf_router_def)
  show "good_table (routes_map (bp_router demo_bp))"
    unfolding d by (rule good_table_handle [OF good_table_empty]) (simp_all add: x good_key_def)
  have at: "vh_at (routes_map (bp_router demo_bp)) q =
      (if q = [''x''] then Some (vh_register ''/x'' (-1) (PlainRoute False None 7) GET empty_vh)
       else if q = [] then Some empty_vh else None)" for q
    unfolding d by (subst handle_record) (auto simp: x record_of_def empty_router_def empty_node_def prefix_Cons vh_at_leaf split: option.split)
  show "vh_at (routes_map (bp_router demo_bp)) [''x''] = Some (vh_register ''/x'' (-1) (PlainRoute False None 7) GET empty_vh)"
    unfolding at by simp
  show "leaf_at (routes_map (bp_router demo_bp)) [''x'']"
    unfolding leaf_at_def at by simp
qed


text \<open>
  C3. A mounted route is served: a request for the prefix followed by a listed route of the
  blueprint runs the handler the blueprint registered for the method (or for any method), with
  the mounted route as full path; if the blueprint has none for the method, the request is
  answered with the error for a missing method.
\<close>

theorem blueprint_served:
  assumes "good_prefix u" and "wf_node (routes_map (bp_router other))"
    and "good_table (routes_map (bp_router other))"
    and "vh_at (routes_map (bp_router other)) p = Some vh" and "leaf_at (routes_map (bp_router other)) p"
    and "p \<noteq> []" and "verb_handler_map vh \<noteq> []"
  shows "call (invoke app) (bp_router (add_blueprint other u bp)) v (u @ CHR ''/'' # path_str [] p) task =
    (case verb_choice vh v of
       None \<Rightarrow> Inr (StatusRouteVerbNotImplment, task)
     | Some h \<Rightarrow> Inr (StatusOK,
         run_handler (invoke app) h (request_fields (u @ CHR ''/'' # path_str [] p) [] [] task)))"
proof -
  let ?route = "u @ CHR ''/'' # path_str [] p" and ?r = "bp_router (add_blueprint other u bp)"
  have good: "list_all good_key p" using assms(3,4) by (auto simp: good_table_def)
  have last: "last ?route \<noteq> CHR ''/''" using slash_last [OF good assms(6)] by simp
  have "vh_at (routes_map ?r) (segs ?route) = Some (mounted u p vh)"
    using add_blueprint_table [OF assms(1-3)] assms(4,5) by (simp add: segs_mount [OF assms(1) good])
  then have f: "find_route (routes_map ?r) (trim_slash ?route) 0 [] [] = Inr (Some (mounted u p vh), [], [])"
    using trim_slash_str(1) [of ?route] trim_slash_valid assms(7) last
    by (intro find_route_static) (simp_all add: mounted_def)
  show ?thesis
    unfolding call_found [OF f] by (simp add: verb_choice_def mounted_def split: option.split)
qed

theorem blueprint_served_witness:
  "call (invoke log_app) (bp_router (add_blueprint demo_bp ''/api'' empty_bp)) GET ''/api/x'' (log_task []) =
     Inr (StatusOK, run_handler (invoke log_app) (PlainRoute False None 7) (request_fields ''/api/x'' [] [] (log_task [])))"
  using blueprint_served [of "''/api''" demo_bp "[''x'']"
      "vh_register ''/x'' (-1) (PlainRoute False None 7) GET empty_vh" log_app empty_bp GET "log_task []"] demo_bp_good
  by (simp add: good_prefix_def vh_register_def verb_choice_def)

section \<open>What mounting loses\<close>

lemmas mount_eval = METHOD_def ROUTE_def bp_handle_def empty_bp_def add_blueprint_def all_routes.simps
  mount_one_def mount_path_def table_find_or_create_eq find_or_create.simps

definition nested_bp :: "'h \<Rightarrow> 'h \<Rightarrow> ('h, 'a) blue_print" where
  "nested_bp h1 h2 = METHOD GET ''/a/b'' h2 (METHOD GET ''/a'' h1 empty_bp)"

definition root_bp :: "'h \<Rightarrow> ('h, 'a) blue_print" where
  "root_bp h = METHOD GET ''/'' h empty_bp"

text \<open>
  A route of a blueprint that is also the beginning of another one is not mounted: with
  \<^verbatim>\<open>/a\<close> and \<^verbatim>\<open>/a/b\<close> registered in a blueprint, a request for the mounted \<^verbatim>\<open>/a\<close> is
  answered with the error for a missing route, although the blueprint itself serves it. The same
  holds for the blueprint's own \<^verbatim>\<open>/\<close>, which is mounted under an empty segment.
\<close>

theorem interior_route_not_mounted:
  fixes ivk :: "('h, 'a) wrap \<Rightarrow> ('w, 'g) server_task \<Rightarrow> 'g option \<times> ('w, 'g) server_task"
  shows "call ivk (bp_router (add_blueprint (nested_bp h1 h2) ''/p'' empty_bp)) GET ''/p/a'' task =
      Inr (StatusRouteNotFound, task) \<and>
    call ivk (bp_router (add_blueprint (root_bp h1) ''/p'' empty_bp)) GET ''/p'' task =
      Inr (StatusRouteNotFound, task) \<and>
    call ivk (bp_router (nested_bp h1 h2)) GET ''/a'' task =
      Inr (StatusOK, run_handler ivk (PlainRoute False None h1) (request_fields ''/a'' [] [] task))"
proof -
  let ?vh = "\<lparr>verb_handler_map = [(GET, PlainRoute False None h1)], vh_path = ''/a'', compute_queue_id = Some (-1)\<rparr>"
  have t: "trim_slash ''/p/a'' = sp_of_str ''/p/a''" "trim_slash ''/p'' = sp_of_str ''/p''"
    "trim_slash ''/a'' = sp_of_str ''/a''"
    by (simp_all add: trim_slash_def sp_nth_str)
  have "find_route (routes_map (bp_router (add_blueprint (nested_bp h1 h2 :: ('h, 'a) blue_print) ''/p'' empty_bp)))
      (trim_slash ''/p/a'') 0 [] [] = Inr (None, [], [])"
    "find_route (routes_map (bp_router (add_blueprint (root_bp h1 :: ('h, 'a) blue_print) ''/p'' empty_bp)))
      (trim_slash ''/p'') 0 [] [] = Inr (None, [], [])"
    unfolding t nested_bp_def root_bp_def by (simp_all add: mount_eval table_eval lookup_eval)
  moreover have f: "find_route (routes_map (bp_router (nested_bp h1 h2 :: ('h, 'a) blue_print))) (trim_slash ''/a'') 0 [] [] =
      Inr (Some ?vh, [], [])"
    unfolding t nested_bp_def by (simp add: mount_eval table_eval lookup_eval)
  ultimately show ?thesis
    by (simp add: call_not_found call_found [OF f] verb_choice_def)
qed

text \<open>
  Mounting replaces the record at a path as a whole. In particular a blueprint without any
  route, mounted under a prefix, erases the handlers the server had for the prefix.
\<close>

theorem empty_blueprint_erases:
  assumes "good_prefix u"
  shows "vh_at (routes_map (bp_router (add_blueprint empty_bp u bp))) (segs u) =
    Some (empty_vh\<lparr>vh_path := u @ ''/''\<rparr>)"
proof -
  have "add_blueprint empty_bp u bp = bp\<lparr>bp_router := mount_one u (bp_router bp) (path_str [] [], empty_vh)\<rparr>"
    by (simp add: add_blueprint_def empty_bp_def empty_router_def empty_node_def all_routes.simps)
  then show ?thesis
    using mount_one_table [OF assms, of "[]" "bp_router bp" empty_vh "segs u"] by (simp add: mounted_def)
qed

theorem empty_blueprint_erases_witness:
  "vh_at (routes_map (bp_router (add_blueprint empty_bp ''/a'' (METHOD GET ''/a'' (7::nat) empty_bp)))) (segs ''/a'') =
     Some ((empty_vh :: (nat, nat) wrap verb_handler)\<lparr>vh_path := ''/a/''\<rparr>)"
  using empty_blueprint_erases [of "''/a''" "METHOD GET ''/a'' (7::nat) empty_bp"] by (simp add: good_prefix_def)

end
