(* ===== verification/Multipart_Parser.thy ===== *)
theory Multipart_Parser
  imports Prelude "HOL-Library.Sublist"
begin

text \<open>
  \<^verbatim>\<open>src/core/MultiPartParser.c\<close>: the state machine that reads a multipart body byte by byte and
  reports what it finds to callbacks. A callback is a function of the event and the client's data
  that gives the new data and the status the C callback returns (a status other than 0 stops the
  parser), or throws. One iteration of the loop is \<open>mp_step\<close>; the decrement of \<^verbatim>\<open>i\<close> that
  makes the loop look at a byte again is a step that does not advance.
\<close>

datatype mp_state =
    s_uninitialized | s_start | s_start_boundary | s_header_field_start | s_header_field
  | s_headers_almost_done | s_header_value_start | s_header_value | s_header_value_almost_done
  | s_part_data_start | s_part_data | s_part_data_almost_boundary | s_part_data_boundary
  | s_part_data_almost_end | s_part_data_end | s_part_data_final_hyphen | s_end

datatype mp_event =
    OnHeaderField string | OnHeaderValue string | OnPartData string
  | OnPartDataBegin | OnHeadersComplete | OnPartDataEnd | OnBodyEnd

type_synonym 'd mp_callback = "mp_event \<Rightarrow> 'd \<Rightarrow> cpp_error + 'd \<times> int"

record multipart_parser =
  mp_index :: nat
  mp_boundary :: string
  mp_state :: mp_state
  mp_lookbehind :: string

abbreviation LF :: char where "LF \<equiv> CHR 0x0A"
abbreviation CR :: char where "CR \<equiv> CHR 0x0D"

text \<open>The buffer behind the boundary has nine bytes more than the boundary.\<close>

definition multipart_parser_init :: "string \<Rightarrow> multipart_parser" where
  "multipart_parser_init boundary =
     \<lparr>mp_index = 0, mp_boundary = c_str boundary, mp_state = s_start,
      mp_lookbehind = replicate (length (c_str boundary) + 9) NUL\<rparr>"

section \<open>One iteration\<close>

text \<open>What an iteration does: go on at an index with a mark, return from the function, or throw.\<close>

datatype 'd outcome =
    Go multipart_parser nat nat 'd
  | Return nat multipart_parser 'd
  | Throw cpp_error

definition emit :: "'d mp_callback \<Rightarrow> mp_event \<Rightarrow> multipart_parser \<Rightarrow> nat \<Rightarrow> 'd \<Rightarrow> ('d \<Rightarrow> 'd outcome) \<Rightarrow> 'd outcome" where
  "emit cb ev p i d k =
     (case cb ev d of
        Inl e \<Rightarrow> Throw e
      | Inr (d', status) \<Rightarrow> if status \<noteq> 0 then Return i p d' else k d')"

abbreviation slice :: "string \<Rightarrow> nat \<Rightarrow> nat \<Rightarrow> string" where
  "slice buf from n \<equiv> take n (drop from buf)"

definition step_start_boundary :: "'d mp_callback \<Rightarrow> multipart_parser \<Rightarrow> char \<Rightarrow> nat \<Rightarrow> nat \<Rightarrow> 'd \<Rightarrow> 'd outcome" where
  "step_start_boundary cb p c i mark d =
     (if mp_index p = length (mp_boundary p) then
        (if c \<noteq> CR then Return i p d
         else Go (p\<lparr>mp_index := mp_index p + 1\<rparr>) (i + 1) mark d)
      else if mp_index p = length (mp_boundary p) + 1 then
        (if c \<noteq> LF then Return i p d
         else (let p = p\<lparr>mp_index := 0\<rparr> in
               emit cb OnPartDataBegin p i d (\<lambda>d. Go (p\<lparr>mp_state := s_header_field_start\<rparr>) (i + 1) mark d)))
      else if c \<noteq> (mp_boundary p @ [NUL]) ! mp_index p then Return i p d
      else Go (p\<lparr>mp_index := mp_index p + 1\<rparr>) (i + 1) mark d)"

definition step_header_field :: "'d mp_callback \<Rightarrow> string \<Rightarrow> multipart_parser \<Rightarrow> char \<Rightarrow> nat \<Rightarrow> nat \<Rightarrow> 'd \<Rightarrow> 'd outcome" where
  "step_header_field cb buf p c i mark d =
     (if c = CR then Go (p\<lparr>mp_state := s_headers_almost_done\<rparr>) (i + 1) mark d
      else if c = CHR '':'' then
        emit cb (OnHeaderField (slice buf mark (i - mark))) p i d
          (\<lambda>d. Go (p\<lparr>mp_state := s_header_value_start\<rparr>) (i + 1) mark d)
      else (let cl = tolower c in
        if c \<noteq> CHR ''-'' \<and> (cl < CHR ''a'' \<or> CHR ''z'' < cl) then Return i p d
        else if i = length buf - 1 then
          emit cb (OnHeaderField (slice buf mark ((i - mark) + 1))) p i d (\<lambda>d. Go p (i + 1) mark d)
        else Go p (i + 1) mark d))"

definition step_header_value :: "'d mp_callback \<Rightarrow> string \<Rightarrow> multipart_parser \<Rightarrow> char \<Rightarrow> nat \<Rightarrow> nat \<Rightarrow> 'd \<Rightarrow> 'd outcome" where
  "step_header_value cb buf p c i mark d =
     (if c = CR then
        emit cb (OnHeaderValue (slice buf mark (i - mark))) p i d
          (\<lambda>d. Go (p\<lparr>mp_state := s_header_value_almost_done\<rparr>) (i + 1) mark d)
      else if i = length buf - 1 then
        emit cb (OnHeaderValue (slice buf mark ((i - mark) + 1))) p i d (\<lambda>d. Go p (i + 1) mark d)
      else Go p (i + 1) mark d)"

definition step_part_data :: "'d mp_callback \<Rightarrow> string \<Rightarrow> multipart_parser \<Rightarrow> char \<Rightarrow> nat \<Rightarrow> nat \<Rightarrow> 'd \<Rightarrow> 'd outcome" where
  "step_part_data cb buf p c i mark d =
     (if c = CR then
        emit cb (OnPartData (slice buf mark (i - mark))) p i d
          (\<lambda>d. Go (p\<lparr>mp_state := s_part_data_almost_boundary, mp_lookbehind := (mp_lookbehind p)[0 := CR]\<rparr>) (i + 1) i d)
      else if i = length buf - 1 then
        emit cb (OnPartData (slice buf mark ((i - mark) + 1))) p i d (\<lambda>d. Go p (i + 1) mark d)
      else Go p (i + 1) mark d)"

definition step_almost_boundary :: "'d mp_callback \<Rightarrow> multipart_parser \<Rightarrow> char \<Rightarrow> nat \<Rightarrow> nat \<Rightarrow> 'd \<Rightarrow> 'd outcome" where
  "step_almost_boundary cb p c i mark d =
     (if c = LF then
        Go (p\<lparr>mp_state := s_part_data_boundary, mp_lookbehind := (mp_lookbehind p)[1 := LF], mp_index := 0\<rparr>) (i + 1) mark d
      else emit cb (OnPartData (take 1 (mp_lookbehind p))) p i d (\<lambda>d. Go (p\<lparr>mp_state := s_part_data\<rparr>) i i d))"

definition step_boundary :: "'d mp_callback \<Rightarrow> multipart_parser \<Rightarrow> char \<Rightarrow> nat \<Rightarrow> nat \<Rightarrow> 'd \<Rightarrow> 'd outcome" where
  "step_boundary cb p c i mark d =
     (if (mp_boundary p @ [NUL]) ! mp_index p \<noteq> c then
        emit cb (OnPartData (take (2 + mp_index p) (mp_lookbehind p))) p i d (\<lambda>d. Go (p\<lparr>mp_state := s_part_data\<rparr>) i i d)
      else
        (let p = p\<lparr>mp_lookbehind := (mp_lookbehind p)[2 + mp_index p := c], mp_index := mp_index p + 1\<rparr> in
         if mp_index p = length (mp_boundary p)
         then emit cb OnPartDataEnd p i d (\<lambda>d. Go (p\<lparr>mp_state := s_part_data_almost_end\<rparr>) (i + 1) mark d)
         else Go p (i + 1) mark d))"

definition mp_step :: "'d mp_callback \<Rightarrow> string \<Rightarrow> multipart_parser \<Rightarrow> nat \<Rightarrow> nat \<Rightarrow> 'd \<Rightarrow> 'd outcome" where
  "mp_step cb buf p i mark d =
     (let c = buf ! i in
      case mp_state p of
        s_start \<Rightarrow> step_start_boundary cb (p\<lparr>mp_index := 0, mp_state := s_start_boundary\<rparr>) c i mark d
      | s_start_boundary \<Rightarrow> step_start_boundary cb p c i mark d
      | s_header_field_start \<Rightarrow> step_header_field cb buf (p\<lparr>mp_state := s_header_field\<rparr>) c i i d
      | s_header_field \<Rightarrow> step_header_field cb buf p c i mark d
      | s_headers_almost_done \<Rightarrow>
          (if c \<noteq> LF then Return i p d else Go (p\<lparr>mp_state := s_part_data_start\<rparr>) (i + 1) mark d)
      | s_header_value_start \<Rightarrow>
          (if c = CHR '' '' then Go p (i + 1) mark d
           else step_header_value cb buf (p\<lparr>mp_state := s_header_value\<rparr>) c i i d)
      | s_header_value \<Rightarrow> step_header_value cb buf p c i mark d
      | s_header_value_almost_done \<Rightarrow>
          (if c \<noteq> LF then Return i p d else Go (p\<lparr>mp_state := s_header_field_start\<rparr>) (i + 1) mark d)
      | s_part_data_start \<Rightarrow>
          emit cb OnHeadersComplete p i d (\<lambda>d. step_part_data cb buf (p\<lparr>mp_state := s_part_data\<rparr>) c i i d)
      | s_part_data \<Rightarrow> step_part_data cb buf p c i mark d
      | s_part_data_almost_boundary \<Rightarrow> step_almost_boundary cb p c i mark d
      | s_part_data_boundary \<Rightarrow> step_boundary cb p c i mark d
      | s_part_data_almost_end \<Rightarrow>
          (if c = CHR ''-'' then Go (p\<lparr>mp_state := s_part_data_final_hyphen\<rparr>) (i + 1) mark d
           else if c = CR then Go (p\<lparr>mp_state := s_part_data_end\<rparr>) (i + 1) mark d
           else Return i p d)
      | s_part_data_final_hyphen \<Rightarrow>
          (if c = CHR ''-'' then emit cb OnBodyEnd p i d (\<lambda>d. Go (p\<lparr>mp_state := s_end\<rparr>) (i + 1) mark d)
           else Return i p d)
      | s_part_data_end \<Rightarrow>
          (if c = LF then
             (let p = p\<lparr>mp_state := s_header_field_start\<rparr> in emit cb OnPartDataBegin p i d (\<lambda>d. Go p (i + 1) mark d))
           else Return i p d)
      | s_end \<Rightarrow> Go p (i + 1) mark d
      | s_uninitialized \<Rightarrow> Return 0 p d)"

section \<open>The loop\<close>

text \<open>An iteration that does not advance leaves the two states that compare with the boundary.\<close>

definition mp_looking :: "multipart_parser \<Rightarrow> nat" where
  "mp_looking p = (if mp_state p \<in> {s_part_data_almost_boundary, s_part_data_boundary} then 1 else 0)"

lemmas mp_steps = mp_step_def step_start_boundary_def step_header_field_def step_header_value_def
  step_part_data_def step_almost_boundary_def step_boundary_def Let_def emit_def

lemma mp_step_advances:
  assumes "mp_step cb buf p i mark d = Go p' i' mark' d'"
  shows "i' = i + 1 \<or> (i' = i \<and> mp_looking p = 1 \<and> mp_looking p' = 0)"
  using assms
  by (cases "mp_state p") (auto simp: mp_steps mp_looking_def split: if_splits sum.splits prod.splits)

function mp_execute :: "'d mp_callback \<Rightarrow> string \<Rightarrow> multipart_parser \<Rightarrow> nat \<Rightarrow> nat \<Rightarrow> 'd \<Rightarrow>
    cpp_error + nat \<times> multipart_parser \<times> 'd" where
  "mp_execute cb buf p i mark d =
     (if i < length buf then
        (case mp_step cb buf p i mark d of
           Go p' i' mark' d' \<Rightarrow> mp_execute cb buf p' i' mark' d'
         | Return n p' d' \<Rightarrow> Inr (n, p', d')
         | Throw e \<Rightarrow> Inl e)
      else Inr (length buf, p, d))"
  by pat_completeness auto

termination
proof (relation "measure (\<lambda>(cb, buf, p, i, mark, d). 2 * (length buf - i) + mp_looking p)", goal_cases)
  case (2 cb buf p i mark d p' i' mark' d')
  then show ?case using mp_step_advances [OF 2(2)] by (auto simp: mp_looking_def)
qed simp

declare mp_execute.simps [simp del]

definition multipart_parser_execute :: "'d mp_callback \<Rightarrow> multipart_parser \<Rightarrow> string \<Rightarrow> 'd \<Rightarrow>
    cpp_error + nat \<times> multipart_parser \<times> 'd" where
  "multipart_parser_execute cb p buf d = mp_execute cb buf p 0 0 d"

section \<open>Memory bounds\<close>

text \<open>The configurations of the loop that a call can reach.\<close>

inductive mp_reach :: "'d mp_callback \<Rightarrow> string \<Rightarrow> multipart_parser \<Rightarrow> 'd \<Rightarrow> multipart_parser \<Rightarrow> nat \<Rightarrow> nat \<Rightarrow> 'd \<Rightarrow> bool"
  for cb buf p0 d0 where
  start: "mp_reach cb buf p0 d0 p0 0 0 d0"
| step: "mp_reach cb buf p0 d0 p i mark d \<Longrightarrow> i < length buf \<Longrightarrow>
    mp_step cb buf p i mark d = Go p' i' mark' d' \<Longrightarrow> mp_reach cb buf p0 d0 p' i' mark' d'"

definition mp_wf :: "multipart_parser \<Rightarrow> bool" where
  "mp_wf p \<longleftrightarrow>
     mp_boundary p \<noteq> [] \<and> length (mp_lookbehind p) = length (mp_boundary p) + 9 \<and>
     mp_index p \<le> length (mp_boundary p) + 1 \<and>
     (mp_state p = s_part_data_boundary \<longrightarrow> mp_index p < length (mp_boundary p))"

lemma mp_wf_init: "c_str b \<noteq> [] \<Longrightarrow> mp_wf (multipart_parser_init b)"
  by (simp add: mp_wf_def multipart_parser_init_def)

lemma mp_step_wf:
  assumes "mp_wf p" and "mp_step cb buf p i mark d = Go p' i' mark' d'"
  shows "mp_wf p'"
  using assms
  by (cases "mp_state p")
    (auto simp: mp_steps mp_wf_def not_less_eq_eq split: if_splits sum.splits prod.splits)

lemma mp_step_mark:
  assumes "mark \<le> i" and "mp_step cb buf p i mark d = Go p' i' mark' d'"
  shows "mark' \<le> i'"
  using assms
  by (cases "mp_state p") (auto simp: mp_steps split: if_splits sum.splits prod.splits)

lemma mp_step_return:
  assumes "mp_step cb buf p i mark d = Return n p' d'"
  shows "n \<le> i"
  using assms
  by (cases "mp_state p") (auto simp: mp_steps split: if_splits sum.splits prod.splits)

text \<open>
  C8. The parser stays inside its buffers, whatever the body and the callbacks do: in every
  configuration a call on a fresh parser reaches, the mark is not behind the index and both are
  inside the body, every position of the look-behind buffer the next step can write is inside that
  buffer, and while a boundary is compared the position in it is a position of the boundary.
\<close>

theorem mp_reach_bounds:
  assumes "mp_reach cb buf (multipart_parser_init b) d0 p i mark d" and "c_str b \<noteq> []"
  shows "mark \<le> i \<and> i \<le> length buf \<and> mp_boundary p \<noteq> [] \<and>
    mp_index p + 2 < length (mp_lookbehind p) \<and>
    (mp_state p = s_part_data_boundary \<longrightarrow> mp_index p < length (mp_boundary p))"
proof -
  from assms(1) have "mark \<le> i \<and> i \<le> length buf \<and> mp_wf p"
  proof induction
    case start
    then show ?case using mp_wf_init [OF assms(2)] by simp
  next
    case (step p i mark d p' i' mark' d')
    then show ?case using mp_step_wf mp_step_mark mp_step_advances by fastforce
  qed
  then show ?thesis by (auto simp: mp_wf_def)
qed

theorem mp_reach_bounds_witness:
  "(0::nat) \<le> 0 \<and> mp_index (multipart_parser_init ''--x'') + 2 < length (mp_lookbehind (multipart_parser_init ''--x''))"
  using mp_reach_bounds [OF mp_reach.start [of "\<lambda>ev d. Inr (d, 0)" "''abc''" "multipart_parser_init ''--x''" "()"]]
  by simp

lemma mp_execute_result:
  "mp_execute cb buf p i mark d = Inr (n, p', d') \<Longrightarrow> i \<le> length buf \<Longrightarrow> n \<le> length buf"
proof (induction cb buf p i mark d rule: mp_execute.induct)
  case (1 cb buf p i mark d)
  show ?case
  proof (cases "i < length buf")
    case True
    show ?thesis
    proof (cases "mp_step cb buf p i mark d")
      case (Go p1 i1 m1 d1)
      then show ?thesis
        using "1.IH" [OF True Go] "1.prems" True mp_step_advances [OF Go]
        by (subst (asm) mp_execute.simps) auto
    next
      case (Return n1 p1 d1)
      then show ?thesis
        using "1.prems" True mp_step_return [OF Return] by (subst (asm) mp_execute.simps) auto
    qed (use "1.prems" True in \<open>simp add: mp_execute.simps\<close>)
  qed (use "1.prems" in \<open>simp add: mp_execute.simps\<close>)
qed

text \<open>
  C25. The parser returns: a call on a fresh parser ends after finitely many iterations, with an
  exception of a callback or with the number of bytes read, which is at most the length of the
  body.
\<close>

theorem mp_execute_returns:
  "case multipart_parser_execute cb (multipart_parser_init b) buf d of
      Inl e \<Rightarrow> \<exists>ev d'. cb ev d' = Inl e
    | Inr (n, p, d') \<Rightarrow> n \<le> length buf"
proof -
  have thrown: "\<exists>ev d'. cb ev d' = Inl e" if "mp_execute cb buf p i mark d = Inl e" for p i mark d e
    using that
  proof (induction cb buf p i mark d rule: mp_execute.induct)
    case (1 cb buf p i mark d)
    show ?case
    proof (cases "i < length buf")
      case True
      show ?thesis
      proof (cases "mp_step cb buf p i mark d")
        case (Go p1 i1 m1 d1)
        then show ?thesis using "1.IH" [OF True Go] "1.prems" True by (simp add: mp_execute.simps [of cb buf p])
      next
        case (Throw e')
        then have "\<exists>ev d'. cb ev d' = Inl e'"
          by (cases "mp_state p") (auto simp: mp_steps split: if_splits sum.splits prod.splits)
        then show ?thesis using "1.prems" True Throw by (simp add: mp_execute.simps [of cb buf p])
      qed (use "1.prems" True in \<open>simp add: mp_execute.simps [of cb buf p]\<close>)
    qed (use "1.prems" in \<open>simp add: mp_execute.simps [of cb buf p]\<close>)
  qed
  show ?thesis
  proof (cases "multipart_parser_execute cb (multipart_parser_init b) buf d")
    case (Inl e)
    then show ?thesis using thrown by (auto simp: multipart_parser_execute_def)
  next
    case (Inr r)
    then show ?thesis
      using mp_execute_result by (cases r) (fastforce simp: multipart_parser_execute_def)
  qed
qed

end
