(* ===== verification/Str_Util.thy ===== *)
theory Str_Util
  imports String_Piece
begin

text \<open>
  \<^verbatim>\<open>src/util/StrUtil.h\<close> and \<^verbatim>\<open>StrUtil.cc\<close>: trimming, splitting and the caseless
  comparator, each as the loop the code runs over a piece, with the list function it
  computes on the content.
\<close>

section \<open>Splitting\<close>

text \<open>
  The loop of \<^verbatim>\<open>split_piece\<close>: \<open>i\<close> is the distance of \<^verbatim>\<open>p\<close>, \<open>cursor\<close> that of the
  start of the field being scanned.
\<close>

function split_loop :: "string_piece \<Rightarrow> char \<Rightarrow> nat \<Rightarrow> nat \<Rightarrow> string_piece list" where
  "split_loop s sep i cursor =
     (if i < sp_len s then
        (if sp_nth s i = sep
         then sp_window s cursor (i - cursor) # split_loop s sep (i + 1) (i + 1)
         else split_loop s sep (i + 1) cursor)
      else [sp_window s cursor (sp_len s - cursor)])"
  by pat_completeness auto
termination
  by (relation "measure (\<lambda>(s, sep, i, cursor). sp_len s - i)") auto

declare split_loop.simps [simp del]

definition split_piece :: "string_piece \<Rightarrow> char \<Rightarrow> string_piece list" where
  "split_piece s sep = (if sp_empty s then [] else split_loop s sep 0 0)"

text \<open>The instance whose elements are \<^verbatim>\<open>std::string\<close>.\<close>

definition split_string :: "string_piece \<Rightarrow> char \<Rightarrow> string list" where
  "split_string s sep = map sp_str (split_piece s sep)"

text \<open>The fields of a text: what lies between separators.\<close>

fun split_on :: "char \<Rightarrow> string \<Rightarrow> string list" where
  "split_on sep [] = [[]]"
| "split_on sep (c # cs) =
     (if c = sep then [] # split_on sep cs
      else (case split_on sep cs of [] \<Rightarrow> [[c]] | f # fs \<Rightarrow> (c # f) # fs))"

definition fields :: "char \<Rightarrow> string \<Rightarrow> string list" where
  "fields sep s = (if s = [] then [] else split_on sep s)"

fun join_with :: "char \<Rightarrow> string list \<Rightarrow> string" where
  "join_with sep [] = []"
| "join_with sep [f] = f"
| "join_with sep (f # g # fs) = f @ sep # join_with sep (g # fs)"

lemma split_on_ne [simp]: "split_on sep s \<noteq> []"
  by (cases s) (auto split: list.split)

lemma split_on_plain: "sep \<notin> set s \<Longrightarrow> split_on sep s = [s]"
  by (induction s) auto

lemma split_on_append:
  "sep \<notin> set a \<Longrightarrow> split_on sep (a @ sep # b) = a # split_on sep b"
  by (induction a) auto

lemma split_on_prefix:
  "sep \<notin> set a \<Longrightarrow> split_on sep (a @ b) = (a @ hd (split_on sep b)) # tl (split_on sep b)"
proof (induction a)
  case Nil
  then show ?case by (simp add: hd_Cons_tl)
qed auto

lemma split_on_no_sep: "f \<in> set (split_on sep s) \<Longrightarrow> sep \<notin> set f"
  by (induction s arbitrary: f) (auto split: if_splits list.splits)

lemma join_split_on: "join_with sep (split_on sep s) = s"
proof (induction s)
  case (Cons c s)
  obtain f fs where "split_on sep s = f # fs"
    using split_on_ne neq_Nil_conv by metis
  then show ?case using Cons by (cases fs) auto
qed simp

lemma split_on_join:
  "fs \<noteq> [] \<Longrightarrow> \<forall>f \<in> set fs. sep \<notin> set f \<Longrightarrow> split_on sep (join_with sep fs) = fs"
  by (induction sep fs rule: join_with.induct) (auto simp: split_on_plain split_on_append)

lemma split_loop_valid:
  "sp_valid s \<Longrightarrow> cursor \<le> i \<Longrightarrow> i \<le> sp_len s \<Longrightarrow> q \<in> set (split_loop s sep i cursor) \<Longrightarrow>
   sp_valid q \<and> sp_buf q = sp_buf s \<and> sp_off s \<le> sp_off q \<and> sp_len q \<le> sp_len s"
proof (induction s sep i cursor rule: split_loop.induct)
  case (1 s sep i cursor)
  have w: "sp_valid (sp_window s cursor (i - cursor))"
      "sp_valid (sp_window s cursor (sp_len s - cursor))"
    using "1.prems" by (auto intro!: sp_window_valid)
  show ?case
    using "1.prems" w "1.IH"
    by (subst (asm) split_loop.simps) (auto simp: sp_window_def split: if_splits)
qed

lemma split_loop_str:
  "sp_valid s \<Longrightarrow> cursor \<le> i \<Longrightarrow> i \<le> sp_len s \<Longrightarrow> sep \<notin> set (take (i - cursor) (drop cursor (sp_str s))) \<Longrightarrow>
   map sp_str (split_loop s sep i cursor) = split_on sep (drop cursor (sp_str s))"
proof (induction s sep i cursor rule: split_loop.induct)
  case (1 s sep i cursor)
  let ?cs = "sp_str s"
  let ?a = "take (i - cursor) (drop cursor ?cs)"
  have len: "length ?cs = sp_len s" using "1.prems" by simp
  show ?case
  proof (cases "i < sp_len s")
    case True
    have nth: "sp_nth s i = ?cs ! i" using "1.prems" True by (simp add: sp_nth_str)
    have "drop cursor ?cs = ?a @ drop i ?cs"
      using "1.prems" by (metis append_take_drop_id drop_drop le_add_diff_inverse2)
    then have split: "drop cursor ?cs = ?a @ ?cs ! i # drop (Suc i) ?cs"
      using True len by (simp add: Cons_nth_drop_Suc)
    have w: "sp_str (sp_window s cursor (i - cursor)) = ?a"
      using "1.prems" True by (simp add: sp_window_str)
    show ?thesis
    proof (cases "sp_nth s i = sep")
      case eq: True
      have "map sp_str (split_loop s sep i cursor) = ?a # split_on sep (drop (Suc i) ?cs)"
        using "1.IH"(1) [OF True eq] "1.prems" True eq w by (subst split_loop.simps) simp
      also have "\<dots> = split_on sep (?a @ sep # drop (Suc i) ?cs)"
        using "1.prems" by (simp add: split_on_append)
      finally show ?thesis using split nth eq by metis
    next
      case ne: False
      have "take (i + 1 - cursor) (drop cursor ?cs) = ?a @ [?cs ! i]"
        using "1.prems" True len by (simp add: Suc_diff_le take_Suc_conv_app_nth)
      then have "sep \<notin> set (take (i + 1 - cursor) (drop cursor ?cs))"
        using "1.prems" ne nth by auto
      then show ?thesis
        using "1.IH"(2) [OF True ne] "1.prems" True ne by (subst split_loop.simps) simp
    qed
  next
    case False
    then have "i = sp_len s" using "1.prems" by simp
    then have "sep \<notin> set (drop cursor ?cs)" using "1.prems" len by simp
    then show ?thesis
      using False "1.prems" len
      by (subst split_loop.simps) (simp add: split_on_plain sp_window_str)
  qed
qed

lemma split_piece_valid:
  "sp_valid s \<Longrightarrow> q \<in> set (split_piece s sep) \<Longrightarrow>
   sp_valid q \<and> sp_buf q = sp_buf s \<and> sp_off s \<le> sp_off q \<and> sp_len q \<le> sp_len s"
  unfolding split_piece_def using split_loop_valid [of s 0 0 q sep] by (auto split: if_splits)

lemma split_piece_str: "sp_valid s \<Longrightarrow> map sp_str (split_piece s sep) = fields sep (sp_str s)"
  using split_loop_str [of s 0 0 sep] sp_str_empty [of s]
  by (auto simp: split_piece_def fields_def sp_empty_def)

lemma split_string_str: "sp_valid s \<Longrightarrow> split_string s sep = fields sep (sp_str s)"
  by (simp add: split_string_def split_piece_str)

section \<open>Trimming\<close>

function skip_space :: "string_piece \<Rightarrow> nat \<Rightarrow> nat" where
  "skip_space s i = (if i < sp_len s \<and> isspace (sp_nth s i) then skip_space s (i + 1) else i)"
  by pat_completeness auto
termination
  by (relation "measure (\<lambda>(s, i). sp_len s - i)") auto

declare skip_space.simps [simp del]

fun back_space :: "string_piece \<Rightarrow> nat \<Rightarrow> nat" where
  "back_space s 0 = 0"
| "back_space s (Suc i) = (if isspace (sp_nth s (Suc i)) then back_space s i else Suc i)"

definition ltrim :: "string_piece \<Rightarrow> string_piece" where
  "ltrim s = (let i = skip_space s 0 in if i = sp_len s then sp_null else sp_remove_prefix s i)"

definition rtrim :: "string_piece \<Rightarrow> string_piece" where
  "rtrim s =
     (if sp_empty s then s
      else let rhs = back_space s (sp_len s - 1) in
        if rhs = 0 \<and> isspace (sp_nth s rhs) then sp_null else sp_window s 0 (rhs + 1))"

definition trim :: "string_piece \<Rightarrow> string_piece" where
  "trim s = ltrim (rtrim s)"

definition strip_left :: "string \<Rightarrow> string" where
  "strip_left s = dropWhile isspace s"

definition strip_right :: "string \<Rightarrow> string" where
  "strip_right s = rev (dropWhile isspace (rev s))"

lemma skip_space_str:
  "sp_valid s \<Longrightarrow> i \<le> sp_len s \<Longrightarrow>
   skip_space s i = i + length (takeWhile isspace (drop i (sp_str s)))"
proof (induction s i rule: skip_space.induct)
  case (1 s i)
  show ?case
  proof (cases "i < sp_len s")
    case True
    then have "drop i (sp_str s) = sp_nth s i # drop (Suc i) (sp_str s)"
      using "1.prems" by (simp add: sp_nth_str Cons_nth_drop_Suc)
    then show ?thesis
      using True "1.IH" "1.prems" by (subst skip_space.simps) auto
  next
    case False
    then show ?thesis using "1.prems" by (subst skip_space.simps) simp
  qed
qed

lemma ltrim_str: "sp_valid s \<Longrightarrow> sp_valid (ltrim s) \<and> sp_str (ltrim s) = strip_left (sp_str s)"
proof -
  assume v: "sp_valid s"
  let ?n = "length (takeWhile isspace (sp_str s))"
  have n: "skip_space s 0 = ?n" using skip_space_str [OF v, of 0] by simp
  have le: "?n \<le> sp_len s" using v length_takeWhile_le [of isspace "sp_str s"] by simp
  have d: "strip_left (sp_str s) = drop ?n (sp_str s)"
    by (simp add: strip_left_def dropWhile_eq_drop)
  show ?thesis
    using v le d sp_remove_prefix_str [OF v le] by (auto simp: ltrim_def n Let_def)
qed

lemma back_space_le: "back_space s i \<le> i"
  by (induction i) (auto intro: le_SucI)

lemma back_space_str:
  "sp_valid s \<Longrightarrow> i < sp_len s \<Longrightarrow>
   strip_right (take (Suc i) (sp_str s)) =
     (if back_space s i = 0 \<and> isspace (sp_nth s 0) then [] else take (Suc (back_space s i)) (sp_str s))"
proof (induction i)
  case 0
  then show ?case by (auto simp: strip_right_def take_Suc_conv_app_nth sp_nth_str)
next
  case (Suc i)
  then have "take (Suc (Suc i)) (sp_str s) = take (Suc i) (sp_str s) @ [sp_nth s (Suc i)]"
    by (simp add: take_Suc_conv_app_nth sp_nth_str)
  then show ?case using Suc by (auto simp: strip_right_def)
qed

lemma rtrim_str: "sp_valid s \<Longrightarrow> sp_valid (rtrim s) \<and> sp_str (rtrim s) = strip_right (sp_str s)"
proof (cases "sp_len s = 0")
  case True
  moreover assume "sp_valid s"
  ultimately show ?thesis by (simp add: rtrim_def sp_empty_def sp_str_def strip_right_def)
next
  case False
  assume v: "sp_valid s"
  let ?b = "back_space s (sp_len s - 1)"
  have b: "?b < sp_len s" using back_space_le [of s "sp_len s - 1"] False by linarith
  have "take (Suc (sp_len s - 1)) (sp_str s) = sp_str s" using v False by simp
  then have st: "strip_right (sp_str s) =
      (if ?b = 0 \<and> isspace (sp_nth s 0) then [] else take (Suc ?b) (sp_str s))"
    using back_space_str [OF v, of "sp_len s - 1"] False by simp
  show ?thesis
    using st v b False sp_window_valid [OF v, of 0 "?b + 1"] sp_window_str [of 0 "?b + 1" s]
    by (auto simp: rtrim_def sp_empty_def Let_def)
qed

lemma trim_str:
  "sp_valid s \<Longrightarrow> sp_valid (trim s) \<and> sp_str (trim s) = strip_left (strip_right (sp_str s))"
  using rtrim_str [of s] ltrim_str [of "rtrim s"] by (simp add: trim_def)

text \<open>
  Splitting loses nothing: on any piece the fields of \<^verbatim>\<open>split_piece\<close> contain no
  separator, point into the same buffer, and joined by the separator give the piece back.
\<close>

theorem split_piece_roundtrip:
  assumes "sp_valid s" and "sp_len s > 0"
  shows "join_with sep (map sp_str (split_piece s sep)) = sp_str s \<and>
    (\<forall>q \<in> set (split_piece s sep). sp_valid q \<and> sp_buf q = sp_buf s \<and> sep \<notin> set (sp_str q))"
proof -
  have ne: "sp_str s \<noteq> []" using assms length_sp_str by fastforce
  have e: "map sp_str (split_piece s sep) = split_on sep (sp_str s)"
    using ne assms by (simp add: split_piece_str fields_def)
  have "sep \<notin> set (sp_str q)" if "q \<in> set (split_piece s sep)" for q
  proof -
    from that have "sp_str q \<in> set (map sp_str (split_piece s sep))" by simp
    then show ?thesis by (simp only: e) (rule split_on_no_sep)
  qed
  then show ?thesis using e assms split_piece_valid by (auto simp: join_split_on)
qed

theorem split_piece_roundtrip_witness:
  "join_with CHR ''&'' (map sp_str (split_piece (sp_of_str ''a=1&&b'') CHR ''&'')) = ''a=1&&b''"
  using split_piece_roundtrip [of "sp_of_str ''a=1&&b''" "CHR ''&''"] by simp

text \<open>
  Trimming: the piece \<^verbatim>\<open>trim\<close> returns is a valid piece whose content has no blank at
  either end, and the original content is that content between two runs of blanks.
\<close>

theorem trim_removes_blanks:
  assumes "sp_valid s"
  shows "sp_valid (trim s) \<and>
    (\<exists>l r. sp_str s = l @ sp_str (trim s) @ r \<and> list_all isspace l \<and> list_all isspace r) \<and>
    (sp_str (trim s) \<noteq> [] \<longrightarrow>
       \<not> isspace (hd (sp_str (trim s))) \<and> \<not> isspace (last (sp_str (trim s))))"
proof -
  let ?c = "sp_str s"
  let ?m = "strip_right ?c"
  have t: "sp_str (trim s) = dropWhile isspace ?m" "sp_valid (trim s)"
    using trim_str [OF assms] by (simp_all add: strip_left_def)
  have r: "?c = ?m @ rev (takeWhile isspace (rev ?c))"
    unfolding strip_right_def by (metis rev_append rev_rev_ident takeWhile_dropWhile_id)
  have l: "?m = takeWhile isspace ?m @ dropWhile isspace ?m" by simp
  have blanks: "list_all isspace (takeWhile isspace xs)" for xs
    by (auto simp: list_all_iff dest: set_takeWhileD)
  have ends: "\<not> isspace (hd (dropWhile isspace ?m)) \<and> \<not> isspace (last (dropWhile isspace ?m))"
    if ne: "dropWhile isspace ?m \<noteq> []"
  proof -
    have m: "?m \<noteq> []" using ne by auto
    have "last (dropWhile isspace ?m) = last ?m"
      using ne by (metis l last_appendR)
    also have "\<dots> = hd (dropWhile isspace (rev ?c))"
      using m by (simp add: strip_right_def last_rev)
    finally show ?thesis
      using ne m hd_dropWhile [of isspace "rev ?c"] hd_dropWhile [of isspace ?m]
      by (simp add: strip_right_def)
  qed
  have "?c = takeWhile isspace ?m @ sp_str (trim s) @ rev (takeWhile isspace (rev ?c))"
    using r l t by (metis append.assoc)
  then show ?thesis
    using t ends blanks by (metis list_all_rev)
qed

theorem trim_removes_blanks_witness:
  "sp_valid (trim (sp_window (sp_of_str ''a; name=x ;'') 2 8))"
proof -
  have "sp_valid (sp_window (sp_of_str ''a; name=x ;'') 2 8)"
    by (simp add: sp_valid_def sp_window_def sp_of_str_def)
  from trim_removes_blanks [OF this] show ?thesis by blast
qed

section \<open>Paired delimiters\<close>

fun pair_match :: "string \<Rightarrow> char \<Rightarrow> char \<Rightarrow> bool" where
  "pair_match (a # b # ps) l r = (if l = a \<and> r = b then True else pair_match ps l r)"
| "pair_match _ l r = False"

definition k_pairs :: string where
  "k_pairs = ''{}[]()<>'' @ [CHR 0x22, CHR 0x22, CHR 0x27, CHR 0x27, CHR 0x60, CHR 0x60]"

text \<open>The quotes the form code passes: double and single.\<close>

definition quote_pairs :: string where
  "quote_pairs = [CHR 0x22, CHR 0x22, CHR 0x27, CHR 0x27]"

text \<open>
  Both ends are read before any test of the length: the empty piece reads the byte before
  it, and a piece of one character can be its own pair.
\<close>

definition trim_pairs :: "string_piece \<Rightarrow> string \<Rightarrow> cpp_error + string_piece" where
  "trim_pairs s pairs =
     (case sp_read s 0 of Inl e \<Rightarrow> Inl e
      | Inr l \<Rightarrow>
        (case sp_read s (int (sp_len s) - 1) of Inl e \<Rightarrow> Inl e
         | Inr r \<Rightarrow>
           Inr (if pair_match (c_str pairs) l r then sp_window s 1 (size_sub (sp_len s) 2) else s)))"

lemma pair_match_quotes [simp]:
  "pair_match (c_str quote_pairs) l r \<longleftrightarrow> l = r \<and> (l = CHR 0x22 \<or> l = CHR 0x27)"
  by (auto simp: quote_pairs_def)

lemma trim_pairs_long:
  assumes "sp_valid s" and "2 \<le> sp_len s"
  shows "trim_pairs s quote_pairs =
    Inr (if hd (sp_str s) = last (sp_str s) \<and> hd (sp_str s) \<in> {CHR 0x22, CHR 0x27}
         then sp_window s 1 (sp_len s - 2) else s)"
proof -
  have ne: "sp_str s \<noteq> []" using assms length_sp_str by fastforce
  have "sp_read s 0 = Inr (hd (sp_str s))"
    using sp_read_str [OF assms(1), of 0] assms ne by (simp add: hd_conv_nth)
  moreover have "sp_read s (int (sp_len s) - 1) = Inr (last (sp_str s))"
    using sp_read_str [OF assms(1), of "sp_len s - 1"] assms ne by (simp add: last_conv_nth of_nat_diff)
  ultimately show ?thesis using assms by (auto simp: trim_pairs_def)
qed

text \<open>The string made of a trimmed value, when it has two characters or more and when it has one.\<close>

definition unquote :: "string \<Rightarrow> string" where
  "unquote v = (if 2 \<le> length v \<and> hd v = last v \<and> hd v \<in> {CHR 0x22, CHR 0x27} then butlast (tl v) else v)"

lemma trim_pairs_unquote:
  assumes "sp_valid s" and "2 \<le> sp_len s" and "sp_len s < 2 ^ 63"
  shows "\<exists>p. trim_pairs s quote_pairs = Inr p \<and> sp_as_string p = Inr (unquote (sp_str s))"
proof -
  let ?w = "sp_window s 1 (sp_len s - 2)"
  have "sp_as_string s = Inr (sp_str s)" using assms by (simp add: sp_as_string_valid)
  moreover have "sp_as_string ?w = Inr (sp_str ?w)"
    using assms sp_window_valid [of s 1 "sp_len s - 2"] by (intro sp_as_string_valid) (auto simp: sp_window_def)
  moreover have "sp_str ?w = butlast (tl (sp_str s))"
    using assms sp_window_str [of 1 "sp_len s - 2" s] by (simp add: butlast_conv_take drop_Suc numeral_2_eq_2)
  ultimately show ?thesis
    using trim_pairs_long [OF assms(1,2)] assms by (auto simp: unquote_def)
qed

lemma trim_pairs_single:
  assumes "sp_valid s" and "sp_str s = [q]"
  shows "\<exists>p. trim_pairs s quote_pairs = Inr p \<and>
    sp_as_string p = (if q = CHR 0x22 \<or> q = CHR 0x27 then Inl LengthError else Inr [q])"
proof -
  have len: "sp_len s = 1" using assms length_sp_str by fastforce
  have r: "sp_read s 0 = Inr q" using sp_read_str [OF assms(1), of 0] assms(2) len by simp
  have "sp_as_string s = Inr [q]" using assms len by (simp add: sp_as_string_valid)
  then show ?thesis
    using r len by (auto simp: trim_pairs_def sp_window_def sp_as_string_def size_sub_def size_max_def)
qed

text \<open>
  A value that is a single quote character is taken for its own pair: \<^verbatim>\<open>trim_pairs\<close> then
  returns a piece whose unsigned length wrapped around, and making a string of it throws
  \<^verbatim>\<open>std::length_error\<close>.
\<close>

theorem trim_pairs_lone_quote:
  assumes "sp_valid s" and "sp_str s = [q]" and "q = CHR 0x22 \<or> q = CHR 0x27"
  shows "\<exists>p. trim_pairs s quote_pairs = Inr p \<and> sp_len p = size_max - 1 \<and>
    sp_as_string p = Inl LengthError"
proof -
  have len: "sp_len s = 1" using assms length_sp_str by fastforce
  have "sp_read s 0 = Inr q" using sp_read_str [OF assms(1), of 0] assms(2) len by simp
  then show ?thesis
    using assms(3) len
    by (auto simp: trim_pairs_def sp_window_def sp_as_string_def size_sub_def size_max_def)
qed

theorem trim_pairs_lone_quote_witness:
  "\<exists>p. trim_pairs (sp_of_str [CHR 0x22]) quote_pairs = Inr p \<and> sp_as_string p = Inl LengthError"
  using trim_pairs_lone_quote [of "sp_of_str [CHR 0x22]" "CHR 0x22"] by auto

section \<open>The caseless comparator\<close>

definition caseless_lt :: "string \<Rightarrow> string \<Rightarrow> bool" where
  "caseless_lt a b \<longleftrightarrow> fold_case a < fold_case b"

interpretation hdr_map: std_map caseless_lt
  by unfold_locales (auto simp: caseless_lt_def)

lemma hdr_same: "hdr_map.same a b \<longleftrightarrow> strcasecmp_eq a b"
  by (auto simp: hdr_map.same_def caseless_lt_def strcasecmp_eq_def)

lemmas hdr_map_get = hdr_map.get_assign hdr_map.get_insert hdr_same

end
