(* ===== verification/Uri_Util.thy ===== *)
theory Uri_Util
  imports Str_Util
begin

text \<open>
  \<^verbatim>\<open>src/util/UriUtil.cc\<close> and \<^verbatim>\<open>Urlencode::parse_post_kv\<close> of \<^verbatim>\<open>src/core/HttpContent.cc\<close>:
  a query string or a form body as a map. The two functions are the same loop. The result
  maps a key to the text between its first and second equals sign in the first field that
  has the key.
\<close>

type_synonym str_smap = "(string, string) smap"

abbreviation str_get :: "(string, 'v) smap \<Rightarrow> string \<Rightarrow> 'v option" where
  "str_get \<equiv> smap_get str_lt"

abbreviation str_insert :: "string \<Rightarrow> 'v \<Rightarrow> (string, 'v) smap \<Rightarrow> (string, 'v) smap" where
  "str_insert \<equiv> smap_insert str_lt"

abbreviation str_assign :: "string \<Rightarrow> 'v \<Rightarrow> (string, 'v) smap \<Rightarrow> (string, 'v) smap" where
  "str_assign \<equiv> smap_assign str_lt"

section \<open>The loops\<close>

fun kv_loop :: "string_piece list \<Rightarrow> str_smap \<Rightarrow> str_smap" where
  "kv_loop [] res = res"
| "kv_loop (ele # arr) res =
     (if sp_empty ele then kv_loop arr res
      else
        (let kv = split_string ele (CHR ''=''); key = kv ! 0 in
         if key = [] \<or> str_get res key \<noteq> None then kv_loop arr res
         else if length kv = 1 then kv_loop arr (str_insert key [] res)
         else (let val = kv ! 1 in
               if val = [] then kv_loop arr (str_insert key [] res)
               else kv_loop arr (str_insert key val res))))"

definition split_query :: "string_piece \<Rightarrow> str_smap" where
  "split_query query =
     (if sp_empty query then []
      else (let arr = split_piece query (CHR ''&'') in if arr = [] then [] else kv_loop arr []))"

definition parse_post_kv :: "string_piece \<Rightarrow> str_smap" where
  "parse_post_kv body =
     (if sp_empty body then []
      else (let arr = split_piece body (CHR ''&'') in if arr = [] then [] else kv_loop arr []))"

section \<open>What they compute\<close>

definition field_kv :: "string \<Rightarrow> string \<times> string" where
  "field_kv f = (let kv = split_on (CHR ''='') f in (hd kv, if tl kv = [] then [] else hd (tl kv)))"

definition query_pairs :: "string \<Rightarrow> (string \<times> string) list" where
  "query_pairs s = filter (\<lambda>p. fst p \<noteq> []) (map field_kv (fields (CHR ''&'') s))"

lemma field_kv_Nil [simp]: "field_kv [] = ([], [])"
  by (simp add: field_kv_def)

lemma kv_step:
  assumes "sp_valid ele"
  shows "kv_loop (ele # arr) res =
    (case field_kv (sp_str ele) of (k, v) \<Rightarrow>
       kv_loop arr (if k = [] \<or> str_get res k \<noteq> None then res else str_insert k v res))"
proof (cases "sp_str ele = []")
  case True
  then have "sp_empty ele" using assms by (simp add: sp_empty_def sp_str_empty)
  then show ?thesis using True by simp
next
  case False
  obtain f fs where fs: "split_on (CHR ''='') (sp_str ele) = f # fs"
    using split_on_ne neq_Nil_conv by metis
  have "\<not> sp_empty ele" using False assms by (simp add: sp_empty_def sp_str_empty)
  moreover have "split_string ele (CHR ''='') = f # fs"
    using fs False assms by (simp add: split_string_str fields_def)
  ultimately show ?thesis
    using fs by (cases fs) (auto simp: field_kv_def Let_def)
qed

lemma kv_loop_get:
  assumes "\<forall>e \<in> set arr. sp_valid e"
  shows "str_get (kv_loop arr res) k =
    (case str_get res k of Some v \<Rightarrow> Some v
     | None \<Rightarrow> map_of (filter (\<lambda>p. fst p \<noteq> []) (map (\<lambda>e. field_kv (sp_str e)) arr)) k)"
  using assms
proof (induction arr arbitrary: res)
  case (Cons e arr)
  obtain key v where kv: "field_kv (sp_str e) = (key, v)" by (cases "field_kv (sp_str e)")
  show ?case
    using Cons kv by (auto simp: kv_step str_map_get simp del: kv_loop.simps split: option.split)
qed (auto split: option.split)

lemma kv_loop_sorted: "str_map.sorted_map res \<Longrightarrow> str_map.sorted_map (kv_loop arr res)"
  by (induction arr res rule: kv_loop.induct) (auto simp: Let_def str_map.insert_sorted)

lemma query_loop_get:
  assumes "sp_valid s"
  shows "str_get (kv_loop (split_piece s (CHR ''&'')) []) k = map_of (query_pairs (sp_str s)) k"
proof -
  have "\<forall>e \<in> set (split_piece s (CHR ''&'')). sp_valid e"
    using assms split_piece_valid by blast
  moreover have "map (\<lambda>e. field_kv (sp_str e)) (split_piece s (CHR ''&'')) =
      map field_kv (fields (CHR ''&'') (sp_str s))"
    using arg_cong [OF split_piece_str [OF assms], of "map field_kv" "CHR ''&''"] by (simp add: comp_def)
  ultimately show ?thesis by (simp add: kv_loop_get query_pairs_def)
qed

lemma split_query_get: "sp_valid s \<Longrightarrow> str_get (split_query s) k = map_of (query_pairs (sp_str s)) k"
  using query_loop_get [of s k]
  by (auto simp: split_query_def Let_def sp_empty_def query_pairs_def fields_def sp_str_empty)

text \<open>
  \<^verbatim>\<open>split_query\<close> and \<^verbatim>\<open>parse_post_kv\<close> are the same function, and it is the first-wins map
  of the fields: a key is bound to the value of the first ampersand-separated field that
  has this non-empty key before its first equals sign. The entries are kept in key order.
\<close>

theorem split_query_first_wins:
  assumes "sp_valid s"
  shows "split_query s = parse_post_kv s \<and> str_map.sorted_map (split_query s) \<and>
    str_get (split_query s) k = map_of (query_pairs (sp_str s)) k"
proof -
  have "split_query s = parse_post_kv s" by (simp only: split_query_def parse_post_kv_def)
  moreover have "str_map.sorted_map (split_query s)"
    using kv_loop_sorted by (simp add: split_query_def Let_def)
  ultimately show ?thesis using split_query_get [OF assms] by simp
qed

theorem split_query_first_wins_witness:
  "str_get (split_query (sp_of_str ''a=1&=z&&b&a=2&c=x=y'')) ''a'' = Some ''1'' \<and>
   str_get (split_query (sp_of_str ''a=1&=z&&b&a=2&c=x=y'')) ''b'' = Some '''' \<and>
   str_get (split_query (sp_of_str ''a=1&=z&&b&a=2&c=x=y'')) ''c'' = Some ''x'' \<and>
   str_get (split_query (sp_of_str ''a=1&=z&&b&a=2&c=x=y'')) '''' = None"
proof -
  let ?q = "''a=1&=z&&b&a=2&c=x=y''"
  have "str_get (split_query (sp_of_str ?q)) k = map_of (query_pairs ?q) k" for k
    using split_query_first_wins [of "sp_of_str ?q" k] by (metis sp_valid_of_str(1,2))
  then show ?thesis by (simp add: query_pairs_def field_kv_def fields_def)
qed

text \<open>The query string a client builds of key-value pairs.\<close>

definition build_query :: "(string \<times> string) list \<Rightarrow> string" where
  "build_query ps = join_with (CHR ''&'') (map (\<lambda>(k, v). k @ CHR ''='' # v) ps)"

lemma query_pairs_build:
  assumes "\<forall>(k, v) \<in> set ps. k \<noteq> [] \<and> CHR ''='' \<notin> set k \<and> CHR ''&'' \<notin> set k \<and>
      CHR ''='' \<notin> set v \<and> CHR ''&'' \<notin> set v"
  shows "query_pairs (build_query ps) = ps"
proof (cases "ps = []")
  case True
  then show ?thesis by (simp add: query_pairs_def build_query_def fields_def)
next
  case False
  let ?fs = "map (\<lambda>(k, v). k @ CHR ''='' # v) ps"
  have split: "split_on (CHR ''&'') (build_query ps) = ?fs"
    unfolding build_query_def using assms False by (intro split_on_join) auto
  have "build_query ps \<noteq> []"
    using False by (cases ps rule: remdups_adj.cases) (auto simp: build_query_def)
  then have "fields (CHR ''&'') (build_query ps) = ?fs"
    using split by (simp add: fields_def)
  moreover have "map field_kv ?fs = ps"
    using assms by (induction ps) (auto simp: field_kv_def split_on_append split_on_plain)
  moreover have "filter (\<lambda>p. fst p \<noteq> []) ps = ps"
    using assms by (auto intro!: filter_True)
  ultimately show ?thesis by (simp add: query_pairs_def)
qed

text \<open>
  Round trip of the query string: parsing what a client builds from pairs whose keys are
  non-empty and which hold neither an equals sign nor an ampersand gives the pairs back.
\<close>

theorem split_query_build:
  assumes "\<forall>(k, v) \<in> set ps. k \<noteq> [] \<and> CHR ''='' \<notin> set k \<and> CHR ''&'' \<notin> set k \<and>
      CHR ''='' \<notin> set v \<and> CHR ''&'' \<notin> set v"
  shows "str_get (split_query (sp_of_str (build_query ps))) k = map_of ps k"
  using query_pairs_build [OF assms] by (simp add: split_query_get)

theorem split_query_build_witness:
  "str_get (split_query (sp_of_str (build_query [(''id'', ''7''), (''name'', ''ada'')]))) ''name''
     = Some ''ada''"
  using split_query_build [of "[(''id'', ''7''), (''name'', ''ada'')]" "''name''"] by simp

end
