(* ===== verification/Http_Content.thy ===== *)
theory Http_Content
  imports Multipart_Parser Uri_Util
begin

text \<open>
  \<^verbatim>\<open>src/core/HttpContent.h\<close> and \<^verbatim>\<open>HttpContent.cc\<close>: the form a multipart body is parsed into, the
  callbacks that fill it in, and the list of parts a response encodes. An exception of a callback
  (of the string built from a quoted value) is an \<open>Inl\<close>.
\<close>

type_synonym form = "(string, string \<times> string) smap"

datatype mp_user_state =
    MP_START | MP_PART_DATA_BEGIN | MP_HEADER_FIELD | MP_HEADER_VALUE | MP_HEADERS_COMPLETE
  | MP_PART_DATA | MP_PART_DATA_END | MP_BODY_END

record multipart_userdata =
  ud_form :: form
  ud_state :: mp_user_state
  header_field :: string
  header_value :: string
  part_data :: string
  ud_name :: string
  ud_filename :: string

definition k_default_boundary :: string where
  "k_default_boundary = ''----WebKitFormBoundary7MA4YWxkTrZu0gW''"

section \<open>Headers and data of a part\<close>

fun dispo_loop :: "string_piece list \<Rightarrow> multipart_userdata \<Rightarrow> cpp_error + multipart_userdata" where
  "dispo_loop [] ud = Inr ud"
| "dispo_loop (dispo # ds) ud =
     (let kv = split_piece (trim dispo) (CHR ''='') in
      if length kv = 2 then
        (case trim_pairs (kv ! 1) quote_pairs of
           Inl e \<Rightarrow> Inl e
         | Inr value \<Rightarrow>
             if sp_starts_with (kv ! 0) (sp_of_cstr ''name'') then
               (case sp_as_string value of Inl e \<Rightarrow> Inl e | Inr s \<Rightarrow> dispo_loop ds (ud\<lparr>ud_name := s\<rparr>))
             else if sp_starts_with (kv ! 0) (sp_of_cstr ''filename'') then
               (case sp_as_string value of Inl e \<Rightarrow> Inl e | Inr s \<Rightarrow> dispo_loop ds (ud\<lparr>ud_filename := s\<rparr>))
             else dispo_loop ds ud)
      else dispo_loop ds ud)"

definition handle_header :: "multipart_userdata \<Rightarrow> cpp_error + multipart_userdata" where
  "handle_header ud =
     (if header_field ud = [] \<or> header_value ud = [] then Inr ud
      else
        (case (if strcasecmp_eq (header_field ud) ''Content-Disposition''
               then dispo_loop (split_piece (sp_of_str (header_value ud)) (CHR '';'')) ud
               else Inr ud) of
           Inl e \<Rightarrow> Inl e
         | Inr ud \<Rightarrow> Inr (ud\<lparr>header_field := [], header_value := []\<rparr>)))"

definition handle_data :: "multipart_userdata \<Rightarrow> multipart_userdata" where
  "handle_data ud =
     (let ud = (if ud_name ud \<noteq> []
                then ud\<lparr>ud_form := str_assign (ud_name ud) (ud_filename ud, part_data ud) (ud_form ud)\<rparr>
                else ud) in
      ud\<lparr>ud_name := [], ud_filename := [], part_data := []\<rparr>)"

text \<open>The seven callbacks; all of them return 0.\<close>

fun form_callback :: "multipart_userdata mp_callback" where
  "form_callback (OnHeaderField s) ud =
     (case handle_header ud of
        Inl e \<Rightarrow> Inl e
      | Inr ud \<Rightarrow> Inr (ud\<lparr>ud_state := MP_HEADER_FIELD, header_field := header_field ud @ s\<rparr>, 0))"
| "form_callback (OnHeaderValue s) ud =
     Inr (ud\<lparr>ud_state := MP_HEADER_VALUE, header_value := header_value ud @ s\<rparr>, 0)"
| "form_callback (OnPartData s) ud =
     Inr (ud\<lparr>ud_state := MP_PART_DATA, part_data := part_data ud @ s\<rparr>, 0)"
| "form_callback OnPartDataBegin ud = Inr (ud\<lparr>ud_state := MP_PART_DATA_BEGIN\<rparr>, 0)"
| "form_callback OnHeadersComplete ud =
     (case handle_header ud of
        Inl e \<Rightarrow> Inl e
      | Inr ud \<Rightarrow> Inr (ud\<lparr>ud_state := MP_HEADERS_COMPLETE\<rparr>, 0))"
| "form_callback OnPartDataEnd ud = Inr (handle_data (ud\<lparr>ud_state := MP_PART_DATA_END\<rparr>), 0)"
| "form_callback OnBodyEnd ud = Inr (ud\<lparr>ud_state := MP_BODY_END\<rparr>, 0)"

definition new_userdata :: multipart_userdata where
  "new_userdata = \<lparr>ud_form = [], ud_state = MP_START, header_field = [], header_value = [],
     part_data = [], ud_name = [], ud_filename = []\<rparr>"

definition parse_multipart :: "string \<Rightarrow> string_piece \<Rightarrow> cpp_error + form" where
  "parse_multipart boundary body =
     (case multipart_parser_execute form_callback (multipart_parser_init (''--'' @ boundary)) (sp_str body) new_userdata of
        Inl e \<Rightarrow> Inl e
      | Inr (n, p, ud) \<Rightarrow> Inr (ud_form ud))"

section \<open>The encoder\<close>

record multipart_encoder =
  enc_boundary :: string
  enc_params :: "(string \<times> string) list"
  enc_files :: "(string \<times> string) list"

definition new_encoder :: multipart_encoder where
  "new_encoder = \<lparr>enc_boundary = k_default_boundary, enc_params = [], enc_files = []\<rparr>"

definition add_param :: "string \<Rightarrow> string \<Rightarrow> multipart_encoder \<Rightarrow> multipart_encoder" where
  "add_param name value e = e\<lparr>enc_params := enc_params e @ [(name, value)]\<rparr>"

definition add_file :: "string \<Rightarrow> string \<Rightarrow> multipart_encoder \<Rightarrow> multipart_encoder" where
  "add_file file_name file_path e = e\<lparr>enc_files := enc_files e @ [(file_name, file_path)]\<rparr>"

definition set_boundary :: "string \<Rightarrow> multipart_encoder \<Rightarrow> multipart_encoder" where
  "set_boundary boundary e = e\<lparr>enc_boundary := boundary\<rparr>"

end
