(* ===== verification/Timestamps.thy ===== *)
theory Timestamps
  imports Prelude
begin

text \<open>
  \<^verbatim>\<open>src/base/Timestamp.h\<close> and \<^verbatim>\<open>Timestamp.cc\<close>: a point in time as microseconds since the epoch
  in an unsigned 64-bit integer. The clock and the formatting of the C library
  (\<^verbatim>\<open>std::put_time\<close> of \<^verbatim>\<open>std::localtime\<close>) are arguments. The operators that take or return
  a \<^verbatim>\<open>double\<close> are in \<open>Timestamp_Sec\<close>.
\<close>

record timestamp =
  micro_sec_since_epoch :: "64 word"

definition ts_default :: timestamp where
  "ts_default = \<lparr>micro_sec_since_epoch = 0\<rparr>"

definition ts_of_micro :: "64 word \<Rightarrow> timestamp" where
  "ts_of_micro us = \<lparr>micro_sec_since_epoch = us\<rparr>"

definition ts_swap :: "timestamp \<Rightarrow> timestamp \<Rightarrow> timestamp \<times> timestamp" where
  "ts_swap this that = (that, this)"

definition ts_valid :: "timestamp \<Rightarrow> bool" where
  "ts_valid t \<longleftrightarrow> micro_sec_since_epoch t > 0"

definition k_micro_sec_per_sec :: "64 word" where
  "k_micro_sec_per_sec = 1000 * 1000"

definition ts_to_str :: "timestamp \<Rightarrow> string" where
  "ts_to_str t =
     show_nat (unat (micro_sec_since_epoch t div k_micro_sec_per_sec)) @ ''.'' @
     show_nat (unat (micro_sec_since_epoch t mod k_micro_sec_per_sec))"

text \<open>\<open>put_time\<close> formats a number of seconds.\<close>

definition to_format_str :: "(nat \<Rightarrow> string \<Rightarrow> string) \<Rightarrow> string \<Rightarrow> timestamp \<Rightarrow> string" where
  "to_format_str put_time fmt t = put_time (unat (micro_sec_since_epoch t div k_micro_sec_per_sec)) fmt"

definition to_format_str_default :: "(nat \<Rightarrow> string \<Rightarrow> string) \<Rightarrow> timestamp \<Rightarrow> string" where
  "to_format_str_default put_time t = to_format_str put_time ''%Y-%m-%d %X'' t"

definition ts_now :: "64 word \<Rightarrow> timestamp" where
  "ts_now clock = ts_of_micro clock"

definition ts_lt :: "'a timestamp_scheme \<Rightarrow> 'a timestamp_scheme \<Rightarrow> bool" where
  "ts_lt lhs rhs \<longleftrightarrow> micro_sec_since_epoch lhs < micro_sec_since_epoch rhs"

definition ts_le :: "'a timestamp_scheme \<Rightarrow> 'a timestamp_scheme \<Rightarrow> bool" where
  "ts_le lhs rhs \<longleftrightarrow> micro_sec_since_epoch lhs \<le> micro_sec_since_epoch rhs"

definition ts_gt :: "'a timestamp_scheme \<Rightarrow> 'a timestamp_scheme \<Rightarrow> bool" where
  "ts_gt lhs rhs \<longleftrightarrow> micro_sec_since_epoch lhs > micro_sec_since_epoch rhs"

definition ts_ge :: "'a timestamp_scheme \<Rightarrow> 'a timestamp_scheme \<Rightarrow> bool" where
  "ts_ge lhs rhs \<longleftrightarrow> micro_sec_since_epoch lhs \<ge> micro_sec_since_epoch rhs"

definition ts_eq :: "'a timestamp_scheme \<Rightarrow> 'a timestamp_scheme \<Rightarrow> bool" where
  "ts_eq lhs rhs \<longleftrightarrow> micro_sec_since_epoch lhs = micro_sec_since_epoch rhs"

definition ts_ne :: "'a timestamp_scheme \<Rightarrow> 'a timestamp_scheme \<Rightarrow> bool" where
  "ts_ne lhs rhs \<longleftrightarrow> micro_sec_since_epoch lhs \<noteq> micro_sec_since_epoch rhs"

instantiation timestamp_ext :: (type) ord
begin

definition less_eq_timestamp_ext :: "'a timestamp_scheme \<Rightarrow> 'a timestamp_scheme \<Rightarrow> bool" where
  "less_eq_timestamp_ext lhs rhs \<longleftrightarrow> ts_le lhs rhs"

definition less_timestamp_ext :: "'a timestamp_scheme \<Rightarrow> 'a timestamp_scheme \<Rightarrow> bool" where
  "less_timestamp_ext lhs rhs \<longleftrightarrow> ts_lt lhs rhs"

instance ..

end

definition ts_add :: "timestamp \<Rightarrow> 64 word \<Rightarrow> timestamp" where
  "ts_add lhs ms = ts_of_micro (micro_sec_since_epoch lhs + ms)"

definition ts_sub :: "timestamp \<Rightarrow> 64 word \<Rightarrow> timestamp" where
  "ts_sub lhs ms = ts_of_micro (micro_sec_since_epoch lhs - ms)"

section \<open>Properties\<close>

text \<open>
  Shifting a timestamp: subtracting what was added gives the timestamp back, also across the
  wrap-around of the 64-bit counter; adding moves forward exactly when the sum fits.
\<close>

theorem ts_shift:
  "ts_sub (ts_add t d) d = t \<and>
   (t \<le> ts_add t d \<longleftrightarrow> unat (micro_sec_since_epoch t) + unat d < 2 ^ 64)"
proof
  show "ts_sub (ts_add t d) d = t"
    by (cases t) (simp add: ts_sub_def ts_add_def ts_of_micro_def)
  have "micro_sec_since_epoch t \<le> micro_sec_since_epoch t + d \<longleftrightarrow>
      unat (micro_sec_since_epoch t) + unat d < 2 ^ 64"
  proof (cases "unat (micro_sec_since_epoch t) + unat d < 2 ^ 64")
    case True
    then have "unat (micro_sec_since_epoch t + d) = unat (micro_sec_since_epoch t) + unat d"
      by (simp add: unat_word_ariths)
    then show ?thesis using True by (simp add: word_le_nat_alt)
  next
    case False
    have "unat (micro_sec_since_epoch t + d) = unat (micro_sec_since_epoch t) + unat d - 2 ^ 64"
      using False unsigned_less [of d, where 'a = nat] unsigned_less [of "micro_sec_since_epoch t", where 'a = nat]
      by (simp add: unat_word_ariths mod_if)
    then show ?thesis
      using False unsigned_less [of d, where 'a = nat] by (simp add: word_le_nat_alt)
  qed
  then show "t \<le> ts_add t d \<longleftrightarrow> unat (micro_sec_since_epoch t) + unat d < 2 ^ 64"
    by (simp add: less_eq_timestamp_ext_def ts_le_def ts_add_def ts_of_micro_def)
qed

lemma show_nat_no_dot: "CHR ''.'' \<notin> set (show_nat n)"
  using show_nat_digits [of n] by (auto simp: list_all_iff isdigit_def)

lemma append_sep_inj:
  "x \<notin> set a \<Longrightarrow> x \<notin> set b \<Longrightarrow> a @ x # c = b @ x # d \<Longrightarrow> a = b \<and> c = d"
  by (induction a arbitrary: b) (auto simp: Cons_eq_append_conv append_eq_Cons_conv)

text \<open>
  The printed form identifies the timestamp. It is not a decimal fraction: the microseconds
  are printed without leading zeros, so five microseconds past the first second print as
  \<^verbatim>\<open>1.5\<close>.
\<close>

theorem ts_to_str_inj:
  "(ts_to_str s = ts_to_str t \<longleftrightarrow> s = t) \<and> ts_to_str (ts_of_micro 1000005) = ''1.5''"
proof
  show "ts_to_str s = ts_to_str t \<longleftrightarrow> s = t"
  proof
    assume eq: "ts_to_str s = ts_to_str t"
    let ?k = k_micro_sec_per_sec
    let ?a = "micro_sec_since_epoch s" and ?b = "micro_sec_since_epoch t"
    have "show_nat (unat (?a div ?k)) = show_nat (unat (?b div ?k)) \<and>
        show_nat (unat (?a mod ?k)) = show_nat (unat (?b mod ?k))"
      using eq by (intro append_sep_inj) (simp_all add: ts_to_str_def show_nat_no_dot)
    then have "?a div ?k = ?b div ?k" "?a mod ?k = ?b mod ?k"
      using read_show_nat by (metis word_unat_eq_iff)+
    then have "?a = ?b" by (metis div_mult_mod_eq)
    then show "s = t" by simp
  qed simp
  show "ts_to_str (ts_of_micro 1000005) = ''1.5''"
    by (simp add: ts_to_str_def ts_of_micro_def k_micro_sec_per_sec_def show_nat.simps char_of_eq_iff)
qed

end
