(* ===== verification/Http_Cookie.thy ===== *)
theory Http_Cookie
  imports Uri_Util Timestamps
begin

text \<open>
  \<^verbatim>\<open>src/core/HttpCookie.h\<close> and \<^verbatim>\<open>HttpCookie.cc\<close>: the cookie a response sets, its header value,
  and the splitting of the \<^verbatim>\<open>Cookie\<close> header of a request. The map of pieces \<^verbatim>\<open>split\<close> fills is
  keyed by content. The formatting of the expiry time is the argument \<open>put_time\<close>.
\<close>

datatype same_site = DEFAULT | STRICT | LAX | NONE

fun same_site_to_str :: "same_site \<Rightarrow> string" where
  "same_site_to_str STRICT = ''Strict''"
| "same_site_to_str LAX = ''Lax''"
| "same_site_to_str NONE = ''None''"
| "same_site_to_str DEFAULT = ''''"

record http_cookie =
  ck_key :: string
  ck_value :: string
  ck_domain :: string
  ck_path :: string
  ck_expires :: timestamp
  ck_max_age :: int
  ck_secure :: bool
  ck_http_only :: bool
  ck_same_site :: same_site

definition new_cookie :: "string \<Rightarrow> string \<Rightarrow> http_cookie" where
  "new_cookie key value =
     \<lparr>ck_key = key, ck_value = value, ck_domain = [], ck_path = [], ck_expires = ts_default,
      ck_max_age = 0, ck_secure = False, ck_http_only = False, ck_same_site = DEFAULT\<rparr>"

definition cookie_bool :: "http_cookie \<Rightarrow> bool" where
  "cookie_bool c \<longleftrightarrow> ck_key c \<noteq> [] \<and> ck_value c \<noteq> []"

text \<open>The setters.\<close>

definition set_key :: "string \<Rightarrow> http_cookie \<Rightarrow> http_cookie" where
  "set_key k c = c\<lparr>ck_key := k\<rparr>"

definition set_value :: "string \<Rightarrow> http_cookie \<Rightarrow> http_cookie" where
  "set_value v c = c\<lparr>ck_value := v\<rparr>"

definition set_domain :: "string \<Rightarrow> http_cookie \<Rightarrow> http_cookie" where
  "set_domain d c = c\<lparr>ck_domain := d\<rparr>"

definition set_path :: "string \<Rightarrow> http_cookie \<Rightarrow> http_cookie" where
  "set_path p c = c\<lparr>ck_path := p\<rparr>"

definition set_expires :: "timestamp \<Rightarrow> http_cookie \<Rightarrow> http_cookie" where
  "set_expires t c = c\<lparr>ck_expires := t\<rparr>"

definition set_max_age :: "int \<Rightarrow> http_cookie \<Rightarrow> http_cookie" where
  "set_max_age n c = c\<lparr>ck_max_age := n\<rparr>"

definition set_secure :: "bool \<Rightarrow> http_cookie \<Rightarrow> http_cookie" where
  "set_secure b c = c\<lparr>ck_secure := b\<rparr>"

definition set_http_only :: "bool \<Rightarrow> http_cookie \<Rightarrow> http_cookie" where
  "set_http_only b c = c\<lparr>ck_http_only := b\<rparr>"

definition set_same_site :: "same_site \<Rightarrow> http_cookie \<Rightarrow> http_cookie" where
  "set_same_site s c = c\<lparr>ck_same_site := s\<rparr>"

section \<open>Printing\<close>

definition cookie_dump :: "(nat \<Rightarrow> string \<Rightarrow> string) \<Rightarrow> http_cookie \<Rightarrow> string" where
  "cookie_dump put_time c =
     (let ret = ck_key c @ ''='' @ ck_value c @ ''; '';
          has_max_age = (ck_max_age c > 0);
          ret = (if has_max_age then ret @ ''Max-Age'' @ ''='' @ show_int (ck_max_age c) @ ''; '' else ret);
          ret = (if \<not> has_max_age \<and> ts_valid (ck_expires c)
                 then ret @ ''Expires='' @ to_format_str put_time ''%a, %d %b %Y %H:%M:%S GMT'' (ck_expires c) @ ''; ''
                 else ret);
          ret = (if ck_domain c \<noteq> [] then ret @ ''Domain='' @ ck_domain c @ ''; '' else ret);
          ret = (if ck_path c \<noteq> [] then ret @ ''Path='' @ ck_path c @ ''; '' else ret);
          ret = (if ck_secure c then ret @ ''Secure; '' else ret);
          ret = (if ck_http_only c then ret @ ''HttpOnly; '' else ret);
          same_site = same_site_to_str (ck_same_site c);
          ret = (if same_site \<noteq> [] then ret @ ''SameSite='' @ same_site @ ''; '' else ret);
          ret = (if same_site = ''None'' \<and> \<not> ck_secure c then ret @ ''Secure; '' else ret) in
      take (length ret - 2) ret)"

section \<open>Splitting\<close>

fun cookie_loop :: "string_piece list \<Rightarrow> str_smap \<Rightarrow> str_smap" where
  "cookie_loop [] res = res"
| "cookie_loop (ele # arr) res =
     (if sp_empty ele then cookie_loop arr res
      else
        (let kv = split_piece ele (CHR ''=''); key = kv ! 0 in
         if sp_empty key \<or> str_get res (sp_str key) \<noteq> None then cookie_loop arr res
         else if length kv = 1 then cookie_loop arr (str_insert (sp_str (trim key)) [] res)
         else (let val = kv ! 1 in
               if sp_empty val then cookie_loop arr (str_insert (sp_str (trim key)) [] res)
               else cookie_loop arr (str_insert (sp_str (trim key)) (sp_str (trim val)) res))))"

text \<open>The last loop copies the map of pieces into a map of strings.\<close>

definition cookie_split :: "string_piece \<Rightarrow> str_smap" where
  "cookie_split cookie_piece =
     (if sp_empty cookie_piece then []
      else (let arr = split_piece cookie_piece (CHR '','') in
            if arr = [] then []
            else foldl (\<lambda>res (k, v). str_insert k v res) [] (cookie_loop arr [])))"

section \<open>What is printed\<close>

fun join_str :: "string \<Rightarrow> string list \<Rightarrow> string" where
  "join_str sep [] = []"
| "join_str sep [f] = f"
| "join_str sep (f # g # fs) = f @ sep @ join_str sep (g # fs)"

definition cookie_attributes :: "(nat \<Rightarrow> string \<Rightarrow> string) \<Rightarrow> http_cookie \<Rightarrow> string list" where
  "cookie_attributes put_time c =
     [ck_key c @ ''='' @ ck_value c] @
     (if ck_max_age c > 0 then [''Max-Age='' @ show_int (ck_max_age c)]
      else if ts_valid (ck_expires c)
           then [''Expires='' @ to_format_str put_time ''%a, %d %b %Y %H:%M:%S GMT'' (ck_expires c)] else []) @
     (if ck_domain c = [] then [] else [''Domain='' @ ck_domain c]) @
     (if ck_path c = [] then [] else [''Path='' @ ck_path c]) @
     (if ck_secure c then [''Secure''] else []) @
     (if ck_http_only c then [''HttpOnly''] else []) @
     (if ck_same_site c = DEFAULT then [] else [''SameSite='' @ same_site_to_str (ck_same_site c)]) @
     (if ck_same_site c = NONE \<and> \<not> ck_secure c then [''Secure''] else [])"

lemma join_str_terminated:
  "fs \<noteq> [] \<Longrightarrow> join_str ''; '' fs = take (length (concat (map (\<lambda>f. f @ ''; '') fs)) - 2) (concat (map (\<lambda>f. f @ ''; '') fs))"
proof (induction fs)
  case (Cons f fs)
  then show ?case by (cases fs) auto
qed simp

lemma same_site_to_str_simps:
  "same_site_to_str s = [] \<longleftrightarrow> s = DEFAULT" "same_site_to_str s = ''None'' \<longleftrightarrow> s = NONE"
  by (cases s; simp)+

lemma append_if: "(if b then r @ x else r) = r @ (if b then x else [])"
  by simp

lemma concat_map_if: "concat (map f (if b then [x] else [])) = (if b then f x else [])"
    "concat (map f (if b then [] else [x])) = (if b then [] else f x)"
    "concat (map f (if b then [x] else if d then [y] else [])) = (if b then f x else []) @ (if \<not> b \<and> d then f y else [])"
  by simp_all

lemma if_not_if: "(if \<not> b then x else y) = (if b then y else x)"
  by simp

text \<open>
  The header value of a cookie is the list of its attributes, separated by a semicolon and a
  blank: the pair of key and value first, \<^verbatim>\<open>Max-Age\<close> instead of \<^verbatim>\<open>Expires\<close> when both are
  set, and \<^verbatim>\<open>Secure\<close> among them exactly when the cookie is secure or is for any site.
\<close>

theorem cookie_dump_attributes:
  "cookie_dump put_time c = join_str ''; '' (cookie_attributes put_time c) \<and>
   (''Secure'' \<in> set (tl (cookie_attributes put_time c)) \<longleftrightarrow> ck_secure c \<or> ck_same_site c = NONE)"
proof
  have "cookie_dump put_time c =
      take (length (concat (map (\<lambda>f. f @ ''; '') (cookie_attributes put_time c))) - 2)
        (concat (map (\<lambda>f. f @ ''; '') (cookie_attributes put_time c)))"
    unfolding cookie_dump_def cookie_attributes_def Let_def same_site_to_str_simps
      append_if map_append concat_append concat_map_if
    by (simp only: append_assoc list.map concat.simps append.simps if_not_if append_Nil2)
  then show "cookie_dump put_time c = join_str ''; '' (cookie_attributes put_time c)"
    by (subst join_str_terminated) (simp_all add: cookie_attributes_def)
  show "''Secure'' \<in> set (tl (cookie_attributes put_time c)) \<longleftrightarrow> ck_secure c \<or> ck_same_site c = NONE"
    by (simp add: cookie_attributes_def) blast
qed

section \<open>What is split\<close>

definition cookie_field :: "string \<Rightarrow> string \<times> string" where
  "cookie_field f = (let (k, v) = field_kv f in (strip_left (strip_right k), strip_left (strip_right v)))"

definition cookie_pairs :: "string \<Rightarrow> (string \<times> string) list" where
  "cookie_pairs s = map cookie_field (filter (\<lambda>f. fst (field_kv f) \<noteq> []) (Str_Util.fields (CHR '','') s))"

lemma cookie_step:
  assumes "sp_valid ele" and "\<forall>k. str_get res k \<noteq> None \<longrightarrow> strip_left (strip_right k) = k"
  shows "cookie_loop (ele # arr) res =
    (if fst (field_kv (sp_str ele)) = [] then cookie_loop arr res
     else cookie_loop arr (str_insert (fst (cookie_field (sp_str ele))) (snd (cookie_field (sp_str ele))) res))"
proof (cases "sp_str ele = []")
  case True
  then have "sp_empty ele" using assms by (simp add: sp_empty_def sp_str_empty)
  then show ?thesis using True by simp
next
  case False
  have ne: "\<not> sp_empty ele" using False assms(1) by (simp add: sp_empty_def sp_str_empty)
  have str: "map sp_str (split_piece ele (CHR ''='')) = split_on (CHR ''='') (sp_str ele)"
    using False assms(1) by (simp add: split_piece_str Str_Util.fields_def)
  then obtain p ps where ps: "split_piece ele (CHR ''='') = p # ps"
    using split_on_ne [of "CHR ''=''" "sp_str ele"] by (cases "split_piece ele (CHR ''='')") auto
  have v: "sp_valid q" if "q \<in> set (p # ps)" for q
    using split_piece_valid [OF assms(1)] that ps by metis
  have kv: "field_kv (sp_str ele) = (sp_str p, if ps = [] then [] else sp_str (hd ps))"
    using str by (cases ps) (auto simp: field_kv_def ps simp flip: str)
  have t: "sp_str (trim q) = strip_left (strip_right (sp_str q))" if "q \<in> set (p # ps)" for q
    using trim_str [OF v [OF that]] by simp
  have e: "sp_empty q \<longleftrightarrow> sp_str q = []" if "q \<in> set (p # ps)" for q
    using sp_str_empty [OF v [OF that]] by (simp add: sp_empty_def)
  have pres: "str_insert (strip_left (strip_right (sp_str p))) w res = res" if "str_get res (sp_str p) \<noteq> None" for w
    using that assms(2) str_map.insert_present by metis
  have nil: "strip_left (strip_right []) = []" by (simp add: strip_left_def strip_right_def)
  show ?thesis
    using ne kv pres t [of p] e [of p] t [of "hd ps"] e [of "hd ps"]
    by (cases ps) (auto simp: ps Let_def cookie_field_def nil)
qed

lemma strip_right_id: "s = [] \<or> \<not> isspace (last s) \<Longrightarrow> strip_right s = s"
  by (cases s rule: rev_cases) (auto simp: strip_right_def)

lemma strip_right_last: "strip_right s = [] \<or> \<not> isspace (last (strip_right s))"
  using hd_dropWhile [of isspace "rev s"] by (auto simp: strip_right_def last_rev)

lemma strip_left_last: "strip_left s = [] \<or> last (strip_left s) = last s"
  by (induction s) (auto simp: strip_left_def)

lemma strip_strip: "strip_left (strip_right (strip_left (strip_right k))) = strip_left (strip_right k)"
proof -
  have "strip_right (strip_left (strip_right k)) = strip_left (strip_right k)"
    using strip_right_last [of k] strip_left_last [of "strip_right k"]
    by (intro strip_right_id) (auto simp: strip_left_def)
  then show ?thesis by (simp add: strip_left_def dropWhile_idem)
qed

lemma cookie_loop_get:
  assumes "\<forall>e \<in> set arr. sp_valid e" and "\<forall>k. str_get res k \<noteq> None \<longrightarrow> strip_left (strip_right k) = k"
  shows "str_get (cookie_loop arr res) k =
    (case str_get res k of Some v \<Rightarrow> Some v
     | None \<Rightarrow> map_of (map cookie_field (filter (\<lambda>f. fst (field_kv f) \<noteq> []) (map sp_str arr))) k)"
  using assms
proof (induction arr arbitrary: res)
  case (Cons e arr)
  have v: "sp_valid e" "\<forall>e \<in> set arr. sp_valid e" using Cons.prems(1) by simp_all
  obtain key v where kv: "cookie_field (sp_str e) = (key, v)" by (cases "cookie_field (sp_str e)")
  have "strip_left (strip_right key) = key"
    using kv strip_strip by (auto simp: cookie_field_def split: prod.splits)
  then have inv: "\<forall>k. str_get (str_insert key v res) k \<noteq> None \<longrightarrow> strip_left (strip_right k) = k"
    using Cons.prems(2) by (auto simp: str_map_get)
  show ?case
    using Cons.IH [OF v(2) Cons.prems(2)] Cons.IH [OF v(2) inv] kv
    by (auto simp: cookie_step [OF v(1) Cons.prems(2)] str_map_get simp del: cookie_loop.simps split: option.split)
qed (auto split: option.split)

lemma insert_all_get:
  "str_get (foldl (\<lambda>res (k, v). str_insert k v res) acc m) k =
     (case str_get acc k of Some v \<Rightarrow> Some v | None \<Rightarrow> map_of m k)"
  by (induction m arbitrary: acc) (auto simp: str_map_get split: option.split)

lemma sorted_map_of: "str_map.sorted_map m \<Longrightarrow> map_of m k = str_get m k"
proof (induction m)
  case (Cons e m)
  obtain k' v where e: "e = (k', v)" by (cases e)
  have "k < k' \<Longrightarrow> map_of m k = None"
    using Cons.prems by (auto simp: e map_of_eq_None_iff dest: less_trans)
  then show ?case using Cons by (auto simp: e less_not_sym not_less_iff_gr_or_eq)
qed simp

lemma cookie_loop_sorted: "str_map.sorted_map res \<Longrightarrow> str_map.sorted_map (cookie_loop arr res)"
  by (induction arr res rule: cookie_loop.induct) (auto simp: Let_def str_map.insert_sorted)

text \<open>
  Splitting a cookie header: a key is bound to the value of the first comma-separated field
  with that key once the blanks around it are removed, and the value is without the blanks around
  it. (The separator of the header is the comma, not the semicolon of the standard.)
\<close>

theorem cookie_split_first_wins:
  assumes "sp_valid s"
  shows "str_get (cookie_split s) k = map_of (cookie_pairs (sp_str s)) k"
proof -
  let ?arr = "split_piece s (CHR '','')"
  have v: "\<forall>e \<in> set ?arr. sp_valid e" using assms split_piece_valid by blast
  have "map_of (cookie_loop ?arr []) k = map_of (cookie_pairs (sp_str s)) k"
    using cookie_loop_get [OF v, of "[]" k] cookie_loop_sorted [of "[]" ?arr] split_piece_str [OF assms, of "CHR '',''"]
    by (simp add: sorted_map_of cookie_pairs_def)
  moreover have "sp_empty s \<Longrightarrow> sp_str s = []" using assms by (simp add: sp_empty_def sp_str_empty)
  ultimately show ?thesis
    by (auto simp: cookie_split_def Let_def insert_all_get cookie_pairs_def Str_Util.fields_def)
qed

theorem cookie_split_first_wins_witness:
  "str_get (cookie_split (sp_of_str ''user=wfrest, passwd = 123,user=x'')) ''passwd'' = Some ''123'' \<and>
   str_get (cookie_split (sp_of_str ''user=wfrest, passwd = 123,user=x'')) ''user'' = Some ''wfrest''"
proof -
  let ?q = "''user=wfrest, passwd = 123,user=x''"
  have "str_get (cookie_split (sp_of_str ?q)) k = map_of (cookie_pairs ?q) k" for k
    using cookie_split_first_wins [of "sp_of_str ?q" k] by (metis sp_valid_of_str(1,2))
  then show ?thesis
    by (simp add: cookie_pairs_def cookie_field_def field_kv_def Str_Util.fields_def strip_left_def strip_right_def isspace_def)
qed

end
