(* ===== verification/Http_Def.thy ===== *)
theory Http_Def
  imports Prelude
begin

text \<open>
  \<^verbatim>\<open>src/core/HttpDef.h\<close> and \<^verbatim>\<open>HttpDef.cc\<close>: the content types, generated in the source by
  one macro table; \<open>content_type_map\<close> is that table, and the four conversions run down it
  in its order.
\<close>

datatype http_content_type =
    CONTENT_TYPE_NONE
  | TEXT_PLAIN | TEXT_HTML | TEXT_CSS | IMAGE_JPEG | IMAGE_PNG | IMAGE_GIF | IMAGE_BMP | IMAGE_SVG
  | APPLICATION_OCTET_STREAM | APPLICATION_JAVASCRIPT | APPLICATION_XML | APPLICATION_JSON
  | APPLICATION_GRPC | APPLICATION_URLENCODED | MULTIPART_FORM_DATA
  | CONTENT_TYPE_UNDEFINED

definition content_type_map :: "(http_content_type \<times> string \<times> string) list" where
  "content_type_map =
    [(TEXT_PLAIN, ''text/plain'', ''txt''),
     (TEXT_HTML, ''text/html'', ''html''),
     (TEXT_CSS, ''text/css'', ''css''),
     (IMAGE_JPEG, ''image/jpeg'', ''jpg''),
     (IMAGE_PNG, ''image/png'', ''png''),
     (IMAGE_GIF, ''image/gif'', ''gif''),
     (IMAGE_BMP, ''image/bmp'', ''bmp''),
     (IMAGE_SVG, ''image/svg'', ''svg''),
     (APPLICATION_OCTET_STREAM, ''application/octet-stream'', ''bin''),
     (APPLICATION_JAVASCRIPT, ''application/javascript'', ''js''),
     (APPLICATION_XML, ''application/xml'', ''xml''),
     (APPLICATION_JSON, ''application/json'', ''json''),
     (APPLICATION_GRPC, ''application/grpc'', ''grpc''),
     (APPLICATION_URLENCODED, ''application/x-www-form-urlencoded'', ''kv''),
     (MULTIPART_FORM_DATA, ''multipart/form-data'', ''mp'')]"

text \<open>The two-pointer loop of \<^verbatim>\<open>strstartswith\<close> over NUL-terminated strings.\<close>

fun strstartswith_loop :: "string \<Rightarrow> string \<Rightarrow> bool" where
  "strstartswith_loop str [] = True"
| "strstartswith_loop [] (y # ys) = False"
| "strstartswith_loop (x # xs) (y # ys) = (if x = y then strstartswith_loop xs ys else False)"

definition strstartswith :: "string \<Rightarrow> string \<Rightarrow> bool" where
  "strstartswith str start = strstartswith_loop (c_str str) (c_str start)"

definition ct_to_str :: "http_content_type \<Rightarrow> string" where
  "ct_to_str type = (case find (\<lambda>(n, s, x). n = type) content_type_map of
     Some (n, s, x) \<Rightarrow> s | None \<Rightarrow> ''<unknown>'')"

definition ct_to_enum :: "string \<Rightarrow> http_content_type" where
  "ct_to_enum str =
     (if str = [] then CONTENT_TYPE_NONE
      else case find (\<lambda>(n, s, x). strstartswith str s) content_type_map of
        Some (n, s, x) \<Rightarrow> n | None \<Rightarrow> CONTENT_TYPE_UNDEFINED)"

definition ct_to_str_by_suffix :: "string \<Rightarrow> string" where
  "ct_to_str_by_suffix str =
     (if str = [] then ''''
      else case find (\<lambda>(n, s, x). str = x) content_type_map of Some (n, s, x) \<Rightarrow> s | None \<Rightarrow> '''')"

definition ct_to_enum_by_suffix :: "string \<Rightarrow> http_content_type" where
  "ct_to_enum_by_suffix str =
     (if str = [] then CONTENT_TYPE_NONE
      else case find (\<lambda>(n, s, x). str = x) content_type_map of
        Some (n, s, x) \<Rightarrow> n | None \<Rightarrow> CONTENT_TYPE_UNDEFINED)"

lemma strstartswith_loop_append: "strstartswith_loop (p @ r) p"
  by (induction p) auto

lemma strstartswith_loop_iff: "strstartswith_loop s p \<longleftrightarrow> take (length p) s = p"
  by (induction s p rule: strstartswith_loop.induct) auto

lemma c_str_append: "NUL \<notin> set a \<Longrightarrow> c_str (a @ b) = a @ c_str b"
  by (simp add: c_str_def takeWhile_append)

lemma c_str_Cons: "c_str (c # s) = (if c = NUL then [] else c # c_str s)"
  by (simp add: c_str_def)

text \<open>The rows of the table: no two share a type or a suffix, and no name begins another.\<close>

definition rows_apart :: "http_content_type \<times> string \<times> string \<Rightarrow> http_content_type \<times> string \<times> string \<Rightarrow> bool" where
  "rows_apart = (\<lambda>(n, s, x) (n', s', x').
     n \<noteq> n' \<and> x \<noteq> x' \<and> take (length s) s' \<noteq> s \<and> take (length s') s \<noteq> s')"

lemma rows_apart_sorted: "sorted_wrt rows_apart content_type_map"
  by (simp add: content_type_map_def rows_apart_def)

lemma rows_plain:
  "list_all (\<lambda>(n, s, x). s \<noteq> [] \<and> x \<noteq> [] \<and> NUL \<notin> set s) content_type_map"
  by (simp add: content_type_map_def)

lemma sorted_wrt_pairwise:
  "sorted_wrt P l \<Longrightarrow> x \<in> set l \<Longrightarrow> y \<in> set l \<Longrightarrow> x \<noteq> y \<Longrightarrow> P x y \<or> P y x"
  by (induction l) auto

lemma rows_eq:
  assumes "(n, s, x) \<in> set content_type_map" and "(n', s', x') \<in> set content_type_map"
    and "n = n' \<or> x = x' \<or> take (length s) s' = s \<or> take (length s') s = s'"
  shows "(n, s, x) = (n', s', x')"
proof (rule ccontr)
  assume "(n, s, x) \<noteq> (n', s', x')"
  then have "rows_apart (n, s, x) (n', s', x') \<or> rows_apart (n', s', x') (n, s, x)"
    using assms(1,2) rows_apart_sorted sorted_wrt_pairwise by metis
  then show False using assms(3) by (auto simp: rows_apart_def)
qed

lemma find_row:
  assumes "e \<in> set l" and "P e" and "\<And>e'. e' \<in> set l \<Longrightarrow> P e' \<Longrightarrow> e' = e"
  shows "find P l = Some e"
proof -
  obtain e' where "find P l = Some e'"
    using assms(1,2) by (cases "find P l") (auto simp: find_None_iff)
  then show ?thesis using assms(3) find_Some_iff [of P l e'] by (metis nth_mem)
qed

lemma prefix_comparable: "take (length s) (m @ r) = s \<Longrightarrow> take (length s) m = s \<or> take (length m) s = m"
proof (cases "length s \<le> length m")
  case False
  assume "take (length s) (m @ r) = s"
  from arg_cong [OF this, of "take (length m)"] show ?thesis using False by simp
qed simp

lemma content_type_row:
  assumes "(t, mime, sfx) \<in> set content_type_map"
  shows "find (\<lambda>(n, s, x). strstartswith (mime @ rest) s) content_type_map = Some (t, mime, sfx)"
proof (rule find_row)
  have m: "NUL \<notin> set mime" using assms rows_plain by (auto simp: list_all_iff)
  have plain: "NUL \<notin> set s" if "(n, s, x) \<in> set content_type_map" for n s x
    using that rows_plain by (auto simp: list_all_iff)
  show "(t, mime, sfx) \<in> set content_type_map" by (rule assms)
  show "case (t, mime, sfx) of (n, s, x) \<Rightarrow> strstartswith (mime @ rest) s"
    using m by (simp add: strstartswith_def c_str_append strstartswith_loop_append)
  fix e assume e: "e \<in> set content_type_map" "case e of (n, s, x) \<Rightarrow> strstartswith (mime @ rest) s"
  obtain n s x where nsx: "e = (n, s, x)" by (cases e)
  have "take (length s) (mime @ c_str rest) = s"
    using e m plain [of n s x] by (simp add: nsx strstartswith_def c_str_append strstartswith_loop_iff)
  then show "e = (t, mime, sfx)"
    using prefix_comparable rows_eq [of n s x t mime sfx] e(1) assms unfolding nsx by blast
qed

lemma content_type_enum:
  assumes "(t, mime, sfx) \<in> set content_type_map"
  shows "ct_to_enum (mime @ rest) = t"
  using assms rows_plain content_type_row [OF assms] by (auto simp: ct_to_enum_def list_all_iff)

text \<open>
  The content types round trip: a type's own name, with any parameters after it, is
  recognised as that type, and the file suffix of a row selects the same row by name and by
  type.
\<close>

theorem content_type_roundtrip:
  assumes "(t, mime, sfx) \<in> set content_type_map"
  shows "ct_to_str t = mime \<and> ct_to_enum (mime @ rest) = t \<and>
    ct_to_enum_by_suffix sfx = t \<and> ct_to_str_by_suffix sfx = mime"
proof -
  have "sfx \<noteq> []" using assms rows_plain by (auto simp: list_all_iff)
  moreover have "find (\<lambda>(n, s, x). n = t) content_type_map = Some (t, mime, sfx)"
    "find (\<lambda>(n, s, x). sfx = x) content_type_map = Some (t, mime, sfx)"
    using assms rows_eq by (auto intro!: find_row)
  ultimately show ?thesis
    using content_type_enum [OF assms]
    by (simp add: ct_to_str_def ct_to_enum_by_suffix_def ct_to_str_by_suffix_def)
qed

theorem content_type_roundtrip_witness:
  "ct_to_enum ''application/json; charset=utf-8'' = APPLICATION_JSON"
  using content_type_roundtrip [of APPLICATION_JSON "''application/json''" "''json''" "''; charset=utf-8''"]
  by (simp add: content_type_map_def)

end
