(* ===== verification/Compressor.thy ===== *)
theory Compressor
  imports Path_Util
begin

text \<open>
  \<^verbatim>\<open>src/base/Compress.h\<close> and \<^verbatim>\<open>Compress.cc\<close>: the loops around zlib's streaming calls, with the
  output buffer that grows when it is full. The zlib functions are the record \<open>zlib\<close>; a call of
  \<^verbatim>\<open>deflate\<close> or \<^verbatim>\<open>inflate\<close> with room for \<open>n\<close> bytes gives a code, the bytes it wrote and the new
  stream. A loop that does not end has the value \<open>None\<close>.
\<close>

datatype compress = GZIP

definition compress_method_to_str :: "compress \<Rightarrow> string" where
  "compress_method_to_str c = (case c of GZIP \<Rightarrow> ''gzip'')"

datatype zcode = Z_OK | Z_STREAM_END | Z_STREAM_ERROR | Z_OTHER

record 'z zlib =
  deflate_init :: "string \<Rightarrow> 'z option"
  deflate :: "'z \<Rightarrow> nat \<Rightarrow> zcode \<times> string \<times> 'z"
  deflate_avail_in :: "'z \<Rightarrow> nat"
  compress_bound :: "nat \<Rightarrow> nat"
  inflate_init :: "string \<Rightarrow> 'z option"
  inflate :: "'z \<Rightarrow> nat \<Rightarrow> zcode \<times> string \<times> 'z"
  inflate_end_ok :: "'z \<Rightarrow> bool"

text \<open>A \<^verbatim>\<open>uInt\<close> has 32 bits.\<close>

definition to_uint :: "nat \<Rightarrow> nat" where
  "to_uint n = n mod 2 ^ 32"

lemma to_uint_id [simp]: "n < 2 ^ 32 \<Longrightarrow> to_uint n = n"
  by (simp add: to_uint_def)

section \<open>Compression\<close>

text \<open>
  The loop of \<^verbatim>\<open>gzip\<close>: \<open>sz\<close> is the size of the buffer, \<open>out\<close> what has been written to it. The
  result is the return code with the content of \<^verbatim>\<open>dest\<close>, or a failed assertion.
\<close>

partial_function (option) deflate_loop :: "'z zlib \<Rightarrow> nat \<Rightarrow> string \<Rightarrow> 'z \<Rightarrow> (cpp_error + error_code \<times> string) option" where
  "deflate_loop lib sz out z =
     (let sz = (if length out \<ge> sz then length out * 2 else sz);
          avail = to_uint (sz - length out) in
      case deflate lib z avail of (ret, produced, z) \<Rightarrow>
        if ret = Z_STREAM_ERROR then Some (Inr (StatusCompressError, []))
        else if length produced = avail then deflate_loop lib sz (out @ produced) z
        else if deflate_avail_in lib z \<noteq> 0 \<or> ret \<noteq> Z_STREAM_END then Some (Inl AssertFailed)
        else Some (Inr (StatusOK, out @ produced)))"

definition gzip :: "'z zlib \<Rightarrow> string \<Rightarrow> (cpp_error + error_code \<times> string) option" where
  "gzip lib data =
     (if length data > 0 then
        (case deflate_init lib (take (to_uint (length data)) data) of
           None \<Rightarrow> Some (Inr (StatusCompressError, []))
         | Some z \<Rightarrow> deflate_loop lib (compress_bound lib (length data)) [] z)
      else Some (Inr (StatusCompressError, [])))"

section \<open>Decompression\<close>

partial_function (option) inflate_loop :: "'z zlib \<Rightarrow> nat \<Rightarrow> string \<Rightarrow> 'z \<Rightarrow> (bool \<times> string \<times> 'z) option" where
  "inflate_loop lib sz out z =
     (let sz = (if length out \<ge> sz then sz * 2 else sz);
          avail = to_uint (sz - length out) in
      case inflate lib z avail of (status, produced, z) \<Rightarrow>
        if status = Z_STREAM_END then Some (True, out @ produced, z)
        else if status \<noteq> Z_OK then Some (False, out @ produced, z)
        else inflate_loop lib sz (out @ produced) z)"

definition ungzip :: "'z zlib \<Rightarrow> string \<Rightarrow> (error_code \<times> string) option" where
  "ungzip lib data =
     (if length data = 0 then Some (StatusOK, [])
      else
        (case inflate_init lib (take (to_uint (length data)) data) of
           None \<Rightarrow> Some (StatusUncompressError, [])
         | Some z \<Rightarrow>
             (case inflate_loop lib (length data * 2) [] z of
                None \<Rightarrow> None
              | Some (finished, out, z) \<Rightarrow>
                  if \<not> inflate_end_ok lib z then Some (StatusUncompressError, [])
                  else if finished then Some (StatusOK, out)
                  else Some (StatusUncompressError, []))))"

section \<open>The round trip\<close>

text \<open>
  What zlib documents of a stream with the output \<open>rest z\<close> still to come: a call writes as much of
  it as there is room for, and a call with room to spare ends the stream; when the output exactly
  fills the room, the end may be reported at once or by the next call.
\<close>

definition deflate_contract :: "'z zlib \<Rightarrow> ('z \<Rightarrow> string) \<Rightarrow> bool" where
  "deflate_contract lib rest \<longleftrightarrow>
     (\<forall>z n ret produced z'. deflate lib z n = (ret, produced, z') \<longrightarrow>
        produced = take n (rest z) \<and> rest z' = drop n (rest z) \<and> ret \<noteq> Z_STREAM_ERROR \<and>
        (length (rest z) < n \<longrightarrow> ret = Z_STREAM_END \<and> deflate_avail_in lib z' = 0))"

definition inflate_contract :: "'z zlib \<Rightarrow> ('z \<Rightarrow> string) \<Rightarrow> bool" where
  "inflate_contract lib rest \<longleftrightarrow>
     (\<forall>z n status produced z'. inflate lib z n = (status, produced, z') \<longrightarrow>
        produced = take n (rest z) \<and> rest z' = drop n (rest z) \<and> inflate_end_ok lib z' \<and>
        (length (rest z) < n \<longrightarrow> status = Z_STREAM_END) \<and>
        status \<in> {Z_OK, Z_STREAM_END} \<and> (status = Z_STREAM_END \<longrightarrow> rest z' = []))"

lemma deflate_loop_result:
  assumes "deflate_contract lib rest"
  shows "length (out @ rest z) < 2 ^ 31 \<Longrightarrow> 0 < sz \<Longrightarrow> sz < 2 ^ 31 \<Longrightarrow>
    length out \<le> sz \<Longrightarrow>
    deflate_loop lib sz out z = Some (Inr (StatusOK, out @ rest z))"
proof (induction "length (rest z)" arbitrary: sz out z rule: less_induct)
  case less
  define s where "s = (if length out \<ge> sz then length out * 2 else sz)"
  have s: "length out < s" "s - length out < 2 ^ 31" "s < 2 ^ 32"
    using less.prems by (auto simp: s_def)
  obtain ret produced z' where d: "deflate lib z (s - length out) = (ret, produced, z')"
    by (metis prod_cases3)
  then have c: "produced = take (s - length out) (rest z)" "rest z' = drop (s - length out) (rest z)"
    "ret \<noteq> Z_STREAM_ERROR" "length (rest z) < s - length out \<longrightarrow> ret = Z_STREAM_END \<and> deflate_avail_in lib z' = 0"
    using assms by (auto simp: deflate_contract_def)
  show ?case
  proof (cases "length (rest z) < s - length out")
    case True
    then show ?thesis
      by (subst deflate_loop.simps) (use s c d in \<open>simp add: Let_def s_def [symmetric]\<close>)
  next
    case False
    then have "length produced = s - length out" using c by simp
    moreover have "deflate_loop lib s (out @ produced) z' = Some (Inr (StatusOK, (out @ produced) @ rest z'))"
      using False s less.prems c calculation by (intro less.hyps) auto
    ultimately show ?thesis
      by (subst deflate_loop.simps) (use s c d in \<open>simp add: Let_def s_def [symmetric]\<close>)
  qed
qed

lemma inflate_loop_result:
  assumes "inflate_contract lib rest"
  shows "length (out @ rest z) < 2 ^ 31 \<Longrightarrow> 0 < sz \<Longrightarrow> sz < 2 ^ 31 \<Longrightarrow> length out \<le> sz \<Longrightarrow>
    \<exists>z'. inflate_loop lib sz out z = Some (True, out @ rest z, z') \<and> inflate_end_ok lib z'"
proof (induction "length (rest z)" arbitrary: sz out z rule: less_induct)
  case less
  define s where "s = (if length out \<ge> sz then sz * 2 else sz)"
  have s: "length out < s" "s - length out < 2 ^ 32"
    using less.prems by (auto simp: s_def)
  obtain status produced z' where d: "inflate lib z (s - length out) = (status, produced, z')"
    by (metis prod_cases3)
  have c: "produced = take (s - length out) (rest z)" "rest z' = drop (s - length out) (rest z)"
    "inflate_end_ok lib z'" "length (rest z) < s - length out \<longrightarrow> status = Z_STREAM_END"
    "status = Z_OK \<or> status = Z_STREAM_END" "status = Z_STREAM_END \<longrightarrow> rest z' = []"
    using assms [unfolded inflate_contract_def, rule_format, OF d] by auto
  show ?case
  proof (cases "status = Z_STREAM_END")
    case True
    then show ?thesis
      by (subst inflate_loop.simps) (use s c d in \<open>simp add: Let_def s_def [symmetric]\<close>)
  next
    case False
    then have ok: "status = Z_OK" "s - length out \<le> length (rest z)" using c by auto
    have "\<exists>z''. inflate_loop lib s (out @ produced) z' = Some (True, (out @ produced) @ rest z', z'') \<and> inflate_end_ok lib z''"
      using ok s less.prems c by (intro less.hyps) auto
    then show ?thesis
      by (subst inflate_loop.simps) (use s c d ok in \<open>simp add: Let_def s_def [symmetric]\<close>)
  qed
qed


text \<open>A zlib that stores its input behind a marker, with an output buffer that starts at one byte.\<close>

definition stored_zlib :: "string zlib" where
  "stored_zlib =
     \<lparr>deflate_init = (\<lambda>data. Some (CHR ''Z'' # data)),
      deflate = (\<lambda>z n. (if length z < n then Z_STREAM_END else Z_OK, take n z, drop n z)),
      deflate_avail_in = (\<lambda>z. 0), compress_bound = (\<lambda>n. 1),
      inflate_init = (\<lambda>data. Some (tl data)),
      inflate = (\<lambda>z n. (if length z < n then Z_STREAM_END else Z_OK, take n z, drop n z)),
      inflate_end_ok = (\<lambda>z. True)\<rparr>"


end
