(* ===== verification/Http_Req.thy ===== *)
theory Http_Req
  imports Http_Content Http_Cookie Http_Def Compressor
begin

text \<open>
  The request half of \<^verbatim>\<open>src/core/HttpMsg.h\<close> and \<^verbatim>\<open>HttpMsg.cc\<close>. The parsed message of the HTTP
  library is a value of type \<open>'m\<close>; what the code asks of it (the headers in the order they came,
  the decoded body) and of the JSON library are arguments. An accessor that fills a cache returns
  the new request with its result; it has no result when decompression does not end.
\<close>

section \<open>State\<close>

record ('m, 'j) http_req =
  base_msg :: 'm
  content_type :: http_content_type
  rd_body :: string
  rd_form_kv :: str_smap
  rd_form :: form
  rd_json :: 'j
  query_params :: str_smap
  req_cookies :: str_smap
  multi_part_boundary :: string
  req_headers :: "(string, string list) smap"
  parsed_path :: string

text \<open>\<^verbatim>\<open>std::string::find\<close> and \<^verbatim>\<open>strstr\<close>: the rest of the string from the first match on.\<close>

fun find_sub :: "string \<Rightarrow> string \<Rightarrow> string option" where
  "find_sub pat [] = (if pat = [] then Some [] else None)"
| "find_sub pat (c # s) = (if take (length pat) (c # s) = pat then Some (c # s) else find_sub pat s)"

section \<open>Headers\<close>

definition fill_header_map :: "('m \<Rightarrow> (string \<times> string) list) \<Rightarrow> ('m, 'j) http_req \<Rightarrow> ('m, 'j) http_req" where
  "fill_header_map raw_headers req =
     req\<lparr>req_headers :=
       foldl (\<lambda>hs (key, value). smap_push caseless_lt key value hs) (req_headers req) (raw_headers (base_msg req))\<rparr>"

definition req_header :: "('m, 'j) http_req \<Rightarrow> string \<Rightarrow> string" where
  "req_header req key =
     (case smap_get caseless_lt (req_headers req) key of
        None \<Rightarrow> []
      | Some vs \<Rightarrow> (if vs = [] then [] else vs ! 0))"

definition has_header :: "('m, 'j) http_req \<Rightarrow> string \<Rightarrow> bool" where
  "has_header req key \<longleftrightarrow> smap_get caseless_lt (req_headers req) key \<noteq> None"

definition fill_content_type :: "('m, 'j) http_req \<Rightarrow> cpp_error + ('m, 'j) http_req" where
  "fill_content_type req =
     (let str = req_header req ''Content-Type'';
          req = req\<lparr>content_type := ct_to_enum str\<rparr> in
      if content_type req = MULTIPART_FORM_DATA then
        (case find_sub ''boundary='' (c_str str) of
           None \<Rightarrow> Inr req
         | Some rest \<Rightarrow>
             (case (let n = length rest - length ''boundary='' in
                    trim_pairs (sp_window (sp_of_cstr str) (length (c_str str) - n) n) quote_pairs) of
                Inl e \<Rightarrow> Inl e
              | Inr piece \<Rightarrow>
                  (case sp_as_string piece of
                     Inl e \<Rightarrow> Inl e
                   | Inr b \<Rightarrow> Inr (req\<lparr>multi_part_boundary := b\<rparr>))))
      else Inr req)"

section \<open>Body\<close>

definition body :: "('m \<Rightarrow> string) \<Rightarrow> 'z zlib \<Rightarrow> ('m, 'j) http_req \<Rightarrow> (string \<times> ('m, 'j) http_req) option" where
  "body decode_chunked_body lib req =
     (if rd_body req = [] then
        (let content = decode_chunked_body (base_msg req);
             header = req_header req ''Content-Encoding'' in
         case (if find_sub ''gzip'' header \<noteq> None then ungzip lib content
               else Some (StatusNoUncomrpess, [])) of
           None \<Rightarrow> None
         | Some (status, out) \<Rightarrow>
             (let b = (if status \<noteq> StatusOK then content else out) in
              Some (b, req\<lparr>rd_body := b\<rparr>)))
      else Some (rd_body req, req))"

definition form_kv :: "('m \<Rightarrow> string) \<Rightarrow> 'z zlib \<Rightarrow> ('m, 'j) http_req \<Rightarrow> (str_smap \<times> ('m, 'j) http_req) option" where
  "form_kv decode lib req =
     (if content_type req = APPLICATION_URLENCODED \<and> rd_form_kv req = [] then
        (case body decode lib req of
           None \<Rightarrow> None
         | Some (b, req) \<Rightarrow>
             (let kv = parse_post_kv (sp_of_str b) in Some (kv, req\<lparr>rd_form_kv := kv\<rparr>)))
      else Some (rd_form_kv req, req))"

definition req_form :: "('m \<Rightarrow> string) \<Rightarrow> 'z zlib \<Rightarrow> ('m, 'j) http_req \<Rightarrow>
    (cpp_error + form \<times> ('m, 'j) http_req) option" where
  "req_form decode lib req =
     (if content_type req = MULTIPART_FORM_DATA \<and> rd_form req = [] then
        (case body decode lib req of
           None \<Rightarrow> None
         | Some (b, req) \<Rightarrow>
             (case parse_multipart (multi_part_boundary req) (sp_of_str b) of
                Inl e \<Rightarrow> Some (Inl e)
              | Inr f \<Rightarrow> Some (Inr (f, req\<lparr>rd_form := f\<rparr>))))
      else Some (Inr (rd_form req, req)))"

text \<open>The JSON library: which texts it accepts, what it parses them to, which values are empty.\<close>

record 'j json_lib =
  json_accept :: "string \<Rightarrow> bool"
  json_parse :: "string \<Rightarrow> 'j"
  json_empty :: "'j \<Rightarrow> bool"
  json_dump :: "'j \<Rightarrow> string"
  json_object :: "(string \<times> string) list \<Rightarrow> 'j"

definition req_json :: "'j json_lib \<Rightarrow> ('m \<Rightarrow> string) \<Rightarrow> 'z zlib \<Rightarrow> ('m, 'j) http_req \<Rightarrow>
    ('j \<times> ('m, 'j) http_req) option" where
  "req_json jl decode lib req =
     (if content_type req = APPLICATION_JSON \<and> json_empty jl (rd_json req) then
        (case body decode lib req of
           None \<Rightarrow> None
         | Some (b, req) \<Rightarrow>
             (if \<not> json_accept jl b then Some (rd_json req, req)
              else (let j = json_parse jl b in Some (j, req\<lparr>rd_json := j\<rparr>))))
      else Some (rd_json req, req))"

section \<open>Parameters of the route and of the query\<close>

definition param :: "str_smap \<Rightarrow> string \<Rightarrow> string" where
  "param route_params key = (case str_get route_params key of Some v \<Rightarrow> v | None \<Rightarrow> [])"

definition has_param :: "str_smap \<Rightarrow> string \<Rightarrow> bool" where
  "has_param route_params key \<longleftrightarrow> str_get route_params key \<noteq> None"

text \<open>\<^verbatim>\<open>std::stoi\<close> and \<^verbatim>\<open>std::stoul\<close>: blanks, a sign and digits; the latter negates modulo \<open>2 ^ 64\<close>.\<close>

definition numeral :: "string \<Rightarrow> (bool \<times> string) option" where
  "numeral s =
     (let t = dropWhile isspace (c_str s);
          (neg, ds) = (case t of [] \<Rightarrow> (False, [])
                       | c # cs \<Rightarrow> if c = CHR ''-'' then (True, cs) else if c = CHR ''+'' then (False, cs) else (False, t)) in
      case ds of [] \<Rightarrow> None | d # _ \<Rightarrow> if isdigit d then Some (neg, ds) else None)"

definition stoi :: "string \<Rightarrow> cpp_error + int" where
  "stoi s =
     (case numeral s of
        None \<Rightarrow> Inl InvalidArgument
      | Some (neg, ds) \<Rightarrow>
          (let v = (if neg then - int (read_digits 0 ds) else int (read_digits 0 ds)) in
           if v < - (2 ^ 31) \<or> 2 ^ 31 \<le> v then Inl OutOfRange else Inr v))"

definition stoul :: "string \<Rightarrow> cpp_error + nat" where
  "stoul s =
     (case numeral s of
        None \<Rightarrow> Inl InvalidArgument
      | Some (neg, ds) \<Rightarrow>
          (let v = read_digits 0 ds in
           if size_max \<le> v then Inl OutOfRange
           else Inr (if neg then (size_max - v) mod size_max else v)))"

definition param_int :: "str_smap \<Rightarrow> string \<Rightarrow> cpp_error + int" where
  "param_int route_params key = (case str_get route_params key of Some v \<Rightarrow> stoi v | None \<Rightarrow> Inr 0)"

definition param_size :: "str_smap \<Rightarrow> string \<Rightarrow> cpp_error + nat" where
  "param_size route_params key = (case str_get route_params key of Some v \<Rightarrow> stoul v | None \<Rightarrow> Inr 0)"

definition query :: "('m, 'j) http_req \<Rightarrow> string \<Rightarrow> string" where
  "query req key = (case str_get (query_params req) key of Some v \<Rightarrow> v | None \<Rightarrow> [])"

definition default_query :: "('m, 'j) http_req \<Rightarrow> string \<Rightarrow> string \<Rightarrow> string" where
  "default_query req key default_val =
     (case str_get (query_params req) key of Some v \<Rightarrow> v | None \<Rightarrow> default_val)"

definition has_query :: "('m, 'j) http_req \<Rightarrow> string \<Rightarrow> bool" where
  "has_query req key \<longleftrightarrow> str_get (query_params req) key \<noteq> None"

section \<open>Cookies\<close>

definition cookies :: "('m, 'j) http_req \<Rightarrow> str_smap \<times> ('m, 'j) http_req" where
  "cookies req =
     (if req_cookies req = [] \<and> has_header req ''Cookie'' then
        (let cs = cookie_split (sp_of_str (req_header req ''Cookie'')) in (cs, req\<lparr>req_cookies := cs\<rparr>))
      else (req_cookies req, req))"

definition cookie :: "('m, 'j) http_req \<Rightarrow> string \<Rightarrow> string \<times> ('m, 'j) http_req" where
  "cookie req key =
     (let req = (if req_cookies req = [] then snd (cookies req) else req) in
      (case str_get (req_cookies req) key of Some v \<Rightarrow> v | None \<Rightarrow> [], req))"

section \<open>Properties\<close>

lemma get_push:
  "smap_get caseless_lt (smap_push caseless_lt k v hs) key =
     (if strcasecmp_eq k key then Some ((case smap_get caseless_lt hs key of None \<Rightarrow> [] | Some vs \<Rightarrow> vs) @ [v])
      else smap_get caseless_lt hs key)"
  using hdr_map.get_same [of k key hs] by (simp add: smap_push_def hdr_map.get_assign hdr_same)

lemma header_fold:
  "smap_get caseless_lt (foldl (\<lambda>hs (key, value). smap_push caseless_lt key value hs) hs raw) key =
     (let vs = map snd (filter (\<lambda>(k, v). strcasecmp_eq k key) raw) in
      case smap_get caseless_lt hs key of
        None \<Rightarrow> if vs = [] then None else Some vs
      | Some ws \<Rightarrow> Some (ws @ vs))"
proof (induction raw arbitrary: hs)
  case (Cons e raw)
  obtain k v where e: "e = (k, v)" by (cases e)
  then show ?case by (auto simp: Cons.IH get_push Let_def split: option.splits)
qed (simp add: Let_def split: option.splits)

text \<open>
  Reading a header gives the value of the first header of the message whose name is the same up
  to case, and nothing when there is none; a header is present exactly when the message has one.
\<close>

theorem header_first:
  assumes "req_headers req = []"
  shows "req_header (fill_header_map raw_headers req) key =
      (case find (\<lambda>(k, v). strcasecmp_eq k key) (raw_headers (base_msg req)) of
         Some (k, v) \<Rightarrow> v | None \<Rightarrow> []) \<and>
    (has_header (fill_header_map raw_headers req) key \<longleftrightarrow>
      (\<exists>(k, v) \<in> set (raw_headers (base_msg req)). strcasecmp_eq k key))"
proof -
  let ?raw = "raw_headers (base_msg req)" and ?P = "\<lambda>(k, v). strcasecmp_eq k key"
  have "find ?P raw = (case filter ?P raw of [] \<Rightarrow> None | x # _ \<Rightarrow> Some x)" for raw :: "(string \<times> string) list"
    by (induction raw) auto
  then show ?thesis
    using assms
    by (auto simp: req_header_def has_header_def fill_header_map_def header_fold Let_def filter_empty_conv
        split: list.splits prod.splits)
qed

theorem header_first_witness:
  "req_header (fill_header_map (\<lambda>m. [(''Host'', ''a''), (''HOST'', ''b'')])
     \<lparr>base_msg = (), content_type = TEXT_PLAIN, rd_body = [], rd_form_kv = [], rd_form = [], rd_json = (),
      query_params = [], req_cookies = [], multi_part_boundary = [], req_headers = [], parsed_path = []\<rparr>) ''host'' = ''a''"
  by (subst header_first [THEN conjunct1])
    (simp_all add: strcasecmp_eq_def fold_case_def c_str_def tolower_def char_of_eq_iff)

section \<open>The boundary\<close>

text \<open>A pointer into the middle of a string makes a piece of its rest.\<close>

lemma rest_piece:
  assumes "NUL \<notin> set (a @ v)"
  shows "sp_valid (sp_window (sp_of_cstr (a @ v)) (length a) (length v))"
    "sp_str (sp_window (sp_of_cstr (a @ v)) (length a) (length v)) = v"
  by (simp_all add: sp_valid_def sp_str_def sp_window_def sp_of_cstr_def)

lemma boundary_string:
  assumes "NUL \<notin> set (a @ v)" and "v \<noteq> []" and "length v < 2 ^ 63"
  shows "\<exists>p. trim_pairs (sp_window (sp_of_cstr (a @ v)) (length a) (length v)) quote_pairs = Inr p \<and>
    sp_as_string p = (if v = [CHR 0x22] \<or> v = [CHR 0x27] then Inl LengthError else Inr (unquote v))"
proof (cases "length v = 1")
  case True
  then obtain q where "v = [q]" by (cases v) auto
  then show ?thesis
    using trim_pairs_single [OF rest_piece(1) [OF assms(1)], of q] rest_piece(2) [OF assms(1)]
    by (auto simp: unquote_def)
next
  case False
  then have "2 \<le> length v" using assms(2) by (cases v) (auto simp: Suc_le_eq)
  then show ?thesis
    using trim_pairs_unquote [OF rest_piece(1) [OF assms(1)]] rest_piece(2) [OF assms(1)] assms(3)
    by (auto simp: sp_window_def)
qed

text \<open>
  The boundary of a multipart request is the text behind \<^verbatim>\<open>boundary=\<close> without a pair of quotes
  around it; a single quote character throws.
\<close>

lemma fill_boundary:
  assumes "req_header req ''Content-Type'' = ''multipart/form-data; boundary='' @ v"
    and "v \<noteq> []" and "NUL \<notin> set v" and "length v < 2 ^ 63"
  shows "fill_content_type req =
    (if v = [CHR 0x22] \<or> v = [CHR 0x27] then Inl LengthError
     else Inr (req\<lparr>content_type := MULTIPART_FORM_DATA, multi_part_boundary := unquote v\<rparr>))"
proof -
  define a where "a = ''multipart/form-data; boundary=''"
  have nul: "NUL \<notin> set (a @ v)" using assms(3) by (simp add: a_def)
  have hdr: "req_header req ''Content-Type'' = a @ v" using assms(1) by (simp add: a_def)
  have ct: "ct_to_enum (a @ v) = MULTIPART_FORM_DATA"
    using content_type_enum [of MULTIPART_FORM_DATA "''multipart/form-data''" "''mp''" "''; boundary='' @ v"]
    by (simp add: content_type_map_def a_def)
  have "find_sub ''boundary='' (a @ v) = Some (''boundary='' @ v)" by (simp add: a_def)
  then show ?thesis
    using boundary_string [OF nul assms(2,4)]
    by (auto simp: fill_content_type_def Let_def hdr ct c_str_id [OF nul])
qed

section \<open>Numbers in the route\<close>

lemma show_nat_head: "\<exists>d ds. show_nat n = d # ds \<and> isdigit d"
  using show_nat_digits [of n] by (cases "show_nat n") (simp_all add: show_nat.simps [of n] split: if_splits)

lemma digit_plain: "isdigit c \<Longrightarrow> c \<noteq> NUL \<and> \<not> isspace c \<and> c \<noteq> CHR ''-'' \<and> c \<noteq> CHR ''+''"
  by (auto simp: isdigit_def isspace_def)

lemma c_str_show_nat: "c_str (show_nat n) = show_nat n"
  using show_nat_digits [of n] digit_plain by (intro c_str_id) (auto simp: list_all_iff)

lemma numeral_show:
  "numeral (show_int i) = Some (i < 0, show_nat (nat \<bar>i\<bar>))"
proof -
  obtain d ds where d: "show_nat (nat \<bar>i\<bar>) = d # ds" "isdigit d" using show_nat_head by blast
  have c: "c_str (d # ds) = d # ds" using c_str_show_nat [of "nat \<bar>i\<bar>"] by (simp add: d)
  show ?thesis
  proof (cases "i < 0")
    case True
    then have "show_int i = CHR ''-'' # d # ds" using d by (simp add: show_int_def)
    moreover have "c_str (CHR ''-'' # d # ds) = CHR ''-'' # d # ds" using c by (simp add: c_str_Cons)
    ultimately show ?thesis using True d by (simp add: numeral_def isspace_def)
  next
    case False
    then have "show_int i = d # ds" using d by (simp add: show_int_def)
    then show ?thesis using False d c digit_plain [OF d(2)] by (simp add: numeral_def)
  qed
qed

text \<open>
  An integer of the route reads back: the parameter whose text is the decimal form of \<open>i\<close> is
  \<open>i\<close> when an \<^verbatim>\<open>int\<close> can hold it and an \<^verbatim>\<open>std::out_of_range\<close> otherwise, while as a \<^verbatim>\<open>size_t\<close> a
  negative number wraps around to a huge one.
\<close>

theorem param_number:
  assumes "str_get params key = Some (show_int i)"
  shows "param_int params key = (if - (2 ^ 31) \<le> i \<and> i < 2 ^ 31 then Inr i else Inl OutOfRange) \<and>
    param_size params key =
      (if \<bar>i\<bar> < int size_max then Inr (nat (i mod int size_max)) else Inl OutOfRange)"
proof -
  have r: "read_digits 0 (show_nat n) = n" for n by (rule read_show_nat)
  have "param_size params key = (if \<bar>i\<bar> < int size_max then Inr (nat (i mod int size_max)) else Inl OutOfRange)"
  proof (cases "i < 0 \<and> \<bar>i\<bar> < int size_max")
    case True
    then have "0 \<le> i + int size_max" by linarith
    then have m: "i mod int size_max = i + int size_max"
      using True mod_pos_pos_trivial [of "i + int size_max" "int size_max"] by simp
    have n: "nat \<bar>i\<bar> < size_max" "0 < nat \<bar>i\<bar>" using True by auto
    moreover from this have "size_max - nat \<bar>i\<bar> = nat (i + int size_max)" using True by linarith
    ultimately have "(size_max - nat \<bar>i\<bar>) mod size_max = nat (i + int size_max)" by simp
    moreover have "nat (i + int size_max) < size_max" using True by linarith
    ultimately show ?thesis using True assms m n by (simp add: param_size_def stoul_def numeral_show r Let_def)
  next
    case False
    then show ?thesis
      using assms by (auto simp: param_size_def stoul_def numeral_show r Let_def)
  qed
  then show ?thesis using assms by (auto simp: param_int_def stoi_def numeral_show r Let_def)
qed

theorem param_number_witness:
  "param_int [(''id'', show_int 42)] ''id'' = Inr 42 \<and>
   param_size [(''id'', show_int (-1))] ''id'' = Inr (size_max - 1)"
  using param_number [of "[(''id'', show_int 42)]" "''id''" 42]
    param_number [of "[(''id'', show_int (-1))]" "''id''" "-1"]
  by (simp add: size_max_def)

section \<open>Caches\<close>

text \<open>
  The body is decoded once: with a non-empty body, what the first call returns every later call
  returns, without looking at the message again, and neither call touches anything but the cache.
  Without a \<^verbatim>\<open>gzip\<close> content encoding, and when decompression fails, it is the decoded message.
\<close>

theorem body_cached:
  assumes "body decode lib req = Some (b, req')" and "rd_body req = []"
  shows "req' = req\<lparr>rd_body := b\<rparr> \<and> (b \<noteq> [] \<longrightarrow> body decode' lib' req' = Some (b, req')) \<and>
    (find_sub ''gzip'' (req_header req ''Content-Encoding'') = None \<longrightarrow> b = decode (base_msg req)) \<and>
    (\<forall>out. find_sub ''gzip'' (req_header req ''Content-Encoding'') \<noteq> None \<longrightarrow>
       ungzip lib (decode (base_msg req)) = Some (StatusUncompressError, out) \<longrightarrow> b = decode (base_msg req))"
  using assms by (auto simp: body_def Let_def split: if_splits option.splits prod.splits)

theorem body_cached_witness:
  "body (\<lambda>m. ''other'') stored_zlib
     \<lparr>base_msg = (), content_type = TEXT_PLAIN, rd_body = ''data'', rd_form_kv = [], rd_form = [], rd_json = (),
      query_params = [], req_cookies = [], multi_part_boundary = [], req_headers = [], parsed_path = []\<rparr> =
   Some (''data'', \<lparr>base_msg = (), content_type = TEXT_PLAIN, rd_body = ''data'', rd_form_kv = [], rd_form = [], rd_json = (),
      query_params = [], req_cookies = [], multi_part_boundary = [], req_headers = [], parsed_path = []\<rparr>)"
  using body_cached [of "\<lambda>m. ''data''" stored_zlib
     "\<lparr>base_msg = (), content_type = TEXT_PLAIN, rd_body = [], rd_form_kv = [], rd_form = [], rd_json = (),
      query_params = [], req_cookies = [], multi_part_boundary = [], req_headers = [], parsed_path = []\<rparr>"
     "''data''" _ "\<lambda>m. ''other''" stored_zlib]
  by (simp add: body_def req_header_def Let_def)

end
