(* ===== verification/Http_Resp.thy ===== *)
theory Http_Resp
  imports Http_Req Code_Util
begin

text \<open>
  The response half of \<^verbatim>\<open>src/core/HttpMsg.h\<close> and \<^verbatim>\<open>HttpMsg.cc\<close>, with \<^verbatim>\<open>src/core/HttpFile.cc\<close>,
  whose functions it calls and which call it back. A response keeps its headers, cookies, status
  and output, the tasks it has put on the series of its server task, and what the callbacks it has
  added to that task will release. The file system, zlib and the JSON library are arguments.
\<close>

section \<open>State\<close>

datatype sub_task =
    FileRead string nat int                       \<comment> \<open>path, size of the buffer, offset\<close>
  | PartRead string string nat bool               \<comment> \<open>a file of a multipart response: name, path, size, last one\<close>
  | FileWrite string string string bool           \<comment> \<open>path, content, message, whether a function wants the arguments\<close>
  | TimerTask nat nat                             \<comment> \<open>seconds and nanoseconds\<close>
  | MicroTimerTask nat
  | ProxyTask string int nat bool string          \<comment> \<open>url, redirects, size limit, keep-alive, request line\<close>
  | MySqlTask string string
  | RedisTask string nat string "string list"
  | ComputeTask string

datatype release = DeleteString string | FreeBuffer nat | DeleteSaveContext

record http_resp =
  headers :: str_smap
  resp_cookies :: "http_cookie list"
  status_code :: "int option"
  output_body :: string
  wire_headers :: "(string \<times> string) list"   \<comment> \<open>what the base class has been given so far\<close>
  series_tasks :: "sub_task list"
  series_context :: string
  releases :: "release list"

definition new_resp :: http_resp where
  "new_resp = \<lparr>headers = [], resp_cookies = [], status_code = None, output_body = [],
     wire_headers = [], series_tasks = [], series_context = [], releases = []\<rparr>"

abbreviation hdr_get :: "str_smap \<Rightarrow> string \<Rightarrow> string option" where
  "hdr_get hs k \<equiv> smap_get caseless_lt hs k"

definition set_resp_header :: "string \<Rightarrow> string \<Rightarrow> http_resp \<Rightarrow> http_resp" where
  "set_resp_header k v resp = resp\<lparr>headers := smap_assign caseless_lt k v (headers resp)\<rparr>"

definition append_output_body :: "string \<Rightarrow> http_resp \<Rightarrow> http_resp" where
  "append_output_body s resp = resp\<lparr>output_body := output_body resp @ s\<rparr>"

definition add_release :: "release \<Rightarrow> http_resp \<Rightarrow> http_resp" where
  "add_release r resp = resp\<lparr>releases := releases resp @ [r]\<rparr>"

definition add_task :: "sub_task \<Rightarrow> http_resp \<Rightarrow> http_resp" where
  "add_task t resp = resp\<lparr>series_tasks := series_tasks resp @ [t]\<rparr>"

definition add_cookie :: "http_cookie \<Rightarrow> http_resp \<Rightarrow> http_resp" where
  "add_cookie c resp = resp\<lparr>resp_cookies := resp_cookies resp @ [c]\<rparr>"

definition set_status :: "int \<Rightarrow> http_resp \<Rightarrow> http_resp" where
  "set_status code resp = resp\<lparr>status_code := Some code\<rparr>"

definition set_compress :: "compress \<Rightarrow> http_resp \<Rightarrow> http_resp" where
  "set_compress c resp = set_resp_header ''Content-Encoding'' (compress_method_to_str c) resp"

section \<open>Strings, errors and JSON\<close>

definition resp_compress :: "'z zlib \<Rightarrow> string \<Rightarrow> http_resp \<Rightarrow> (error_code \<times> string) run" where
  "resp_compress lib data resp =
     (case hdr_get (headers resp) ''Content-Encoding'' of
        Some v \<Rightarrow> (if find_sub ''gzip'' v \<noteq> None then gzip lib data else done_with (StatusOK, []))
      | None \<Rightarrow> done_with (StatusNoComrpess, []))"

text \<open>\<^verbatim>\<open>String (const std::string &)\<close> and \<^verbatim>\<open>String (std::string &&)\<close>.\<close>

definition String_copy :: "'z zlib \<Rightarrow> string \<Rightarrow> http_resp \<Rightarrow> http_resp run" where
  "String_copy lib str resp =
     run_then (resp_compress lib str resp) (\<lambda>(ret, compress_data).
       let resp = (if ret \<noteq> StatusOK then append_output_body str resp
                   else append_output_body compress_data resp) in
       done_with (add_release (DeleteString compress_data) resp))"

definition String_move :: "'z zlib \<Rightarrow> string \<Rightarrow> http_resp \<Rightarrow> http_resp run" where
  "String_move lib str resp =
     run_then (resp_compress lib str resp) (\<lambda>(ret, data).
       let data = (if ret \<noteq> StatusOK then str else data) in
       done_with (add_release (DeleteString data) (append_output_body data resp)))"

definition Json :: "'z zlib \<Rightarrow> 'j json_lib \<Rightarrow> 'j \<Rightarrow> http_resp \<Rightarrow> http_resp run" where
  "Json lib jl js resp =
     String_move lib (json_dump jl js) (set_resp_header ''Content-Type'' ''application/json'' resp)"

definition error_status :: "int \<Rightarrow> int" where
  "error_status error_code =
     (if error_code = error_num StatusNotFound \<or> error_code = error_num StatusRouteVerbNotImplment \<or>
         error_code = error_num StatusRouteNotFound then 404 else 503)"

definition error_message :: "int \<Rightarrow> string \<Rightarrow> string" where
  "error_message error_code errmsg =
     (let resp_msg = error_code_to_str error_code;
          resp_msg = (if errmsg \<noteq> [] then resp_msg @ '' : '' @ errmsg else resp_msg) in
      if is_url_encode errmsg then url_decode resp_msg else resp_msg)"

definition Error_msg :: "'z zlib \<Rightarrow> 'j json_lib \<Rightarrow> int \<Rightarrow> string \<Rightarrow> http_resp \<Rightarrow> http_resp run" where
  "Error_msg lib jl error_code errmsg resp =
     (let resp = set_resp_header ''Content-Type'' ''application/json'' resp;
          resp = set_status (error_status error_code) resp in
      Json lib jl (json_object jl [(''errmsg'', error_message error_code errmsg)]) resp)"

definition Error :: "'z zlib \<Rightarrow> 'j json_lib \<Rightarrow> int \<Rightarrow> http_resp \<Rightarrow> http_resp run" where
  "Error lib jl error_code resp = Error_msg lib jl error_code [] resp"

definition Json_str :: "'z zlib \<Rightarrow> 'j json_lib \<Rightarrow> string \<Rightarrow> http_resp \<Rightarrow> http_resp run" where
  "Json_str lib jl str resp =
     (if \<not> json_accept jl str then Error lib jl (error_num StatusJsonInvalid) resp
      else String_copy lib str (set_resp_header ''Content-Type'' ''application/json'' resp))"

section \<open>Files\<close>

text \<open>
  \<^verbatim>\<open>HttpFile::send_file\<close>: the bounds come as \<^verbatim>\<open>size_t\<close> and are kept in \<^verbatim>\<open>int\<close>; \<open>2 ^ 64 - 1\<close>
  is the missing end. The size of the buffer is the difference of the two \<^verbatim>\<open>int\<close>s as a \<^verbatim>\<open>size_t\<close>.
\<close>

definition size_of_int :: "int \<Rightarrow> nat" where
  "size_of_int i = nat (i mod 2 ^ 64)"

definition file_range :: "nat \<Rightarrow> nat \<Rightarrow> nat \<Rightarrow> int \<times> int" where
  "file_range sz file_start file_end =
     (let start = to_int32 (int file_start); end' = to_int32 (int file_end) in
      (if start < 0 then to_int32 (int sz + start) else start,
       if end' = -1 then to_int32 (int sz) else end'))"

definition send_file :: "file_system \<Rightarrow> string \<Rightarrow> nat \<Rightarrow> nat \<Rightarrow> http_resp \<Rightarrow> error_code \<times> http_resp" where
  "send_file stat path file_start file_end resp =
     (if \<not> is_file stat path then (StatusNotFound, resp)
      else
        (let needs_size = (to_int32 (int file_end) = -1 \<or> to_int32 (int file_start) < 0);
             (ret, sz) = (if needs_size then file_size stat path else (StatusOK, 0)) in
         if ret \<noteq> StatusOK then (ret, resp)
         else
           (let (start, end') = file_range sz file_start file_end in
            if end' \<le> start then (StatusFileRangeInvalid, resp)
            else
              (let sfx = suffix path;
                   ct = (if sfx \<noteq> [] then ct_to_enum_by_suffix sfx else CONTENT_TYPE_NONE);
                   ct = (if ct = CONTENT_TYPE_NONE \<or> ct = CONTENT_TYPE_UNDEFINED then APPLICATION_OCTET_STREAM else ct);
                   resp = set_resp_header ''Content-Type'' (ct_to_str ct) resp;
                   n = size_of_int (to_int32 (end' - start));
                   resp = add_release (FreeBuffer n) resp;
                   resp = set_resp_header ''Content-Range''
                     (''bytes '' @ show_int start @ ''-'' @ show_int end' @ ''/'' @ show_nat n) resp in
               (StatusOK, add_task (FileRead path n start) resp)))))"

definition File :: "'z zlib \<Rightarrow> 'j json_lib \<Rightarrow> file_system \<Rightarrow> string \<Rightarrow> nat \<Rightarrow> nat \<Rightarrow> http_resp \<Rightarrow> http_resp run" where
  "File lib jl stat path start end' resp =
     (case send_file stat path start end' resp of (ret, resp) \<Rightarrow>
        if ret \<noteq> StatusOK then Error lib jl (error_num ret) resp else done_with resp)"

definition File_from :: "'z zlib \<Rightarrow> 'j json_lib \<Rightarrow> file_system \<Rightarrow> string \<Rightarrow> nat \<Rightarrow> http_resp \<Rightarrow> http_resp run" where
  "File_from lib jl stat path start resp = File lib jl stat path start (size_of_int (-1)) resp"

definition File_whole :: "'z zlib \<Rightarrow> 'j json_lib \<Rightarrow> file_system \<Rightarrow> string \<Rightarrow> http_resp \<Rightarrow> http_resp run" where
  "File_whole lib jl stat path resp = File lib jl stat path 0 (size_of_int (-1)) resp"

text \<open>What an asynchronous read or write ended with: the bytes read, or a failure.\<close>

datatype io_result = IoDone string | IoFailed

definition pread_callback :: "'z zlib \<Rightarrow> 'j json_lib \<Rightarrow> io_result \<Rightarrow> http_resp \<Rightarrow> http_resp run" where
  "pread_callback lib jl r resp =
     (case r of
        IoFailed \<Rightarrow> Error lib jl (error_num StatusFileReadError) resp
      | IoDone bytes \<Rightarrow> done_with (append_output_body bytes resp))"

definition save_file :: "string \<Rightarrow> string \<Rightarrow> string \<Rightarrow> bool \<Rightarrow> http_resp \<Rightarrow> http_resp" where
  "save_file dst_path content notify_msg func resp =
     add_release DeleteSaveContext (add_task (FileWrite dst_path content notify_msg func) resp)"

definition pwrite_callback :: "'z zlib \<Rightarrow> 'j json_lib \<Rightarrow> string \<Rightarrow> io_result \<Rightarrow> http_resp \<Rightarrow> http_resp run" where
  "pwrite_callback lib jl notify_msg r resp =
     (case r of
        IoFailed \<Rightarrow> Error lib jl (error_num StatusFileWriteError) resp
      | IoDone _ \<Rightarrow>
          done_with (append_output_body
            (if notify_msg = [] then ''Save File success'' @ [LF] else notify_msg) resp))"

definition Save :: "string \<Rightarrow> string \<Rightarrow> http_resp \<Rightarrow> http_resp" where
  "Save file_dst content resp = save_file file_dst content [] False resp"

definition Save_msg :: "string \<Rightarrow> string \<Rightarrow> string \<Rightarrow> http_resp \<Rightarrow> http_resp" where
  "Save_msg file_dst content notify_msg resp = save_file file_dst content notify_msg False resp"

definition Save_func :: "string \<Rightarrow> string \<Rightarrow> http_resp \<Rightarrow> http_resp" where
  "Save_func file_dst content resp = save_file file_dst content [] True resp"

section \<open>Other tasks\<close>

definition Timer_micro :: "nat \<Rightarrow> http_resp \<Rightarrow> http_resp" where
  "Timer_micro microseconds resp = add_task (MicroTimerTask microseconds) resp"

definition Timer :: "nat \<Rightarrow> nat \<Rightarrow> http_resp \<Rightarrow> http_resp" where
  "Timer seconds nanoseconds resp = add_task (TimerTask seconds nanoseconds) resp"

definition MySQL :: "string \<Rightarrow> string \<Rightarrow> http_resp \<Rightarrow> http_resp" where
  "MySQL url sql resp = add_task (MySqlTask url sql) resp"

definition Redis :: "string \<Rightarrow> string \<Rightarrow> string list \<Rightarrow> http_resp \<Rightarrow> http_resp" where
  "Redis url command params resp = add_task (RedisTask url 2 command params) resp"

definition Compute :: "int \<Rightarrow> http_resp \<Rightarrow> http_resp" where
  "Compute compute_queue_id resp = add_task (ComputeTask (''wfrest'' @ show_int compute_queue_id)) resp"

section \<open>Proxy\<close>

text \<open>\<open>parse_uri\<close> is the URI parser of the HTTP library: the path and the query, when it can parse.\<close>

type_synonym uri_parser = "string \<Rightarrow> (string option \<times> string option) option"

definition uri_route :: "string option \<times> string option \<Rightarrow> string" where
  "uri_route uri =
     (case uri of (path, qs) \<Rightarrow>
        (case path of Some p \<Rightarrow> if c_str p \<noteq> [] then c_str p else ''/'' | None \<Rightarrow> ''/'') @
        (case qs of Some q \<Rightarrow> if c_str q \<noteq> [] then ''?'' @ c_str q else [] | None \<Rightarrow> []))"

definition proxy_url :: "string \<Rightarrow> string" where
  "proxy_url url =
     (if \<not> strncasecmp_eq url ''http://'' 7 \<and> \<not> strncasecmp_eq url ''https://'' 8
      then ''http://'' @ url else url)"

definition Http :: "uri_parser \<Rightarrow> bool \<Rightarrow> string \<Rightarrow> int \<Rightarrow> nat \<Rightarrow> http_resp \<Rightarrow> http_resp" where
  "Http parse_uri is_keep_alive url redirect_max size_limit resp =
     (let http_url = proxy_url url in
      case parse_uri http_url of
        None \<Rightarrow> set_status 400 resp
      | Some uri \<Rightarrow> add_task (ProxyTask http_url redirect_max size_limit is_keep_alive (uri_route uri)) resp)"

definition Http_redirect :: "uri_parser \<Rightarrow> bool \<Rightarrow> string \<Rightarrow> int \<Rightarrow> http_resp \<Rightarrow> http_resp" where
  "Http_redirect parse_uri is_keep_alive url redirect_max resp =
     Http parse_uri is_keep_alive url redirect_max (200 * 1024 * 1024) resp"

definition Http_plain :: "uri_parser \<Rightarrow> bool \<Rightarrow> string \<Rightarrow> http_resp \<Rightarrow> http_resp" where
  "Http_plain parse_uri is_keep_alive url resp = Http parse_uri is_keep_alive url 0 (200 * 1024 * 1024) resp"

text \<open>How the fetch ended: its state and error number, and the remote response.\<close>

datatype task_state = STATE_SUCCESS | STATE_SYS_ERROR | STATE_DNS_ERROR | STATE_SSL_ERROR | STATE_TASK_ERROR

record remote_resp =
  remote_status :: "int option"
  remote_headers :: "(string \<times> string) list"
  remote_body :: "string option"

record net_lib =
  strerror :: "int \<Rightarrow> string"
  gai_strerror :: "int \<Rightarrow> string"
  state_num :: "task_state \<Rightarrow> int"
  set_header_pair :: "string \<Rightarrow> string \<Rightarrow> (string \<times> string) list \<Rightarrow> (string \<times> string) list"

definition ECONNRESET :: int where
  "ECONNRESET = 104"

definition fetch_error :: "net_lib \<Rightarrow> string \<Rightarrow> task_state \<Rightarrow> int \<Rightarrow> string" where
  "fetch_error net url state error =
     url @ '' : Fetch failed. state = '' @ show_int (state_num net state) @ '', error = '' @ show_int error @ '' '' @
     (case state of
        STATE_SYS_ERROR \<Rightarrow> strerror net error
      | STATE_DNS_ERROR \<Rightarrow> gai_strerror net error
      | STATE_SSL_ERROR \<Rightarrow> ''SSL error''
      | _ \<Rightarrow> ''URL error (Cannot be a HTTPS proxy)'')"

text \<open>
  The response is replaced as a whole by the remote one, with no headers and cookies of its own;
  its tasks and callbacks belong to the server task and stay.
\<close>

definition proxy_http_callback :: "'z zlib \<Rightarrow> 'j json_lib \<Rightarrow> net_lib \<Rightarrow> string \<Rightarrow> bool \<Rightarrow> task_state \<Rightarrow> int \<Rightarrow>
    remote_resp \<Rightarrow> http_resp \<Rightarrow> http_resp run" where
  "proxy_http_callback lib jl net url is_keep_alive state error remote resp =
     (let state = (if state = STATE_SYS_ERROR \<and> error = ECONNRESET then STATE_SUCCESS else state) in
      if state = STATE_SUCCESS then
        (let resp = resp\<lparr>headers := [], resp_cookies := [], status_code := remote_status remote,
                       wire_headers := remote_headers remote,
                       output_body := (case remote_body remote of Some b \<Rightarrow> b | None \<Rightarrow> [])\<rparr> in
         done_with (if \<not> is_keep_alive
                    then resp\<lparr>wire_headers := set_header_pair net ''Connection'' ''close'' (wire_headers resp)\<rparr>
                    else resp))
      else Error_msg lib jl (error_num StatusProxyError) (fetch_error net url state error) resp)"

section \<open>Multipart responses\<close>

definition param_part :: "string \<Rightarrow> string \<times> string \<Rightarrow> string" where
  "param_part boundary p =
     [CR, LF] @ ''--'' @ boundary @ [CR, LF] @ ''Content-Disposition: form-data; name='' @ [CHR 0x22] @ fst p @
     [CHR 0x22, CR, LF, CR, LF] @ snd p"

definition file_part :: "string \<Rightarrow> string \<Rightarrow> string \<Rightarrow> string \<Rightarrow> string" where
  "file_part boundary name path bytes =
     [CR, LF] @ ''--'' @ boundary @ [CR, LF] @ ''Content-Disposition: form-data; name='' @ [CHR 0x22] @ name @
     [CHR 0x22] @ ''; filename='' @ [CHR 0x22] @ base path @ [CHR 0x22, CR, LF] @ ''Content-Type: '' @
     ct_to_str_by_suffix (suffix path) @ [CR, LF, CR, LF] @ bytes"

definition last_boundary :: "string \<Rightarrow> string" where
  "last_boundary boundary = [CR, LF] @ ''--'' @ boundary @ ''--'' @ [CR, LF]"

text \<open>The loop over the files; the counter tells the last one.\<close>

fun file_loop :: "file_system \<Rightarrow> (string \<times> string) list \<Rightarrow> http_resp \<Rightarrow> http_resp" where
  "file_loop stat [] resp = resp"
| "file_loop stat ((name, path) # fs) resp =
     (if \<not> is_file stat path then file_loop stat fs resp
      else (case file_size stat path of (ret, sz) \<Rightarrow>
        if ret \<noteq> StatusOK then file_loop stat fs resp
        else file_loop stat fs (add_task (PartRead name path sz (fs = [])) (add_release (FreeBuffer sz) resp))))"

definition String_encoder :: "file_system \<Rightarrow> multipart_encoder \<Rightarrow> http_resp \<Rightarrow> http_resp" where
  "String_encoder stat encoder resp =
     (let resp = set_resp_header ''Content-Type'' (''multipart/form-data; boundary='' @ enc_boundary encoder) resp;
          resp = file_loop stat (enc_files encoder) resp in
      resp\<lparr>series_context := foldl (\<lambda>content p. content @ param_part (enc_boundary encoder) p) [] (enc_params encoder)\<rparr>)"

text \<open>The callback of a file's read; the last one sends what has been collected.\<close>

definition part_callback :: "string \<Rightarrow> string \<Rightarrow> string \<Rightarrow> bool \<Rightarrow> io_result \<Rightarrow> http_resp \<Rightarrow> http_resp" where
  "part_callback boundary name path is_last r resp =
     (let resp = (case r of
                    IoFailed \<Rightarrow> resp
                  | IoDone bytes \<Rightarrow> resp\<lparr>series_context := series_context resp @ file_part boundary name path bytes\<rparr>) in
      if is_last then
        (let content = series_context resp @ last_boundary boundary in
         append_output_body content (resp\<lparr>series_context := content\<rparr>))
      else resp)"

text \<open>The part reads of the series, one after the other, with what the disk returns.\<close>

fun run_parts :: "string \<Rightarrow> (string \<Rightarrow> io_result) \<Rightarrow> sub_task list \<Rightarrow> http_resp \<Rightarrow> http_resp" where
  "run_parts boundary disk [] resp = resp"
| "run_parts boundary disk (PartRead name path sz is_last # ts) resp =
     run_parts boundary disk ts (part_callback boundary name path is_last (disk path) resp)"
| "run_parts boundary disk (_ # ts) resp = run_parts boundary disk ts resp"

section \<open>Properties\<close>

lemma hdr_set: "hdr_get (headers (set_resp_header k v resp)) x = (if strcasecmp_eq k x then Some v else hdr_get (headers resp) x)"
  by (simp add: set_resp_header_def hdr_map.get_assign hdr_same)

lemma hdr_names_apart:
  "\<not> strcasecmp_eq ''Content-Type'' ''Content-Encoding''" "\<not> strcasecmp_eq ''Content-Range'' ''Content-Type''"
  "strcasecmp_eq k k"
  by (simp_all add: strcasecmp_eq_def fold_case_def c_str_def tolower_def)

lemma resp_fields [simp]:
  "headers (set_status c resp) = headers resp" "status_code (set_status c resp) = Some c"
  "output_body (set_status c resp) = output_body resp" "series_tasks (set_status c resp) = series_tasks resp"
  "status_code (set_resp_header k v resp) = status_code resp"
  "output_body (set_resp_header k v resp) = output_body resp"
  "series_tasks (set_resp_header k v resp) = series_tasks resp"
  "headers (append_output_body s resp) = headers resp" "status_code (append_output_body s resp) = status_code resp"
  "output_body (append_output_body s resp) = output_body resp @ s"
  "series_tasks (append_output_body s resp) = series_tasks resp"
  "headers (add_release r resp) = headers resp" "status_code (add_release r resp) = status_code resp"
  "output_body (add_release r resp) = output_body resp" "series_tasks (add_release r resp) = series_tasks resp"
  "headers (add_task t resp) = headers resp" "status_code (add_task t resp) = status_code resp"
  "output_body (add_task t resp) = output_body resp" "series_tasks (add_task t resp) = series_tasks resp @ [t]"
  by (simp_all add: set_status_def set_resp_header_def append_output_body_def add_release_def add_task_def)

lemma String_plain:
  assumes "hdr_get (headers resp) ''Content-Encoding'' = None"
  shows "String_move lib str resp = done_with (add_release (DeleteString str) (append_output_body str resp))"
    and "String_copy lib str resp = done_with (add_release (DeleteString []) (append_output_body str resp))"
  using assms by (simp_all add: String_move_def String_copy_def resp_compress_def)

lemma Error_plain:
  assumes "hdr_get (headers resp) ''Content-Encoding'' = None"
  shows "\<exists>resp'. Error_msg lib jl code errmsg resp = done_with resp' \<and>
    status_code resp' = Some (error_status code) \<and>
    hdr_get (headers resp') ''Content-Type'' = Some ''application/json'' \<and>
    output_body resp' = output_body resp @ json_dump jl (json_object jl [(''errmsg'', error_message code errmsg)]) \<and>
    series_tasks resp' = series_tasks resp"
  using assms by (simp add: Error_msg_def Json_def Let_def String_plain hdr_set hdr_names_apart)

text \<open>
  An error becomes one JSON response: status 404 for a missing file, route or method and 503 for
  every other code, the content type of JSON, and a body with the text of the code, followed by the
  message when there is one; no task is started.
\<close>

theorem error_response:
  assumes "hdr_get (headers resp) ''Content-Encoding'' = None"
  shows "\<exists>resp'. Error_msg lib jl (error_num code) errmsg resp = done_with resp' \<and>
    status_code resp' = Some (if code \<in> {StatusNotFound, StatusRouteVerbNotImplment, StatusRouteNotFound} then 404 else 503) \<and>
    hdr_get (headers resp') ''Content-Type'' = Some ''application/json'' \<and>
    (CHR ''%'' \<notin> set errmsg \<and> CHR ''+'' \<notin> set errmsg \<longrightarrow>
      output_body resp' = output_body resp @ json_dump jl (json_object jl
        [(''errmsg'', error_code_to_str (error_num code) @ (if errmsg = [] then [] else '' : '' @ errmsg))])) \<and>
    series_tasks resp' = series_tasks resp"
proof -
  have "error_status (error_num code) =
      (if code \<in> {StatusNotFound, StatusRouteVerbNotImplment, StatusRouteNotFound} then 404 else 503)"
    by (cases code) (simp_all add: error_status_def)
  then show ?thesis
    using Error_plain [OF assms, of lib jl "error_num code" errmsg]
    by (auto simp: error_message_def is_url_encode_def Let_def)
qed

theorem error_response_witness:
  "\<exists>resp'. Error_msg stored_zlib
       \<lparr>json_accept = (\<lambda>s. True), json_parse = (\<lambda>s. []), json_empty = (\<lambda>j. j = []),
        json_dump = (\<lambda>j. concat (map snd j)), json_object = (\<lambda>kvs. kvs)\<rparr>
       (error_num StatusRouteNotFound) ''GET /x'' new_resp = done_with resp' \<and>
     output_body resp' = ''Route Not Found : GET /x''"
  using error_response [of new_resp stored_zlib "\<lparr>json_accept = (\<lambda>s. True), json_parse = (\<lambda>s. []),
      json_empty = (\<lambda>j. j = []), json_dump = (\<lambda>j. concat (map snd j)), json_object = (\<lambda>kvs. kvs)\<rparr>"
      StatusRouteNotFound "''GET /x''"]
  by (auto simp: new_resp_def error_code_to_str_def error_code_table_def)

text \<open>
  A response with a content encoding other than \<^verbatim>\<open>gzip\<close> loses its text: the compression step
  reports success without producing anything, so that nothing is appended to the body.
\<close>

theorem other_encoding_drops_body:
  assumes "hdr_get (headers resp) ''Content-Encoding'' = Some enc" and "find_sub ''gzip'' enc = None"
  shows "\<exists>a b. String_move lib str resp = done_with a \<and> output_body a = output_body resp \<and>
    String_copy lib str resp = done_with b \<and> output_body b = output_body resp"
  using assms by (simp add: String_move_def String_copy_def resp_compress_def Let_def)

theorem other_encoding_drops_body_witness:
  "\<exists>a. String_move stored_zlib ''hello'' (set_resp_header ''Content-Encoding'' ''br'' new_resp) = done_with a \<and>
     output_body a = []"
proof -
  have "hdr_get (headers (set_resp_header ''Content-Encoding'' ''br'' new_resp)) ''Content-Encoding'' = Some ''br''"
    by (simp add: hdr_set hdr_names_apart)
  from other_encoding_drops_body [OF this, of stored_zlib "''hello''"] show ?thesis
    by (auto simp: new_resp_def)
qed

section \<open>Ranges of files\<close>

lemma missing_end: "to_int32 (int (size_of_int (-1))) = -1"
  by (simp add: size_of_int_def to_int32_def)

lemma to_int32_small: "n < 2 ^ 31 \<Longrightarrow> to_int32 (int n) = int n"
  by (rule to_int32_id) auto

lemma to_int32_big:
  assumes "2 ^ 31 \<le> n" "n < 2 ^ 32"
  shows "to_int32 (int n) = int n - 2 ^ 32"
proof -
  have "(int n + 2 ^ 31) mod 2 ^ 32 = (int n + 2 ^ 31 - 2 ^ 32) mod 2 ^ 32"
    by (rule minus_mod_self2 [symmetric])
  also have "\<dots> = int n + 2 ^ 31 - 2 ^ 32" using assms by (intro mod_pos_pos_trivial) auto
  finally show ?thesis by (simp add: to_int32_def)
qed

lemma to_int32_negative:
  assumes "0 < k" "k < 2 ^ 31"
  shows "to_int32 (int (size_of_int (- int k))) = - int k"
  using to_int32_mod [of "- int k"] to_int32_id [of "- int k"] assms by (simp add: size_of_int_def)

lemma size_of_int_nat: "n < 2 ^ 31 \<Longrightarrow> size_of_int (to_int32 (int n)) = n"
  by (simp add: to_int32_small size_of_int_def)

lemma file_range_cases:
  assumes "start < 2 ^ 31"
  shows "n < 2 ^ 31 \<Longrightarrow> file_range n start (size_of_int (-1)) = (int start, int n)"
    and "0 < start \<Longrightarrow> start \<le> n \<Longrightarrow> n < 2 ^ 31 \<Longrightarrow>
      file_range n (size_of_int (- int start)) (size_of_int (-1)) = (int (n - start), int n)"
    and "2 ^ 31 \<le> n \<Longrightarrow> n < 2 ^ 32 \<Longrightarrow> file_range n start (size_of_int (-1)) = (int start, int n - 2 ^ 32)"
proof -
  show "n < 2 ^ 31 \<Longrightarrow> file_range n start (size_of_int (-1)) = (int start, int n)"
    "2 ^ 31 \<le> n \<Longrightarrow> n < 2 ^ 32 \<Longrightarrow> file_range n start (size_of_int (-1)) = (int start, int n - 2 ^ 32)"
    using assms by (simp_all add: file_range_def missing_end Let_def to_int32_small to_int32_big)
  assume n: "0 < start" "start \<le> n" "n < 2 ^ 31"
  then have "to_int32 (int n + - int start) = int (n - start)"
    using to_int32_small [of "n - start"] by (simp add: of_nat_diff)
  then show "file_range n (size_of_int (- int start)) (size_of_int (-1)) = (int (n - start), int n)"
    using n by (simp add: file_range_def missing_end Let_def to_int32_small to_int32_negative)
qed

lemma send_file_regular:
  assumes "stat (c_str path) = Some st" "st_kind st = Regular"
    and "file_range (st_size st) file_start (size_of_int (-1)) = (s, e)"
  shows "if e \<le> s then send_file stat path file_start (size_of_int (-1)) resp = (StatusFileRangeInvalid, resp)
    else \<exists>resp'. send_file stat path file_start (size_of_int (-1)) resp = (StatusOK, resp') \<and>
      series_tasks resp' = series_tasks resp @ [FileRead path (size_of_int (to_int32 (e - s))) s] \<and>
      hdr_get (headers resp') ''Content-Range'' =
        Some (''bytes '' @ show_int s @ ''-'' @ show_int e @ ''/'' @ show_nat (size_of_int (to_int32 (e - s))))"
  using assms
  by (simp add: send_file_def is_file_def file_size_def missing_end Let_def hdr_set hdr_names_apart)

text \<open>
  C40. Sending a file from an offset on: for a file below 2 GiB exactly the bytes from the offset to
  the end are read, also when the offset is a negative number counted from the end; an offset at or
  behind the end is refused. A file of 2 GiB up to 4 GiB is refused for every offset below 2 GiB,
  because its size does not fit the \<^verbatim>\<open>int\<close> the bounds are kept in.
\<close>

theorem send_file_range:
  assumes "stat (c_str path) = Some st" "st_kind st = Regular" and "start < 2 ^ 31"
  shows "(let n = st_size st; run = (\<lambda>from. send_file stat path from (size_of_int (-1)) resp) in
    (n < 2 ^ 31 \<longrightarrow>
      (if n \<le> start then run start = (StatusFileRangeInvalid, resp)
       else \<exists>resp'. run start = (StatusOK, resp') \<and>
         series_tasks resp' = series_tasks resp @ [FileRead path (n - start) (int start)])) \<and>
    (n < 2 ^ 31 \<and> 0 < start \<and> start \<le> n \<longrightarrow>
      (\<exists>resp'. run (size_of_int (- int start)) = (StatusOK, resp') \<and>
         series_tasks resp' = series_tasks resp @ [FileRead path start (int (n - start))])) \<and>
    (2 ^ 31 \<le> n \<and> n < 2 ^ 32 \<longrightarrow> run start = (StatusFileRangeInvalid, resp)))"
proof -
  note reg = send_file_regular [where stat = stat and path = path and st = st and resp = resp, OF assms(1,2)]
  let ?n = "st_size st"
  have "?n < 2 ^ 31 \<Longrightarrow> start < ?n \<Longrightarrow> size_of_int (to_int32 (int ?n - int start)) = ?n - start"
    using size_of_int_nat [of "?n - start"] by (simp add: of_nat_diff)
  moreover have "?n < 2 ^ 31 \<Longrightarrow> start \<le> ?n \<Longrightarrow> size_of_int (to_int32 (int ?n - int (?n - start))) = start"
    using size_of_int_nat [of start] by (simp add: of_nat_diff)
  ultimately show ?thesis
    using reg [OF file_range_cases(1) [OF assms(3)]] reg [OF file_range_cases(2) [OF assms(3)]]
      reg [OF file_range_cases(3) [OF assms(3)]] assms(3)
    by (auto simp: Let_def)
qed

theorem send_file_range_witness:
  "\<exists>resp'. send_file (\<lambda>p. Some \<lparr>st_kind = Regular, st_size = 100\<rparr>) ''/a.txt'' 10 (size_of_int (-1)) new_resp = (StatusOK, resp') \<and>
     series_tasks resp' = [FileRead ''/a.txt'' 90 10]"
  using send_file_range [of "\<lambda>p. Some \<lparr>st_kind = Regular, st_size = 100\<rparr>" "''/a.txt''"
      "\<lparr>st_kind = Regular, st_size = 100\<rparr>" 10 new_resp]
  by (auto simp: Let_def new_resp_def)

section \<open>The multipart response\<close>

fun part_tasks :: "file_system \<Rightarrow> (string \<times> string) list \<Rightarrow> sub_task list" where
  "part_tasks stat [] = []"
| "part_tasks stat ((name, path) # fs) =
     PartRead name path (snd (file_size stat path)) (fs = []) # part_tasks stat fs"

lemma file_loop_tasks:
  "\<forall>(name, path) \<in> set fs. is_file stat path \<Longrightarrow>
    series_tasks (file_loop stat fs resp) = series_tasks resp @ part_tasks stat fs \<and>
    output_body (file_loop stat fs resp) = output_body resp"
  by (induction stat fs resp rule: file_loop.induct)
    (auto simp: is_file_def file_size_def split: option.splits)

lemma run_part_tasks:
  assumes "\<forall>(name, path) \<in> set fs. disk path = IoDone (bytes path)" and "fs \<noteq> []"
  shows "output_body (run_parts b disk (part_tasks stat fs) resp) =
    output_body resp @ series_context resp @
      concat (map (\<lambda>(name, path). file_part b name path (bytes path)) fs) @ last_boundary b"
  using assms
proof (induction fs arbitrary: resp)
  case (Cons f fs)
  obtain name path where f: "f = (name, path)" by (cases f)
  show ?case
  proof (cases "fs = []")
    case True
    then show ?thesis using Cons.prems by (simp add: f part_callback_def Let_def append_output_body_def)
  next
    case False
    then show ?thesis using Cons.prems Cons.IH by (simp add: f part_callback_def Let_def)
  qed
qed simp

lemma foldl_parts: "foldl (\<lambda>content p. content @ g p) c ps = c @ concat (map g ps)"
  by (induction ps arbitrary: c) simp_all

text \<open>
  A multipart response sends its parameters, then its files, then the closing boundary, in the
  order they were added, once the last file has been read; all files being readable and at least
  one of them present. Without a file nothing is ever sent.
\<close>

theorem encoder_body:
  assumes "\<forall>(name, path) \<in> set (enc_files enc). is_file stat path \<and> disk path = IoDone (bytes path)"
    and "series_tasks resp = []"
  shows "output_body (run_parts (enc_boundary enc) disk (series_tasks (String_encoder stat enc resp)) (String_encoder stat enc resp)) =
    output_body resp @
     (if enc_files enc = [] then []
      else concat (map (param_part (enc_boundary enc)) (enc_params enc)) @
        concat (map (\<lambda>(name, path). file_part (enc_boundary enc) name path (bytes path)) (enc_files enc)) @
        last_boundary (enc_boundary enc))"
proof -
  let ?r = "String_encoder stat enc resp"
  have files: "\<forall>(name, path) \<in> set (enc_files enc). is_file stat path" using assms(1) by auto
  have r: "series_tasks ?r = part_tasks stat (enc_files enc)" "output_body ?r = output_body resp"
    "series_context ?r = concat (map (param_part (enc_boundary enc)) (enc_params enc))"
    using assms(2) by (simp_all add: String_encoder_def Let_def foldl_parts file_loop_tasks [OF files])
  show ?thesis
  proof (cases "enc_files enc = []")
    case True
    then show ?thesis using r by simp
  next
    case False
    moreover have "\<forall>(name, path) \<in> set (enc_files enc). disk path = IoDone (bytes path)" using assms(1) by auto
    ultimately show ?thesis using r run_part_tasks [of "enc_files enc" disk bytes] by simp
  qed
qed

theorem encoder_body_witness:
  "output_body (run_parts ''B'' (\<lambda>p. IoDone ''data'')
     (series_tasks (String_encoder (\<lambda>p. Some \<lparr>st_kind = Regular, st_size = 4\<rparr>)
       \<lparr>enc_boundary = ''B'', enc_params = [], enc_files = [(''f'', ''a.txt'')]\<rparr> new_resp))
     (String_encoder (\<lambda>p. Some \<lparr>st_kind = Regular, st_size = 4\<rparr>)
       \<lparr>enc_boundary = ''B'', enc_params = [], enc_files = [(''f'', ''a.txt'')]\<rparr> new_resp)) =
   file_part ''B'' ''f'' ''a.txt'' ''data'' @ last_boundary ''B''"
  using encoder_body [of "\<lparr>enc_boundary = ''B'', enc_params = [], enc_files = [(''f'', ''a.txt'')]\<rparr>"
      "\<lambda>p. Some \<lparr>st_kind = Regular, st_size = 4\<rparr>" "\<lambda>p. IoDone ''data''" "\<lambda>p. ''data''" new_resp]
  by (simp add: is_file_def new_resp_def)

end
