(* ===== verification/Server_Task.thy ===== *)
theory Server_Task
  imports Http_Resp Timestamps
begin

text \<open>
  \<^verbatim>\<open>src/core/HttpServerTask.h\<close> and \<^verbatim>\<open>HttpServerTask.cc\<close>: what the task of a request notes when the
  request has arrived (\<^verbatim>\<open>handle\<close>) and what it adds to the response when it is sent
  (\<^verbatim>\<open>message_out\<close>), above all how long the connection is kept. What the base classes of the HTTP
  library answer about a message, the splitting and stripping of strings they inherit, the clock
  and the time format are the record \<open>task_lib\<close>. The callbacks of a task are in \<open>Aspects\<close>.
\<close>

record task_lib =
  is_chunked :: "(string \<times> string) list \<Rightarrow> bool"
  has_content_length :: "(string \<times> string) list \<Rightarrow> bool"
  has_connection :: "(string \<times> string) list \<Rightarrow> bool"
  resp_keep_alive :: "(string \<times> string) list \<Rightarrow> bool"
  lib_split :: "string \<Rightarrow> char \<Rightarrow> string list"
  lib_strip :: "string \<Rightarrow> string"
  clock :: "64 word"
  put_time :: "nat \<Rightarrow> string \<Rightarrow> string"

record http_server_task =
  task_resp :: http_resp
  http_version :: "string option"
  req_is_alive :: bool
  req_has_keep_alive_header :: bool
  req_keep_alive :: string
  keep_alive_timeo :: int
  task_seq :: int

definition HTTP_KEEPALIVE_MAX :: int where
  "HTTP_KEEPALIVE_MAX = 300 * 1000"

section \<open>Arrival\<close>

text \<open>
  The request says whether it wants the connection kept and whether it has the header; \<open>found\<close> is
  what the search for the header in the message gives.
\<close>

definition handle_toreply :: "bool \<Rightarrow> bool \<Rightarrow> string option \<Rightarrow> http_server_task \<Rightarrow> http_server_task" where
  "handle_toreply is_keep_alive has_ka found t =
     (let t = t\<lparr>req_is_alive := is_keep_alive\<rparr> in
      if req_is_alive t \<and> has_ka then
        (case found of
           Some v \<Rightarrow> t\<lparr>req_has_keep_alive_header := True, req_keep_alive := v\<rparr>
         | None \<Rightarrow> t\<lparr>req_has_keep_alive_header := False\<rparr>)
      else t)"

section \<open>Departure\<close>

definition default_headers :: "task_lib \<Rightarrow> str_smap \<Rightarrow> str_smap" where
  "default_headers lib hs =
     (let hs = (if hdr_get hs ''Content-Type'' = None
                then smap_assign caseless_lt ''Content-Type'' ''text/plain'' hs else hs) in
      if hdr_get hs ''Date'' = None
      then smap_assign caseless_lt ''Date''
        (to_format_str (put_time lib) ''%a, %d %b %Y %H:%M:%S GMT'' (ts_now (clock lib))) hs
      else hs)"

definition atoi :: "string \<Rightarrow> int" where
  "atoi s = to_int32 (read_int s)"

text \<open>\<^verbatim>\<open>arr[i]\<close>; the vector has two elements whenever the split gives at least one.\<close>

definition arr_at :: "string list \<Rightarrow> nat \<Rightarrow> string" where
  "arr_at arr i = (if i < length arr then arr ! i else [])"

text \<open>
  The loop over the parameters of the \<^verbatim>\<open>Keep-Alive\<close> header, with the two bits of \<^verbatim>\<open>flag\<close>: it
  ends early when both have been seen or the connection has served its maximum.
\<close>

fun keep_alive_loop :: "task_lib \<Rightarrow> int \<Rightarrow> string list \<Rightarrow> bool \<Rightarrow> bool \<Rightarrow> int \<Rightarrow> int" where
  "keep_alive_loop lib seq [] seen_timeout seen_max timeo = timeo"
| "keep_alive_loop lib seq (kv # params) seen_timeout seen_max timeo =
     (let arr = lib_split lib kv (CHR ''='');
          arr = (if length arr < 2 then arr @ [''0''] else arr);
          key = lib_strip lib (arr_at arr 0);
          val = lib_strip lib (arr_at arr 1) in
      if \<not> seen_timeout \<and> strcasecmp_eq key ''timeout'' then
        (let timeo = to_int32 (1000 * atoi val) in
         if seen_max then timeo else keep_alive_loop lib seq params True seen_max timeo)
      else if \<not> seen_max \<and> strcasecmp_eq key ''max'' then
        (if atoi val \<le> seq then 0
         else if seen_timeout then timeo
         else keep_alive_loop lib seq params seen_timeout True timeo)
      else keep_alive_loop lib seq params seen_timeout seen_max timeo)"

definition cap_timeo :: "int \<Rightarrow> int" where
  "cap_timeo timeo = (if timeo mod 2 ^ 32 > HTTP_KEEPALIVE_MAX then HTTP_KEEPALIVE_MAX else timeo)"

definition keep_alive :: "task_lib \<Rightarrow> bool \<Rightarrow> http_server_task \<Rightarrow> int" where
  "keep_alive lib is_alive t =
     (if \<not> is_alive then 0
      else
        cap_timeo (if req_has_keep_alive_header t
                   then keep_alive_loop lib (task_seq t) (lib_split lib (req_keep_alive t) (CHR '','')) False False
                          (keep_alive_timeo t)
                   else keep_alive_timeo t))"

definition message_out :: "task_lib \<Rightarrow> http_server_task \<Rightarrow> http_server_task" where
  "message_out lib t =
     (let r = task_resp t;
          hs = default_headers lib (headers r);
          wire = wire_headers r @ hs @ map (\<lambda>c. (''Set-Cookie'', cookie_dump (put_time lib) c)) (resp_cookies r);
          status = (case status_code r of Some c \<Rightarrow> c | None \<Rightarrow> 200);
          version = (case http_version t of Some v \<Rightarrow> v | None \<Rightarrow> ''HTTP/1.1'');
          wire = (if \<not> is_chunked lib wire \<and> \<not> has_content_length lib wire
                  then wire @ [(''Content-Length'', show_nat (length (output_body r)))] else wire);
          is_alive = (if has_connection lib wire then resp_keep_alive lib wire else req_is_alive t);
          timeo = keep_alive lib is_alive t;
          wire = (if \<not> has_connection lib wire
                  then wire @ [(''Connection'', if timeo = 0 then ''close'' else ''Keep-Alive'')] else wire) in
      t\<lparr>task_resp := r\<lparr>headers := hs, status_code := Some status, wire_headers := wire\<rparr>,
        http_version := Some version, keep_alive_timeo := timeo\<rparr>)"

section \<open>The peer\<close>

datatype sock_addr = AF_INET string nat | AF_INET6 string nat | AF_OTHER

definition peer_addr :: "(string \<Rightarrow> string) \<Rightarrow> sock_addr \<Rightarrow> string" where
  "peer_addr inet_ntop addr =
     (case addr of AF_INET a _ \<Rightarrow> inet_ntop a | AF_INET6 a _ \<Rightarrow> inet_ntop a | AF_OTHER \<Rightarrow> ''Unknown'')"

definition peer_port :: "sock_addr \<Rightarrow> nat" where
  "peer_port addr = (case addr of AF_INET _ p \<Rightarrow> p | AF_INET6 _ p \<Rightarrow> p | AF_OTHER \<Rightarrow> 0)"

section \<open>Properties\<close>

definition in32 :: "int \<Rightarrow> bool" where
  "in32 i \<longleftrightarrow> - (2 ^ 31) \<le> i \<and> i < 2 ^ 31"

lemma in32_simps [simp]: "in32 (to_int32 i)" "in32 0"
  using to_int32_range [of i] by (simp_all add: in32_def)

lemma keep_alive_loop_in32: "in32 i \<Longrightarrow> in32 (keep_alive_loop lib seq ps a b i)"
  by (induction ps arbitrary: a b i) (simp_all add: Let_def)

lemma cap_timeo_range:
  assumes "in32 i"
  shows "0 \<le> cap_timeo i \<and> cap_timeo i \<le> HTTP_KEEPALIVE_MAX"
proof (cases "0 \<le> i")
  case True
  then show ?thesis using assms by (simp add: cap_timeo_def HTTP_KEEPALIVE_MAX_def in32_def)
next
  case False
  then have "i mod 2 ^ 32 = i + 2 ^ 32"
    using assms mod_pos_pos_trivial [of "i + 2 ^ 32" "2 ^ 32"] by (simp add: in32_def)
  then show ?thesis using assms False by (simp add: cap_timeo_def HTTP_KEEPALIVE_MAX_def in32_def)
qed

lemma keep_alive_range:
  assumes "in32 (keep_alive_timeo t)"
  shows "0 \<le> keep_alive lib is_alive t \<and> keep_alive lib is_alive t \<le> HTTP_KEEPALIVE_MAX"
proof -
  have "0 \<le> HTTP_KEEPALIVE_MAX" by (simp add: HTTP_KEEPALIVE_MAX_def)
  then show ?thesis
    by (simp add: keep_alive_def cap_timeo_range assms keep_alive_loop_in32)
qed



lemma default_headers_get:
  "hdr_get (default_headers lib hs) k =
     (case hdr_get hs k of
        Some v \<Rightarrow> Some v
      | None \<Rightarrow> if strcasecmp_eq ''Content-Type'' k then Some ''text/plain''
                else if strcasecmp_eq ''Date'' k
                then Some (to_format_str (put_time lib) ''%a, %d %b %Y %H:%M:%S GMT'' (ts_now (clock lib)))
                else None)"
proof -
  have apart: "\<not> strcasecmp_eq ''Content-Type'' ''Date''" "\<not> (strcasecmp_eq ''Content-Type'' k \<and> strcasecmp_eq ''Date'' k)"
    by (auto simp: strcasecmp_eq_def fold_case_def c_str_def tolower_def)
  have same: "strcasecmp_eq a k \<Longrightarrow> hdr_get hs a = hdr_get hs k" for a
    using hdr_map.get_same hdr_same by blast
  show ?thesis
    using apart same [of "''Content-Type''"] same [of "''Date''"]
    by (auto simp: default_headers_def Let_def hdr_map.get_assign hdr_same split: option.splits)
qed

text \<open>
  What leaves the server: every header the handlers set, in order, one \<^verbatim>\<open>Set-Cookie\<close> per cookie,
  a content type and a date if the handlers gave none, the exact length of the body unless it is
  chunked or already given, status 200 unless one was set, and the body untouched.
\<close>

theorem message_out_headers:
  "let r = task_resp t; r' = task_resp (message_out lib t) in
    (\<exists>rest. wire_headers r' = wire_headers r @ headers r' @
       map (\<lambda>c. (''Set-Cookie'', cookie_dump (put_time lib) c)) (resp_cookies r) @ rest \<and>
       (\<forall>(k, v) \<in> set rest. k = ''Content-Length'' \<and> v = show_nat (length (output_body r)) \<or> k = ''Connection'')) \<and>
    (\<forall>k. hdr_get (headers r') k =
       (case hdr_get (headers r) k of
          Some v \<Rightarrow> Some v
        | None \<Rightarrow> if strcasecmp_eq ''Content-Type'' k then Some ''text/plain''
                  else if strcasecmp_eq ''Date'' k
                  then Some (to_format_str (put_time lib) ''%a, %d %b %Y %H:%M:%S GMT'' (ts_now (clock lib)))
                  else None)) \<and>
    status_code r' = Some (case status_code r of Some c \<Rightarrow> c | None \<Rightarrow> 200) \<and>
    output_body r' = output_body r \<and> series_tasks r' = series_tasks r"
  by (auto simp: message_out_def Let_def default_headers_get)

theorem message_out_headers_witness:
  "status_code (task_resp (message_out
     \<lparr>is_chunked = (\<lambda>h. False), has_content_length = (\<lambda>h. False), has_connection = (\<lambda>h. False),
      resp_keep_alive = (\<lambda>h. False), lib_split = (\<lambda>s c. Str_Util.fields c s), lib_strip = id, clock = 0,
      put_time = (\<lambda>n f. f)\<rparr>
     \<lparr>task_resp = new_resp, http_version = None, req_is_alive = False, req_has_keep_alive_header = False,
      req_keep_alive = [], keep_alive_timeo = 60000, task_seq = 0\<rparr>)) = Some 200"
  using message_out_headers [of
     "\<lparr>task_resp = new_resp, http_version = None, req_is_alive = False, req_has_keep_alive_header = False,
      req_keep_alive = [], keep_alive_timeo = 60000, task_seq = 0\<rparr>"
     "\<lparr>is_chunked = (\<lambda>h. False), has_content_length = (\<lambda>h. False), has_connection = (\<lambda>h. False),
      resp_keep_alive = (\<lambda>h. False), lib_split = (\<lambda>s c. Str_Util.fields c s), lib_strip = id, clock = 0,
      put_time = (\<lambda>n f. f)\<rparr>"]
  by (simp only: Let_def) (simp add: new_resp_def)

end
