(* ===== verification/Http_Server.thy ===== *)
theory Http_Server
  imports Blue_Print Server_Task
begin

text \<open>
  \<^verbatim>\<open>src/core/HttpServer.h\<close> and \<^verbatim>\<open>HttpServer.cc\<close>: the server is a blueprint with parameters, a list
  of global aspects and a track function; \<open>process\<close> takes a request from the raw message to the
  handler. The world the handlers and aspects work on holds the request with the three fields the
  router fills in, the response, and the application's own state \<open>'x\<close>; a handler is one of the
  user's or the one that serves static files.
\<close>

section \<open>State\<close>

datatype 'h server_handler = UserHandler 'h | StaticHandler string bool

record server_params =
  max_connections :: nat
  peer_response_timeout :: int
  receive_timeout :: int
  keep_alive_timeout :: int
  request_size_limit :: nat
  ssl_accept_timeout :: int

record ('h, 'a) http_server =
  blue_print_of :: "('h server_handler, 'a) blue_print"
  global_aspects :: "'a list"
  track_func :: bool
  params :: server_params

record ('m, 'j, 'x) http_world =
  hreq :: "('m, 'j) http_req"
  match_path_of :: string
  full_path_of :: string
  params_of :: str_smap
  hresp :: http_resp
  aborted :: bool          \<comment> \<open>the static handler did not come to an end\<close>
  app_state :: 'x

text \<open>What the server uses of the libraries below it.\<close>

record ('m, 'j, 'z) server_lib =
  raw_headers :: "'m \<Rightarrow> (string \<times> string) list"
  request_uri :: "'m \<Rightarrow> string"
  get_method :: "'m \<Rightarrow> string"
  parse_uri :: uri_parser
  zlib_of :: "'z zlib"
  json_of :: "'j json_lib"
  stat_of :: file_system

section \<open>Registration\<close>

definition on_bp :: "(('h server_handler, 'a) blue_print \<Rightarrow> ('h server_handler, 'a) blue_print) \<Rightarrow>
    ('h, 'a) http_server \<Rightarrow> ('h, 'a) http_server" where
  "on_bp f sv = sv\<lparr>blue_print_of := f (blue_print_of sv)\<rparr>"

definition sv_ROUTE :: "string \<Rightarrow> 'h \<Rightarrow> verb \<Rightarrow> ('h, 'a) http_server \<Rightarrow> ('h, 'a) http_server" where
  "sv_ROUTE route handler verb = on_bp (ROUTE route (UserHandler handler) verb)"

definition sv_ROUTE_q :: "string \<Rightarrow> int \<Rightarrow> 'h \<Rightarrow> verb \<Rightarrow> ('h, 'a) http_server \<Rightarrow> ('h, 'a) http_server" where
  "sv_ROUTE_q route queue_id handler verb = on_bp (ROUTE_q route queue_id (UserHandler handler) verb)"

definition sv_ROUTE_m :: "string \<Rightarrow> 'h \<Rightarrow> string list \<Rightarrow> ('h, 'a) http_server \<Rightarrow> ('h, 'a) http_server" where
  "sv_ROUTE_m route handler methods = on_bp (ROUTE_m route (UserHandler handler) methods)"

definition sv_ROUTE_qm :: "string \<Rightarrow> int \<Rightarrow> 'h \<Rightarrow> string list \<Rightarrow> ('h, 'a) http_server \<Rightarrow> ('h, 'a) http_server" where
  "sv_ROUTE_qm route queue_id handler methods = on_bp (ROUTE_qm route queue_id (UserHandler handler) methods)"

definition sv_METHOD :: "verb \<Rightarrow> string \<Rightarrow> 'h \<Rightarrow> ('h, 'a) http_server \<Rightarrow> ('h, 'a) http_server" where
  "sv_METHOD verb route handler = on_bp (METHOD verb route (UserHandler handler))"

definition sv_METHOD_q :: "verb \<Rightarrow> string \<Rightarrow> int \<Rightarrow> 'h \<Rightarrow> ('h, 'a) http_server \<Rightarrow> ('h, 'a) http_server" where
  "sv_METHOD_q verb route queue_id handler = on_bp (METHOD_q verb route queue_id (UserHandler handler))"

definition sv_ROUTE_ap :: "string \<Rightarrow> 'h \<Rightarrow> verb \<Rightarrow> 'a list \<Rightarrow> ('h, 'a) http_server \<Rightarrow> ('h, 'a) http_server" where
  "sv_ROUTE_ap route handler verb ap = on_bp (ROUTE_ap route (UserHandler handler) verb ap)"

definition sv_ROUTE_q_ap :: "string \<Rightarrow> int \<Rightarrow> 'h \<Rightarrow> verb \<Rightarrow> 'a list \<Rightarrow> ('h, 'a) http_server \<Rightarrow> ('h, 'a) http_server" where
  "sv_ROUTE_q_ap route queue_id handler verb ap = on_bp (ROUTE_q_ap route queue_id (UserHandler handler) verb ap)"

definition sv_ROUTE_m_ap :: "string \<Rightarrow> 'h \<Rightarrow> string list \<Rightarrow> 'a list \<Rightarrow> ('h, 'a) http_server \<Rightarrow> ('h, 'a) http_server" where
  "sv_ROUTE_m_ap route handler methods ap = on_bp (ROUTE_m_ap route (UserHandler handler) methods ap)"

definition sv_ROUTE_qm_ap :: "string \<Rightarrow> int \<Rightarrow> 'h \<Rightarrow> string list \<Rightarrow> 'a list \<Rightarrow> ('h, 'a) http_server \<Rightarrow> ('h, 'a) http_server" where
  "sv_ROUTE_qm_ap route queue_id handler methods ap = on_bp (ROUTE_qm_ap route queue_id (UserHandler handler) methods ap)"

definition sv_METHOD_ap :: "verb \<Rightarrow> string \<Rightarrow> 'h \<Rightarrow> 'a list \<Rightarrow> ('h, 'a) http_server \<Rightarrow> ('h, 'a) http_server" where
  "sv_METHOD_ap verb route handler ap = on_bp (METHOD_ap verb route (UserHandler handler) ap)"

definition sv_METHOD_q_ap :: "verb \<Rightarrow> string \<Rightarrow> int \<Rightarrow> 'h \<Rightarrow> 'a list \<Rightarrow> ('h, 'a) http_server \<Rightarrow> ('h, 'a) http_server" where
  "sv_METHOD_q_ap verb route queue_id handler ap = on_bp (METHOD_q_ap verb route queue_id (UserHandler handler) ap)"

text \<open>The same with handlers that take the series.\<close>

definition sv_ROUTE_s :: "string \<Rightarrow> 'h \<Rightarrow> verb \<Rightarrow> ('h, 'a) http_server \<Rightarrow> ('h, 'a) http_server" where
  "sv_ROUTE_s route handler verb = on_bp (ROUTE_s route (UserHandler handler) verb)"

definition sv_ROUTE_sq :: "string \<Rightarrow> int \<Rightarrow> 'h \<Rightarrow> verb \<Rightarrow> ('h, 'a) http_server \<Rightarrow> ('h, 'a) http_server" where
  "sv_ROUTE_sq route queue_id handler verb = on_bp (ROUTE_sq route queue_id (UserHandler handler) verb)"

definition sv_ROUTE_sm :: "string \<Rightarrow> 'h \<Rightarrow> string list \<Rightarrow> ('h, 'a) http_server \<Rightarrow> ('h, 'a) http_server" where
  "sv_ROUTE_sm route handler methods = on_bp (ROUTE_sm route (UserHandler handler) methods)"

definition sv_ROUTE_sqm :: "string \<Rightarrow> int \<Rightarrow> 'h \<Rightarrow> string list \<Rightarrow> ('h, 'a) http_server \<Rightarrow> ('h, 'a) http_server" where
  "sv_ROUTE_sqm route queue_id handler methods = on_bp (ROUTE_sqm route queue_id (UserHandler handler) methods)"

definition sv_METHOD_s :: "verb \<Rightarrow> string \<Rightarrow> 'h \<Rightarrow> ('h, 'a) http_server \<Rightarrow> ('h, 'a) http_server" where
  "sv_METHOD_s verb route handler = on_bp (METHOD_s verb route (UserHandler handler))"

definition sv_METHOD_sq :: "verb \<Rightarrow> string \<Rightarrow> int \<Rightarrow> 'h \<Rightarrow> ('h, 'a) http_server \<Rightarrow> ('h, 'a) http_server" where
  "sv_METHOD_sq verb route queue_id handler = on_bp (METHOD_sq verb route queue_id (UserHandler handler))"

definition sv_ROUTE_s_ap :: "string \<Rightarrow> 'h \<Rightarrow> verb \<Rightarrow> 'a list \<Rightarrow> ('h, 'a) http_server \<Rightarrow> ('h, 'a) http_server" where
  "sv_ROUTE_s_ap route handler verb ap = on_bp (ROUTE_s_ap route (UserHandler handler) verb ap)"

definition sv_ROUTE_sq_ap :: "string \<Rightarrow> int \<Rightarrow> 'h \<Rightarrow> verb \<Rightarrow> 'a list \<Rightarrow> ('h, 'a) http_server \<Rightarrow> ('h, 'a) http_server" where
  "sv_ROUTE_sq_ap route queue_id handler verb ap = on_bp (ROUTE_sq_ap route queue_id (UserHandler handler) verb ap)"

definition sv_ROUTE_sm_ap :: "string \<Rightarrow> 'h \<Rightarrow> string list \<Rightarrow> 'a list \<Rightarrow> ('h, 'a) http_server \<Rightarrow> ('h, 'a) http_server" where
  "sv_ROUTE_sm_ap route handler methods ap = on_bp (ROUTE_sm_ap route (UserHandler handler) methods ap)"

definition sv_ROUTE_sqm_ap :: "string \<Rightarrow> int \<Rightarrow> 'h \<Rightarrow> string list \<Rightarrow> 'a list \<Rightarrow> ('h, 'a) http_server \<Rightarrow> ('h, 'a) http_server" where
  "sv_ROUTE_sqm_ap route queue_id handler methods ap = on_bp (ROUTE_sqm_ap route queue_id (UserHandler handler) methods ap)"

definition sv_METHOD_s_ap :: "verb \<Rightarrow> string \<Rightarrow> 'h \<Rightarrow> 'a list \<Rightarrow> ('h, 'a) http_server \<Rightarrow> ('h, 'a) http_server" where
  "sv_METHOD_s_ap verb route handler ap = on_bp (METHOD_s_ap verb route (UserHandler handler) ap)"

definition sv_METHOD_sq_ap :: "verb \<Rightarrow> string \<Rightarrow> int \<Rightarrow> 'h \<Rightarrow> 'a list \<Rightarrow> ('h, 'a) http_server \<Rightarrow> ('h, 'a) http_server" where
  "sv_METHOD_sq_ap verb route queue_id handler ap = on_bp (METHOD_sq_ap verb route queue_id (UserHandler handler) ap)"

definition register_blueprint :: "('h server_handler, 'a) blue_print \<Rightarrow> string \<Rightarrow> ('h, 'a) http_server \<Rightarrow> ('h, 'a) http_server" where
  "register_blueprint bp url_prefix = on_bp (add_blueprint bp url_prefix)"

definition list_routes :: "('h, 'a) http_server \<Rightarrow> string list" where
  "list_routes sv = print_routes (bp_router (blue_print_of sv))"

definition Use :: "'a list \<Rightarrow> ('h, 'a) http_server \<Rightarrow> ('h, 'a) http_server" where
  "Use ap sv = sv\<lparr>global_aspects := global_aspects sv @ ap\<rparr>"

definition sv_track :: "('h, 'a) http_server \<Rightarrow> ('h, 'a) http_server" where
  "sv_track sv = sv\<lparr>track_func := True\<rparr>"

section \<open>Parameters and sessions\<close>

definition set_max_connections :: "nat \<Rightarrow> ('h, 'a) http_server \<Rightarrow> ('h, 'a) http_server" where
  "set_max_connections n sv = sv\<lparr>params := (params sv)\<lparr>max_connections := n\<rparr>\<rparr>"

definition set_peer_response_timeout :: "int \<Rightarrow> ('h, 'a) http_server \<Rightarrow> ('h, 'a) http_server" where
  "set_peer_response_timeout n sv = sv\<lparr>params := (params sv)\<lparr>peer_response_timeout := n\<rparr>\<rparr>"

definition set_receive_timeout :: "int \<Rightarrow> ('h, 'a) http_server \<Rightarrow> ('h, 'a) http_server" where
  "set_receive_timeout n sv = sv\<lparr>params := (params sv)\<lparr>receive_timeout := n\<rparr>\<rparr>"

definition set_keep_alive_timeout :: "int \<Rightarrow> ('h, 'a) http_server \<Rightarrow> ('h, 'a) http_server" where
  "set_keep_alive_timeout n sv = sv\<lparr>params := (params sv)\<lparr>keep_alive_timeout := n\<rparr>\<rparr>"

definition set_request_size_limit :: "nat \<Rightarrow> ('h, 'a) http_server \<Rightarrow> ('h, 'a) http_server" where
  "set_request_size_limit n sv = sv\<lparr>params := (params sv)\<lparr>request_size_limit := n\<rparr>\<rparr>"

definition set_ssl_accept_timeout :: "int \<Rightarrow> ('h, 'a) http_server \<Rightarrow> ('h, 'a) http_server" where
  "set_ssl_accept_timeout n sv = sv\<lparr>params := (params sv)\<lparr>ssl_accept_timeout := n\<rparr>\<rparr>"

text \<open>A new session: the task with the server's limits for receiving.\<close>

definition new_session :: "int \<Rightarrow> ('h, 'a) http_server \<Rightarrow> http_server_task \<times> int \<times> nat" where
  "new_session seq sv =
     (\<lparr>task_resp = new_resp, http_version = None, req_is_alive = False, req_has_keep_alive_header = False,
       req_keep_alive = [], keep_alive_timeo = keep_alive_timeout (params sv), task_seq = seq\<rparr>,
      receive_timeout (params sv), request_size_limit (params sv))"

section \<open>Static files\<close>

definition serve_static :: "file_system \<Rightarrow> string \<Rightarrow> ('h server_handler, 'a) blue_print \<Rightarrow>
    error_code \<times> ('h server_handler, 'a) blue_print" where
  "serve_static stat path bp =
     (if is_dir stat path then (StatusOK, METHOD GET ''/*'' (StaticHandler path False) bp)
      else if is_file stat path then (StatusOK, METHOD GET ''/*'' (StaticHandler path True) bp)
      else (StatusNotFound, bp))"

definition Static :: "file_system \<Rightarrow> string \<Rightarrow> string \<Rightarrow> ('h, 'a) http_server \<Rightarrow> ('h, 'a) http_server" where
  "Static stat relative_path root sv =
     (case serve_static stat root empty_bp of (ret, bp) \<Rightarrow>
        if ret \<noteq> StatusOK then sv else on_bp (add_blueprint bp relative_path) sv)"

text \<open>The file the handler of a static route asks for.\<close>

definition static_path :: "string \<Rightarrow> bool \<Rightarrow> string \<Rightarrow> string" where
  "static_path path one_file match_path =
     (if one_file \<and> match_path = [] then path else path @ ''/'' @ match_path)"

definition run_static :: "('m, 'j, 'z) server_lib \<Rightarrow> string \<Rightarrow> bool \<Rightarrow> ('m, 'j, 'x) http_world \<Rightarrow> ('m, 'j, 'x) http_world" where
  "run_static lib path one_file w =
     (case File_whole (zlib_of lib) (json_of lib) (stat_of lib) (static_path path one_file (match_path_of w)) (hresp w) of
        Some (Inr resp) \<Rightarrow> w\<lparr>hresp := resp\<rparr>
      | _ \<Rightarrow> w\<lparr>aborted := True\<rparr>)"

section \<open>Processing a request\<close>

type_synonym ('m, 'j, 'x, 'h, 'a) http_task = "(('m, 'j, 'x) http_world, 'h server_handler, 'a) task"

definition server_app :: "('m, 'j, 'z) server_lib \<Rightarrow> (('m, 'j, 'x) http_world, 'h server_handler, 'a) app \<Rightarrow>
    (('m, 'j, 'x) http_world, 'h server_handler, 'a) app" where
  "server_app lib app =
     app\<lparr>run_plain := (\<lambda>h w. case h of
        UserHandler _ \<Rightarrow> run_plain app h w
      | StaticHandler path one_file \<Rightarrow> run_static lib path one_file w)\<rparr>"

text \<open>The fields the router writes are fields of the request the handler reads.\<close>

definition invoke_on :: "(('m, 'j, 'x) http_world, 'h server_handler, 'a) app \<Rightarrow> ('h server_handler, 'a) wrap \<Rightarrow>
    ('m, 'j, 'x, 'h, 'a) http_task \<Rightarrow> 'h server_handler go_task option \<times> ('m, 'j, 'x, 'h, 'a) http_task" where
  "invoke_on app wrap t =
     invoke app wrap (upd_user ((user_of t)\<lparr>full_path_of := full_path t, params_of := route_params t,
       match_path_of := route_match_path t\<rparr>) t)"

definition on_resp :: "(http_resp \<Rightarrow> http_resp) \<Rightarrow> ('m, 'j, 'x, 'h, 'a) http_task \<Rightarrow> ('m, 'j, 'x, 'h, 'a) http_task" where
  "on_resp f t = upd_user ((user_of t)\<lparr>hresp := f (hresp (user_of t))\<rparr>) t"

definition route_of :: "string option \<Rightarrow> string" where
  "route_of path = (case path of Some p \<Rightarrow> if c_str p \<noteq> [] then c_str p else ''/'' | None \<Rightarrow> ''/'')"

definition with_uri :: "string option \<times> string option \<Rightarrow> ('m, 'j) http_req \<Rightarrow> ('m, 'j) http_req" where
  "with_uri uri req =
     (let req = (case snd uri of
                   Some q \<Rightarrow> req\<lparr>query_params := split_query (sp_of_cstr q)\<rparr>
                 | None \<Rightarrow> req) in
      req\<lparr>parsed_path := (case fst uri of Some p \<Rightarrow> c_str p | None \<Rightarrow> [])\<rparr>)"

definition dispatch :: "('m, 'j, 'z) server_lib \<Rightarrow> (('m, 'j, 'x) http_world, 'h server_handler, 'a) app \<Rightarrow>
    ('h, 'a) http_server \<Rightarrow> string \<Rightarrow> string \<Rightarrow> ('m, 'j, 'x, 'h, 'a) http_task \<Rightarrow> ('m, 'j, 'x, 'h, 'a) http_task run" where
  "dispatch lib app sv verb route t =
     (case call (invoke_on (server_app lib app)) (bp_router (blue_print_of sv)) (str_to_verb verb) (url_encode route) t of
        Inl e \<Rightarrow> Some (Inl e)
      | Inr (ret, t) \<Rightarrow>
          run_then
            (if ret \<noteq> StatusOK then
               run_then (Error_msg (zlib_of lib) (json_of lib) (error_num ret) (verb @ '' '' @ route) (hresp (user_of t)))
                 (\<lambda>resp. done_with (on_resp (\<lambda>_. resp) t))
             else done_with t)
            (\<lambda>t. done_with (if track_func sv then add_callback Track t else t)))"

definition process :: "('m, 'j, 'z) server_lib \<Rightarrow> (('m, 'j, 'x) http_world, 'h server_handler, 'a) app \<Rightarrow>
    ('h, 'a) http_server \<Rightarrow> ('m, 'j, 'x, 'h, 'a) http_task \<Rightarrow> ('m, 'j, 'x, 'h, 'a) http_task run" where
  "process lib app sv t =
     (case fill_content_type (fill_header_map (raw_headers lib) (hreq (user_of t))) of
        Inl e \<Rightarrow> Some (Inl e)
      | Inr req \<Rightarrow>
          (let t = upd_user ((user_of t)\<lparr>hreq := req\<rparr>) t;
               host = req_header req ''Host'' in
           if host = [] then done_with (on_resp (set_status 400) t)
           else
             (case parse_uri lib (''http://'' @ host @ c_str (request_uri lib (base_msg req))) of
                None \<Rightarrow> done_with (on_resp (set_status 400) t)
              | Some uri \<Rightarrow>
                  dispatch lib app sv (c_str (get_method lib (base_msg req))) (route_of (fst uri))
                    (upd_user ((user_of t)\<lparr>hreq := with_uri uri req\<rparr>) t))))"

section \<open>Properties\<close>

text \<open>A route served without aspects: the handler runs on the world with the router's fields.\<close>

definition at_route :: "string \<Rightarrow> str_smap \<Rightarrow> string \<Rightarrow> ('m, 'j, 'x) http_world \<Rightarrow> ('m, 'j, 'x) http_world" where
  "at_route path ps mp w = w\<lparr>full_path_of := path, params_of := ps, match_path_of := mp\<rparr>"

lemma run_plain_route:
  assumes "aspect_list (world t) = []"
  shows "run_handler (invoke_on app) (PlainRoute False None h) (request_fields path ps mp t) =
    upd_user (run_plain app h (at_route path ps mp (user_of t))) (request_fields path ps mp t)"
  using assms
  by (simp add: run_handler_def invoke_on_def plain_route_def run_user_def global_before_all_def
      request_fields_def at_route_def)

lemma process_dispatch:
  assumes "fill_content_type (fill_header_map (raw_headers lib) (hreq (user_of t))) = Inr req"
    and "req_header req ''Host'' \<noteq> []"
    and "parse_uri lib (''http://'' @ req_header req ''Host'' @ c_str (request_uri lib (base_msg req))) = Some uri"
  shows "process lib app sv t =
    dispatch lib app sv (c_str (get_method lib (base_msg req))) (route_of (fst uri))
      (upd_user ((user_of t)\<lparr>hreq := with_uri uri req\<rparr>) t)"
  using assms by (simp add: process_def Let_def)

lemma dispatch_ok:
  assumes "call (invoke_on (server_app lib app)) (bp_router (blue_print_of sv)) (str_to_verb verb) (url_encode route) t =
    Inr (StatusOK, t')"
  shows "dispatch lib app sv verb route t = done_with (if track_func sv then add_callback Track t' else t')"
  using assms by (simp add: dispatch_def)

lemma url_encode_route: "list_all url_plain route \<Longrightarrow> url_encode route = route"
  by (rule url_encode_plain)

lemma plain_no_NUL: "list_all url_plain s \<Longrightarrow> NUL \<notin> set s"
  by (auto simp: list_all_iff dest: url_plain_not_special)

text \<open>
  C1. A request from the wire to the handler. When a route without patterns, made of characters that
  need no coding, is registered for a method on the server, and a message with a host comes in for
  that path with that method, the handler runs exactly once, on the request with its headers, its
  content type and its query parsed, the registered route as full path and no parameters; nothing is
  put on the series, and the response is what the handler made of it.
\<close>

theorem process_serves:
  assumes "fill_content_type (fill_header_map (raw_headers lib) (hreq (user_of t))) = Inr req"
    and "req_header req ''Host'' = host" and "host \<noteq> []"
    and "parse_uri lib (''http://'' @ host @ c_str (request_uri lib (base_msg req))) = Some (Some route, qs)"
    and "list_all url_plain route" and "route \<noteq> []" and "last route \<noteq> CHR ''/''"
    and "c_str (get_method lib (base_msg req)) = verb"
    and "smap_get verb_lt (verb_handler_map (record_of (bp_router (blue_print_of sv)) route)) (str_to_verb verb) = None"
    and "aspect_list (world t) = []"
  shows "\<exists>t'. process lib app (sv_METHOD (str_to_verb verb) route h sv) t = done_with t' \<and>
    user_of t' = run_plain app (UserHandler h)
      (at_route route [] [] ((user_of t)\<lparr>hreq := with_uri (Some route, qs) req\<rparr>)) \<and>
    full_path t' = route \<and> route_params t' = [] \<and> series t' = series t \<and>
    cb_list (world t') = cb_list (world t) @ (if track_func sv then [Track] else [])"
proof -
  let ?sv = "sv_METHOD (str_to_verb verb) route h sv"
  let ?t = "upd_user ((user_of t)\<lparr>hreq := with_uri (Some route, qs) req\<rparr>) t"
  let ?app = "server_app lib app" and ?h = "PlainRoute False None (UserHandler h)"
  have r: "bp_router (blue_print_of ?sv) = handle route (-1) ?h (str_to_verb verb) (bp_router (blue_print_of sv))"
    by (simp add: sv_METHOD_def on_bp_def METHOD_def ROUTE_def bp_handle_def)
  have nul: "NUL \<notin> set route" and c: "c_str route = route" using plain_no_NUL [OF assms(5)] by simp_all
  have ro: "route_of (Some route) = route" using c assms(6) by (simp add: route_of_def)
  have "call (invoke_on ?app) (bp_router (blue_print_of ?sv)) (str_to_verb verb) (url_encode route) ?t =
      Inr (StatusOK, run_handler (invoke_on ?app) ?h (request_fields route [] [] ?t))"
    using find_registered [OF nul assms(6,7,9), where request = route and q = "-1" and h = ?h]
    by (simp add: r url_encode_route [OF assms(5)] call_found)
  moreover have "run_handler (invoke_on ?app) ?h (request_fields route [] [] ?t) =
      upd_user (run_plain ?app (UserHandler h) (at_route route [] [] (user_of ?t))) (request_fields route [] [] ?t)"
    using assms(10) by (intro run_plain_route) simp
  ultimately have d: "dispatch lib app ?sv verb route ?t = done_with
      (let t = upd_user (run_plain app (UserHandler h) (at_route route [] [] (user_of ?t))) (request_fields route [] [] ?t) in
       if track_func sv then add_callback Track t else t)"
    by (simp add: dispatch_ok server_app_def sv_METHOD_def on_bp_def)
  have "process lib app ?sv t = dispatch lib app ?sv verb route ?t"
    using process_dispatch [OF assms(1), of "(Some route, qs)"] assms(2-4,8) ro by simp
  then show ?thesis
    unfolding d by (simp add: Let_def request_fields_def add_callback_def)
qed

text \<open>A small application for the examples: a handler is a number and appends itself to the state.\<close>

definition demo_req :: "(unit, unit) http_req" where
  "demo_req = \<lparr>base_msg = (), content_type = CONTENT_TYPE_NONE, rd_body = [], rd_form_kv = [], rd_form = [],
     rd_json = (), query_params = [], req_cookies = [], multi_part_boundary = [], req_headers = [], parsed_path = []\<rparr>"

definition demo_lib :: "(string \<times> string) list \<Rightarrow> string \<Rightarrow> file_system \<Rightarrow> (unit, unit, string) server_lib" where
  "demo_lib hs path stat =
     \<lparr>raw_headers = (\<lambda>m. hs), request_uri = (\<lambda>m. path), get_method = (\<lambda>m. ''GET''),
      parse_uri = (\<lambda>s. Some (Some path, None)), zlib_of = stored_zlib,
      json_of = \<lparr>json_accept = (\<lambda>s. True), json_parse = (\<lambda>s. ()), json_empty = (\<lambda>j. True),
        json_dump = (\<lambda>j. []), json_object = (\<lambda>kvs. ())\<rparr>,
      stat_of = stat\<rparr>"

definition demo_app :: "((unit, unit, nat list) http_world, nat server_handler, nat) app" where
  "demo_app = \<lparr>run_plain = (\<lambda>h w. case h of UserHandler n \<Rightarrow> w\<lparr>app_state := app_state w @ [n]\<rparr> | _ \<Rightarrow> w),
     run_with_series = (\<lambda>h w s. (w, s)), before = (\<lambda>a w. (True, w)), after = (\<lambda>a w. (True, w))\<rparr>"

definition demo_task :: "(unit, unit, nat list, nat, nat) http_task" where
  "demo_task = \<lparr>full_path = [], route_params = [], route_match_path = [], series = [],
     world = \<lparr>user = \<lparr>hreq = demo_req, match_path_of = [], full_path_of = [], params_of = [], hresp = new_resp,
                    aborted = False, app_state = []\<rparr>,
              aspect_list = [], cb_list = [], live_tuples = 0\<rparr>\<rparr>"

definition demo_server :: "(nat, nat) http_server" where
  "demo_server = \<lparr>blue_print_of = empty_bp, global_aspects = [], track_func = False,
     params = \<lparr>max_connections = 2000, peer_response_timeout = 10000, receive_timeout = -1,
       keep_alive_timeout = 60000, request_size_limit = 0, ssl_accept_timeout = 10000\<rparr>\<rparr>"

lemma demo_prepared:
  "fill_content_type (fill_header_map (\<lambda>m. [(''Host'', ''h'')]) demo_req) =
     Inr (demo_req\<lparr>req_headers := [(''Host'', [''h''])]\<rparr>)"
  by (simp add: fill_content_type_def fill_header_map_def demo_req_def req_header_def smap_push_def caseless_lt_def
      fold_case_def c_str_def tolower_def ct_to_enum_def Let_def less_char_def char_of_eq_iff)

theorem process_serves_witness:
  "\<exists>t'. process (demo_lib [(''Host'', ''h'')] ''/a'' (\<lambda>p. None)) demo_app (sv_METHOD GET ''/a'' 7 demo_server) demo_task =
     done_with t' \<and> app_state (user_of t') = [7]"
proof -
  let ?req = "demo_req\<lparr>req_headers := [(''Host'', [''h''])]\<rparr>"
  have host: "req_header ?req ''Host'' = ''h''"
    by (simp add: req_header_def caseless_lt_def)
  have "smap_get verb_lt (verb_handler_map (record_of (bp_router (blue_print_of demo_server)) ''/a'')) (str_to_verb ''GET'') = None"
    by (simp add: demo_server_def empty_bp_def record_of_def empty_router_def split: option.split)
  moreover have "str_to_verb ''GET'' = GET" by (simp add: str_to_verb_def strcasecmp_eq_def fold_case_def)
  ultimately show ?thesis
    using process_serves [of "demo_lib [(''Host'', ''h'')] ''/a'' (\<lambda>p. None)" demo_task ?req "''h''" "''/a''" None "''GET''"
        demo_server demo_app 7] demo_prepared host
    by (auto simp: demo_lib_def demo_task_def demo_app_def url_plain_def at_route_def less_eq_char_def)
qed



text \<open>
  One header line of a client brings the request processing down: when the message's content type
  is \<^verbatim>\<open>multipart/form-data; boundary=\<close> followed by a single quote character, the exception
  \<^verbatim>\<open>std::length_error\<close> leaves \<^verbatim>\<open>HttpServer::process\<close>, whatever routes are registered.
\<close>

theorem process_lone_quote:
  assumes "req_header (fill_header_map (raw_headers lib) (hreq (user_of t))) ''Content-Type'' =
      ''multipart/form-data; boundary='' @ [q]"
    and "q = CHR 0x22 \<or> q = CHR 0x27"
  shows "process lib app sv t = Some (Inl LengthError)"
proof -
  have "fill_content_type (fill_header_map (raw_headers lib) (hreq (user_of t))) = Inl LengthError"
    using assms(2) by (subst fill_boundary [OF assms(1)]) auto
  then show ?thesis by (simp add: process_def)
qed

theorem process_lone_quote_witness:
  "process (demo_lib [(''Content-Type'', ''multipart/form-data; boundary='' @ [CHR 0x22])] ''/a'' (\<lambda>p. None))
     demo_app demo_server demo_task = Some (Inl LengthError)"
  by (rule process_lone_quote [where q = "CHR 0x22"])
    (simp_all add: demo_lib_def demo_task_def demo_req_def req_header_def fill_header_map_def smap_push_def caseless_lt_def)

lemma static_lookup:
  "find_route (routes_map (bp_router (add_blueprint (METHOD GET ''/*'' h empty_bp) ''/s'' empty_bp)))
      (trim_slash ''/s/../x'') 0 [] [] =
    Inr (Some \<lparr>verb_handler_map = [(GET, PlainRoute False None h)], vh_path = ''/s/*'', compute_queue_id = Some (-1)\<rparr>,
      [], ''../x'')"
proof -
  have t: "trim_slash ''/s/../x'' = sp_of_str ''/s/../x''" by (simp add: trim_slash_def sp_nth_str)
  show ?thesis unfolding t by (simp add: mount_eval table_eval lookup_eval)
qed

text \<open>
  Static files are not confined to their directory: with \<^verbatim>\<open>/w\<close> served under \<^verbatim>\<open>/s\<close>, a request
  for \<^verbatim>\<open>/s/../x\<close> makes the server read the file \<^verbatim>\<open>/w/../x\<close>.
\<close>

theorem static_escapes_root:
  assumes "stat ''/w'' = Some d" "st_kind d = Directory"
    and "stat ''/w/../x'' = Some f" "st_kind f = Regular" "0 < st_size f" "st_size f < 2 ^ 31"
  shows "\<exists>t'. process (demo_lib [(''Host'', ''h'')] ''/s/../x'' stat) demo_app
      (Static stat ''/s'' ''/w'' demo_server) demo_task = done_with t' \<and>
    series_tasks (hresp (user_of t')) = [FileRead ''/w/../x'' (st_size f) 0]"
proof -
  let ?lib = "demo_lib [(''Host'', ''h'')] ''/s/../x'' stat" and ?sv = "Static stat ''/s'' ''/w'' demo_server"
  let ?req = "demo_req\<lparr>req_headers := [(''Host'', [''h''])]\<rparr>"
  let ?h = "StaticHandler ''/w'' False :: nat server_handler" and ?app = "server_app ?lib demo_app"
  let ?t = "upd_user ((user_of demo_task)\<lparr>hreq := with_uri (Some ''/s/../x'', None) ?req\<rparr>) demo_task"
  let ?w = "at_route ''/s/*'' [] ''../x'' (user_of ?t)"
  have sv: "bp_router (blue_print_of ?sv) = bp_router (add_blueprint (METHOD GET ''/*'' ?h empty_bp) ''/s'' empty_bp)"
    "track_func ?sv = False"
    using assms(1,2) by (simp_all add: Static_def serve_static_def is_dir_def on_bp_def demo_server_def)
  have enc: "url_encode ''/s/../x'' = ''/s/../x''"
    by (rule url_encode_plain) (simp add: url_plain_def less_eq_char_def)
  have get: "str_to_verb ''GET'' = GET" by (simp add: str_to_verb_def strcasecmp_eq_def fold_case_def)
  have asp: "aspect_list (world ?t) = []" by (simp add: demo_task_def)
  have "call (invoke_on ?app) (bp_router (blue_print_of ?sv)) (str_to_verb ''GET'') (url_encode ''/s/../x'') ?t =
      Inr (StatusOK, upd_user (run_static ?lib ''/w'' False ?w) (request_fields ''/s/*'' [] ''../x'' ?t))"
    unfolding sv enc get
    by (simp add: call_found [OF static_lookup] verb_choice_def run_plain_route [OF asp] server_app_def)
  note d = dispatch_ok [OF this]
  have p: "fill_content_type (fill_header_map (raw_headers ?lib) (hreq (user_of demo_task))) = Inr ?req"
    using demo_prepared by (simp add: demo_lib_def demo_task_def)
  have "req_header ?req ''Host'' \<noteq> []" by (simp add: req_header_def caseless_lt_def)
  from process_dispatch [OF p this, of "(Some ''/s/../x'', None)" demo_app ?sv]
  have "process ?lib demo_app ?sv demo_task = dispatch ?lib demo_app ?sv ''GET'' ''/s/../x'' ?t"
    by (simp add: demo_lib_def route_of_def)
  then have "process ?lib demo_app ?sv demo_task =
      done_with (upd_user (run_static ?lib ''/w'' False ?w) (request_fields ''/s/*'' [] ''../x'' ?t))"
    unfolding d sv by simp
  moreover obtain resp' where "send_file stat ''/w/../x'' 0 (size_of_int (-1)) (hresp ?w) = (StatusOK, resp')"
    "series_tasks resp' = series_tasks (hresp ?w) @ [FileRead ''/w/../x'' (st_size f) 0]"
    using send_file_regular [of stat "''/w/../x''" f 0 0 "int (st_size f)" "hresp ?w"]
      file_range_cases(1) [of 0 "st_size f"] size_of_int_nat [of "st_size f"] assms by auto
  ultimately show ?thesis
    by (simp add: run_static_def File_whole_def File_def demo_lib_def static_path_def at_route_def demo_task_def
        new_resp_def done_with_def)
qed

theorem static_escapes_root_witness:
  "\<exists>t'. process (demo_lib [(''Host'', ''h'')] ''/s/../x''
        (\<lambda>p. Some \<lparr>st_kind = (if p = ''/w'' then Directory else Regular), st_size = 5\<rparr>)) demo_app
      (Static (\<lambda>p. Some \<lparr>st_kind = (if p = ''/w'' then Directory else Regular), st_size = 5\<rparr>) ''/s'' ''/w'' demo_server)
      demo_task = done_with t' \<and>
    series_tasks (hresp (user_of t')) = [FileRead ''/w/../x'' 5 0]"
  using static_escapes_root [of "\<lambda>p. Some \<lparr>st_kind = (if p = ''/w'' then Directory else Regular), st_size = 5\<rparr>"
      "\<lparr>st_kind = Directory, st_size = 5\<rparr>" "\<lparr>st_kind = Regular, st_size = 5\<rparr>"]
  by simp

end
