(* ===== verification/Base64.thy ===== *)
theory Base64
  imports Prelude
begin

text \<open>
  \<^verbatim>\<open>src/base/base64.cc\<close>. A byte is a \<open>char\<close> at the interface and the number
  \<open>of_char\<close> of it, below 256, inside the bit arithmetic; \<open>uchar\<close> is the truncation of an
  \<^verbatim>\<open>int\<close> stored into an \<^verbatim>\<open>unsigned char\<close>. The loops keep the array being filled as the
  list of its first \<^verbatim>\<open>i\<close> elements.
\<close>

unbundle bit_operations_syntax

definition base64_chars :: string where
  "base64_chars = ''ABCDEFGHIJKLMNOPQRSTUVWXYZabcdefghijklmnopqrstuvwxyz0123456789+/''"

definition isalnum :: "char \<Rightarrow> bool" where
  "isalnum c \<longleftrightarrow> (CHR ''0'' \<le> c \<and> c \<le> CHR ''9'') \<or> (CHR ''A'' \<le> c \<and> c \<le> CHR ''Z'') \<or>
     (CHR ''a'' \<le> c \<and> c \<le> CHR ''z'')"

definition is_base64 :: "char \<Rightarrow> bool" where
  "is_base64 c \<longleftrightarrow> isalnum c \<or> c = CHR ''+'' \<or> c = CHR ''/''"

definition uchar :: "nat \<Rightarrow> nat" where
  "uchar n = n mod 256"

section \<open>Encoding\<close>

definition quad :: "nat \<Rightarrow> nat \<Rightarrow> nat \<Rightarrow> nat list" where
  "quad a b c =
    [uchar (drop_bit 2 (a AND 0xfc)),
     uchar (push_bit 4 (a AND 0x03) + drop_bit 4 (b AND 0xf0)),
     uchar (push_bit 2 (b AND 0x0f) + drop_bit 6 (c AND 0xc0)),
     uchar (c AND 0x3f)]"

definition enc_char :: "nat \<Rightarrow> char" where
  "enc_char n = base64_chars ! n"

text \<open>The part after the loop: \<open>acc\<close> holds the one or two bytes left over.\<close>

definition enc_tail :: "string \<Rightarrow> string" where
  "enc_tail acc =
     (if acc = [] then []
      else (let i = length acc; a = map of_char acc @ replicate (3 - i) 0 in
            map enc_char (take (i + 1) (quad (a ! 0) (a ! 1) (a ! 2))) @ replicate (3 - i) (CHR ''='')))"

fun enc_loop :: "string \<Rightarrow> string \<Rightarrow> string" where
  "enc_loop acc [] = enc_tail acc"
| "enc_loop acc (b # bs) =
     (let acc' = acc @ [b] in
      if length acc' = 3
      then map enc_char (quad (of_char (acc' ! 0)) (of_char (acc' ! 1)) (of_char (acc' ! 2))) @ enc_loop [] bs
      else enc_loop acc' bs)"

definition encode :: "string \<Rightarrow> string" where
  "encode bytes = enc_loop [] bytes"

section \<open>Decoding\<close>

text \<open>\<^verbatim>\<open>base64_chars.find (c)\<close> stored in a byte: a character that is not in the alphabet gives
  the low byte of \<^verbatim>\<open>npos\<close>.\<close>

fun index_of :: "char \<Rightarrow> string \<Rightarrow> nat option" where
  "index_of c [] = None"
| "index_of c (x # xs) = (if x = c then Some 0 else map_option Suc (index_of c xs))"

definition dec_char :: "char \<Rightarrow> nat" where
  "dec_char c = (case index_of c base64_chars of None \<Rightarrow> 255 | Some i \<Rightarrow> uchar i)"

definition triple :: "nat \<Rightarrow> nat \<Rightarrow> nat \<Rightarrow> nat \<Rightarrow> nat list" where
  "triple w x y z =
    [uchar (push_bit 2 w + drop_bit 4 (x AND 0x30)),
     uchar (push_bit 4 (x AND 0xf) + drop_bit 2 (y AND 0x3c)),
     uchar (push_bit 6 (y AND 0x3) + z)]"

definition dec_tail :: "string \<Rightarrow> string" where
  "dec_tail acc =
     (if acc = [] then []
      else (let i = length acc; a = map dec_char (acc @ replicate (4 - i) NUL) in
            take (i - 1) (map char_of (triple (a ! 0) (a ! 1) (a ! 2) (a ! 3)))))"

fun dec_loop :: "string \<Rightarrow> string \<Rightarrow> string" where
  "dec_loop acc [] = dec_tail acc"
| "dec_loop acc (c # cs) =
     (if c \<noteq> CHR ''='' \<and> is_base64 c
      then (let acc' = acc @ [c] in
            if length acc' = 4
            then (let a = map dec_char acc' in
                  map char_of (triple (a ! 0) (a ! 1) (a ! 2) (a ! 3)) @ dec_loop [] cs)
            else dec_loop acc' cs)
      else dec_tail acc)"

definition decode :: "string \<Rightarrow> string" where
  "decode s = dec_loop [] s"

section \<open>Lemmas\<close>

lemma and_masks:
  "x AND 0x03 = x mod 4" "x AND 0x0f = x mod 16" "x AND 0x3f = x mod 64" for x :: nat
  using take_bit_eq_mask [of 2 x] take_bit_eq_mask [of 4 x] take_bit_eq_mask [of 6 x]
  by (simp_all add: take_bit_eq_mod mask_eq_exp_minus_1)

lemma shifted_masks:
  "drop_bit 2 (x AND 0xfc) = (x div 4) mod 64" "drop_bit 4 (x AND 0xf0) = (x div 16) mod 16"
  "drop_bit 6 (x AND 0xc0) = (x div 64) mod 4" "drop_bit 4 (x AND 0x30) = (x div 16) mod 4"
  "drop_bit 2 (x AND 0x3c) = (x div 4) mod 16" for x :: nat
proof -
  have "drop_bit 2 (x AND 0xfc) = drop_bit 2 x AND 0x3f" "drop_bit 4 (x AND 0xf0) = drop_bit 4 x AND 0x0f"
    "drop_bit 6 (x AND 0xc0) = drop_bit 6 x AND 0x03" "drop_bit 4 (x AND 0x30) = drop_bit 4 x AND 0x03"
    "drop_bit 2 (x AND 0x3c) = drop_bit 2 x AND 0x0f"
    by simp_all
  then show "drop_bit 2 (x AND 0xfc) = (x div 4) mod 64" "drop_bit 4 (x AND 0xf0) = (x div 16) mod 16"
    "drop_bit 6 (x AND 0xc0) = (x div 64) mod 4" "drop_bit 4 (x AND 0x30) = (x div 16) mod 4"
    "drop_bit 2 (x AND 0x3c) = (x div 4) mod 16"
    by (simp_all only: and_masks drop_bit_eq_div) simp_all
qed

lemmas mask_arith = and_masks shifted_masks push_bit_eq_mult uchar_def

lemma index_of_nth: "distinct xs \<Longrightarrow> i < length xs \<Longrightarrow> index_of (xs ! i) xs = Some i"
proof (induction xs arbitrary: i)
  case (Cons x xs)
  then show ?case by (cases i) auto
qed simp

lemma alphabet: "distinct base64_chars" "length base64_chars = 64"
  "list_all (\<lambda>c. is_base64 c \<and> c \<noteq> CHR ''='') base64_chars"
  by (simp_all add: base64_chars_def is_base64_def isalnum_def less_eq_char_def)

lemma sextet:
  assumes "x < 64"
  shows "dec_char (enc_char x) = x \<and> is_base64 (enc_char x) \<and> enc_char x \<noteq> CHR ''=''"
proof -
  have "index_of (enc_char x) base64_chars = Some x"
    using assms alphabet by (simp add: enc_char_def index_of_nth)
  moreover have "enc_char x \<in> set base64_chars"
    using assms alphabet by (simp add: enc_char_def)
  ultimately show ?thesis
    using assms alphabet(3) by (auto simp: dec_char_def uchar_def list_all_iff)
qed

lemma quad_div:
  assumes "a < 256" and "b < 256" and "c < 256"
  shows "quad a b c = [a div 4, 16 * (a mod 4) + b div 16, 4 * (b mod 16) + c div 64, c mod 64]"
proof -
  have "a div 4 < 64" "b div 16 < 16" "c div 64 < 4" using assms by simp_all
  then show ?thesis
    by (simp only: quad_def mask_arith list.inject) (simp add: mod_less; linarith?)
qed

lemma triple_div:
  assumes "w < 64" and "x < 64" and "y < 64" and "z < 64"
  shows "triple w x y z = [4 * w + x div 16, 16 * (x mod 16) + y div 4, 64 * (y mod 4) + z]"
proof -
  have "x div 16 < 4" "y div 4 < 16" using assms by simp_all
  then show ?thesis
    using assms by (simp only: triple_def mask_arith list.inject) (simp add: mod_less; linarith?)
qed

lemma quad_bound:
  assumes "a < 256" and "b < 256" and "c < 256" and "q \<in> set (quad a b c)"
  shows "q < 64"
  using assms by (auto simp: quad_div)

lemma split_at: "r < k \<Longrightarrow> (k * q + r) div k = q \<and> (k * q + r) mod k = r" for k :: nat
  by simp

lemma two_bytes:
  assumes "b < (256::nat)"
  shows "4 * (a div 4) + (16 * (a mod 4) + b div 16) div 16 = a"
    "16 * ((16 * (a mod 4) + b div 16) mod 16) + 4 * (b mod 16) div 4 = b"
  using assms split_at [of "b div 16" 16 "a mod 4"] by simp_all

lemma triple_quad:
  assumes "a < 256" and "b < 256" and "c < (256::nat)"
  shows "triple (a div 4) (16 * (a mod 4) + b div 16) (4 * (b mod 16) + c div 64) (c mod 64) = [a, b, c]"
proof -
  have lt: "a div 4 < 64" "16 * (a mod 4) + b div 16 < 64" "4 * (b mod 16) + c div 64 < 64" "c mod 64 < 64"
    using assms by linarith+
  have "4 * (a div 4) + (16 * (a mod 4) + b div 16) div 16 = a"
    "16 * ((16 * (a mod 4) + b div 16) mod 16) + (4 * (b mod 16) + c div 64) div 4 = b"
    "64 * ((4 * (b mod 16) + c div 64) mod 4) + c mod 64 = c"
    using assms split_at [of "b div 16" 16 "a mod 4"] split_at [of "c div 64" 4 "b mod 16"]
    by simp_all
  then show ?thesis by (simp only: triple_div [OF lt])
qed

lemma dec_loop_4:
  assumes "w < 64" and "x < 64" and "y < 64" and "z < 64"
  shows "dec_loop [] (enc_char w # enc_char x # enc_char y # enc_char z # s) =
    map char_of (triple w x y z) @ dec_loop [] s"
  using assms [THEN sextet] by (simp add: Let_def)

lemma dec_enc_quad:
  assumes "a < 256" and "b < 256" and "c < 256"
  shows "dec_loop [] (map enc_char (quad a b c) @ s) = map char_of [a, b, c] @ dec_loop [] s"
proof -
  have lt: "a div 4 < 64" "16 * (a mod 4) + b div 16 < 64" "4 * (b mod 16) + c div 64 < 64" "c mod 64 < 64"
    using assms by linarith+
  show ?thesis
    by (simp only: quad_div [OF assms] list.map append.simps dec_loop_4 [OF lt] triple_quad [OF assms])
qed

lemma dec_tail_two:
  assumes "a < 64" and "b < 64"
  shows "dec_loop [] [enc_char a, enc_char b, CHR ''='', CHR ''=''] =
    [char_of (hd (triple a b 255 255))]"
proof -
  have "dec_char NUL = 255" by (simp add: dec_char_def base64_chars_def)
  then show ?thesis
    using assms [THEN sextet] by (simp add: dec_tail_def Let_def triple_def)
qed

lemma dec_tail_three:
  assumes "a < 64" and "b < 64" and "c < 64"
  shows "dec_loop [] [enc_char a, enc_char b, enc_char c, CHR ''=''] =
    map char_of (take 2 (triple a b c 255))"
proof -
  have "dec_char NUL = 255" by (simp add: dec_char_def base64_chars_def)
  then show ?thesis
    using assms [THEN sextet] by (simp add: dec_tail_def Let_def triple_def)
qed

lemma triple_head:
  assumes "x < 64"
  shows "hd (triple w x y z) = uchar (4 * w + x div 16)"
proof -
  have "x div 16 < 4" using assms by simp
  then show ?thesis by (simp only: triple_def mask_arith list.sel) (simp add: mult.commute)
qed

lemma triple_second:
  assumes "y < 64"
  shows "triple w x y z ! 1 = uchar (16 * (x mod 16) + y div 4)"
proof -
  have y: "(y div 4) mod 16 = y div 4" using assms by simp
  have "triple w x y z ! 1 = uchar (push_bit 4 (x AND 0xf) + drop_bit 2 (y AND 0x3c))"
    by (simp only: triple_def) simp
  then show ?thesis by (simp only: and_masks shifted_masks push_bit_eq_mult y) (simp add: mult.commute)
qed

lemma short_cases:
  assumes "length s < 3"
  obtains "s = []" | a where "s = [a]" | a b where "s = [a, b]"
  using assms by (cases s rule: remdups_adj.cases) (auto simp: less_Suc_eq length_Suc_conv eval_nat_numeral)

lemma dec_enc_tail:
  assumes "length acc < 3"
  shows "dec_loop [] (enc_tail acc) = acc"
proof -
  consider "acc = []" | a where "acc = [a]" | a b where "acc = [a, b]"
    using assms by (cases acc rule: remdups_adj.cases) (auto simp: less_Suc_eq length_Suc_conv eval_nat_numeral)
  then show ?thesis
  proof cases
    case 1
    then show ?thesis by (simp add: enc_tail_def dec_tail_def)
  next
    case (2 a)
    have lt: "of_char a div 4 < (64::nat)" "16 * (of_char a mod 4) < (64::nat)"
      using nat_of_char_less_256 [of a] by linarith+
    have "enc_tail acc = [enc_char (of_char a div 4), enc_char (16 * (of_char a mod 4)), CHR ''='', CHR ''='']"
      by (simp add: 2 enc_tail_def quad_div Let_def numeral_2_eq_2)
    then show ?thesis
      using dec_tail_two [OF lt] triple_head [OF lt(2), of "of_char a div 4" 255 255]
        nat_of_char_less_256 [of a]
      by (simp add: 2 uchar_def)
  next
    case (3 a b)
    have lt: "of_char a div 4 < (64::nat)" "16 * (of_char a mod 4) + of_char b div 16 < (64::nat)"
        "4 * (of_char b mod 16) < (64::nat)"
      using nat_of_char_less_256 [of a] nat_of_char_less_256 [of b] by (linarith, linarith, linarith)
    have e: "enc_tail acc = [enc_char (of_char a div 4), enc_char (16 * (of_char a mod 4) + of_char b div 16),
        enc_char (4 * (of_char b mod 16)), CHR ''='']"
      by (simp add: 3 enc_tail_def quad_div Let_def numeral_2_eq_2 numeral_3_eq_3)
    have t: "take 2 (triple w x y z) = [hd (triple w x y z), triple w x y z ! 1]" for w x y z
      by (simp add: triple_def numeral_2_eq_2)
    have "4 * (of_char a div 4) + (16 * (of_char a mod 4) + of_char b div 16) div 16 = (of_char a :: nat)"
      "16 * ((16 * (of_char a mod 4) + of_char b div 16) mod 16) + (4 * (of_char b mod 16)) div 4 = (of_char b :: nat)"
      using nat_of_char_less_256 [of a] nat_of_char_less_256 [of b]
        two_bytes [of "of_char b" "of_char a"] by (simp_all only:)
    then have "dec_loop [] (enc_tail acc) = map char_of [uchar (of_char a), uchar (of_char b)]"
      by (simp only: e dec_tail_three [OF lt] t triple_head [OF lt(2)] triple_second [OF lt(3)])
    then show ?thesis
      using nat_of_char_less_256 [of a] nat_of_char_less_256 [of b] by (simp add: 3 uchar_def)
  qed
qed

lemma enc_loop_3:
  "enc_loop [] (a # b # c # s) = map enc_char (quad (of_char a) (of_char b) (of_char c)) @ enc_loop [] s"
  by (simp add: Let_def)

lemma length_quad: "length (quad a b c) = 4"
  by (simp add: quad_def)

lemma bytes_cases:
  obtains (short) "length s < 3" | (long) a b c r where "s = a # b # c # r"
  by (cases s rule: remdups_adj.cases; cases "tl (tl s)") auto

lemma enc_loop_short: "length s < 3 \<Longrightarrow> enc_loop [] s = enc_tail s"
  by (cases s rule: remdups_adj.cases) (auto simp: Let_def less_Suc_eq length_Suc_conv eval_nat_numeral)

text \<open>
  Round trip of Base64: decoding the encoding of any byte string gives it back, padding
  included.
\<close>

theorem base64_roundtrip: "decode (encode s) = s"
proof -
  have "dec_loop [] (enc_loop [] s) = s"
  proof (induction s rule: length_induct)
    case (1 s)
    show ?case
    proof (cases s rule: bytes_cases)
      case short
      then show ?thesis by (simp add: enc_loop_short dec_enc_tail)
    next
      case (long a b c r)
      then show ?thesis
        using "1.IH" by (simp only: long enc_loop_3) (simp add: dec_enc_quad)
    qed
  qed
  then show ?thesis by (simp add: decode_def encode_def)
qed

abbreviation alphabet_or_pad :: "char \<Rightarrow> bool" where
  "alphabet_or_pad c \<equiv> is_base64 c \<or> c = CHR ''=''"

lemma quad_chars:
  "list_all alphabet_or_pad (map enc_char (take n (quad (of_char a) (of_char b) (of_char c))))"
proof -
  have "\<forall>q \<in> set (quad (of_char a) (of_char b) (of_char c)). q < 64"
    using quad_bound [of "of_char a" "of_char b" "of_char c"] nat_of_char_less_256 by blast
  then have "is_base64 (enc_char q)" if "q \<in> set (take n (quad (of_char a) (of_char b) (of_char c)))" for q
    using that by (metis in_set_takeD sextet)
  then show ?thesis by (simp add: list_all_iff)
qed

lemma enc_tail_chars: "length s < 3 \<Longrightarrow> list_all alphabet_or_pad (enc_tail s)"
proof (erule short_cases)
  have z: "of_char NUL = (0 :: nat)" by simp
  show ?thesis if "s = []" using that by (simp add: enc_tail_def)
  show ?thesis if s: "s = [a]" for a
  proof -
    have "enc_tail s = map enc_char (take 2 (quad (of_char a) (of_char NUL) (of_char NUL))) @ ''==''"
      unfolding z by (simp add: s enc_tail_def Let_def numeral_2_eq_2)
    then show ?thesis using quad_chars [of 2 a NUL NUL] by simp
  qed
  show ?thesis if s: "s = [a, b]" for a b
  proof -
    have "enc_tail s = map enc_char (take 3 (quad (of_char a) (of_char b) (of_char NUL))) @ ''=''"
      unfolding z by (simp add: s enc_tail_def Let_def numeral_2_eq_2 numeral_3_eq_3)
    then show ?thesis using quad_chars [of 3 a b NUL] by simp
  qed
qed

lemma enc_tail_length: "length s < 3 \<Longrightarrow> length (enc_tail s) = 4 * ((length s + 2) div 3)"
  by (erule short_cases) (simp_all add: enc_tail_def Let_def length_quad)

text \<open>
  The encoding has four characters for every three bytes begun, all of them of the Base64
  alphabet or padding.
\<close>

theorem base64_encode_shape:
  "length (encode s) = 4 * ((length s + 2) div 3) \<and>
   list_all alphabet_or_pad (encode s)"
proof -
  have "length (enc_loop [] s) = 4 * ((length s + 2) div 3) \<and>
      list_all alphabet_or_pad (enc_loop [] s)"
  proof (induction s rule: length_induct)
    case (1 s)
    show ?case
    proof (cases s rule: bytes_cases)
      case short
      then show ?thesis
        by (simp only: enc_loop_short enc_tail_length enc_tail_chars simp_thms)
    next
      case (long a b c r)
      have r: "length (enc_loop [] r) = 4 * ((length r + 2) div 3)"
          "list_all alphabet_or_pad (enc_loop [] r)"
        using "1.IH" long by simp_all
      have "(length s + 2) div 3 = Suc ((length r + 2) div 3)" using long by simp
      then show ?thesis
        using r quad_chars [of 4 a b c]
        by (simp add: long enc_loop_3 length_quad del: enc_loop.simps)
    qed
  qed
  then show ?thesis by (simp add: encode_def)
qed

end
