(* ===== verification/Dc_Error.thy ===== *)
theory Dc_Error
  imports Prelude
begin

text \<open>
  \<^verbatim>\<open>file_compare/common/dc_common_error.h\<close>, \<^verbatim>\<open>dc_common_error.cc\<close> and the checking macros of
  \<^verbatim>\<open>dc_common_trace_log.h\<close>: the codes the file comparison works with, their number in the
  enumeration, and the two tables of names. A message that the table does not initialise is the null
  pointer, here \<open>None\<close>; a failed assertion aborts the program, here the error \<open>AssertFailed\<close>.
\<close>

datatype dc_common_code =
    S_SUCCESS | E_RETRY
  | E_NOT_SUPPORT_FILE_TYPE | E_NOT_IMPL | E_NOT_FOUND | E_ASSERT
  | E_ARG_INVALID
  | E_OS_ENV_NOT_FOUND | E_OS_ENV_MEM | E_OS_ENV_STAT | E_OS_ENV_OPEN | E_OS_ENV_READ | E_OS_ENV_WRITE
  | E_OS_ENV_UNLINK | E_OS_ENV_GETPWUID | E_OS_ENV_CHDIR | E_OS_ENV_LOCALTIME
  | E_DC_INTERNAL_NO_UUID | E_DC_INTERNAL_NOT_JSON | E_DC_INTERNAL_EMPTY_BODY
  | E_DC_INTERNAL_NO_DIR_LIST | E_DC_INTERNAL_UUID_NOT_EQUAL
  | E_DC_CONTENT_DIR | E_DC_CONTENT_RETRY | E_DC_CONTENT_OVER
  | E_DC_API_CTX_NOT_FOUND | E_DC_API_CTX_NO_FREE
  | E_DC_TASK_HAS_BEEN_CANCELED | E_DC_TASK_MEM_VOPS_NOT_OVER
  | E_DC_COMPARE_CONNECT | E_DC_COMPARE_EXE_TASK_FAILED
  | E_DC_COMMON_ERROR_END

text \<open>The enumerators in order; the number of a code is its position, since numbering starts at 0.\<close>

definition dc_codes :: "dc_common_code list" where
  "dc_codes =
     [S_SUCCESS, E_RETRY,
      E_NOT_SUPPORT_FILE_TYPE, E_NOT_IMPL, E_NOT_FOUND, E_ASSERT,
      E_ARG_INVALID,
      E_OS_ENV_NOT_FOUND, E_OS_ENV_MEM, E_OS_ENV_STAT, E_OS_ENV_OPEN, E_OS_ENV_READ, E_OS_ENV_WRITE,
      E_OS_ENV_UNLINK, E_OS_ENV_GETPWUID, E_OS_ENV_CHDIR, E_OS_ENV_LOCALTIME,
      E_DC_INTERNAL_NO_UUID, E_DC_INTERNAL_NOT_JSON, E_DC_INTERNAL_EMPTY_BODY,
      E_DC_INTERNAL_NO_DIR_LIST, E_DC_INTERNAL_UUID_NOT_EQUAL,
      E_DC_CONTENT_DIR, E_DC_CONTENT_RETRY, E_DC_CONTENT_OVER,
      E_DC_API_CTX_NOT_FOUND, E_DC_API_CTX_NO_FREE,
      E_DC_TASK_HAS_BEEN_CANCELED, E_DC_TASK_MEM_VOPS_NOT_OVER,
      E_DC_COMPARE_CONNECT, E_DC_COMPARE_EXE_TASK_FAILED,
      E_DC_COMMON_ERROR_END]"

fun position :: "'a \<Rightarrow> 'a list \<Rightarrow> nat" where
  "position x [] = 0"
| "position x (y # ys) = (if x = y then 0 else Suc (position x ys))"

definition code_num :: "dc_common_code \<Rightarrow> int" where
  "code_num c = int (position c dc_codes)"

text \<open>
  The cast of an \<^verbatim>\<open>int\<close> to the enumeration. Its values are those of five bits; the cast of another
  number has no meaning.
\<close>

definition code_cast :: "int \<Rightarrow> dc_common_code option" where
  "code_cast n = (if 0 \<le> n \<and> n < 32 then Some (dc_codes ! nat n) else None)"

datatype dc_common_task_stat =
    T_TASK_INIT | T_TASK_TO_RUN | T_TASK_RUNNING | T_TASK_OVER | T_TASK_CANCEL | T_TASK_INVALID

definition TASK_NAME :: "string list" where
  "TASK_NAME =
     [''T_TASK_STAT_TASK_STAT_ADDED_TO_TASK_QUEUE'',
      ''T_TASK_STAT_BEGIN_COMPARE'',
      ''T_TASK_STAT_COMPARE_OVER'']"

definition dc_common_error_task_status :: "nat \<Rightarrow> cpp_error + string" where
  "dc_common_error_task_status task_status =
     (if \<not> task_status < length TASK_NAME then Inl AssertFailed else Inr (TASK_NAME ! task_status))"

text \<open>The array has 42 elements, of which 29 are initialised; the function sets the last one.\<close>

definition error_code_msg :: "string option list" where
  "error_code_msg =
     map Some
       [''success'',
        ''function not implemented'',
        ''assert failed'',
        ''argument invalid'',
        ''os env structure not found'',
        ''os env memory error'',
        ''os env stat error'',
        ''os env open error'',
        ''os env read error'',
        ''os env write error'',
        ''os env unlink error'',
        ''dc api ctx not found'',
        ''dc api ctx no free'',
        ''dc compare connect error'',
        ''dc compare exe task failed'',
        ''dc db module need retry'',
        ''dc db msql init error'',
        ''dc db msql set charset error'',
        ''dc db msql set connect timeout error'',
        ''dc db msql connect error'',
        ''dc db mysql query error'',
        ''dc db mysql use result error'',
        ''dc db mysql no result error'',
        ''dc db mysql fetch row error'',
        ''dc db mysql no more rows error'',
        ''dc task has been canceled'',
        ''dc db mysql fetch field error'',
        ''dc db mysql pk not found error'',
        ''dc task too many diff rows'']
     @ replicate 13 None"

definition dc_common_code_msg :: "dc_common_code \<Rightarrow> cpp_error + string option" where
  "dc_common_code_msg error =
     (let msgs = error_code_msg[41 := Some ''dc task operations not over''] in
      if \<not> code_num error < code_num E_DC_COMMON_ERROR_END then Inl AssertFailed
      else Inr (msgs ! nat (code_num error)))"

text \<open>
  Which codes \<^verbatim>\<open>LOG_CHECK_ERR_RETURN\<close> returns to the caller; with the others the function that uses
  the macro goes on. \<^verbatim>\<open>LOG_CHECK_ERR\<close> only prints.
\<close>

definition log_check_err_return :: "dc_common_code \<Rightarrow> bool" where
  "log_check_err_return ret \<longleftrightarrow>
     S_SUCCESS \<noteq> ret \<and> E_DC_CONTENT_RETRY \<noteq> ret \<and> E_DC_CONTENT_OVER \<noteq> ret \<and> E_DC_TASK_MEM_VOPS_NOT_OVER \<noteq> ret"

section \<open>Lemmas\<close>

lemma position_nth: "x \<in> set xs \<Longrightarrow> position x xs < length xs \<and> xs ! position x xs = x"
  by (induction xs) auto

lemma dc_codes_all: "c \<in> set dc_codes"
  by (cases c) (simp_all add: dc_codes_def)

lemma code_cast_num: "code_cast (code_num c) = Some c"
  using position_nth [OF dc_codes_all [of c]] by (simp add: code_cast_def code_num_def dc_codes_def)

lemma code_num_inj: "code_num c = code_num d \<longleftrightarrow> c = d"
  by (metis code_cast_num option.inject)

lemma code_num_eval:
  "code_num S_SUCCESS = 0" "code_num E_OS_ENV_STAT = 9" "code_num E_DC_COMPARE_CONNECT = 29"
  "code_num E_DC_COMPARE_EXE_TASK_FAILED = 30" "code_num E_DC_COMMON_ERROR_END = 31"
  by (simp_all add: code_num_def dc_codes_def)

lemma code_num_zero [simp]: "code_num c = 0 \<longleftrightarrow> c = S_SUCCESS"
  using code_num_inj [of c S_SUCCESS] by (simp add: code_num_eval)

text \<open>
  The message table does not follow the enumeration. Every code has a number that casts back
  to it. Every code but the end marker passes the assertion of \<^verbatim>\<open>dc_common_code_msg\<close>; but of the
  first codes only success gets its own message (a failed \<^verbatim>\<open>stat\<close> is reported as a write error), and
  the last two codes get the null pointer.
\<close>

theorem code_msg_table:
  "code_cast (code_num c) = Some c \<and>
   (dc_common_code_msg c = Inl AssertFailed \<longleftrightarrow> c = E_DC_COMMON_ERROR_END) \<and>
   (dc_common_code_msg c = Inr None \<longleftrightarrow> c = E_DC_COMPARE_CONNECT \<or> c = E_DC_COMPARE_EXE_TASK_FAILED) \<and>
   dc_common_code_msg S_SUCCESS = Inr (Some ''success'') \<and>
   dc_common_code_msg E_OS_ENV_STAT = Inr (Some ''os env write error'') \<and>
   dc_common_code_msg E_ARG_INVALID = Inr (Some ''os env stat error'')"
proof (intro conjI)
  show "code_cast (code_num c) = Some c" by (rule code_cast_num)
  show "dc_common_code_msg c = Inl AssertFailed \<longleftrightarrow> c = E_DC_COMMON_ERROR_END"
    by (cases c) (simp_all add: dc_common_code_msg_def Let_def code_num_def dc_codes_def)
  show "dc_common_code_msg c = Inr None \<longleftrightarrow> c = E_DC_COMPARE_CONNECT \<or> c = E_DC_COMPARE_EXE_TASK_FAILED"
    by (cases c) (simp_all add: dc_common_code_msg_def Let_def code_num_def dc_codes_def error_code_msg_def)
qed (simp_all add: dc_common_code_msg_def Let_def code_num_def dc_codes_def error_code_msg_def)

end
