(* ===== verification/Chan.thy ===== *)
theory Chan
  imports Prelude "HOL-Library.Sublist"
begin

text \<open>
  \<^verbatim>\<open>file_compare/diff/chan.h\<close>: the ring buffer with one producer and one consumer that carries tasks
  and messages between threads. The operations are functions on the ring; \<open>chan_step\<close> interleaves
  the atomic actions of the two threads (a release store that is seen by an acquire load is one
  action), so that what each thread sees of the other in the middle of an operation is part of the
  model. A slot of the buffer is \<open>None\<close> while it holds no object.
\<close>

record 'a spsc_queue =
  q_cap :: nat
  q_head :: nat
  q_tail :: nat
  q_buf :: "'a option list"

definition new_spsc :: "nat \<Rightarrow> 'a spsc_queue" where
  "new_spsc cap =
     (let c = max (cap + 1) 4 in \<lparr>q_cap = c, q_head = 0, q_tail = 0, q_buf = replicate c None\<rparr>)"

section \<open>Operations\<close>

definition next_pos :: "'a spsc_queue \<Rightarrow> nat \<Rightarrow> nat" where
  "next_pos q i = (if i + 1 = q_cap q then 0 else i + 1)"

text \<open>The condition \<^verbatim>\<open>push\<close> waits on, and the two writes after it.\<close>

definition full :: "'a spsc_queue \<Rightarrow> bool" where
  "full q \<longleftrightarrow> next_pos q (q_head q) = q_tail q"

definition push_build :: "'a \<Rightarrow> 'a spsc_queue \<Rightarrow> 'a spsc_queue" where
  "push_build v q = q\<lparr>q_buf := (q_buf q)[q_head q := Some v]\<rparr>"

definition push_commit :: "'a spsc_queue \<Rightarrow> 'a spsc_queue" where
  "push_commit q = q\<lparr>q_head := next_pos q (q_head q)\<rparr>"

text \<open>\<^verbatim>\<open>push\<close> with no other thread: it does not return on a full ring.\<close>

definition push :: "'a \<Rightarrow> 'a spsc_queue \<Rightarrow> 'a spsc_queue option" where
  "push v q = (if full q then None else Some (push_commit (push_build v q)))"

text \<open>\<^verbatim>\<open>front\<close> gives the position of the first object, if any.\<close>

definition front :: "'a spsc_queue \<Rightarrow> nat option" where
  "front q = (if q_head q = q_tail q then None else Some (q_tail q))"

definition pop_destroy :: "'a spsc_queue \<Rightarrow> 'a spsc_queue" where
  "pop_destroy q = q\<lparr>q_buf := (q_buf q)[q_tail q := None]\<rparr>"

definition pop_commit :: "'a spsc_queue \<Rightarrow> 'a spsc_queue" where
  "pop_commit q = q\<lparr>q_tail := next_pos q (q_tail q)\<rparr>"

definition pop :: "'a spsc_queue \<Rightarrow> 'a spsc_queue" where
  "pop q = pop_commit (pop_destroy q)"

text \<open>
  The difference of two \<^verbatim>\<open>int\<close>s becomes a \<^verbatim>\<open>size_t\<close>, which is never below 0; the channels turn
  the result into an \<^verbatim>\<open>int\<close> again.
\<close>

definition spsc_size :: "'a spsc_queue \<Rightarrow> 64 word" where
  "spsc_size q =
     (let diff = word_of_int (int (q_head q) - int (q_tail q)) :: 64 word in
      if diff < 0 then diff + word_of_nat (q_cap q) else diff)"

definition chan_size :: "'a spsc_queue \<Rightarrow> int" where
  "chan_size q = to_int32 (uint (spsc_size q))"

definition new_chan :: "'a spsc_queue" where
  "new_chan = new_spsc 64"

definition read_once :: "'a spsc_queue \<Rightarrow> 'a option \<times> 'a spsc_queue" where
  "read_once q =
     (case front q of
        Some i \<Rightarrow> (q_buf q ! i, pop q)
      | None \<Rightarrow> (None, q))"

text \<open>\<^verbatim>\<open>read_stuck\<close> with no other thread: it does not return on an empty ring.\<close>

definition read_stuck :: "'a spsc_queue \<Rightarrow> ('a option \<times> 'a spsc_queue) option" where
  "read_stuck q =
     (case front q of
        Some i \<Rightarrow> Some (q_buf q ! i, pop q)
      | None \<Rightarrow> None)"

definition chan_write :: "'a \<Rightarrow> 'a spsc_queue \<Rightarrow> 'a spsc_queue option" where
  "chan_write v q = push v q"

section \<open>Two threads\<close>

text \<open>
  The producer is idle, spins in \<^verbatim>\<open>push\<close> or has built the object and not published it; the
  consumer is idle, has found an object, has copied it, or has destroyed it and not yet moved the
  tail. \<open>written\<close> and \<open>taken\<close> log the completed operations.
\<close>

datatype 'a producer = PIdle | PSpin 'a | PBuilt 'a

datatype 'a consumer = CIdle | CReady | CHave 'a | CPopped 'a

record 'a chan_conf =
  ring :: "'a spsc_queue"
  prod :: "'a producer"
  cons :: "'a consumer"
  written :: "'a list"
  taken :: "'a list"

definition chan_start :: "'a chan_conf" where
  "chan_start = \<lparr>ring = new_chan, prod = PIdle, cons = CIdle, written = [], taken = []\<rparr>"

inductive chan_step :: "'a chan_conf \<Rightarrow> 'a chan_conf \<Rightarrow> bool" where
  p_call: "prod s = PIdle \<Longrightarrow> chan_step s (s\<lparr>prod := PSpin v\<rparr>)"
| p_build: "prod s = PSpin v \<Longrightarrow> \<not> full (ring s) \<Longrightarrow>
    chan_step s (s\<lparr>ring := push_build v (ring s), prod := PBuilt v\<rparr>)"
| p_commit: "prod s = PBuilt v \<Longrightarrow>
    chan_step s (s\<lparr>ring := push_commit (ring s), prod := PIdle, written := written s @ [v]\<rparr>)"
| c_found: "cons s = CIdle \<Longrightarrow> front (ring s) \<noteq> None \<Longrightarrow> chan_step s (s\<lparr>cons := CReady\<rparr>)"
| c_copy: "cons s = CReady \<Longrightarrow> front (ring s) = Some i \<Longrightarrow> q_buf (ring s) ! i = Some v \<Longrightarrow>
    chan_step s (s\<lparr>cons := CHave v\<rparr>)"
| c_destroy: "cons s = CHave v \<Longrightarrow>
    chan_step s (s\<lparr>ring := pop_destroy (ring s), cons := CPopped v\<rparr>)"
| c_commit: "cons s = CPopped v \<Longrightarrow>
    chan_step s (s\<lparr>ring := pop_commit (ring s), cons := CIdle, taken := taken s @ [v]\<rparr>)"

inductive_cases chan_stepE: "chan_step s s'"

inductive chan_reach :: "'a chan_conf \<Rightarrow> bool" where
  reach_start: "chan_reach chan_start"
| reach_step: "chan_reach s \<Longrightarrow> chan_step s s' \<Longrightarrow> chan_reach s'"

section \<open>The invariant\<close>

text \<open>
  The \<open>k\<close>-th object ever written lives at \<open>k mod cap\<close>: objects \<open>T\<close> to \<open>W\<close> are in the ring, the
  slots up to \<open>T + cap\<close> are free, except for the object a thread is working on.
\<close>

definition slot :: "'a chan_conf \<Rightarrow> nat \<Rightarrow> 'a option" where
  "slot s k =
     (if k = length (taken s) \<and> (\<exists>v. cons s = CPopped v) then None
      else if k < length (written s) then Some (written s ! k)
      else if k = length (written s) then (case prod s of PBuilt v \<Rightarrow> Some v | _ \<Rightarrow> None)
      else None)"

definition chan_counts :: "'a chan_conf \<Rightarrow> bool" where
  "chan_counts s \<longleftrightarrow>
     (let c = q_cap (ring s); T = length (taken s); W = length (written s) in
      1 < c \<and> length (q_buf (ring s)) = c \<and>
      q_head (ring s) = W mod c \<and> q_tail (ring s) = T mod c \<and> T \<le> W \<and> W < T + c \<and>
      prefix (taken s) (written s) \<and> (cons s \<noteq> CIdle \<longrightarrow> T < W) \<and>
      (\<forall>v. cons s = CHave v \<or> cons s = CPopped v \<longrightarrow> v = written s ! T) \<and>
      (\<forall>v. prod s = PBuilt v \<longrightarrow> W + 1 < T + c))"

definition chan_slots :: "'a chan_conf \<Rightarrow> bool" where
  "chan_slots s \<longleftrightarrow>
     (let c = q_cap (ring s); T = length (taken s) in
      \<forall>k. T \<le> k \<and> k < T + c \<longrightarrow> q_buf (ring s) ! (k mod c) = slot s k)"

definition chan_ok :: "'a chan_conf \<Rightarrow> bool" where
  "chan_ok s \<longleftrightarrow> chan_counts s \<and> chan_slots s"

lemma mod_distinct: "j < k \<Longrightarrow> k < j + c \<Longrightarrow> j mod c \<noteq> k mod c" for c :: nat
  using mod_eq_dvd_iff_nat [of j k c] dvd_imp_le [of c "k - j"] by auto

lemma mod_window:
  "T \<le> j \<Longrightarrow> j < T + c \<Longrightarrow> T \<le> k \<Longrightarrow> k < T + c \<Longrightarrow> j mod c = k mod c \<longleftrightarrow> j = k" for c :: nat
  using mod_distinct [of j k c] mod_distinct [of k j c] by (cases j k rule: linorder_cases) auto

lemma next_pos_mod: "next_pos q (k mod q_cap q) = (k + 1) mod q_cap q" if "1 < q_cap q"
  using that by (simp add: next_pos_def mod_Suc)

lemmas chan_defs = chan_counts_def Let_def next_pos_mod push_build_def push_commit_def
  pop_destroy_def pop_commit_def

text \<open>The two comparisons of positions decide whether the ring is full or empty.\<close>

lemma full_iff:
  assumes "chan_counts s"
  shows "full (ring s) \<longleftrightarrow> length (written s) + 1 = length (taken s) + q_cap (ring s)"
proof (cases "length (written s) + 1 = length (taken s) + q_cap (ring s)")
  case True
  then have "(length (written s) + 1) mod q_cap (ring s) = length (taken s) mod q_cap (ring s)" by simp
  then show ?thesis using assms True by (simp add: full_def chan_defs)
next
  case False
  then show ?thesis
    using assms mod_window [of "length (taken s)" "length (written s) + 1" "q_cap (ring s)" "length (taken s)"]
    by (auto simp: full_def chan_defs)
qed

lemma front_iff:
  assumes "chan_counts s"
  shows "front (ring s) =
    (if length (taken s) < length (written s) then Some (length (taken s) mod q_cap (ring s)) else None)"
  using mod_window [of "length (taken s)" "length (written s)" "q_cap (ring s)" "length (taken s)"]
    assms by (auto simp: front_def chan_counts_def Let_def)

lemma slot_at:
  "chan_slots s \<Longrightarrow> length (taken s) \<le> k \<Longrightarrow> k < length (taken s) + q_cap (ring s) \<Longrightarrow>
    q_buf (ring s) ! (k mod q_cap (ring s)) = slot s k"
  by (simp add: chan_slots_def Let_def)

lemma slot_updated:
  assumes "chan_counts s" "chan_slots s"
    and j: "length (taken s) \<le> j" "j < length (taken s) + q_cap (ring s)"
    and k: "length (taken s) \<le> k" "k < length (taken s) + q_cap (ring s)"
  shows "(q_buf (ring s))[j mod q_cap (ring s) := x] ! (k mod q_cap (ring s)) = (if k = j then x else slot s k)"
  using mod_window [OF j k] assms(1) slot_at [OF assms(2) k]
  by (simp add: nth_list_update chan_counts_def Let_def)

lemma chan_ok_start: "chan_ok chan_start"
  by (simp add: chan_ok_def chan_counts_def chan_slots_def chan_start_def new_chan_def new_spsc_def slot_def)

lemma chan_counts_step: "chan_counts s \<Longrightarrow> chan_slots s \<Longrightarrow> chan_step s s' \<Longrightarrow> chan_counts s'"
proof (erule chan_stepE, goal_cases)
  case (1 v)
  then show ?case by (simp add: chan_counts_def Let_def)
next
  case (2 v)
  then show ?case using full_iff [of s] by (simp add: chan_defs)
next
  case (3 v)
  then show ?case by (auto simp: chan_defs nth_append prefix_def)
next
  case 4
  then show ?case using front_iff [of s] by (auto simp: chan_defs split: if_splits)
next
  case (5 i v)
  have "length (taken s) < length (written s)" using 5 by (simp add: chan_counts_def Let_def)
  moreover then have "q_buf (ring s) ! (length (taken s) mod q_cap (ring s)) = Some (written s ! length (taken s))"
    using 5 slot_at [of s "length (taken s)"] by (simp add: slot_def chan_counts_def Let_def)
  ultimately show ?case using 5 front_iff [of s] by (simp add: chan_counts_def Let_def)
next
  case (6 v)
  then show ?case by (simp add: chan_defs)
next
  case (7 v)
  then show ?case
    using append_one_prefix [of "taken s" "written s"] by (auto simp: chan_defs)
qed

lemma chan_slots_step: "chan_counts s \<Longrightarrow> chan_slots s \<Longrightarrow> chan_step s s' \<Longrightarrow> chan_slots s'"
proof (erule chan_stepE, goal_cases)
  case (1 v)
  then show ?case by (auto simp: chan_slots_def Let_def slot_def)
next
  case (2 v)
  then have W: "length (taken s) \<le> length (written s)" "length (written s) < length (taken s) + q_cap (ring s)"
    and h: "q_head (ring s) = length (written s) mod q_cap (ring s)"
    by (simp_all add: chan_counts_def Let_def)
  show ?case
    using 2 W slot_updated [OF 2(1,2) W] by (auto simp: chan_slots_def Let_def push_build_def slot_def h chan_counts_def)
next
  case (3 v)
  then show ?case by (auto simp: chan_slots_def Let_def push_commit_def slot_def nth_append chan_counts_def)
next
  case 4
  then show ?case by (simp add: chan_slots_def Let_def slot_def)
next
  case (5 i v)
  then show ?case by (simp add: chan_slots_def Let_def slot_def)
next
  case (6 v)
  then have T: "length (taken s) \<le> length (taken s)" "length (taken s) < length (taken s) + q_cap (ring s)"
    and t: "q_tail (ring s) = length (taken s) mod q_cap (ring s)"
    by (simp_all add: chan_counts_def Let_def)
  show ?case
    using 6 slot_updated [OF 6(1,2) T] by (simp add: chan_slots_def Let_def pop_destroy_def slot_def t)
next
  case (7 v)
  have free: "slot s (length (taken s)) = None" using 7 by (simp add: slot_def)
  have wrap: "q_buf (ring s) ! ((length (taken s) + q_cap (ring s)) mod q_cap (ring s)) = None"
    using slot_at [OF 7(2), of "length (taken s)"] 7(1) free by (simp add: chan_counts_def Let_def)
  have "q_buf (ring s) ! (k mod q_cap (ring s)) = slot (s\<lparr>cons := CIdle, taken := taken s @ [v]\<rparr>) k"
    if "length (taken s) < k" "k < length (taken s) + 1 + q_cap (ring s)" for k
  proof (cases "k = length (taken s) + q_cap (ring s)")
    case True
    then show ?thesis using wrap 7(1) by (auto simp: slot_def chan_counts_def Let_def split: producer.splits)
  next
    case False
    then show ?thesis using that slot_at [OF 7(2), of k] 7 by (simp add: slot_def)
  qed
  then show ?case using 7 by (simp add: chan_slots_def Let_def pop_commit_def slot_def)
qed

lemma chan_ok_step: "chan_ok s \<Longrightarrow> chan_step s s' \<Longrightarrow> chan_ok s'"
  unfolding chan_ok_def using chan_counts_step chan_slots_step by blast

lemma chan_ok_reach: "chan_reach s \<Longrightarrow> chan_ok s"
  by (induction rule: chan_reach.induct) (auto intro: chan_ok_start chan_ok_step)

lemma chan_reach_cap: "chan_reach s \<Longrightarrow> q_cap (ring s) = 65"
  by (induction rule: chan_reach.induct)
    (auto simp: chan_start_def new_chan_def new_spsc_def chan_defs elim!: chan_stepE)

section \<open>What the ring holds\<close>

definition ring_content :: "'a spsc_queue \<Rightarrow> 'a list" where
  "ring_content q =
     map (\<lambda>k. the (q_buf q ! ((q_tail q + k) mod q_cap q))) [0..<(q_head q + q_cap q - q_tail q) mod q_cap q]"

text \<open>An object whose destructor has run still counts until the tail has moved.\<close>

definition chan_queue :: "'a chan_conf \<Rightarrow> 'a list" where
  "chan_queue s = (case cons s of CPopped v \<Rightarrow> v # tl (ring_content (ring s)) | _ \<Rightarrow> ring_content (ring s))"

lemma window_length:
  fixes c :: nat
  assumes "T \<le> W" "W < T + c"
  shows "(W mod c + c - T mod c) mod c = W - T"
proof -
  define t d where "t = T mod c" and "d = W - T"
  have d: "d < c" "t < c" using assms by (auto simp: d_def t_def)
  have "W mod c = (T + d) mod c" using assms by (simp add: d_def)
  then have "W mod c = (t + d) mod c" by (simp add: t_def mod_simps)
  moreover have "(t + d) mod c = (if t + d < c then t + d else t + d - c)"
    using d by (simp add: mod_if [of "t + d"])
  ultimately have "W mod c + c - t = (if t + d < c then d + c else d)" using d by simp
  then show ?thesis using d by (simp flip: t_def d_def)
qed

lemma ring_content_eq:
  assumes "chan_ok s"
  shows "ring_content (ring s) = map (\<lambda>k. the (slot s k)) [length (taken s)..<length (written s)]"
proof -
  let ?c = "q_cap (ring s)" and ?T = "length (taken s)" and ?W = "length (written s)"
  have c: "chan_counts s" and sl: "chan_slots s" using assms by (simp_all add: chan_ok_def)
  have n: "(q_head (ring s) + ?c - q_tail (ring s)) mod ?c = ?W - ?T"
    using c window_length [of ?T ?W ?c] by (simp add: chan_counts_def Let_def)
  have "q_buf (ring s) ! ((q_tail (ring s) + k) mod ?c) = slot s (?T + k)" if "k < ?W - ?T" for k
  proof -
    have "k < ?c" "q_tail (ring s) = ?T mod ?c" using c that by (auto simp: chan_counts_def Let_def)
    then show ?thesis using slot_at [OF sl, of "?T + k"] by (simp add: mod_simps)
  qed
  then have "ring_content (ring s) = map (\<lambda>k. the (slot s (?T + k))) [0..<?W - ?T]"
    by (simp add: ring_content_def n)
  also have "\<dots> = map (\<lambda>k. the (slot s k)) [?T..<?W]"
    using c by (intro nth_equalityI) (auto simp: chan_counts_def Let_def)
  finally show ?thesis .
qed

lemma map_nth_upt: "n \<le> length xs \<Longrightarrow> map ((!) xs) [n..<length xs] = drop n xs"
  by (intro nth_equalityI) auto

text \<open>The queue read off the ring is what was written and not yet taken.\<close>

lemma chan_queue_eq:
  assumes "chan_ok s"
  shows "chan_queue s = drop (length (taken s)) (written s)"
proof -
  let ?T = "length (taken s)" and ?W = "length (written s)"
  have c: "chan_counts s" using assms by (simp add: chan_ok_def)
  then have TW: "?T \<le> ?W" by (simp add: chan_counts_def Let_def)
  show ?thesis
  proof (cases "\<exists>v. cons s = CPopped v")
    case True
    then obtain v where v: "cons s = CPopped v" ..
    have w: "v = written s ! ?T" "?T < ?W" using c v by (simp_all add: chan_counts_def Let_def)
    have "ring_content (ring s) = the (slot s ?T) # map ((!) (written s)) [Suc ?T..<?W]"
      unfolding ring_content_eq [OF assms] using w(2) by (simp add: upt_conv_Cons slot_def)
    then have "tl (ring_content (ring s)) = drop (Suc ?T) (written s)"
      using w(2) by (simp add: map_nth_upt)
    then show ?thesis
      unfolding chan_queue_def v using Cons_nth_drop_Suc [OF w(2)] w(1) by simp
  next
    case False
    then have "ring_content (ring s) = map ((!) (written s)) [?T..<?W]"
      unfolding ring_content_eq [OF assms] by (simp add: slot_def)
    then show ?thesis using False map_nth_upt [OF TW] by (simp add: chan_queue_def split: consumer.splits)
  qed
qed

section \<open>Refinement of a bounded queue\<close>

text \<open>The specification: a queue of at most \<open>n\<close> elements, with the elements put in and got out so far.\<close>

inductive queue_step :: "nat \<Rightarrow> 'a list \<times> 'a list \<times> 'a list \<Rightarrow> 'a list \<times> 'a list \<times> 'a list \<Rightarrow> bool" for n where
  enq: "length q < n \<Longrightarrow> queue_step n (q, ins, outs) (q @ [v], ins @ [v], outs)"
| deq: "queue_step n (v # q, ins, outs) (q, ins, outs @ [v])"

definition chan_abs :: "'a chan_conf \<Rightarrow> 'a list \<times> 'a list \<times> 'a list" where
  "chan_abs s = (chan_queue s, written s, taken s)"

lemma chan_abs_start: "chan_abs chan_start = ([], [], [])"
  by (simp add: chan_abs_def chan_start_def chan_queue_def ring_content_def new_chan_def new_spsc_def)

lemma chan_step_simulates:
  assumes "chan_reach s" and "chan_step s s'"
  shows "chan_abs s' = chan_abs s \<or> queue_step 64 (chan_abs s) (chan_abs s')"
proof -
  have ok: "chan_ok s" "chan_ok s'" and cap: "q_cap (ring s) = 65"
    using assms chan_ok_reach reach_step chan_reach_cap by blast+
  then have c: "chan_counts s" by (simp add: chan_ok_def)
  note eq = chan_queue_eq [OF ok(1)] chan_queue_eq [OF ok(2)]
  from assms(2) show ?thesis
  proof (cases rule: chan_step.cases)
    case (p_commit v)
    then have "length (drop (length (taken s)) (written s)) < 64" "length (taken s) \<le> length (written s)"
      using c cap by (auto simp: chan_counts_def Let_def)
    then show ?thesis using queue_step.enq [of "chan_queue s" 64 "written s" "taken s" v] eq p_commit
      by (auto simp: chan_abs_def)
  next
    case (c_commit v)
    then have "drop (length (taken s)) (written s) = v # drop (length (taken s) + 1) (written s)"
      using c by (auto simp: chan_counts_def Let_def Cons_nth_drop_Suc)
    then show ?thesis using queue_step.deq [of 64 v "chan_queue s'" "written s" "taken s"] eq c_commit
      by (simp add: chan_abs_def)
  qed (use eq in \<open>simp_all add: chan_abs_def\<close>)
qed

text \<open>
  C6. The channel is a bounded queue. In every state two concurrently running threads can reach,
  what was written is what was taken followed by the content of the ring, in order, with at most
  64 elements waiting; and each atomic action of either thread leaves this abstract queue as it is
  or is one step of it: an element entering at the back of a queue with room, or the front element
  leaving.
\<close>

theorem chan_refines_queue:
  assumes "chan_reach s" and "chan_step s s'"
  shows "written s = taken s @ chan_queue s \<and> length (chan_queue s) \<le> 64 \<and>
    (chan_abs s' = chan_abs s \<or> queue_step 64 (chan_abs s) (chan_abs s'))"
proof -
  have ok: "chan_ok s" and cap: "q_cap (ring s) = 65"
    using assms chan_ok_reach chan_reach_cap by blast+
  then have "prefix (taken s) (written s)" "length (written s) < length (taken s) + 65"
    by (auto simp: chan_ok_def chan_counts_def Let_def)
  then show ?thesis using chan_queue_eq [OF ok] chan_step_simulates [OF assms] by (auto simp: prefix_def)
qed

theorem chan_refines_queue_witness:
  "chan_reach (chan_start :: nat chan_conf) \<and> chan_step chan_start (chan_start\<lparr>prod := PSpin (7::nat)\<rparr>) \<and>
   written chan_start = taken chan_start @ chan_queue (chan_start :: nat chan_conf)"
  using chan_refines_queue [OF reach_start p_call [of chan_start "7::nat"]] reach_start
    p_call [of chan_start "7::nat"]
  by (simp add: chan_start_def)

text \<open>
  C22. No thread touches an object the other one is using: the producer builds its object in a slot
  that holds none, the consumer reads and destroys a slot that holds the oldest element, and an
  element it has found does not disappear before it is read.
\<close>

theorem chan_slots_safe:
  assumes "chan_reach s"
  shows "(\<forall>v. prod s = PSpin v \<and> \<not> full (ring s) \<longrightarrow> q_buf (ring s) ! q_head (ring s) = None) \<and>
    (cons s = CReady \<longrightarrow>
       (\<exists>i v. front (ring s) = Some i \<and> q_buf (ring s) ! i = Some v \<and> v = hd (chan_queue s))) \<and>
    (\<forall>v. cons s = CHave v \<longrightarrow> q_buf (ring s) ! q_tail (ring s) = Some v)"
proof -
  have ok: "chan_ok s" using assms by (rule chan_ok_reach)
  then have c: "chan_counts s" and sl: "chan_slots s" by (simp_all add: chan_ok_def)
  have W: "q_buf (ring s) ! q_head (ring s) = slot s (length (written s))"
    using slot_at [OF sl, of "length (written s)"] c by (simp add: chan_counts_def Let_def)
  have T: "q_buf (ring s) ! q_tail (ring s) = slot s (length (taken s))"
    using slot_at [OF sl, of "length (taken s)"] c by (simp add: chan_counts_def Let_def)
  have "cons s \<noteq> CIdle \<Longrightarrow> front (ring s) = Some (q_tail (ring s))"
    using front_iff [OF c] c by (simp add: chan_counts_def Let_def)
  moreover have "cons s \<noteq> CIdle \<Longrightarrow> length (taken s) < length (written s)"
    using c by (simp add: chan_counts_def Let_def)
  moreover have "cons s = CHave v \<Longrightarrow> v = written s ! length (taken s)" for v
    using c by (simp add: chan_counts_def Let_def)
  ultimately show ?thesis
    using W T chan_queue_eq [OF ok] by (auto simp: slot_def hd_drop_conv_nth)
qed

theorem chan_slots_safe_witness:
  "chan_reach (chan_start\<lparr>prod := PSpin (7::nat)\<rparr>) \<and>
   q_buf (ring (chan_start\<lparr>prod := PSpin (7::nat)\<rparr>)) ! 0 = None"
proof -
  have r: "chan_reach (chan_start\<lparr>prod := PSpin (7::nat)\<rparr>)"
    using reach_step [OF reach_start p_call] by (simp add: chan_start_def)
  show ?thesis using r chan_slots_safe [OF r]
    by (simp add: chan_start_def new_chan_def new_spsc_def full_def next_pos_def)
qed

lemma found_is_there:
  assumes "chan_reach s" and "cons s = CReady"
  shows "\<exists>v. front (ring s) = Some (q_tail (ring s)) \<and> q_buf (ring s) ! q_tail (ring s) = Some v"
proof -
  have c: "chan_counts s" and sl: "chan_slots s" using chan_ok_reach [OF assms(1)] by (simp_all add: chan_ok_def)
  show ?thesis
    using slot_at [OF sl, of "length (taken s)"] front_iff [OF c] c assms(2)
    by (simp add: chan_counts_def Let_def slot_def)
qed

text \<open>A read that has begun can be completed by the reader alone.\<close>

definition read_done :: "'a chan_conf \<Rightarrow> 'a chan_conf \<Rightarrow> bool" where
  "read_done s s' \<longleftrightarrow> chan_step\<^sup>*\<^sup>* s s' \<and> prod s' = prod s \<and> written s' = written s \<and>
     length (taken s') = length (taken s) + 1"

lemma read_done_step:
  "chan_step s t \<Longrightarrow> read_done t s' \<Longrightarrow> prod t = prod s \<Longrightarrow> written t = written s \<Longrightarrow> taken t = taken s \<Longrightarrow>
    read_done s s'"
  by (simp add: read_done_def converse_rtranclp_into_rtranclp)

lemma reader_finishes:
  assumes "chan_reach s" and "cons s \<noteq> CIdle"
  shows "\<exists>s'. read_done s s'"
proof -
  have popped: "\<exists>s'. read_done s s'" if "cons s = CPopped v" for s :: "'a chan_conf" and v
    using r_into_rtranclp [of chan_step, OF c_commit [OF that]] by (fastforce simp: read_done_def)
  have have_it: "\<exists>s'. read_done s s'" if "cons s = CHave v" for s :: "'a chan_conf" and v
    using popped [of "s\<lparr>ring := pop_destroy (ring s), cons := CPopped v\<rparr>" v]
      read_done_step [OF c_destroy [OF that]] by auto
  show ?thesis
  proof (cases "cons s")
    case CReady
    then obtain v where "front (ring s) = Some (q_tail (ring s))" "q_buf (ring s) ! q_tail (ring s) = Some v"
      using found_is_there [OF assms(1)] by blast
    then show ?thesis
      using have_it [of "s\<lparr>cons := CHave v\<rparr>" v] read_done_step [OF c_copy [OF CReady]] by auto
  qed (use assms(2) popped have_it in auto)
qed

lemma full_ring_read:
  assumes "chan_reach s" and "full (ring s)"
  shows "\<exists>s'. read_done s s'"
proof (cases "cons s = CIdle")
  case True
  have c: "chan_counts s" using chan_ok_reach [OF assms(1)] by (simp add: chan_ok_def)
  then have "front (ring s) \<noteq> None"
    using full_iff [OF c] front_iff [OF c] assms(2) by (auto simp: chan_counts_def Let_def)
  then have st: "chan_step s (s\<lparr>cons := CReady\<rparr>)" using True by (rule c_found [rotated])
  then show ?thesis
    using reader_finishes [OF reach_step [OF assms(1) st]] read_done_step [OF st] by auto
qed (use reader_finishes [OF assms(1)] in simp)

lemma chan_reach_steps: "chan_step\<^sup>*\<^sup>* s s' \<Longrightarrow> chan_reach s \<Longrightarrow> chan_reach s'"
  by (induction rule: rtranclp_induct) (auto intro: reach_step)

lemma write_into_room:
  assumes "prod s = PSpin v" and "\<not> full (ring s)"
  shows "\<exists>s'. chan_step\<^sup>*\<^sup>* s s' \<and> prod s' = PIdle \<and> written s' = written s @ [v]"
proof -
  let ?t = "s\<lparr>ring := push_build v (ring s), prod := PBuilt v\<rparr>"
  have "chan_step s ?t" using assms by (rule p_build)
  moreover have "chan_step ?t (?t\<lparr>ring := push_commit (ring ?t), prod := PIdle, written := written ?t @ [v]\<rparr>)"
    by (rule p_commit) simp
  ultimately have "chan_step\<^sup>*\<^sup>* s (?t\<lparr>ring := push_commit (ring ?t), prod := PIdle, written := written ?t @ [v]\<rparr>)"
    by (meson converse_rtranclp_into_rtranclp r_into_rtranclp)
  then show ?thesis by (intro exI conjI) auto
qed

lemma room_after_read:
  assumes "chan_reach s" "full (ring s)" "read_done s t"
  shows "\<not> full (ring t)"
proof -
  have r: "chan_reach t" using assms chan_reach_steps by (auto simp: read_done_def)
  have c: "chan_counts s" "chan_counts t" "q_cap (ring s) = q_cap (ring t)"
    using chan_ok_reach [OF assms(1)] chan_ok_reach [OF r] chan_reach_cap [OF assms(1)] chan_reach_cap [OF r]
    by (simp_all add: chan_ok_def)
  show ?thesis using full_iff [OF c(1)] full_iff [OF c(2)] c(3) assms(2,3) by (simp add: read_done_def)
qed

text \<open>
  C23. A writer that spins on a full ring is always let in: whatever the two threads have done so
  far, steps of the reader followed by steps of the writer complete the write.
\<close>

theorem chan_producer_released:
  assumes "chan_reach s" and "prod s = PSpin v"
  shows "\<exists>s'. chan_step\<^sup>*\<^sup>* s s' \<and> prod s' = PIdle \<and> written s' = written s @ [v]"
proof (cases "full (ring s)")
  case True
  then obtain t where t: "read_done s t" using full_ring_read [OF assms(1)] by blast
  then have pt: "prod t = PSpin v" using assms(2) by (simp add: read_done_def)
  obtain s' where "chan_step\<^sup>*\<^sup>* t s'" "prod s' = PIdle" "written s' = written t @ [v]"
    using write_into_room [OF pt room_after_read [OF assms(1) True t]] by blast
  moreover have "chan_step\<^sup>*\<^sup>* s t" "written t = written s" using t by (simp_all add: read_done_def)
  ultimately show ?thesis by (intro exI [of _ s']) simp
qed (rule write_into_room [OF assms(2)])

theorem chan_producer_released_witness:
  "\<exists>s'. chan_step\<^sup>*\<^sup>* (chan_start\<lparr>prod := PSpin (7::nat)\<rparr>) s' \<and> prod s' = PIdle \<and> written s' = [7]"
  using chan_producer_released [OF reach_step [OF reach_start p_call [of chan_start "7::nat"]], of 7]
  by (simp add: chan_start_def)

lemma to_int32_uint:
  assumes "- (2 ^ 31) \<le> i" "i < 2 ^ 31"
  shows "to_int32 (uint (word_of_int i :: 64 word)) = i"
  using to_int32_id [OF assms] to_int32_mod [of i] by (simp add: uint_word_of_int)

text \<open>
  The size a channel reports is its length as long as the content has not wrapped around the
  end of the buffer; once it has, the comparison with 0 of an unsigned difference fails and the
  report is 65 too small, a negative number.
\<close>

theorem chan_size_wraps:
  assumes "chan_reach s"
  shows "chan_size (ring s) =
    int (length (chan_queue s)) - (if q_head (ring s) < q_tail (ring s) then 65 else 0)"
proof -
  let ?h = "q_head (ring s)" and ?t = "q_tail (ring s)" and ?T = "length (taken s)" and ?W = "length (written s)"
  have ok: "chan_ok s" and cap: "q_cap (ring s) = 65" using assms chan_ok_reach chan_reach_cap by blast+
  then have h: "?h = ?W mod 65" "?t = ?T mod 65" "?T \<le> ?W" "?W < ?T + 65"
    by (simp_all add: chan_ok_def chan_counts_def Let_def)
  have n: "length (chan_queue s) = (?h + 65 - ?t) mod 65"
    using chan_queue_eq [OF ok] window_length [OF h(3,4)] h by simp
  have lt: "?h < 65" "?t < 65" by (simp_all add: h)
  then have "int ((?h + 65 - ?t) mod 65) = int ?h - int ?t + (if ?h < ?t then 65 else 0)"
    by (auto simp: mod_if)
  moreover have "chan_size (ring s) = int ?h - int ?t"
    using to_int32_uint [of "int ?h - int ?t"] lt by (simp add: chan_size_def spsc_size_def Let_def)
  ultimately show ?thesis using n by simp
qed

theorem chan_size_wraps_witness:
  "chan_reach (chan_start :: nat chan_conf) \<and>
   chan_size (ring (chan_start :: nat chan_conf)) = int (length (chan_queue (chan_start :: nat chan_conf)))"
  using chan_size_wraps [OF reach_start, where ?'a = nat] reach_start
  by (simp add: chan_start_def new_chan_def new_spsc_def)

section \<open>One thread\<close>

text \<open>
  The contract a client of the channel sees when it calls the operations one after the other: an
  operation that would have to wait has no result.
\<close>

locale bounded_fifo =
  fixes enq :: "'a \<Rightarrow> 'q \<Rightarrow> 'q option"
    and deq :: "'q \<Rightarrow> ('a option \<times> 'q) option"
    and content :: "'q \<Rightarrow> 'a list"
    and ok :: "'q \<Rightarrow> bool"
    and room :: nat
  assumes enq_room: "ok q \<Longrightarrow> length (content q) < room \<Longrightarrow>
      \<exists>q'. enq v q = Some q' \<and> ok q' \<and> content q' = content q @ [v]"
    and enq_full: "ok q \<Longrightarrow> \<not> length (content q) < room \<Longrightarrow> enq v q = None"
    and deq_some: "ok q \<Longrightarrow> content q = v # vs \<Longrightarrow> \<exists>q'. deq q = Some (Some v, q') \<and> ok q' \<and> content q' = vs"
    and deq_empty: "ok q \<Longrightarrow> content q = [] \<Longrightarrow> deq q = None"

fun write_all :: "('a \<Rightarrow> 'q \<Rightarrow> 'q option) \<Rightarrow> 'a list \<Rightarrow> 'q \<Rightarrow> 'q option" where
  "write_all enq [] q = Some q"
| "write_all enq (v # vs) q = (case enq v q of None \<Rightarrow> None | Some q' \<Rightarrow> write_all enq vs q')"

fun read_n :: "('q \<Rightarrow> ('a option \<times> 'q) option) \<Rightarrow> nat \<Rightarrow> 'q \<Rightarrow> ('a option list \<times> 'q) option" where
  "read_n deq 0 q = Some ([], q)"
| "read_n deq (Suc n) q =
     (case deq q of
        None \<Rightarrow> None
      | Some (v, q') \<Rightarrow> (case read_n deq n q' of None \<Rightarrow> None | Some (vs, q'') \<Rightarrow> Some (v # vs, q'')))"

context bounded_fifo
begin

lemma write_all_room:
  "ok q \<Longrightarrow> length (content q) + length vs \<le> room \<Longrightarrow>
    \<exists>q'. write_all enq vs q = Some q' \<and> ok q' \<and> content q' = content q @ vs"
proof (induction vs arbitrary: q)
  case (Cons v vs)
  then obtain q1 where q1: "enq v q = Some q1" "ok q1" "content q1 = content q @ [v]"
    using enq_room [of q v] by auto
  then obtain q2 where "write_all enq vs q1 = Some q2" "ok q2" "content q2 = content q1 @ vs"
    using Cons.IH [of q1] Cons.prems(2) by auto
  with q1 show ?case by simp
qed simp

lemma write_all_waits:
  "ok q \<Longrightarrow> room < length (content q) + length vs \<Longrightarrow> length (content q) \<le> room \<Longrightarrow> write_all enq vs q = None"
proof (induction vs arbitrary: q)
  case (Cons v vs)
  show ?case
  proof (cases "length (content q) < room")
    case True
    then obtain q1 where "enq v q = Some q1" "ok q1" "content q1 = content q @ [v]"
      using enq_room [of q v] Cons.prems by blast
    then show ?thesis using Cons.IH [of q1] Cons.prems True by simp
  qed (simp add: enq_full Cons.prems)
qed simp

lemma read_n_content:
  "ok q \<Longrightarrow> content q = vs @ ws \<Longrightarrow>
    \<exists>q'. read_n deq (length vs) q = Some (map Some vs, q') \<and> ok q' \<and> content q' = ws"
proof (induction vs arbitrary: q)
  case (Cons v vs)
  then obtain q1 where q1: "deq q = Some (Some v, q1)" "ok q1" "content q1 = vs @ ws"
    using deq_some [of q v "vs @ ws"] by auto
  then obtain q2 where "read_n deq (length vs) q1 = Some (map Some vs, q2)" "ok q2" "content q2 = ws"
    using Cons.IH [of q1] by blast
  with q1 show ?case by simp
qed simp

end

text \<open>A ring between two operations: the invariant with both threads idle.\<close>

definition idle_conf :: "'a spsc_queue \<Rightarrow> 'a list \<Rightarrow> 'a list \<Rightarrow> 'a chan_conf" where
  "idle_conf q ws ts = \<lparr>ring = q, prod = PIdle, cons = CIdle, written = ws, taken = ts\<rparr>"

definition ring_ok :: "'a spsc_queue \<Rightarrow> bool" where
  "ring_ok q \<longleftrightarrow> q_cap q = 65 \<and> (\<exists>ws ts. chan_ok (idle_conf q ws ts))"

lemma idle_simps [simp]:
  "ring (idle_conf q ws ts) = q" "prod (idle_conf q ws ts) = PIdle" "cons (idle_conf q ws ts) = CIdle"
  "written (idle_conf q ws ts) = ws" "taken (idle_conf q ws ts) = ts"
  by (simp_all add: idle_conf_def)

lemma idle_content: "chan_ok (idle_conf q ws ts) \<Longrightarrow> ring_content q = drop (length ts) ws"
  using chan_queue_eq [of "idle_conf q ws ts"] by (simp add: chan_queue_def)

lemma push_steps:
  assumes ok: "chan_ok (idle_conf q ws ts)" and "\<not> full q"
  shows "chan_ok (idle_conf (push_commit (push_build v q)) (ws @ [v]) ts)"
proof -
  let ?a = "(idle_conf q ws ts)\<lparr>prod := PSpin v\<rparr>"
  let ?b = "?a\<lparr>ring := push_build v (ring ?a), prod := PBuilt v\<rparr>"
  have "chan_ok ?a" using ok by (rule chan_ok_step) (simp add: p_call)
  then have "chan_ok ?b" by (rule chan_ok_step) (rule p_build, use assms(2) in simp_all)
  then have "chan_ok (?b\<lparr>ring := push_commit (ring ?b), prod := PIdle, written := written ?b @ [v]\<rparr>)"
    by (rule chan_ok_step) (rule p_commit, simp)
  then show ?thesis by (simp add: idle_conf_def)
qed

lemma pop_steps:
  assumes ok: "chan_ok (idle_conf q ws ts)" and f: "front q = Some i" and v: "q_buf q ! i = Some v"
  shows "chan_ok (idle_conf (pop q) ws (ts @ [v]))"
proof -
  let ?a = "(idle_conf q ws ts)\<lparr>cons := CReady\<rparr>"
  let ?b = "?a\<lparr>cons := CHave v\<rparr>"
  let ?c = "?b\<lparr>ring := pop_destroy (ring ?b), cons := CPopped v\<rparr>"
  have "chan_ok ?a" using ok by (rule chan_ok_step) (rule c_found, use f in simp_all)
  then have "chan_ok ?b" by (rule chan_ok_step) (rule c_copy, use f v in simp_all)
  then have "chan_ok ?c" by (rule chan_ok_step) (rule c_destroy, simp)
  then have "chan_ok (?c\<lparr>ring := pop_commit (ring ?c), cons := CIdle, taken := taken ?c @ [v]\<rparr>)"
    by (rule chan_ok_step) (rule c_commit, simp)
  then show ?thesis by (simp add: idle_conf_def pop_def)
qed

lemma ring_full_iff:
  assumes "ring_ok q"
  shows "full q \<longleftrightarrow> \<not> length (ring_content q) < 64"
proof -
  obtain ws ts where ok: "chan_ok (idle_conf q ws ts)" and cap: "q_cap q = 65"
    using assms by (auto simp: ring_ok_def)
  then have c: "chan_counts (idle_conf q ws ts)" by (simp add: chan_ok_def)
  then have "length ws < length ts + 65" "length ts \<le> length ws"
    using cap by (simp_all add: chan_counts_def Let_def)
  then show ?thesis using full_iff [OF c] idle_content [OF ok] cap by auto
qed

lemma ring_push:
  assumes "ring_ok q" and "length (ring_content q) < 64"
  shows "\<exists>q'. push v q = Some q' \<and> ring_ok q' \<and> ring_content q' = ring_content q @ [v]"
proof -
  obtain ws ts where ok: "chan_ok (idle_conf q ws ts)" and cap: "q_cap q = 65"
    using assms(1) by (auto simp: ring_ok_def)
  have nf: "\<not> full q" using ring_full_iff [OF assms(1)] assms(2) by simp
  note ok' = push_steps [OF ok nf, of v]
  have "length ts \<le> length ws" using ok by (simp add: chan_ok_def chan_counts_def Let_def)
  then have "ring_content (push_commit (push_build v q)) = ring_content q @ [v]"
    using idle_content [OF ok] idle_content [OF ok'] by simp
  moreover have "ring_ok (push_commit (push_build v q))"
    unfolding ring_ok_def using ok' cap by (auto simp: push_commit_def push_build_def)
  ultimately show ?thesis using nf by (simp add: push_def)
qed

lemma ring_front:
  assumes "chan_ok (idle_conf q ws ts)"
  shows "front q = (if ring_content q = [] then None else Some (q_tail q))"
    and "ring_content q = v # vs \<Longrightarrow> q_buf q ! q_tail q = Some v"
proof -
  let ?s = "idle_conf q ws ts"
  have c: "chan_counts ?s" and sl: "chan_slots ?s" using assms by (simp_all add: chan_ok_def)
  then show "front q = (if ring_content q = [] then None else Some (q_tail q))"
    using front_iff [OF c] idle_content [OF assms] by (simp add: chan_counts_def Let_def)
  assume "ring_content q = v # vs"
  then have d: "drop (length ts) ws = v # vs" using idle_content [OF assms] by simp
  then have "length ts < length ws" using linorder_not_less by fastforce
  moreover have "ws ! length ts = v" using d hd_drop_conv_nth [OF calculation] by simp
  ultimately show "q_buf q ! q_tail q = Some v"
    using slot_at [OF sl, of "length ts"] c by (simp add: chan_counts_def Let_def slot_def)
qed

lemma ring_read:
  assumes "ring_ok q" and vs: "ring_content q = v # vs"
  shows "\<exists>q'. read_stuck q = Some (Some v, q') \<and> ring_ok q' \<and> ring_content q' = vs"
proof -
  obtain ws ts where ok: "chan_ok (idle_conf q ws ts)" and cap: "q_cap q = 65"
    using assms(1) by (auto simp: ring_ok_def)
  have f: "front q = Some (q_tail q)" "q_buf q ! q_tail q = Some v"
    using ring_front [OF ok] vs by simp_all
  note ok' = pop_steps [OF ok f]
  have "ring_content (pop q) = tl (ring_content q)"
    using idle_content [OF ok] idle_content [OF ok'] by (simp add: tl_drop drop_Suc)
  moreover have "ring_ok (pop q)"
    unfolding ring_ok_def using ok' cap by (auto simp: pop_def pop_commit_def pop_destroy_def)
  ultimately show ?thesis using f vs by (simp add: read_stuck_def)
qed

interpretation ring: bounded_fifo push read_stuck ring_content ring_ok 64
proof unfold_locales
  fix q :: "'a spsc_queue" and v
  assume "ring_ok q" "\<not> length (ring_content q) < 64"
  then show "push v q = None" using ring_full_iff [of q] by (simp add: push_def)
next
  fix q :: "'a spsc_queue"
  assume "ring_ok q" "ring_content q = []"
  then show "read_stuck q = None" by (auto simp: ring_ok_def read_stuck_def ring_front(1))
qed (simp_all add: ring_push ring_read)

lemma new_chan_ok: "ring_ok (new_chan :: 'a spsc_queue)" "ring_content (new_chan :: 'a spsc_queue) = []"
proof -
  have "chan_ok (idle_conf (new_chan :: 'a spsc_queue) [] [])"
    using chan_ok_start [where ?'a = 'a] by (simp add: idle_conf_def chan_start_def)
  then show "ring_ok (new_chan :: 'a spsc_queue)" "ring_content (new_chan :: 'a spsc_queue) = []"
    using idle_content [of "new_chan :: 'a spsc_queue" "[]" "[]"]
    by (auto simp: ring_ok_def new_chan_def new_spsc_def)
qed

definition holds :: "'a spsc_queue \<Rightarrow> 'a list \<Rightarrow> bool" where
  "holds q vs \<longleftrightarrow> ring_ok q \<and> ring_content q = vs"

lemma holds_new: "holds new_chan []"
  by (simp add: holds_def new_chan_ok)

lemma holds_write: "holds q vs \<Longrightarrow> length vs < 64 \<Longrightarrow> \<exists>q'. chan_write v q = Some q' \<and> holds q' (vs @ [v])"
  using ring_push [of q v] by (auto simp: holds_def chan_write_def)

lemma read_once_stuck: "read_once q = (case read_stuck q of None \<Rightarrow> (None, q) | Some r \<Rightarrow> r)"
  by (simp add: read_once_def read_stuck_def split: option.split)

lemma holds_read: "holds q (v # vs) \<Longrightarrow> \<exists>q'. read_once q = (Some v, q') \<and> holds q' vs"
  using ring_read [of q v vs] by (auto simp: holds_def read_once_stuck)

lemma holds_empty: "holds q [] \<Longrightarrow> read_once q = (None, q)"
  using ring.deq_empty [of q] by (simp add: holds_def read_once_stuck)

text \<open>
  Used by one thread, a new channel takes up to 64 values and gives them back in order, each
  exactly once; writing a 65th value never returns, and neither does reading from the drained
  channel.
\<close>

theorem chan_roundtrip:
  "if length vs \<le> 64
   then \<exists>q q'. write_all chan_write vs new_chan = Some q \<and>
          read_n read_stuck (length vs) q = Some (map Some vs, q') \<and> read_stuck q' = None
   else write_all chan_write vs new_chan = None"
proof -
  have w: "(chan_write :: 'a \<Rightarrow> _) = push" by (simp add: fun_eq_iff chan_write_def)
  show ?thesis
  proof (cases "length vs \<le> 64")
    case True
    then obtain q where q: "write_all push vs new_chan = Some q" "ring_ok q" "ring_content q = vs"
      using ring.write_all_room [OF new_chan_ok(1), of vs] by (auto simp: new_chan_ok)
    then obtain q' where "read_n read_stuck (length vs) q = Some (map Some vs, q')" "ring_ok q'" "ring_content q' = []"
      using ring.read_n_content [OF q(2), of vs "[]"] by auto
    then show ?thesis using True q w ring.deq_empty [of q'] by auto
  next
    case False
    then show ?thesis using ring.write_all_waits [OF new_chan_ok(1), of vs] w by (simp add: new_chan_ok)
  qed
qed

end
