(* ===== verification/Dc_Content.thy ===== *)
theory Dc_Content
  imports Dc_Error Chan Path_Util Str_Util
begin

text \<open>
  The local half of \<^verbatim>\<open>file_compare/content/dc_content.h\<close> and \<^verbatim>\<open>dc_content.cc\<close>: a reader object that
  the comparing thread polls, with a worker thread that executes its commands; the two talk through
  two channels. The operating system and the digests of the crypto library are the record \<open>os\<close>; an
  open file is a value of type \<open>'f\<close> that the reads move on. The pointers to the caller's variables
  are the fields the results go to: they are set before the command that uses them is sent. The
  members that only feed the log are left out.
\<close>

section \<open>Attributes and the operating system\<close>

record dc_file_attr =
  f_size :: int
  f_mode :: string
  f_owner :: string
  f_last_updated :: string
  f_code :: dc_common_code

definition new_attr :: dc_file_attr where
  "new_attr = \<lparr>f_size = -1, f_mode = [], f_owner = [], f_last_updated = [], f_code = S_SUCCESS\<rparr>"

definition attr_compare :: "dc_file_attr \<Rightarrow> dc_file_attr \<Rightarrow> bool" where
  "attr_compare a f \<longleftrightarrow>
     f_code a = S_SUCCESS \<and> f_code f = S_SUCCESS \<and> f_size a = f_size f \<and> f_mode a = f_mode f \<and>
     f_owner a = f_owner f \<and> f_last_updated a = f_last_updated f"

record dc_stat = file_stat +
  st_mode :: nat
  st_uid :: nat
  st_mtime :: int

text \<open>
  \<open>os_getpwuid\<close> gives the name, if any, and \<^verbatim>\<open>errno\<close> after the call; \<open>os_time\<close> is
  \<^verbatim>\<open>localtime\<close> followed by \<^verbatim>\<open>strftime\<close>; \<open>os_read\<close> takes the size of the buffer.
\<close>

record 'f os =
  os_stat :: "string \<Rightarrow> dc_stat option"
  os_getpwuid :: "nat \<Rightarrow> string option \<times> int"
  os_time :: "int \<Rightarrow> string option"
  os_memalign :: bool
  os_open :: "string \<Rightarrow> 'f option"
  os_read :: "nat \<Rightarrow> 'f \<Rightarrow> string option \<times> 'f"
  os_sha1 :: "string \<Rightarrow> string"
  os_md5 :: "string \<Rightarrow> string"

text \<open>\<^verbatim>\<open>printf ("%o")\<close>.\<close>

fun show_oct :: "nat \<Rightarrow> string" where
  "show_oct n = (if n < 8 then [char_of (48 + n)] else show_oct (n div 8) @ [char_of (48 + n mod 8)])"

declare show_oct.simps [simp del]

definition mode_str :: "dc_stat \<Rightarrow> string" where
  "mode_str st = show_oct (st_mode st mod 512)"

section \<open>State\<close>

definition DC_CONTENT_FILE_READ_BUF :: nat where
  "DC_CONTENT_FILE_READ_BUF = 16777216"

datatype cmd_type =
    CMD_TYPE_NONE | CMD_TYPE_FILE_ATTR | CMD_TYPE_DIR_LIST_ATTR | CMD_TYPE_FILE_CONTENT_PREPARE
  | CMD_TYPE_FILE_CONTENT_READ

datatype read_state =
    FILE_CONTENT_READ_INIT | FILE_CONTENT_READ_PREPAR | FILE_CONTENT_READ_OVER | FILE_CONTENT_READ_DO

text \<open>\<open>file_read_buf\<close> is the bytes the last read put into the buffer, once it is allocated.\<close>

record 'f local_reader =
  dir_list :: "string list"
  dir_attr_list :: "dc_file_attr list"
  file_read_buf :: "string option"
  file_pre_line :: string
  file_read_fd :: "'f option"
  file_read_state :: read_state
  file_path :: string
  cmd_q :: "cmd_type spsc_queue"
  ret_q :: "dc_common_code spsc_queue"
  file_attr :: dc_file_attr
  lines_sha1 :: "string list"
  empty_lines :: int
  md5_value :: string

definition new_local_reader :: "'f local_reader" where
  "new_local_reader =
     \<lparr>dir_list = [], dir_attr_list = [], file_read_buf = None, file_pre_line = [], file_read_fd = None,
      file_read_state = FILE_CONTENT_READ_INIT, file_path = [], cmd_q = new_chan, ret_q = new_chan,
      file_attr = new_attr, lines_sha1 = [], empty_lines = 0, md5_value = replicate 16 NUL\<rparr>"

definition delete_local_reader :: "'f local_reader \<Rightarrow> cpp_error + unit" where
  "delete_local_reader r = (if file_read_fd r \<noteq> None then Inl AssertFailed else Inr ())"

section \<open>Commands of the comparing thread\<close>

definition send_cmd :: "cmd_type \<Rightarrow> 'f local_reader \<Rightarrow> 'f local_reader run" where
  "send_cmd c r = map_option (\<lambda>q. Inr (r\<lparr>cmd_q := q\<rparr>)) (chan_write c (cmd_q r))"

definition do_file_attr :: "string \<Rightarrow> dc_file_attr \<Rightarrow> 'f local_reader \<Rightarrow> (dc_common_code \<times> 'f local_reader) run" where
  "do_file_attr path attr r =
     run_then (send_cmd CMD_TYPE_FILE_ATTR (r\<lparr>file_path := path, file_attr := attr\<rparr>))
       (\<lambda>r. done_with (S_SUCCESS, r))"

text \<open>Shared by \<^verbatim>\<open>get_file_attr\<close> and \<^verbatim>\<open>get_dir_list_attr\<close>, whose bodies are the same.\<close>

definition get_ret :: "'f local_reader \<Rightarrow> dc_common_code \<times> 'f local_reader" where
  "get_ret r =
     (case read_once (ret_q r) of
        (None, q) \<Rightarrow> (E_DC_CONTENT_RETRY, r)
      | (Some ret, q) \<Rightarrow> (if log_check_err_return ret then ret else S_SUCCESS, r\<lparr>ret_q := q\<rparr>))"

definition get_file_attr :: "'f local_reader \<Rightarrow> dc_common_code \<times> 'f local_reader" where
  "get_file_attr r = get_ret r"

definition do_dir_list_attr :: "string list \<Rightarrow> dc_file_attr list \<Rightarrow> 'f local_reader \<Rightarrow>
    (dc_common_code \<times> 'f local_reader) run" where
  "do_dir_list_attr dirs attrs r =
     run_then (send_cmd CMD_TYPE_DIR_LIST_ATTR (r\<lparr>dir_attr_list := attrs, dir_list := dirs\<rparr>))
       (\<lambda>r. done_with (S_SUCCESS, r))"

definition get_dir_list_attr :: "'f local_reader \<Rightarrow> dc_common_code \<times> 'f local_reader" where
  "get_dir_list_attr r = get_ret r"

definition do_file_content :: "string \<Rightarrow> string list \<Rightarrow> int \<Rightarrow> 'f local_reader \<Rightarrow>
    (dc_common_code \<times> 'f local_reader) run" where
  "do_file_content path lines empties r =
     (if file_read_state r \<noteq> FILE_CONTENT_READ_INIT then Some (Inl AssertFailed)
      else
        run_then (send_cmd CMD_TYPE_FILE_CONTENT_PREPARE
            (r\<lparr>file_path := path, lines_sha1 := lines, empty_lines := empties\<rparr>))
          (\<lambda>r. done_with (S_SUCCESS, r\<lparr>file_read_state := FILE_CONTENT_READ_PREPAR\<rparr>)))"

definition send_read :: "'f local_reader \<Rightarrow> (dc_common_code \<times> 'f local_reader) run" where
  "send_read r =
     run_then (send_cmd CMD_TYPE_FILE_CONTENT_READ r)
       (\<lambda>r. done_with (E_DC_CONTENT_RETRY, r\<lparr>file_read_state := FILE_CONTENT_READ_DO\<rparr>))"

definition get_file_content :: "'f local_reader \<Rightarrow> (dc_common_code \<times> 'f local_reader) run" where
  "get_file_content r =
     (case file_read_state r of
        FILE_CONTENT_READ_PREPAR \<Rightarrow>
          (case read_once (ret_q r) of
             (None, q) \<Rightarrow> done_with (E_DC_CONTENT_RETRY, r)
           | (Some ret, q) \<Rightarrow>
               (let r = r\<lparr>ret_q := q\<rparr> in
                if log_check_err_return ret then done_with (ret, r) else send_read r))
      | FILE_CONTENT_READ_DO \<Rightarrow>
          (case read_once (ret_q r) of
             (None, q) \<Rightarrow> done_with (E_DC_CONTENT_RETRY, r)
           | (Some ret, q) \<Rightarrow>
               (let r = r\<lparr>ret_q := q\<rparr> in
                if ret = S_SUCCESS then
                  done_with (E_DC_CONTENT_RETRY, r\<lparr>file_read_state := FILE_CONTENT_READ_OVER\<rparr>)
                else if ret = E_DC_CONTENT_OVER then
                  (if file_read_fd r \<noteq> None then Some (Inl AssertFailed)
                   else done_with (E_DC_CONTENT_OVER, r\<lparr>file_read_state := FILE_CONTENT_READ_INIT\<rparr>))
                else done_with (ret, r)))
      | FILE_CONTENT_READ_OVER \<Rightarrow> send_read r
      | FILE_CONTENT_READ_INIT \<Rightarrow> Some (Inl AssertFailed))"

definition hex_digit :: "nat \<Rightarrow> char" where
  "hex_digit n = ''0123456789abcdef'' ! (n mod 16)"

definition get_file_md5 :: "'f local_reader \<Rightarrow> dc_common_code \<times> string" where
  "get_file_md5 r = (S_SUCCESS, concat (map (\<lambda>c. [hex_digit (of_char c div 16), hex_digit (of_char c)]) (md5_value r)))"

section \<open>Attributes read by the worker\<close>

definition thd_worker_file_attr :: "'f os \<Rightarrow> 'f local_reader \<Rightarrow> cpp_error + dc_common_code \<times> 'f local_reader" where
  "thd_worker_file_attr os r =
     (if file_path r = [] then Inl AssertFailed
      else
        (case os_stat os (c_str (file_path r)) of
           None \<Rightarrow> Inr (E_OS_ENV_STAT, r)
         | Some st \<Rightarrow>
             (let a = (file_attr r)\<lparr>f_size := (if st_kind st = Directory then 0 else int (st_size st)),
                                    f_mode := mode_str st\<rparr> in
              (case os_getpwuid os (st_uid st) of
                 (None, _) \<Rightarrow> Inr (E_OS_ENV_GETPWUID, r\<lparr>file_attr := a\<rparr>)
               | (Some name, _) \<Rightarrow>
                   (let a = a\<lparr>f_owner := name\<rparr> in
                    (case os_time os (st_mtime st) of
                       None \<Rightarrow> Inr (E_OS_ENV_NOT_FOUND, r\<lparr>file_attr := a\<rparr>)
                     | Some t \<Rightarrow> Inr (S_SUCCESS, r\<lparr>file_attr := a\<lparr>f_last_updated := t\<rparr>\<rparr>)))))))"

text \<open>The body of the loop over the directories, for one of them.\<close>

definition dir_attr_of :: "'f os \<Rightarrow> string \<Rightarrow> cpp_error + dc_file_attr" where
  "dir_attr_of os dir =
     (case os_stat os (c_str dir) of
        None \<Rightarrow> Inr (new_attr\<lparr>f_code := E_OS_ENV_STAT\<rparr>)
      | Some st \<Rightarrow>
          if st_kind st \<noteq> Directory then Inl AssertFailed
          else
            (let a = new_attr\<lparr>f_mode := mode_str st\<rparr>;
                 named = (case os_getpwuid os (st_uid st) of
                     (Some name, _) \<Rightarrow> Some (a\<lparr>f_owner := name\<rparr>)
                   | (None, errno) \<Rightarrow> if errno = 0 then Some (a\<lparr>f_owner := ''0''\<rparr>) else None) in
             (case named of
                None \<Rightarrow> Inr (a\<lparr>f_code := E_OS_ENV_GETPWUID\<rparr>)
              | Some a \<Rightarrow>
                  (case os_time os (st_mtime st) of
                     None \<Rightarrow> Inr (a\<lparr>f_code := E_OS_ENV_LOCALTIME\<rparr>)
                   | Some t \<Rightarrow> Inr (a\<lparr>f_last_updated := t\<rparr>)))))"

fun dir_attr_loop :: "'f os \<Rightarrow> string list \<Rightarrow> dc_file_attr list \<Rightarrow> cpp_error + dc_file_attr list" where
  "dir_attr_loop os [] attrs = Inr attrs"
| "dir_attr_loop os (dir # dirs) attrs =
     (case dir_attr_of os dir of Inl e \<Rightarrow> Inl e | Inr a \<Rightarrow> dir_attr_loop os dirs (attrs @ [a]))"

definition thd_worker_dir_list_attr :: "'f os \<Rightarrow> 'f local_reader \<Rightarrow> cpp_error + dc_common_code \<times> 'f local_reader" where
  "thd_worker_dir_list_attr os r =
     (case dir_attr_loop os (dir_list r) (dir_attr_list r) of
        Inl e \<Rightarrow> Inl e
      | Inr attrs \<Rightarrow> Inr (S_SUCCESS, r\<lparr>dir_attr_list := attrs\<rparr>))"

section \<open>Lines read by the worker\<close>

definition thd_worker_clear_pre_line :: "'f local_reader \<Rightarrow> 'f local_reader" where
  "thd_worker_clear_pre_line r = r\<lparr>file_pre_line := []\<rparr>"

definition thd_worker_append_to_pre_line :: "string \<Rightarrow> 'f local_reader \<Rightarrow> cpp_error + 'f local_reader" where
  "thd_worker_append_to_pre_line s r =
     (if s = [] then Inr r
      else if \<not> length s \<le> DC_CONTENT_FILE_READ_BUF then Inl AssertFailed
      else Inr (r\<lparr>file_pre_line := file_pre_line r @ s\<rparr>))"

text \<open>The length is an \<^verbatim>\<open>int\<close>.\<close>

definition thd_worker_check_is_empty_line :: "string \<Rightarrow> int \<Rightarrow> cpp_error + bool" where
  "thd_worker_check_is_empty_line s len =
     (if \<not> 0 \<le> len then Inl AssertFailed else Inr (list_all isspace (take (nat len) s)))"

definition count_empty :: "'f local_reader \<Rightarrow> 'f local_reader" where
  "count_empty r = r\<lparr>empty_lines := to_int32 (empty_lines r + 1)\<rparr>"

definition add_sha1 :: "'f os \<Rightarrow> string \<Rightarrow> 'f local_reader \<Rightarrow> 'f local_reader" where
  "add_sha1 os s r = r\<lparr>lines_sha1 := lines_sha1 r @ [os_sha1 os s]\<rparr>"

definition thd_worker_compute_sha1_of_single_line :: "'f os \<Rightarrow> string \<Rightarrow> 'f local_reader \<Rightarrow> cpp_error + 'f local_reader" where
  "thd_worker_compute_sha1_of_single_line os s r =
     (case (if file_pre_line r \<noteq> [] then
              (case thd_worker_append_to_pre_line s r of
                 Inl e \<Rightarrow> Inl e
               | Inr r \<Rightarrow> Inr (file_pre_line r, to_int32 (int (length (file_pre_line r))), r))
            else Inr (s, int (length s), r)) of
        Inl e \<Rightarrow> Inl e
      | Inr (str, len, r) \<Rightarrow>
          (case thd_worker_check_is_empty_line str len of
             Inl e \<Rightarrow> Inl e
           | Inr True \<Rightarrow> Inr (count_empty (thd_worker_clear_pre_line r))
           | Inr False \<Rightarrow> Inr (thd_worker_clear_pre_line (add_sha1 os (take (nat len) str) r))))"

text \<open>The loop over the buffer: \<open>i\<close> is the position, \<open>b\<close> the beginning of the current line.\<close>

function line_loop :: "'f os \<Rightarrow> string \<Rightarrow> nat \<Rightarrow> nat \<Rightarrow> 'f local_reader \<Rightarrow> cpp_error + 'f local_reader" where
  "line_loop os buf i b r =
     (if i < length buf then
        (if buf ! i = CHR 0x0A then
           (case thd_worker_compute_sha1_of_single_line os (take (i - b) (drop b buf)) r of
              Inl e \<Rightarrow> Inl e
            | Inr r \<Rightarrow> line_loop os buf (i + 1) (i + 1) r)
         else line_loop os buf (i + 1) b r)
      else if b < length buf then thd_worker_append_to_pre_line (drop b buf) r
      else Inr r)"
  by pat_completeness auto
termination by (relation "measure (\<lambda>(os, buf, i, b, r). length buf - i)") auto

definition compute_sha1_by_lines :: "'f os \<Rightarrow> string \<Rightarrow> 'f local_reader \<Rightarrow> cpp_error + 'f local_reader" where
  "compute_sha1_by_lines os buf r = (if buf = [] then Inl AssertFailed else line_loop os buf 0 0 r)"

definition thd_worker_file_content_prepare :: "'f os \<Rightarrow> 'f local_reader \<Rightarrow> cpp_error + dc_common_code \<times> 'f local_reader" where
  "thd_worker_file_content_prepare os r =
     (if file_path r = [] \<or> lines_sha1 r \<noteq> [] \<or> empty_lines r \<noteq> 0 then Inl AssertFailed
      else if file_read_buf r = None \<and> \<not> os_memalign os then Inr (E_OS_ENV_MEM, r)
      else
        (let r = (if file_read_buf r = None then r\<lparr>file_read_buf := Some []\<rparr> else r) in
         if file_read_fd r \<noteq> None then Inl AssertFailed
         else
           (case os_open os (c_str (file_path r)) of
              None \<Rightarrow> Inr (E_OS_ENV_OPEN, r)
            | Some fd \<Rightarrow> Inr (S_SUCCESS, r\<lparr>file_read_fd := Some fd\<rparr>))))"

text \<open>
  What the two branches that meet the end of the file do with a line that has no line feed. A blank
  one is counted and stays in \<^verbatim>\<open>file_pre_line_\<close>.
\<close>

definition flush_pre_line :: "'f os \<Rightarrow> 'f local_reader \<Rightarrow> cpp_error + 'f local_reader" where
  "flush_pre_line os r =
     (if file_pre_line r \<noteq> [] then
        (case thd_worker_check_is_empty_line (file_pre_line r) (to_int32 (int (length (file_pre_line r)))) of
           Inl e \<Rightarrow> Inl e
         | Inr True \<Rightarrow> Inr (count_empty r)
         | Inr False \<Rightarrow> Inr (thd_worker_clear_pre_line (add_sha1 os (file_pre_line r) r)))
      else Inr r)"

definition close_fd :: "'f local_reader \<Rightarrow> 'f local_reader" where
  "close_fd r = r\<lparr>file_read_fd := None\<rparr>"

definition thd_worker_file_content_read :: "'f os \<Rightarrow> 'f local_reader \<Rightarrow> cpp_error + dc_common_code \<times> 'f local_reader" where
  "thd_worker_file_content_read os r =
     (if file_path r = [] then Inl AssertFailed
      else
        (case file_read_fd r of
           None \<Rightarrow> Inl AssertFailed
         | Some fd \<Rightarrow>
             (case os_read os DC_CONTENT_FILE_READ_BUF fd of
                (None, fd) \<Rightarrow> Inr (E_OS_ENV_READ, r\<lparr>file_read_fd := Some fd\<rparr>)
              | (Some buf, fd) \<Rightarrow>
                  (let r = r\<lparr>file_read_fd := Some fd, file_read_buf := Some buf, md5_value := os_md5 os buf\<rparr> in
                   if buf = [] then
                     (case flush_pre_line os r of
                        Inl e \<Rightarrow> Inl e
                      | Inr r \<Rightarrow> Inr (E_DC_CONTENT_OVER, close_fd r))
                   else if length buf < DC_CONTENT_FILE_READ_BUF then
                     (case compute_sha1_by_lines os buf r of
                        Inl e \<Rightarrow> Inl e
                      | Inr r \<Rightarrow>
                          (case flush_pre_line os r of
                             Inl e \<Rightarrow> Inl e
                           | Inr r \<Rightarrow> Inr (E_DC_CONTENT_OVER, close_fd r)))
                   else if length buf \<noteq> DC_CONTENT_FILE_READ_BUF then Inl AssertFailed
                   else
                     (case compute_sha1_by_lines os buf r of
                        Inl e \<Rightarrow> Inl e
                      | Inr r \<Rightarrow> Inr (S_SUCCESS, r))))))"

text \<open>One round of the worker's loop; with no command it sleeps and looks again.\<close>

definition thd_worker_cmd :: "'f os \<Rightarrow> cmd_type \<Rightarrow> 'f local_reader \<Rightarrow> cpp_error + dc_common_code \<times> 'f local_reader" where
  "thd_worker_cmd os cmd r =
     (case cmd of
        CMD_TYPE_FILE_ATTR \<Rightarrow> thd_worker_file_attr os r
      | CMD_TYPE_DIR_LIST_ATTR \<Rightarrow> thd_worker_dir_list_attr os r
      | CMD_TYPE_FILE_CONTENT_PREPARE \<Rightarrow> thd_worker_file_content_prepare os r
      | CMD_TYPE_FILE_CONTENT_READ \<Rightarrow> thd_worker_file_content_read os r
      | CMD_TYPE_NONE \<Rightarrow> Inl AssertFailed)"

definition thd_worker :: "'f os \<Rightarrow> 'f local_reader \<Rightarrow> 'f local_reader run" where
  "thd_worker os r =
     (case read_once (cmd_q r) of
        (None, q) \<Rightarrow> done_with r
      | (Some cmd, q) \<Rightarrow>
          (case thd_worker_cmd os cmd (r\<lparr>cmd_q := q\<rparr>) of
             Inl e \<Rightarrow> Some (Inl e)
           | Inr (ret, r) \<Rightarrow> map_option (\<lambda>q. Inr (r\<lparr>ret_q := q\<rparr>)) (chan_write ret (ret_q r))))"

section \<open>Lines of a text\<close>

abbreviation newline :: char where
  "newline \<equiv> CHR 0x0A"

definition blank :: "string \<Rightarrow> bool" where
  "blank s \<longleftrightarrow> list_all isspace s"

text \<open>The lines of a file: a last line without a line feed counts when it has a character.\<close>

definition file_lines :: "string \<Rightarrow> string list" where
  "file_lines c = (let ls = split_on newline c in if last ls = [] then butlast ls else ls)"

text \<open>What one more character does to the hashes, the number of blank lines and the unfinished line.\<close>

definition feed :: "(string \<Rightarrow> string) \<Rightarrow> string list \<times> int \<times> string \<Rightarrow> char \<Rightarrow> string list \<times> int \<times> string" where
  "feed h = (\<lambda>(hs, e, pre) c.
     if c \<noteq> newline then (hs, e, pre @ [c])
     else if blank pre then (hs, e + 1, []) else (hs @ [h pre], e, []))"

definition hashes_of :: "(string \<Rightarrow> string) \<Rightarrow> string list \<Rightarrow> string list" where
  "hashes_of h ls = map h (filter (\<lambda>l. \<not> blank l) ls)"

definition blanks_of :: "string list \<Rightarrow> int" where
  "blanks_of ls = int (length (filter blank ls))"

lemma feed_plain: "newline \<notin> set s \<Longrightarrow> foldl (feed h) (hs, e, pre) s = (hs, e, pre @ s)"
  by (induction s arbitrary: pre) (auto simp: feed_def)

lemma split_on_snoc:
  "split_on sep (s @ [x]) =
     (if x = sep then split_on sep s @ [[]]
      else butlast (split_on sep s) @ [last (split_on sep s) @ [x]])"
proof (induction s)
  case (Cons c s)
  obtain f fs where "split_on sep s = f # fs" by (cases "split_on sep s") auto
  with Cons show ?case by (cases "fs = []") (auto simp: Cons_eq_append_conv split: list.splits if_splits)
qed simp

lemma feed_lines:
  "foldl (feed h) ([], 0, []) c =
     (let ls = split_on newline c in (hashes_of h (butlast ls), blanks_of (butlast ls), last ls))"
proof (induction c rule: rev_induct)
  case (snoc x c)
  have "split_on newline c = butlast (split_on newline c) @ [last (split_on newline c)]" by simp
  then obtain a b where ab: "split_on newline c = a @ [b]" by blast
  show ?case
    using snoc by (auto simp: feed_def split_on_snoc ab Let_def hashes_of_def blanks_of_def butlast_append)
qed (simp add: Let_def hashes_of_def blanks_of_def)

lemma feed_start: "newline \<notin> set l \<Longrightarrow> foldl (feed h) ([], 0, l) c = foldl (feed h) ([], 0, []) (l @ c)"
  by (simp add: feed_plain)

section \<open>The worker reads lines\<close>

definition line_state :: "'f local_reader \<Rightarrow> string list \<times> int \<times> string" where
  "line_state r = (lines_sha1 r, empty_lines r, file_pre_line r)"

definition set_lines :: "string list \<times> int \<times> string \<Rightarrow> 'f local_reader \<Rightarrow> 'f local_reader" where
  "set_lines = (\<lambda>(hs, e, pre) r. r\<lparr>lines_sha1 := hs, empty_lines := e, file_pre_line := pre\<rparr>)"

lemmas line_defs = line_state_def set_lines_def thd_worker_append_to_pre_line_def thd_worker_clear_pre_line_def
  thd_worker_check_is_empty_line_def count_empty_def add_sha1_def

lemma set_lines_simps [simp]:
  "line_state (set_lines a r) = a" "set_lines a (set_lines b r) = set_lines a r" "set_lines (line_state r) r = r"
  "file_path (set_lines a r) = file_path r" "file_read_fd (set_lines a r) = file_read_fd r"
  "file_read_state (set_lines a r) = file_read_state r" "md5_value (set_lines a r) = md5_value r"
  "cmd_q (set_lines a r) = cmd_q r" "ret_q (set_lines a r) = ret_q r"
  by (auto simp: line_state_def set_lines_def split: prod.split)

text \<open>
  The sizes that keep the \<^verbatim>\<open>int\<close>s of the worker from overflowing: what has been counted, the
  unfinished line and what is still to come are together below two to the 31.
\<close>

definition room_for :: "string list \<times> int \<times> string \<Rightarrow> nat \<Rightarrow> bool" where
  "room_for = (\<lambda>(hs, e, pre) n. 0 \<le> e \<and> e + int (length pre) + int n < 2 ^ 31)"

lemma room_feed: "room_for a (n + length s) \<Longrightarrow> room_for (foldl (feed h) a s) n"
proof (induction s arbitrary: a)
  case (Cons c s)
  have "room_for (feed h a c) (n + length s)" using Cons.prems by (cases a) (auto simp: room_for_def feed_def)
  then show ?case using Cons.IH by simp
qed simp

lemma single_line:
  assumes "newline \<notin> set s" and "length s \<le> DC_CONTENT_FILE_READ_BUF" and "room_for (line_state r) (length s + 1)"
  shows "thd_worker_compute_sha1_of_single_line os s r =
     Inr (set_lines (foldl (feed (os_sha1 os)) (line_state r) (s @ [newline])) r)"
proof -
  have e: "to_int32 (empty_lines r + 1) = empty_lines r + 1"
    using assms(3) by (intro to_int32_id) (auto simp: room_for_def line_state_def)
  have l: "to_int32 (int (length (file_pre_line r)) + int (length s)) = int (length (file_pre_line r)) + int (length s)"
    using assms(3) by (intro to_int32_id) (auto simp: room_for_def line_state_def)
  have f: "foldl (feed (os_sha1 os)) (line_state r) (s @ [newline]) =
      feed (os_sha1 os) (lines_sha1 r, empty_lines r, file_pre_line r @ s) newline"
    by (simp add: line_state_def feed_plain [OF assms(1)])
  have t: "(if file_pre_line r \<noteq> [] then
              (case thd_worker_append_to_pre_line s r of
                 Inl e \<Rightarrow> Inl e
               | Inr r \<Rightarrow> Inr (file_pre_line r, to_int32 (int (length (file_pre_line r))), r))
            else Inr (s, int (length s), r)) =
      Inr (file_pre_line r @ s, int (length (file_pre_line r @ s)),
           r\<lparr>file_pre_line := if file_pre_line r = [] then [] else file_pre_line r @ s\<rparr>)"
    using assms(2) l by (cases "s = []") (auto simp: thd_worker_append_to_pre_line_def)
  show ?thesis
    unfolding thd_worker_compute_sha1_of_single_line_def t f
    by (cases "blank (file_pre_line r @ s)") (auto simp: line_defs e feed_def blank_def)
qed

lemma line_loop_feeds:
  assumes "b \<le> i" and "i \<le> length buf" and "newline \<notin> set (take (i - b) (drop b buf))"
    and "length buf \<le> DC_CONTENT_FILE_READ_BUF" and "room_for (line_state r) (length buf - b)"
  shows "line_loop os buf i b r = Inr (set_lines (foldl (feed (os_sha1 os)) (line_state r) (drop b buf)) r)"
  using assms
proof (induction os buf i b r rule: line_loop.induct)
  case (1 os buf i b r)
  show ?case
  proof (cases "i < length buf")
    case True
    have d: "drop b buf = take (i - b) (drop b buf) @ buf ! i # drop (i + 1) buf"
      using True "1.prems"(1) id_take_nth_drop [of "i - b" "drop b buf"] by simp
    show ?thesis
    proof (cases "buf ! i = newline")
      case nl: True
      let ?s = "take (i - b) (drop b buf)"
      let ?r = "set_lines (foldl (feed (os_sha1 os)) (line_state r) (?s @ [newline])) r"
      have len: "length ?s = i - b" using True "1.prems"(1) by simp
      have room: "room_for (line_state r) (length buf - (i + 1) + length (?s @ [newline]))"
        using "1.prems"(1,5) True len by (simp add: Suc_diff_Suc)
      have "room_for (line_state r) (length ?s + 1)"
        using room by (auto simp: room_for_def split: prod.splits)
      then have s: "thd_worker_compute_sha1_of_single_line os ?s r = Inr ?r"
        using single_line [of ?s r os] "1.prems"(3,4) len True by simp
      have "line_loop os buf (i + 1) (i + 1) ?r =
          Inr (set_lines (foldl (feed (os_sha1 os)) (line_state ?r) (drop (i + 1) buf)) ?r)"
        using "1.IH"(1) [OF True nl s] "1.prems"(4) room_feed [OF room] True by simp
      then show ?thesis using True nl s by (subst d, subst line_loop.simps) simp
    next
      case False
      have "take (Suc i - b) (drop b buf) = take (i - b) (drop b buf) @ [buf ! i]"
        using True "1.prems"(1) by (simp add: Suc_diff_le take_Suc_conv_app_nth)
      then have "line_loop os buf (i + 1) b r = Inr (set_lines (foldl (feed (os_sha1 os)) (line_state r) (drop b buf)) r)"
        using "1.IH"(2) [OF True False] "1.prems" True False by simp
      then show ?thesis using True False by (subst line_loop.simps) simp
    qed
  next
    case False
    then have n: "newline \<notin> set (drop b buf)" using "1.prems"(2,3) by simp
    show ?thesis
      using False "1.prems"(4) by (subst line_loop.simps) (auto simp: line_state_def set_lines_def feed_plain [OF n]
        thd_worker_append_to_pre_line_def)
  qed
qed

lemma compute_feeds:
  assumes "buf \<noteq> []" and "length buf \<le> DC_CONTENT_FILE_READ_BUF" and "room_for (line_state r) (length buf)"
  shows "compute_sha1_by_lines os buf r = Inr (set_lines (foldl (feed (os_sha1 os)) (line_state r) buf) r)"
  using line_loop_feeds [of 0 0 buf r os] assms by (simp add: compute_sha1_by_lines_def)

text \<open>The end of the file: the unfinished line is a line if it has a character.\<close>

definition last_line :: "(string \<Rightarrow> string) \<Rightarrow> string list \<times> int \<times> string \<Rightarrow> string list \<times> int \<times> string" where
  "last_line h = (\<lambda>(hs, e, pre).
     if pre = [] then (hs, e, []) else if blank pre then (hs, e + 1, pre) else (hs @ [h pre], e, []))"

lemma flush_last:
  assumes "room_for (line_state r) 0"
  shows "flush_pre_line os r = Inr (set_lines (last_line (os_sha1 os) (line_state r)) r)"
proof (cases "file_pre_line r = []")
  case False
  then obtain c cs where "file_pre_line r = c # cs" by (cases "file_pre_line r") auto
  then have e: "to_int32 (empty_lines r + 1) = empty_lines r + 1"
    using assms by (intro to_int32_id; simp add: room_for_def line_state_def)
  have l: "to_int32 (int (length (file_pre_line r))) = int (length (file_pre_line r))"
    using assms by (intro to_int32_id) (auto simp: room_for_def line_state_def)
  show ?thesis
    unfolding flush_pre_line_def using False by (auto simp: line_defs e l last_line_def blank_def)
qed (simp add: flush_pre_line_def last_line_def line_state_def set_lines_def)

lemma last_line_feed:
  "last_line h (foldl (feed h) ([], 0, []) c) =
     (hashes_of h (file_lines c), blanks_of (file_lines c),
      if blank (last (split_on newline c)) then last (split_on newline c) else [])"
proof -
  have "split_on newline c = butlast (split_on newline c) @ [last (split_on newline c)]" by simp
  then obtain a b where "split_on newline c = a @ [b]" by blast
  then show ?thesis
    by (auto simp: feed_lines last_line_def file_lines_def hashes_of_def blanks_of_def Let_def blank_def)
qed

section \<open>The two threads\<close>

text \<open>
  After \<^verbatim>\<open>do_file_content\<close> the comparing thread polls \<^verbatim>\<open>get_file_content\<close> as long as it is told to
  retry, while the worker goes round its loop. The members they share are handed over through the
  channels, so a poll and a round are the atomic steps. A configuration is the reader and the codes
  the polls have returned.
\<close>

inductive reader_step :: "'f os \<Rightarrow> 'f local_reader \<times> dc_common_code list \<Rightarrow>
    'f local_reader \<times> dc_common_code list \<Rightarrow> bool" for os where
  poll: "set codes \<subseteq> {E_DC_CONTENT_RETRY} \<Longrightarrow> get_file_content r = Some (Inr (c, r')) \<Longrightarrow>
    reader_step os (r, codes) (r', codes @ [c])"
| work: "thd_worker os r = Some (Inr r') \<Longrightarrow> reader_step os (r, codes) (r', codes)"

inductive_cases reader_stepE: "reader_step os a b"

definition idle_reader :: "'f local_reader \<Rightarrow> bool" where
  "idle_reader r \<longleftrightarrow>
     file_read_state r = FILE_CONTENT_READ_INIT \<and> file_read_fd r = None \<and> holds (cmd_q r) [] \<and> holds (ret_q r) []"

text \<open>What the operating system promises of a regular file: a read gives all it can.\<close>

definition reads_regular :: "'f os \<Rightarrow> ('f \<Rightarrow> string) \<Rightarrow> bool" where
  "reads_regular os rest \<longleftrightarrow>
     (\<forall>n f. fst (os_read os n f) = Some (take n (rest f)) \<and> rest (snd (os_read os n f)) = drop n (rest f))"

definition last_chunk :: "string \<Rightarrow> string" where
  "last_chunk c = drop (DC_CONTENT_FILE_READ_BUF * (length c div DC_CONTENT_FILE_READ_BUF)) c"

text \<open>The reader when the file has been read: \<open>l\<close> is the unfinished line it started with.\<close>

definition read_all :: "'f os \<Rightarrow> string \<Rightarrow> string \<Rightarrow> 'f local_reader \<Rightarrow> bool" where
  "read_all os l c r \<longleftrightarrow>
     file_read_fd r = None \<and> md5_value r = os_md5 os (last_chunk c) \<and>
     line_state r = last_line (os_sha1 os) (foldl (feed (os_sha1 os)) ([], 0, []) (l @ c))"

text \<open>The reader after \<open>k\<close> full chunks.\<close>

definition reading_at :: "'f os \<Rightarrow> ('f \<Rightarrow> string) \<Rightarrow> string \<Rightarrow> string \<Rightarrow> nat \<Rightarrow> 'f local_reader \<Rightarrow> bool" where
  "reading_at os rest l c k r \<longleftrightarrow>
     file_path r \<noteq> [] \<and> k * DC_CONTENT_FILE_READ_BUF \<le> length c \<and>
     (\<exists>f. file_read_fd r = Some f \<and> rest f = drop (k * DC_CONTENT_FILE_READ_BUF) c) \<and>
     line_state r = foldl (feed (os_sha1 os)) ([], 0, l) (take (k * DC_CONTENT_FILE_READ_BUF) c)"

lemma handover_simps [simp]:
  "read_all os l c (r\<lparr>cmd_q := q\<rparr>) = read_all os l c r" "read_all os l c (r\<lparr>ret_q := q'\<rparr>) = read_all os l c r"
  "read_all os l c (r\<lparr>file_read_state := st\<rparr>) = read_all os l c r"
  "reading_at os rest l c k (r\<lparr>cmd_q := q\<rparr>) = reading_at os rest l c k r"
  "reading_at os rest l c k (r\<lparr>ret_q := q'\<rparr>) = reading_at os rest l c k r"
  "reading_at os rest l c k (r\<lparr>file_read_state := st\<rparr>) = reading_at os rest l c k r"
  by (simp_all add: read_all_def reading_at_def line_state_def)

text \<open>The phase of the exchange: the state of the reader with what is in the two channels.\<close>

definition phase :: "read_state \<Rightarrow> cmd_type list \<Rightarrow> dc_common_code list \<Rightarrow> 'f local_reader \<Rightarrow> bool" where
  "phase st cs rs r \<longleftrightarrow> file_read_state r = st \<and> holds (cmd_q r) cs \<and> holds (ret_q r) rs"

definition asked :: "'f os \<Rightarrow> ('f \<Rightarrow> string) \<Rightarrow> string \<Rightarrow> string \<Rightarrow> 'f local_reader \<Rightarrow> bool" where
  "asked os rest l c r \<longleftrightarrow>
     phase FILE_CONTENT_READ_PREPAR [CMD_TYPE_FILE_CONTENT_PREPARE] [] r \<and> file_path r \<noteq> [] \<and>
     (\<exists>f. os_open os (c_str (file_path r)) = Some f \<and> rest f = c) \<and> file_read_fd r = None \<and> line_state r = ([], 0, l)"

text \<open>
  The invariant of a run. The number is how far the run is from its end: it goes down with every
  round of the worker that finds a command, and with every poll that finds the command channel empty.
\<close>

abbreviation to_read :: "string \<Rightarrow> nat \<Rightarrow> nat" where
  "to_read c k \<equiv> 3 * (length c - k * DC_CONTENT_FILE_READ_BUF)"

inductive reader_inv :: "'f os \<Rightarrow> ('f \<Rightarrow> string) \<Rightarrow> string \<Rightarrow> string \<Rightarrow> nat \<Rightarrow> 'f local_reader \<Rightarrow> dc_common_code list \<Rightarrow> bool"
  for os rest l c where
  inv_asked: "set codes \<subseteq> {E_DC_CONTENT_RETRY} \<Longrightarrow> asked os rest l c r \<Longrightarrow>
    reader_inv os rest l c (to_read c 0 + 6) r codes"
| inv_open: "set codes \<subseteq> {E_DC_CONTENT_RETRY} \<Longrightarrow> reading_at os rest l c k r \<Longrightarrow>
    phase FILE_CONTENT_READ_PREPAR [] [S_SUCCESS] r \<Longrightarrow> reader_inv os rest l c (to_read c k + 5) r codes"
| inv_do: "set codes \<subseteq> {E_DC_CONTENT_RETRY} \<Longrightarrow> reading_at os rest l c k r \<Longrightarrow>
    phase FILE_CONTENT_READ_DO [CMD_TYPE_FILE_CONTENT_READ] [] r \<Longrightarrow> reader_inv os rest l c (to_read c k + 2) r codes"
| inv_done: "set codes \<subseteq> {E_DC_CONTENT_RETRY} \<Longrightarrow> reading_at os rest l c k r \<Longrightarrow>
    phase FILE_CONTENT_READ_DO [] [S_SUCCESS] r \<Longrightarrow> reader_inv os rest l c (to_read c k + 4) r codes"
| inv_next: "set codes \<subseteq> {E_DC_CONTENT_RETRY} \<Longrightarrow> reading_at os rest l c k r \<Longrightarrow>
    phase FILE_CONTENT_READ_OVER [] [] r \<Longrightarrow> reader_inv os rest l c (to_read c k + 3) r codes"
| inv_finished: "set codes \<subseteq> {E_DC_CONTENT_RETRY} \<Longrightarrow> read_all os l c r \<Longrightarrow>
    phase FILE_CONTENT_READ_DO [] [E_DC_CONTENT_OVER] r \<Longrightarrow> reader_inv os rest l c 1 r codes"
| inv_over: "set codes \<subseteq> {E_DC_CONTENT_RETRY} \<Longrightarrow> read_all os l c r \<Longrightarrow>
    phase FILE_CONTENT_READ_INIT [] [] r \<Longrightarrow> reader_inv os rest l c 0 r (codes @ [E_DC_CONTENT_OVER])"

lemma to_read_next:
  assumes "reading_at os rest l c (Suc k) r"
  shows "to_read c (Suc k) + 2 < to_read c k"
proof -
  have "Suc k * DC_CONTENT_FILE_READ_BUF \<le> length c" using assms by (simp add: reading_at_def)
  then show ?thesis by (simp add: DC_CONTENT_FILE_READ_BUF_def)
qed

lemma phase_holds: "phase st cs rs r \<Longrightarrow> holds (cmd_q r) [] \<longleftrightarrow> cs = []"
  by (auto simp: phase_def holds_def)

lemma last_chunk_drop:
  assumes "k * DC_CONTENT_FILE_READ_BUF \<le> length c" and "length c - k * DC_CONTENT_FILE_READ_BUF < DC_CONTENT_FILE_READ_BUF"
  shows "last_chunk c = drop (k * DC_CONTENT_FILE_READ_BUF) c"
proof -
  have "length c div DC_CONTENT_FILE_READ_BUF = k"
    using assms by (intro div_nat_eqI) (simp_all add: algebra_simps)
  then show ?thesis by (simp add: last_chunk_def mult.commute)
qed

text \<open>One call of \<^verbatim>\<open>read\<close>: the end of the file, and a full buffer.\<close>

definition with_buf :: "'f os \<Rightarrow> string \<Rightarrow> 'f \<Rightarrow> 'f local_reader \<Rightarrow> 'f local_reader" where
  "with_buf os buf fd r = r\<lparr>file_read_fd := Some fd, file_read_buf := Some buf, md5_value := os_md5 os buf\<rparr>"

lemma with_buf_simps [simp]:
  "line_state (with_buf os buf fd r) = line_state r" "file_path (with_buf os buf fd r) = file_path r"
  "file_read_fd (with_buf os buf fd r) = Some fd" "md5_value (with_buf os buf fd r) = os_md5 os buf"
  "file_read_state (with_buf os buf fd r) = file_read_state r"
  "cmd_q (with_buf os buf fd r) = cmd_q r" "ret_q (with_buf os buf fd r) = ret_q r"
  by (simp_all add: with_buf_def line_state_def)

lemma read_end:
  assumes "file_path r \<noteq> []" and "file_read_fd r = Some f" and "os_read os DC_CONTENT_FILE_READ_BUF f = (Some buf, f')"
    and "length buf < DC_CONTENT_FILE_READ_BUF" and room: "room_for (line_state r) (length buf)"
  shows "thd_worker_file_content_read os r =
     Inr (E_DC_CONTENT_OVER, close_fd (set_lines (last_line (os_sha1 os)
       (foldl (feed (os_sha1 os)) (line_state r) buf)) (with_buf os buf f' r)))"
proof -
  let ?r = "set_lines (foldl (feed (os_sha1 os)) (line_state r) buf) (with_buf os buf f' r)"
  have "room_for (line_state ?r) 0" using room_feed [of _ 0 buf] room by simp
  then have fin: "flush_pre_line os ?r = Inr (set_lines (last_line (os_sha1 os) (line_state ?r)) ?r)" by (rule flush_last)
  show ?thesis
  proof (cases "buf = []")
    case True
    then have "?r = with_buf os buf f' r" by (metis set_lines_simps(3) with_buf_simps(1) foldl_Nil)
    then show ?thesis
      using fin assms(1-3) True by (simp add: thd_worker_file_content_read_def Let_def flip: with_buf_def)
  next
    case False
    then show ?thesis
      using compute_feeds [of buf "with_buf os buf f' r" os] fin assms
      by (simp add: thd_worker_file_content_read_def Let_def flip: with_buf_def)
  qed
qed

lemma read_full:
  assumes "file_path r \<noteq> []" and "file_read_fd r = Some f" and "os_read os DC_CONTENT_FILE_READ_BUF f = (Some buf, f')"
    and "length buf = DC_CONTENT_FILE_READ_BUF" and "room_for (line_state r) (length buf)"
  shows "thd_worker_file_content_read os r =
     Inr (S_SUCCESS, set_lines (foldl (feed (os_sha1 os)) (line_state r) buf) (with_buf os buf f' r))"
proof -
  have "buf \<noteq> []" using assms(4) by (auto simp: DC_CONTENT_FILE_READ_BUF_def)
  then show ?thesis
    using compute_feeds [of buf "with_buf os buf f' r" os] assms
    by (simp add: thd_worker_file_content_read_def Let_def flip: with_buf_def)
qed

text \<open>One read: either a full chunk that leaves the reader reading, or the end of the file.\<close>

lemma content_read:
  assumes rr: "reads_regular os rest" and small: "length l + length c < 2 ^ 31" and nl: "newline \<notin> set l"
    and at: "reading_at os rest l c k r"
  shows "\<exists>ret r'. thd_worker_file_content_read os r = Inr (ret, r') \<and>
      cmd_q r' = cmd_q r \<and> ret_q r' = ret_q r \<and> file_read_state r' = file_read_state r \<and>
      (ret = E_DC_CONTENT_OVER \<and> read_all os l c r' \<or> ret = S_SUCCESS \<and> reading_at os rest l c (Suc k) r')"
proof -
  from at obtain f where p: "file_path r \<noteq> []" and fd: "file_read_fd r = Some f"
    and rest: "rest f = drop (k * DC_CONTENT_FILE_READ_BUF) c" and k: "k * DC_CONTENT_FILE_READ_BUF \<le> length c"
    and ls: "line_state r = foldl (feed (os_sha1 os)) ([], 0, l) (take (k * DC_CONTENT_FILE_READ_BUF) c)"
    by (auto simp: reading_at_def)
  let ?B = DC_CONTENT_FILE_READ_BUF and ?h = "os_sha1 os"
  let ?buf = "take ?B (drop (k * ?B) c)"
  define f' where "f' = snd (os_read os ?B f)"
  have rd: "os_read os ?B f = (Some ?buf, f')" and rest': "rest f' = drop (Suc k * ?B) c"
    using rr rest by (simp_all add: f'_def reads_regular_def prod_eq_iff add.commute)
  have "room_for ([], 0, l) (length c)" using small by (simp add: room_for_def)
  then have "room_for (line_state r) (length (drop (k * ?B) c))"
    using room_feed [of "([], 0, l)" "length (drop (k * ?B) c)" "take (k * ?B) c" ?h] k by (simp add: ls)
  then have room: "room_for (line_state r) (length ?buf)" by (auto simp: room_for_def split: prod.splits)
  have fl: "foldl (feed ?h) (line_state r) ?buf = foldl (feed ?h) ([], 0, l) (take (k * ?B + ?B) c)"
    by (simp add: ls take_add)
  show ?thesis
  proof (cases "length (drop (k * ?B) c) < ?B")
    case True
    let ?r = "close_fd (set_lines (last_line ?h (foldl (feed ?h) (line_state r) ?buf)) (with_buf os ?buf f' r))"
    have "length ?buf < ?B" using True by simp
    note e = read_end [OF p fd rd this room]
    have "take (k * ?B + ?B) c = c" "?buf = drop (k * ?B) c" using True by simp_all
    then have "read_all os l c ?r"
      using last_chunk_drop [of k c] k True fl feed_start [OF nl, of ?h c]
      by (simp add: read_all_def close_fd_def line_state_def set_lines_def split: prod.split)
    moreover have "cmd_q ?r = cmd_q r" "ret_q ?r = ret_q r" "file_read_state ?r = file_read_state r"
      by (simp_all add: close_fd_def)
    ultimately show ?thesis unfolding e by blast
  next
    case False
    then have "length ?buf = ?B" by simp
    note e = read_full [OF p fd rd this room]
    let ?r = "set_lines (foldl (feed ?h) (line_state r) ?buf) (with_buf os ?buf f' r)"
    have "reading_at os rest l c (Suc k) ?r"
      using fl False k p rest' by (simp add: reading_at_def add.commute)
    moreover have "cmd_q ?r = cmd_q r" "ret_q ?r = ret_q r" "file_read_state ?r = file_read_state r" by simp_all
    ultimately show ?thesis unfolding e by blast
  qed
qed

lemma content_prepare:
  assumes "asked os rest l c r" and "os_memalign os"
  shows "\<exists>r'. thd_worker_file_content_prepare os r = Inr (S_SUCCESS, r') \<and>
      cmd_q r' = cmd_q r \<and> ret_q r' = ret_q r \<and> file_read_state r' = file_read_state r \<and> reading_at os rest l c 0 r'"
  using assms by (auto simp: asked_def thd_worker_file_content_prepare_def reading_at_def line_state_def)

text \<open>What a command in the channel comes to.\<close>

lemma worker_idle: "holds (cmd_q r) [] \<Longrightarrow> thd_worker os r = Some (Inr r)"
  by (simp add: thd_worker_def holds_empty done_with_def)

lemma worker_answers:
  assumes "holds (cmd_q r) [cmd]" and "holds (ret_q r) []"
    and cmd: "\<And>q. \<exists>ret r'. thd_worker_cmd os cmd (r\<lparr>cmd_q := q\<rparr>) = Inr (ret, r') \<and>
      cmd_q r' = q \<and> ret_q r' = ret_q r \<and> file_read_state r' = file_read_state r \<and> P ret r'"
    and P: "\<And>ret r' q. P ret (r'\<lparr>ret_q := q\<rparr>) = P ret r'"
  shows "\<exists>ret r'. thd_worker os r = Some (Inr r') \<and> phase (file_read_state r) [] [ret] r' \<and> P ret r'"
proof -
  obtain q where q: "read_once (cmd_q r) = (Some cmd, q)" "holds q []" using holds_read [OF assms(1)] by auto
  obtain ret r' where r': "thd_worker_cmd os cmd (r\<lparr>cmd_q := q\<rparr>) = Inr (ret, r')" "cmd_q r' = q" "ret_q r' = ret_q r"
    "file_read_state r' = file_read_state r" "P ret r'" using cmd by blast
  obtain q' where q': "chan_write ret (ret_q r') = Some q'" "holds q' [ret]"
    using holds_write [of "ret_q r'" "[]"] r'(3) assms(2) by auto
  have "thd_worker os r = Some (Inr (r'\<lparr>ret_q := q'\<rparr>))" by (simp add: thd_worker_def q r'(1) q')
  then show ?thesis using q q' r' P by (auto simp: phase_def)
qed

lemma send_read_sends:
  assumes "holds (cmd_q r) []"
  shows "\<exists>q. send_read r = Some (Inr (E_DC_CONTENT_RETRY, r\<lparr>cmd_q := q, file_read_state := FILE_CONTENT_READ_DO\<rparr>)) \<and>
      holds q [CMD_TYPE_FILE_CONTENT_READ]"
proof -
  obtain q where "chan_write CMD_TYPE_FILE_CONTENT_READ (cmd_q r) = Some q" "holds q [CMD_TYPE_FILE_CONTENT_READ]"
    using holds_write [OF assms] by auto
  then show ?thesis by (intro exI [of _ q]) (simp add: send_read_def send_cmd_def done_with_def)
qed

lemma poll_waits:
  "phase st cs [] r \<Longrightarrow> st = FILE_CONTENT_READ_PREPAR \<or> st = FILE_CONTENT_READ_DO \<Longrightarrow>
   get_file_content r = Some (Inr (E_DC_CONTENT_RETRY, r))"
  by (auto simp: phase_def get_file_content_def holds_empty done_with_def)

lemma poll_opened:
  assumes "phase FILE_CONTENT_READ_PREPAR [] [S_SUCCESS] r"
  shows "\<exists>q q'. get_file_content r =
      Some (Inr (E_DC_CONTENT_RETRY, r\<lparr>ret_q := q, cmd_q := q', file_read_state := FILE_CONTENT_READ_DO\<rparr>)) \<and>
      holds q [] \<and> holds q' [CMD_TYPE_FILE_CONTENT_READ]"
proof -
  obtain q where q: "read_once (ret_q r) = (Some S_SUCCESS, q)" "holds q []"
    using holds_read [of "ret_q r" S_SUCCESS "[]"] assms by (auto simp: phase_def)
  have "holds (cmd_q (r\<lparr>ret_q := q\<rparr>)) []" using assms by (simp add: phase_def)
  then obtain q' where "send_read (r\<lparr>ret_q := q\<rparr>) =
      Some (Inr (E_DC_CONTENT_RETRY, r\<lparr>ret_q := q, cmd_q := q', file_read_state := FILE_CONTENT_READ_DO\<rparr>))"
    "holds q' [CMD_TYPE_FILE_CONTENT_READ]" using send_read_sends by blast
  then show ?thesis
    using assms q by (auto simp: get_file_content_def phase_def log_check_err_return_def)
qed

lemma poll_answer:
  assumes "phase FILE_CONTENT_READ_DO [] [ret] r" and "ret = S_SUCCESS \<or> ret = E_DC_CONTENT_OVER \<and> file_read_fd r = None"
  shows "\<exists>q. get_file_content r =
      Some (Inr (if ret = S_SUCCESS then E_DC_CONTENT_RETRY else E_DC_CONTENT_OVER,
        r\<lparr>ret_q := q, file_read_state := if ret = S_SUCCESS then FILE_CONTENT_READ_OVER else FILE_CONTENT_READ_INIT\<rparr>)) \<and>
      holds q []"
proof -
  obtain q where "read_once (ret_q r) = (Some ret, q)" "holds q []"
    using holds_read [of "ret_q r" ret "[]"] assms(1) by (auto simp: phase_def)
  then show ?thesis using assms by (auto simp: get_file_content_def phase_def done_with_def)
qed

text \<open>The invariant: no step of either thread fails, and both keep it.\<close>

lemma inv_work:
  assumes "reader_inv os rest l c n r codes" and rr: "reads_regular os rest" and mem: "os_memalign os"
    and small: "length l + length c < 2 ^ 31" and nl: "newline \<notin> set l"
  shows "\<exists>r' n'. thd_worker os r = Some (Inr r') \<and> reader_inv os rest l c n' r' codes \<and> (holds (cmd_q r) [] \<or> n' < n)"
  using assms(1)
proof cases
  case inv_asked
  have "\<exists>ret r'. thd_worker os r = Some (Inr r') \<and> phase (file_read_state r) [] [ret] r' \<and>
      (ret = S_SUCCESS \<and> reading_at os rest l c 0 r')"
    using inv_asked content_prepare [of os rest l c "r\<lparr>cmd_q := q\<rparr>" for q] mem
    by (intro worker_answers [where cmd = CMD_TYPE_FILE_CONTENT_PREPARE])
       (auto simp: asked_def phase_def thd_worker_cmd_def thd_worker_file_content_prepare_def reading_at_def line_state_def)
  then show ?thesis
    using inv_asked reader_inv.inv_open [of codes os rest l c 0] by (fastforce simp: asked_def phase_def)
next
  case (inv_do k)
  have "\<exists>ret r'. thd_worker os r = Some (Inr r') \<and> phase (file_read_state r) [] [ret] r' \<and>
      (ret = E_DC_CONTENT_OVER \<and> read_all os l c r' \<or> ret = S_SUCCESS \<and> reading_at os rest l c (Suc k) r')"
  proof (rule worker_answers)
    fix q
    show "\<exists>ret r'. thd_worker_cmd os CMD_TYPE_FILE_CONTENT_READ (r\<lparr>cmd_q := q\<rparr>) = Inr (ret, r') \<and>
      cmd_q r' = q \<and> ret_q r' = ret_q r \<and> file_read_state r' = file_read_state r \<and>
      (ret = E_DC_CONTENT_OVER \<and> read_all os l c r' \<or> ret = S_SUCCESS \<and> reading_at os rest l c (Suc k) r')"
      using content_read [OF rr small nl, of k "r\<lparr>cmd_q := q\<rparr>"] inv_do by (simp add: thd_worker_cmd_def)
  qed (use inv_do in \<open>auto simp: phase_def\<close>)
  then obtain ret r' where r': "thd_worker os r = Some (Inr r')" "phase FILE_CONTENT_READ_DO [] [ret] r'"
    "ret = E_DC_CONTENT_OVER \<and> read_all os l c r' \<or> ret = S_SUCCESS \<and> reading_at os rest l c (Suc k) r'"
    using inv_do by (auto simp: phase_def)
  from r'(3) have "\<exists>n' < n. reader_inv os rest l c n' r' codes"
  proof
    assume f: "ret = E_DC_CONTENT_OVER \<and> read_all os l c r'"
    then have "reader_inv os rest l c 1 r' codes" using inv_do r'(2) by (intro reader_inv.inv_finished) auto
    then show ?thesis using inv_do(1) by (intro exI [of _ 1]) simp
  next
    assume d: "ret = S_SUCCESS \<and> reading_at os rest l c (Suc k) r'"
    then have "reader_inv os rest l c (to_read c (Suc k) + 4) r' codes"
      using inv_do r'(2) by (intro reader_inv.inv_done) auto
    then show ?thesis using inv_do(1) to_read_next [of os rest l c k r'] d by (intro exI [of _ "to_read c (Suc k) + 4"]) simp
  qed
  then show ?thesis using r'(1) by blast
qed (use assms(1) worker_idle in \<open>auto simp: phase_def\<close>)

lemma inv_poll:
  assumes "reader_inv os rest l c n r codes" and "set codes \<subseteq> {E_DC_CONTENT_RETRY}"
  shows "\<exists>code r' n'. get_file_content r = Some (Inr (code, r')) \<and> reader_inv os rest l c n' r' (codes @ [code]) \<and>
    (\<not> holds (cmd_q r) [] \<or> n' < n)"
  using assms(1)
proof cases
  case inv_asked
  then have "get_file_content r = Some (Inr (E_DC_CONTENT_RETRY, r))" "\<not> holds (cmd_q r) []"
    using poll_waits by (auto simp: asked_def phase_holds)
  then show ?thesis using inv_asked reader_inv.inv_asked [of "codes @ [E_DC_CONTENT_RETRY]" os rest l c r] by auto
next
  case (inv_open k)
  obtain q q' where q: "get_file_content r =
      Some (Inr (E_DC_CONTENT_RETRY, r\<lparr>ret_q := q, cmd_q := q', file_read_state := FILE_CONTENT_READ_DO\<rparr>))"
    "holds q []" "holds q' [CMD_TYPE_FILE_CONTENT_READ]" using poll_opened [OF inv_open(4)] by blast
  have "reader_inv os rest l c (to_read c k + 2)
      (r\<lparr>ret_q := q, cmd_q := q', file_read_state := FILE_CONTENT_READ_DO\<rparr>) (codes @ [E_DC_CONTENT_RETRY])"
    by (rule reader_inv.inv_do) (use inv_open q in \<open>auto simp: phase_def\<close>)
  then show ?thesis
    using q(1) inv_open(1) by (intro exI conjI) (assumption, assumption, simp)
next
  case (inv_do k)
  then have "get_file_content r = Some (Inr (E_DC_CONTENT_RETRY, r))" using poll_waits by auto
  then show ?thesis
    using inv_do reader_inv.inv_do [of "codes @ [E_DC_CONTENT_RETRY]" os rest l c k r] by (auto simp: phase_holds)
next
  case (inv_done k)
  obtain q where q: "get_file_content r =
      Some (Inr (E_DC_CONTENT_RETRY, r\<lparr>ret_q := q, file_read_state := FILE_CONTENT_READ_OVER\<rparr>))"
    "holds q []" using poll_answer [OF inv_done(4)] by auto
  have "reader_inv os rest l c (to_read c k + 3)
      (r\<lparr>ret_q := q, file_read_state := FILE_CONTENT_READ_OVER\<rparr>) (codes @ [E_DC_CONTENT_RETRY])"
    by (rule reader_inv.inv_next) (use inv_done q in \<open>auto simp: phase_def\<close>)
  then show ?thesis
    using q(1) inv_done(1) by (intro exI conjI) (assumption, assumption, simp)
next
  case (inv_next k)
  obtain q where q: "send_read r = Some (Inr (E_DC_CONTENT_RETRY, r\<lparr>cmd_q := q, file_read_state := FILE_CONTENT_READ_DO\<rparr>))"
    "holds q [CMD_TYPE_FILE_CONTENT_READ]" using send_read_sends [of r] inv_next(4) by (auto simp: phase_def)
  have g: "get_file_content r = send_read r" using inv_next(4) by (simp add: phase_def get_file_content_def)
  have "reader_inv os rest l c (to_read c k + 2)
      (r\<lparr>cmd_q := q, file_read_state := FILE_CONTENT_READ_DO\<rparr>) (codes @ [E_DC_CONTENT_RETRY])"
    by (rule reader_inv.inv_do) (use inv_next q in \<open>auto simp: phase_def\<close>)
  then show ?thesis
    unfolding g using q(1) inv_next(1) by (intro exI conjI) (assumption, assumption, simp)
next
  case inv_finished
  then have "file_read_fd r = None" by (simp add: read_all_def)
  then obtain q where q: "get_file_content r =
      Some (Inr (E_DC_CONTENT_OVER, r\<lparr>ret_q := q, file_read_state := FILE_CONTENT_READ_INIT\<rparr>))"
    "holds q []" using poll_answer [OF inv_finished(4)] by auto
  have "reader_inv os rest l c 0
      (r\<lparr>ret_q := q, file_read_state := FILE_CONTENT_READ_INIT\<rparr>) (codes @ [E_DC_CONTENT_OVER])"
    by (rule reader_inv.inv_over) (use inv_finished q in \<open>auto simp: phase_def\<close>)
  then show ?thesis
    using q(1) inv_finished(1) by (intro exI conjI) (assumption, assumption, simp)
next
  case (inv_over codes')
  then show ?thesis using assms(2) by simp
qed

text \<open>A whole run: the file \<open>f\<close> asked for on an idle reader, and the steps after it.\<close>

definition file_run :: "'f os \<Rightarrow> ('f \<Rightarrow> string) \<Rightarrow> string \<Rightarrow> 'f local_reader \<Rightarrow> 'f local_reader \<Rightarrow> dc_common_code list \<Rightarrow> bool" where
  "file_run os rest path r0 r codes \<longleftrightarrow>
     (\<exists>r1. do_file_content path [] 0 r0 = Some (Inr (S_SUCCESS, r1)) \<and> (reader_step os)\<^sup>*\<^sup>* (r1, []) (r, codes))"

definition readable :: "'f os \<Rightarrow> ('f \<Rightarrow> string) \<Rightarrow> string \<Rightarrow> string \<Rightarrow> 'f local_reader \<Rightarrow> bool" where
  "readable os rest path c r0 \<longleftrightarrow>
     idle_reader r0 \<and> newline \<notin> set (file_pre_line r0) \<and> reads_regular os rest \<and> os_memalign os \<and> path \<noteq> [] \<and>
     map_option rest (os_open os (c_str path)) = Some c \<and> length (file_pre_line r0) + length c < 2 ^ 31"

lemma idle_phase: "idle_reader r \<longleftrightarrow> phase FILE_CONTENT_READ_INIT [] [] r \<and> file_read_fd r = None"
  by (auto simp: idle_reader_def phase_def)

lemma do_asks:
  assumes "readable os rest path c r0"
  shows "\<exists>r1. do_file_content path [] 0 r0 = Some (Inr (S_SUCCESS, r1)) \<and> asked os rest (file_pre_line r0) c r1"
proof -
  have "holds (cmd_q (r0\<lparr>file_path := path, lines_sha1 := [], empty_lines := 0\<rparr>)) []"
    using assms by (simp add: readable_def idle_reader_def)
  then obtain q where "chan_write CMD_TYPE_FILE_CONTENT_PREPARE (cmd_q r0) = Some q" "holds q [CMD_TYPE_FILE_CONTENT_PREPARE]"
    using holds_write [of "cmd_q r0" "[]"] by auto
  then show ?thesis
    using assms by (auto simp: readable_def idle_reader_def do_file_content_def send_cmd_def done_with_def asked_def
        phase_def line_state_def)
qed

lemma readable_facts:
  assumes "readable os rest path c r0"
  shows "reads_regular os rest" "os_memalign os" "length (file_pre_line r0) + length c < 2 ^ 31" "newline \<notin> set (file_pre_line r0)"
  using assms by (auto simp: readable_def)

lemma run_inv:
  assumes "readable os rest path c r0" and "file_run os rest path r0 r codes"
  shows "\<exists>n. reader_inv os rest (file_pre_line r0) c n r codes"
proof -
  obtain r1 where r1: "asked os rest (file_pre_line r0) c r1" "(reader_step os)\<^sup>*\<^sup>* (r1, []) (r, codes)"
    using assms(2) do_asks [OF assms(1)] by (auto simp: file_run_def)
  have step: "\<exists>n. reader_inv os rest (file_pre_line r0) c n r' codes'"
    if "reader_step os (ra, ca) (r', codes')" "reader_inv os rest (file_pre_line r0) c n ra ca" for ra ca r' codes' n
    using that inv_poll [OF that(2)] inv_work [OF that(2) readable_facts [OF assms(1)]] by (auto elim!: reader_stepE)
  have start: "\<exists>n. reader_inv os rest (file_pre_line r0) c n r1 []" using inv_asked [OF _ r1(1), of "[]"] by auto
  show ?thesis using r1(2)
    by (induction rule: rtranclp_induct2) (use start step in blast)+
qed

lemma inv_finishes:
  assumes "reader_inv os rest l c n r codes" and "reads_regular os rest" and "os_memalign os"
    and "length l + length c < 2 ^ 31" and "newline \<notin> set l"
  shows "\<exists>r' codes'. (reader_step os)\<^sup>*\<^sup>* (r, codes) (r', codes') \<and> E_DC_CONTENT_OVER \<in> set codes'"
  using assms(1)
proof (induction n arbitrary: r codes rule: less_induct)
  case (less n)
  show ?case
  proof (cases "set codes \<subseteq> {E_DC_CONTENT_RETRY}")
    case True
    have "\<exists>r' codes' n'. reader_step os (r, codes) (r', codes') \<and> reader_inv os rest l c n' r' codes' \<and> n' < n"
    proof (cases "holds (cmd_q r) []")
      case empty: True
      then show ?thesis using inv_poll [OF less.prems True] poll [OF True] by blast
    next
      case False
      then show ?thesis using inv_work [OF less.prems assms(2-)] work by blast
    qed
    then show ?thesis using less.IH by (meson converse_rtranclp_into_rtranclp)
  next
    case False
    have "E_DC_CONTENT_OVER \<in> set codes" using less.prems False by cases auto
    then show ?thesis by blast
  qed
qed

lemma run_over:
  assumes "readable os rest path c r0" and "file_run os rest path r0 r codes" and "E_DC_CONTENT_OVER \<in> set codes"
  shows "idle_reader r \<and> read_all os (file_pre_line r0) c r \<and> codes = replicate (length codes - 1) E_DC_CONTENT_RETRY @ [E_DC_CONTENT_OVER]"
proof -
  obtain n where "reader_inv os rest (file_pre_line r0) c n r codes" using run_inv [OF assms(1,2)] by blast
  then show ?thesis
  proof cases
    case (inv_over codes')
    then have "codes' = replicate (length codes') E_DC_CONTENT_RETRY" by (intro replicate_length_same [symmetric]) auto
    then show ?thesis using inv_over by (auto simp: idle_phase read_all_def)
  qed (use assms(3) in auto)
qed

lemma run_exists:
  assumes "readable os rest path c r0"
  shows "\<exists>r codes. file_run os rest path r0 r codes \<and> E_DC_CONTENT_OVER \<in> set codes"
proof -
  obtain r1 where r1: "do_file_content path [] 0 r0 = Some (Inr (S_SUCCESS, r1))" "asked os rest (file_pre_line r0) c r1"
    using do_asks [OF assms] by blast
  then show ?thesis
    using inv_finishes [OF inv_asked [OF _ r1(2), of "[]"] readable_facts [OF assms]] by (auto simp: file_run_def)
qed

section \<open>What a run gives\<close>


text \<open>A system with two files, on which a hash is the text itself.\<close>

definition demo_os :: "string os" where
  "demo_os = \<lparr>os_stat = \<lambda>_. None, os_getpwuid = \<lambda>_. (None, 0), os_time = \<lambda>_. None, os_memalign = True,
     os_open = (\<lambda>p. if p = ''f'' then Some (''a'' @ [newline] @ '' '') else if p = ''g'' then Some ''b'' else None),
     os_read = \<lambda>n f. (Some (take n f), drop n f), os_sha1 = id, os_md5 = id\<rparr>"

lemma demo_readable:
  "readable demo_os id ''f'' (''a'' @ [newline] @ '' '') new_local_reader"
  by (simp add: readable_def idle_reader_def new_local_reader_def holds_new reads_regular_def demo_os_def)


text \<open>
  Reading a file comes to its end: from every configuration of a run the threads can take
  steps that end the polls, so that no order of steps leaves them waiting for each other; a poll that
  finds the command channel empty and a round of the worker that finds a command bring the end nearer.
\<close>

theorem file_content_finishes:
  assumes "readable os rest path c r0" and "file_run os rest path r0 r codes"
  shows "\<exists>r' codes'. (reader_step os)\<^sup>*\<^sup>* (r, codes) (r', codes') \<and> E_DC_CONTENT_OVER \<in> set codes'"
  using run_inv [OF assms] inv_finishes readable_facts [OF assms(1)] by blast

theorem file_content_finishes_witness:
  "\<exists>r r' codes'. (reader_step demo_os)\<^sup>*\<^sup>* (r, []) (r', codes') \<and> E_DC_CONTENT_OVER \<in> set codes'"
proof -
  obtain r where "file_run demo_os id ''f'' new_local_reader r []"
    using do_asks [OF demo_readable] by (auto simp: file_run_def)
  from file_content_finishes [OF demo_readable this] show ?thesis by blast
qed

section \<open>Where the reader goes wrong\<close>

text \<open>
  A file whose last line is blank and has no line feed spoils the next one: that line stays in
  the reader, and the next file is read as if it began with it, so that the hash of its first line is
  not the hash of that line.
\<close>

theorem blank_tail_spoils_next:
  assumes "readable os rest p1 c1 r0" and "file_pre_line r0 = []" and "file_run os rest p1 r0 r1 codes1"
    and "E_DC_CONTENT_OVER \<in> set codes1" and "t = last (split_on newline c1)" and "blank t"
    and "readable os rest p2 c2 r1" and "file_run os rest p2 r1 r2 codes2" and "E_DC_CONTENT_OVER \<in> set codes2"
  shows "lines_sha1 r2 = hashes_of (os_sha1 os) (file_lines (t @ c2))"
proof -
  have "file_pre_line r1 = t"
    using run_over [OF assms(1,3,4)] assms(2,5,6) unfolding read_all_def last_line_feed line_state_def by auto
  then show ?thesis
    using run_over [OF assms(7-9)] unfolding read_all_def last_line_feed line_state_def by auto
qed

theorem blank_tail_spoils_next_witness:
  "\<exists>r1 codes1 r2 codes2. file_run demo_os id ''f'' new_local_reader r1 codes1 \<and> E_DC_CONTENT_OVER \<in> set codes1 \<and>
     file_run demo_os id ''g'' r1 r2 codes2 \<and> E_DC_CONTENT_OVER \<in> set codes2 \<and> lines_sha1 r2 = ['' b'']"
proof -
  let ?c = "''a'' @ [newline] @ '' ''"
  obtain r1 codes1 where one: "file_run demo_os id ''f'' new_local_reader r1 codes1" "E_DC_CONTENT_OVER \<in> set codes1"
    using run_exists [OF demo_readable] by blast
  have pre: "file_pre_line r1 = '' ''" "idle_reader r1"
    using run_over [OF demo_readable one] unfolding read_all_def last_line_feed line_state_def
    by (auto simp: new_local_reader_def blank_def isspace_def)
  have rd: "readable demo_os id ''g'' ''b'' r1"
    using demo_readable pre by (simp add: readable_def demo_os_def)
  obtain r2 codes2 where two: "file_run demo_os id ''g'' r1 r2 codes2" "E_DC_CONTENT_OVER \<in> set codes2"
    using run_exists [OF rd] by blast
  have "lines_sha1 r2 = hashes_of (os_sha1 demo_os) (file_lines ('' '' @ ''b''))"
    by (rule blank_tail_spoils_next [OF demo_readable _ one _ _ rd two])
       (simp_all add: new_local_reader_def blank_def isspace_def)
  then have "lines_sha1 r2 = ['' b'']"
    by (simp add: file_lines_def hashes_of_def blank_def isspace_def demo_os_def)
  with one two show ?thesis by blast
qed

text \<open>
  A read that fails makes the reader useless: the poll reports the failure, but the file stays
  open and the state stays as it was, so that asking for another file and destroying the reader both
  abort the program.
\<close>

theorem read_failure_is_final:
  assumes "phase FILE_CONTENT_READ_DO [CMD_TYPE_FILE_CONTENT_READ] [] r" and "file_path r \<noteq> []"
    and "file_read_fd r = Some f" and "os_read os DC_CONTENT_FILE_READ_BUF f = (None, f')"
  shows "\<exists>r1 r2. thd_worker os r = Some (Inr r1) \<and> get_file_content r1 = Some (Inr (E_OS_ENV_READ, r2)) \<and>
    do_file_content path ls e r2 = Some (Inl AssertFailed) \<and> delete_local_reader r2 = Inl AssertFailed"
proof -
  have "\<exists>ret r1. thd_worker os r = Some (Inr r1) \<and> phase (file_read_state r) [] [ret] r1 \<and>
      (ret = E_OS_ENV_READ \<and> file_read_fd r1 \<noteq> None)"
    by (rule worker_answers [where cmd = CMD_TYPE_FILE_CONTENT_READ])
       (use assms in \<open>auto simp: phase_def thd_worker_cmd_def thd_worker_file_content_read_def\<close>)
  then obtain r1 where r1: "thd_worker os r = Some (Inr r1)" "phase FILE_CONTENT_READ_DO [] [E_OS_ENV_READ] r1"
    "file_read_fd r1 \<noteq> None" using assms(1) by (auto simp: phase_def)
  then obtain q where "read_once (ret_q r1) = (Some E_OS_ENV_READ, q)"
    using holds_read [of "ret_q r1" E_OS_ENV_READ "[]"] by (auto simp: phase_def)
  then have "get_file_content r1 = Some (Inr (E_OS_ENV_READ, r1\<lparr>ret_q := q\<rparr>))"
    using r1(2) by (simp add: get_file_content_def phase_def done_with_def)
  then show ?thesis
    using r1 by (intro exI [of _ r1] exI [of _ "r1\<lparr>ret_q := q\<rparr>"])
      (auto simp: do_file_content_def delete_local_reader_def phase_def)
qed

definition broken_os :: "string os" where
  "broken_os = demo_os\<lparr>os_read := \<lambda>n f. (None, f)\<rparr>"

theorem read_failure_is_final_witness:
  "\<exists>r r1 r2. thd_worker broken_os r = Some (Inr r1) \<and> get_file_content r1 = Some (Inr (E_OS_ENV_READ, r2)) \<and>
    do_file_content ''g'' [] 0 r2 = Some (Inl AssertFailed) \<and> delete_local_reader r2 = Inl AssertFailed"
proof -
  obtain q where q: "holds q [CMD_TYPE_FILE_CONTENT_READ]" using holds_write [OF holds_new] by fastforce
  let ?r = "new_local_reader\<lparr>file_read_state := FILE_CONTENT_READ_DO, cmd_q := q, file_path := ''f'', file_read_fd := Some []\<rparr>"
  have "phase FILE_CONTENT_READ_DO [CMD_TYPE_FILE_CONTENT_READ] [] ?r"
    using q by (simp add: phase_def new_local_reader_def holds_new)
  then show ?thesis
    using read_failure_is_final [of ?r "[]" broken_os "[]" "''g''" "[]" 0] by (auto simp: broken_os_def)
qed

section \<open>Attributes of directories\<close>

lemma dir_attr_loop_all:
  "dir_attr_loop os dirs attrs =
     (if \<exists>d \<in> set dirs. \<exists>e. dir_attr_of os d = Inl e then Inl AssertFailed
      else Inr (attrs @ map (\<lambda>d. projr (dir_attr_of os d)) dirs))"
proof (induction dirs arbitrary: attrs)
  case (Cons d dirs)
  have "dir_attr_of os d = Inl e \<Longrightarrow> e = AssertFailed" for e
    by (auto simp: dir_attr_of_def Let_def split: option.splits if_splits prod.splits)
  then show ?case using Cons by (auto split: sum.split)
qed simp

lemma dir_attr_size: "dir_attr_of os d = Inr a \<Longrightarrow> f_size a = -1"
  by (auto simp: dir_attr_of_def new_attr_def Let_def split: option.splits if_splits prod.splits)

lemma dir_attr_aborts:
  "(\<exists>e. dir_attr_of os d = Inl e) \<longleftrightarrow> (\<exists>st. os_stat os (c_str d) = Some st \<and> st_kind st \<noteq> Directory)"
  by (auto simp: dir_attr_of_def Let_def split: option.splits if_splits prod.splits)

text \<open>
  The attributes of a list of directories: when nothing aborts, the result has one entry per
  directory, in order, each what the system says of that directory; a path that is something other
  than a directory aborts the program; a size is never given.
\<close>

theorem dir_list_attrs:
  "thd_worker_dir_list_attr os r =
     (if \<exists>d st. d \<in> set (dir_list r) \<and> os_stat os (c_str d) = Some st \<and> st_kind st \<noteq> Directory
      then Inl AssertFailed
      else Inr (S_SUCCESS, r\<lparr>dir_attr_list := dir_attr_list r @ map (\<lambda>d. projr (dir_attr_of os d)) (dir_list r)\<rparr>))"
  using dir_attr_aborts [of os] by (auto simp: thd_worker_dir_list_attr_def dir_attr_loop_all)

end
