(* ===== verification/Dc_Json.thy ===== *)
theory Dc_Json
  imports Dc_Error
begin

text \<open>
  What the file comparison uses of the JSON values of \<^verbatim>\<open>base/json.hpp\<close>: an object is a
  \<^verbatim>\<open>std::map\<close>; \<^verbatim>\<open>operator[]\<close> with a key and \<^verbatim>\<open>push_back\<close> turn a null value into a container
  and throw on other values; a conversion throws when the value has another type. Parsing and
  printing are arguments where they are used. Of a floating-point number only the integral part
  matters to the code.
\<close>

datatype json =
    JNull | JBool bool | JInt int | JFloat int | JStr string | JArr "json list" | JObj "(string, json) smap"

fun json_find :: "json \<Rightarrow> string \<Rightarrow> json option" where
  "json_find (JObj m) k = smap_get str_lt m k"
| "json_find _ k = None"

text \<open>\<^verbatim>\<open>j[k]\<close> as a value, with the value it leaves in \<^verbatim>\<open>j\<close>: a key that is missing is inserted.\<close>

fun json_index :: "string \<Rightarrow> json \<Rightarrow> cpp_error + json \<times> json" where
  "json_index k JNull = Inr (JNull, JObj [(k, JNull)])"
| "json_index k (JObj m) =
     (case smap_get str_lt m k of
        None \<Rightarrow> Inr (JNull, JObj (smap_insert str_lt k JNull m))
      | Some v \<Rightarrow> Inr (v, JObj m))"
| "json_index k _ = Inl JsonTypeError"

text \<open>\<^verbatim>\<open>j[k] = v\<close>.\<close>

fun json_set :: "string \<Rightarrow> json \<Rightarrow> json \<Rightarrow> cpp_error + json" where
  "json_set k v JNull = Inr (JObj [(k, v)])"
| "json_set k v (JObj m) = Inr (JObj (smap_assign str_lt k v m))"
| "json_set k v _ = Inl JsonTypeError"

fun json_push :: "json \<Rightarrow> json \<Rightarrow> cpp_error + json" where
  "json_push v JNull = Inr (JArr [v])"
| "json_push v (JArr vs) = Inr (JArr (vs @ [v]))"
| "json_push v _ = Inl JsonTypeError"

fun json_size :: "json \<Rightarrow> nat" where
  "json_size JNull = 0"
| "json_size (JArr vs) = length vs"
| "json_size (JObj m) = length m"
| "json_size _ = 1"

text \<open>The values a \<^verbatim>\<open>for\<close> over a JSON value visits.\<close>

fun json_items :: "json \<Rightarrow> json list" where
  "json_items JNull = []"
| "json_items (JArr vs) = vs"
| "json_items (JObj m) = map snd m"
| "json_items j = [j]"

fun json_string :: "json \<Rightarrow> cpp_error + string" where
  "json_string (JStr s) = Inr s"
| "json_string _ = Inl JsonTypeError"

text \<open>The number of an enumerator: \<^verbatim>\<open>unsigned int\<close> underlies the enumerations of the code.\<close>

fun json_enum :: "json \<Rightarrow> cpp_error + int" where
  "json_enum (JInt i) = Inr (i mod 2 ^ 32)"
| "json_enum (JFloat i) = Inr (i mod 2 ^ 32)"
| "json_enum _ = Inl JsonTypeError"

fun json_int :: "json \<Rightarrow> cpp_error + int" where
  "json_int (JInt i) = Inr (to_int32 i)"
| "json_int (JFloat i) = Inr (to_int32 i)"
| "json_int (JBool b) = Inr (if b then 1 else 0)"
| "json_int _ = Inl JsonTypeError"

text \<open>Sequencing of what can throw.\<close>

definition ok_then :: "cpp_error + 'a \<Rightarrow> ('a \<Rightarrow> cpp_error + 'b) \<Rightarrow> cpp_error + 'b" where
  "ok_then r k = (case r of Inl e \<Rightarrow> Inl e | Inr x \<Rightarrow> k x)"

lemma ok_then_simps [simp]: "ok_then (Inl e) k = Inl e" "ok_then (Inr x) k = k x"
  by (simp_all add: ok_then_def)

lemma ok_then_Inr: "ok_then r k = Inr y \<longleftrightarrow> (\<exists>x. r = Inr x \<and> k x = Inr y)"
  by (cases r) auto

lemma ok_then_Inl: "ok_then r k = Inl e \<longleftrightarrow> r = Inl e \<or> (\<exists>x. r = Inr x \<and> k x = Inl e)"
  by (cases r) auto

text \<open>Several assignments in a row.\<close>

fun json_sets :: "(string \<times> json) list \<Rightarrow> json \<Rightarrow> cpp_error + json" where
  "json_sets [] j = Inr j"
| "json_sets ((k, v) # kvs) j = ok_then (json_set k v j) (json_sets kvs)"

text \<open>\<^verbatim>\<open>j[k].push_back (v)\<close>.\<close>

definition json_push_at :: "string \<Rightarrow> json \<Rightarrow> json \<Rightarrow> cpp_error + json" where
  "json_push_at k v j =
     ok_then (json_index k j) (\<lambda>(x, j). ok_then (json_push v x) (\<lambda>x. json_set k x j))"

definition json_code :: "dc_common_code \<Rightarrow> json" where
  "json_code c = JInt (code_num c)"

text \<open>A message, which may be the null pointer, from which no string can be made.\<close>

definition json_msg :: "dc_common_code \<Rightarrow> cpp_error + json" where
  "json_msg c = ok_then (dc_common_code_msg c) (\<lambda>msg. case msg of None \<Rightarrow> Inl InvalidRead | Some s \<Rightarrow> Inr (JStr s))"

section \<open>Lemmas\<close>

definition json_ok :: "json \<Rightarrow> bool" where
  "json_ok j \<longleftrightarrow> j = JNull \<or> (\<exists>m. j = JObj m \<and> str_map.sorted_map m)"

lemma json_ok_Null [simp]: "json_ok JNull"
  by (simp add: json_ok_def)

lemma json_set_ok:
  assumes "json_ok j"
  shows "\<exists>j'. json_set k v j = Inr j' \<and> json_ok j' \<and> (\<forall>k'. json_find j' k' = (if k' = k then Some v else json_find j k'))"
proof (cases j)
  case (JObj m)
  then have "str_map.sorted_map m" using assms by (auto simp: json_ok_def)
  then show ?thesis
    using JObj str_map.assign_sorted [of m k v] by (auto simp: json_ok_def str_map_get)
qed (use assms in \<open>auto simp: json_ok_def\<close>)

lemma json_sets_ok:
  "json_ok j \<Longrightarrow> \<exists>j'. json_sets kvs j = Inr j' \<and> json_ok j' \<and>
     (\<forall>k. json_find j' k = fold (\<lambda>(k', v) r. if k' = k then Some v else r) kvs (json_find j k))"
proof (induction kvs arbitrary: j)
  case (Cons kv kvs)
  obtain k v where kv: "kv = (k, v)" by force
  obtain j1 where j1: "json_set k v j = Inr j1" "json_ok j1"
    "\<forall>k'. json_find j1 k' = (if k' = k then Some v else json_find j k')" using json_set_ok [OF Cons.prems] by metis
  with Cons.IH [of j1] show ?case by (auto simp: kv)
qed simp

end
