(* ===== verification/Dc_Internal.thy ===== *)
theory Dc_Internal
  imports Dc_Content Dc_Json Http_Req
begin

text \<open>
  The exchange between two agents about the attributes of directories. The serving side is
  \<^verbatim>\<open>file_compare/internal/dc_internal_task.cc\<close>, an executor whose worker thread takes tasks off a
  list under a mutex, with the two handlers of \<^verbatim>\<open>file_compare/main.cc\<close> in front of it. The asking
  side is the remote half of \<^verbatim>\<open>file_compare/content/dc_content.cc\<close>. The executor's list hands out
  references, so its elements carry an address; the type of a task has one value and is left out. \<open>chdir\<close> gives the system as it looks from another
  directory; \<open>parse\<close> and \<open>dump\<close> are those of the JSON library.
\<close>

section \<open>The executor\<close>

record internal_task =
  i_uuid :: string
  i_task_status :: dc_common_task_stat
  i_json :: json
  i_out_json :: json

definition new_internal_task :: "string \<Rightarrow> json \<Rightarrow> internal_task" where
  "new_internal_task uuid j = \<lparr>i_uuid = uuid, i_task_status = T_TASK_INIT, i_json = j, i_out_json = JNull\<rparr>"

record executor =
  task_list :: "(nat \<times> internal_task) list"
  next_addr :: nat

definition new_executor :: executor where
  "new_executor = \<lparr>task_list = [], next_addr = 0\<rparr>"

definition ex_add :: "internal_task \<Rightarrow> executor \<Rightarrow> executor" where
  "ex_add task ex = ex\<lparr>task_list := task_list ex @ [(next_addr ex, task)], next_addr := next_addr ex + 1\<rparr>"

text \<open>The loop of \<^verbatim>\<open>get\<close>; the argument \<open>j\<close> is the caller's value, with which the result is swapped.\<close>

fun get_loop :: "string \<Rightarrow> json \<Rightarrow> (nat \<times> internal_task) list \<Rightarrow>
    dc_common_code \<times> json \<times> (nat \<times> internal_task) list" where
  "get_loop uuid j [] = (E_NOT_FOUND, j, [])"
| "get_loop uuid j ((a, t) # ts) =
     (if i_uuid t = uuid then
        (if i_task_status t = T_TASK_OVER then (S_SUCCESS, i_out_json t, ts)
         else (E_DC_CONTENT_RETRY, j, (a, t) # ts))
      else (case get_loop uuid j ts of (code, j, ts) \<Rightarrow> (code, j, (a, t) # ts)))"

definition ex_get :: "string \<Rightarrow> json \<Rightarrow> executor \<Rightarrow> dc_common_code \<times> json \<times> executor" where
  "ex_get uuid j ex =
     (case get_loop uuid j (task_list ex) of (code, j, ts) \<Rightarrow> (code, j, ex\<lparr>task_list := ts\<rparr>))"

definition thd_worker_has_task_to_run :: "executor \<Rightarrow> bool" where
  "thd_worker_has_task_to_run ex \<longleftrightarrow> list_ex (\<lambda>(a, t). i_task_status t = T_TASK_INIT) (task_list ex)"

fun pick_loop :: "(nat \<times> internal_task) list \<Rightarrow> (nat \<times> (nat \<times> internal_task) list) option" where
  "pick_loop [] = None"
| "pick_loop ((a, t) # ts) =
     (if i_task_status t = T_TASK_INIT then Some (a, (a, t\<lparr>i_task_status := T_TASK_RUNNING\<rparr>) # ts)
      else map_option (\<lambda>(b, ts). (b, (a, t) # ts)) (pick_loop ts))"

text \<open>The worker waits as long as there is nothing to run; the result is the address of the task.\<close>

definition thd_worker_pick_task_to_run :: "executor \<Rightarrow> (cpp_error + nat \<times> executor) option" where
  "thd_worker_pick_task_to_run ex =
     (if \<not> thd_worker_has_task_to_run ex then None
      else
        (case pick_loop (task_list ex) of
           None \<Rightarrow> Some (Inl AssertFailed)
         | Some (a, ts) \<Rightarrow> Some (Inr (a, ex\<lparr>task_list := ts\<rparr>))))"

definition thd_worker_set_task_over :: "internal_task \<Rightarrow> internal_task" where
  "thd_worker_set_task_over t = t\<lparr>i_task_status := T_TASK_OVER\<rparr>"

text \<open>The body of the loop over the directories.\<close>

definition task_dir_attr :: "'f os \<Rightarrow> string \<Rightarrow> cpp_error + dc_file_attr" where
  "task_dir_attr os dir_str =
     (case os_stat os (c_str dir_str) of
        None \<Rightarrow> Inr (new_attr\<lparr>f_code := E_OS_ENV_STAT\<rparr>)
      | Some dir_stat \<Rightarrow>
          (let a = new_attr\<lparr>f_code := S_SUCCESS\<rparr> in
           if st_kind dir_stat \<noteq> Directory then Inl AssertFailed
           else
             (let a = a\<lparr>f_mode := mode_str dir_stat\<rparr>;
                  pwd = os_getpwuid os (st_uid dir_stat) in
              if fst pwd = None \<and> snd pwd \<noteq> 0 then Inr (a\<lparr>f_code := E_OS_ENV_GETPWUID\<rparr>)
              else
                (let a = a\<lparr>f_owner := (case fst pwd of None \<Rightarrow> ''0'' | Some name \<Rightarrow> name)\<rparr> in
                 (case os_time os (st_mtime dir_stat) of
                    None \<Rightarrow> Inr (a\<lparr>f_code := E_OS_ENV_LOCALTIME\<rparr>)
                  | Some time_str \<Rightarrow> Inr (a\<lparr>f_last_updated := time_str\<rparr>))))))"

fun task_dir_loop :: "'f os \<Rightarrow> json list \<Rightarrow> dc_file_attr list \<Rightarrow> cpp_error + dc_file_attr list" where
  "task_dir_loop os [] attrs = Inr attrs"
| "task_dir_loop os (dir # dirs) attrs =
     ok_then (json_string dir) (\<lambda>dir_str.
       ok_then (task_dir_attr os dir_str) (\<lambda>a. task_dir_loop os dirs (attrs @ [a])))"

definition dir_attr_json :: "dc_file_attr \<Rightarrow> cpp_error + json" where
  "dir_attr_json a =
     json_sets [(''error'', json_code (f_code a)), (''mode'', JStr (f_mode a)), (''owner'', JStr (f_owner a)),
                (''last_updated'', JStr (f_last_updated a))] JNull"

text \<open>\<^verbatim>\<open>j[k].push_back (v)\<close>.\<close>

fun dirs_to_json :: "dc_file_attr list \<Rightarrow> json \<Rightarrow> cpp_error + json" where
  "dirs_to_json [] out = Inr out"
| "dirs_to_json (a # as) out =
     ok_then (dir_attr_json a) (\<lambda>j. ok_then (json_push_at ''dirs'' j out) (dirs_to_json as))"

definition thd_worker_task_dir_attr_list :: "(string \<Rightarrow> 'f os option) \<Rightarrow> internal_task \<Rightarrow> cpp_error + internal_task" where
  "thd_worker_task_dir_attr_list chdir t =
     (if i_task_status t \<noteq> T_TASK_RUNNING \<or> json_find (i_json t) ''uuid'' = None \<or>
         json_find (i_json t) ''dirs'' = None \<or> json_find (i_json t) ''base_dir'' = None then Inl AssertFailed
      else
        (let uuid = the (json_find (i_json t) ''uuid'') in
         ok_then (json_string (the (json_find (i_json t) ''base_dir''))) (\<lambda>base_dir.
           (case chdir (c_str base_dir) of
              None \<Rightarrow>
                ok_then (json_sets [(''error'', json_code E_OS_ENV_CHDIR), (''uuid'', uuid)] (i_out_json t)) (\<lambda>out.
                  Inr (thd_worker_set_task_over (t\<lparr>i_out_json := out\<rparr>)))
            | Some os \<Rightarrow>
                ok_then (task_dir_loop os (json_items (the (json_find (i_json t) ''dirs''))) []) (\<lambda>attrs.
                  ok_then (json_sets [(''uuid'', uuid), (''error'', json_code S_SUCCESS)] (i_out_json t)) (\<lambda>out.
                    ok_then (dirs_to_json attrs out) (\<lambda>out.
                      Inr (thd_worker_set_task_over (t\<lparr>i_out_json := out\<rparr>)))))))))"

section \<open>The handlers in front of it\<close>

definition handle_internal_get :: "string \<Rightarrow> bool \<Rightarrow> executor \<Rightarrow> cpp_error + json \<times> executor" where
  "handle_internal_get uuid is_json ex =
     (if uuid = [] then
        ok_then (json_sets [(''error'', json_code E_DC_INTERNAL_NO_UUID)] JNull) (\<lambda>j. Inr (j, ex))
      else if \<not> is_json then
        ok_then (json_sets [(''error'', json_code E_DC_INTERNAL_NOT_JSON), (''uuid'', JStr uuid)] JNull) (\<lambda>j. Inr (j, ex))
      else
        (case ex_get uuid JNull ex of (ret, resp, ex) \<Rightarrow>
           if ret \<noteq> S_SUCCESS then
             ok_then (json_sets [(''error'', json_code ret), (''uuid'', JStr uuid)] JNull) (\<lambda>j. Inr (j, ex))
           else Inr (resp, ex)))"

definition reply_error :: "dc_common_code \<Rightarrow> string \<Rightarrow> executor \<Rightarrow> cpp_error + json \<times> executor" where
  "reply_error code uuid ex =
     ok_then (json_sets [(''error'', json_code code), (''uuid'', JStr uuid)] JNull) (\<lambda>j. Inr (j, ex))"

definition handle_internal_post :: "(string \<Rightarrow> json option) \<Rightarrow> string \<Rightarrow> bool \<Rightarrow> string \<Rightarrow> executor \<Rightarrow>
    cpp_error + json \<times> executor" where
  "handle_internal_post parse uuid is_json text ex =
     (if uuid = [] then
        ok_then (json_sets [(''error'', json_code E_DC_INTERNAL_NO_UUID)] JNull) (\<lambda>j. Inr (j, ex))
      else if \<not> is_json then reply_error E_DC_INTERNAL_NOT_JSON uuid ex
      else if text = [] then reply_error E_DC_INTERNAL_EMPTY_BODY uuid ex
      else
        (case parse text of
           None \<Rightarrow> Inl JsonParseError
         | Some j \<Rightarrow>
             if json_find j ''dirs'' = None then reply_error E_DC_INTERNAL_NO_DIR_LIST uuid ex
             else
               (case json_find j ''uuid'' of
                  None \<Rightarrow> reply_error E_DC_INTERNAL_NO_UUID uuid ex
                | Some u \<Rightarrow>
                    if u \<noteq> JStr uuid then reply_error E_DC_INTERNAL_UUID_NOT_EQUAL uuid ex
                    else
                      ok_then (json_sets [(''uuid'', JStr uuid), (''error'', json_code S_SUCCESS)] JNull) (\<lambda>resp.
                        Inr (resp, ex_add (new_internal_task uuid j) ex)))))"

section \<open>The asking side\<close>

record user_data =
  out_q :: "int spsc_queue"
  get_resp_body :: string

datatype http_request =
    HttpPost string string      \<comment> \<open>url and compressed body\<close>
  | HttpGet string

text \<open>What both callbacks do with the parsed answer: the number of the code.\<close>

definition reply_code :: "json \<Rightarrow> cpp_error + int" where
  "reply_code j =
     (case json_find j ''error'' of
        None \<Rightarrow> Inl AssertFailed
      | Some e \<Rightarrow>
          ok_then (json_string e) (\<lambda>error.
            ok_then (stoi error) (\<lambda>n. case code_cast n of None \<Rightarrow> Inl InvalidRead | Some c \<Rightarrow> Inr (code_num c))))"

definition unpack_reply :: "'z zlib \<Rightarrow> (string \<Rightarrow> json option) \<Rightarrow> string option \<Rightarrow> (string \<times> int) run" where
  "unpack_reply z parse answer =
     (case answer of
        None \<Rightarrow> Some (Inl AssertFailed)
      | Some zipped \<Rightarrow>
          (case ungzip z zipped of
             None \<Rightarrow> None
           | Some (ret, resp_body) \<Rightarrow>
               Some
                 (if ret \<noteq> StatusOK then Inl AssertFailed
                  else
                    (case parse resp_body of
                       None \<Rightarrow> Inl JsonParseError
                     | Some j \<Rightarrow> ok_then (reply_code j) (\<lambda>code. Inr (resp_body, code))))))"

definition write_code :: "int \<Rightarrow> user_data \<Rightarrow> user_data run" where
  "write_code code u = map_option (\<lambda>q. Inr (u\<lparr>out_q := q\<rparr>)) (chan_write code (out_q u))"

definition http_post_callback :: "'z zlib \<Rightarrow> (string \<Rightarrow> json option) \<Rightarrow> string option \<Rightarrow> user_data \<Rightarrow> user_data run" where
  "http_post_callback z parse answer u = run_then (unpack_reply z parse answer) (\<lambda>(resp_body, code). write_code code u)"

text \<open>The \<^verbatim>\<open>get\<close> requests pass a string for the answer, which is swapped with it.\<close>

definition http_get_callback :: "'z zlib \<Rightarrow> (string \<Rightarrow> json option) \<Rightarrow> string option \<Rightarrow> user_data \<Rightarrow> user_data run" where
  "http_get_callback z parse answer u =
     run_then (unpack_reply z parse answer) (\<lambda>(resp_body, code).
       write_code code (if code = code_num S_SUCCESS then u\<lparr>get_resp_body := resp_body\<rparr> else u))"

definition http_post_task :: "'z zlib \<Rightarrow> string \<Rightarrow> string \<Rightarrow> http_request run" where
  "http_post_task z url text =
     map_option (\<lambda>r. ok_then r (\<lambda>(ret, zip_body). if ret \<noteq> StatusOK then Inl AssertFailed else Inr (HttpPost url zip_body)))
       (gzip z text)"

datatype dir_list_status = DIR_LIST_STATUS_INIT | DIR_LIST_STATUS_SEND | DIR_LIST_STATUS_OVER

record remote_reader =
  r_host :: string
  r_port :: int
  r_base_dir :: string
  r_uuid :: string
  http_user_data :: user_data
  attr_list :: "dc_file_attr list"
  get_dir_list_status :: dir_list_status
  sent :: "http_request list"

definition task_url :: "remote_reader \<Rightarrow> string" where
  "task_url r = ''http://'' @ r_host r @ '':'' @ show_int (r_port r) @ ''/internal/dir/task/'' @ r_uuid r"

definition remote_do_dir_list_attr :: "'z zlib \<Rightarrow> (json \<Rightarrow> string) \<Rightarrow> string list \<Rightarrow> dc_file_attr list \<Rightarrow> remote_reader \<Rightarrow>
    (dc_common_code \<times> remote_reader) run" where
  "remote_do_dir_list_attr z dump dirs attrs r =
     run_then (Some (json_sets [(''uuid'', JStr (r_uuid r)), (''base_dir'', JStr (r_base_dir r)),
         (''dirs'', JArr (map JStr dirs))] JNull)) (\<lambda>j.
       run_then (http_post_task z (task_url r) (dump j)) (\<lambda>req.
         done_with (S_SUCCESS,
           r\<lparr>attr_list := attrs, sent := sent r @ [req], get_dir_list_status := DIR_LIST_STATUS_INIT\<rparr>)))"

definition send_get :: "remote_reader \<Rightarrow> remote_reader" where
  "send_get r = r\<lparr>sent := sent r @ [HttpGet (task_url r)]\<rparr>"

fun item_attr :: "json \<Rightarrow> cpp_error + dc_file_attr" where
  "item_attr item =
     ok_then (json_index ''mode'' item) (\<lambda>(m, item). ok_then (json_string m) (\<lambda>m.
       ok_then (json_index ''owner'' item) (\<lambda>(o', item). ok_then (json_string o') (\<lambda>o'.
         ok_then (json_index ''last_updated'' item) (\<lambda>(l, item). ok_then (json_string l) (\<lambda>l.
           ok_then (json_index ''code'' item) (\<lambda>(c, item). ok_then (json_enum c) (\<lambda>c.
             (case code_cast c of
                None \<Rightarrow> Inl InvalidRead
              | Some c \<Rightarrow>
                  Inr (new_attr\<lparr>f_mode := m, f_owner := o', f_last_updated := l, f_code := c\<rparr>))))))))))"

declare item_attr.simps [simp del]

fun item_loop :: "json list \<Rightarrow> dc_file_attr list \<Rightarrow> cpp_error + dc_file_attr list" where
  "item_loop [] attrs = Inr attrs"
| "item_loop (item # items) attrs = ok_then (item_attr item) (\<lambda>a. item_loop items (attrs @ [a]))"

text \<open>The answer to a successful \<^verbatim>\<open>get\<close>: the code it carries, and on success the attributes.\<close>

definition read_answer :: "json \<Rightarrow> remote_reader \<Rightarrow> cpp_error + dc_common_code \<times> remote_reader" where
  "read_answer j r =
     (case json_find j ''error'' of
        None \<Rightarrow> Inl AssertFailed
      | Some e \<Rightarrow>
          ok_then (json_string e) (\<lambda>error. ok_then (stoi error) (\<lambda>n.
            (case code_cast n of
               None \<Rightarrow> Inl InvalidRead
             | Some code \<Rightarrow>
                 if code \<noteq> S_SUCCESS then Inr (code, r)
                 else if json_find j ''result'' = None \<or> json_find j ''uuid'' \<noteq> Some (JStr (r_uuid r)) then Inl AssertFailed
                 else
                   ok_then (item_loop (json_items (the (json_find j ''result''))) (attr_list r)) (\<lambda>attrs.
                     Inr (S_SUCCESS, r\<lparr>attr_list := attrs, get_dir_list_status := DIR_LIST_STATUS_OVER\<rparr>))))))"

definition remote_get_dir_list_attr :: "(string \<Rightarrow> json option) \<Rightarrow> remote_reader \<Rightarrow>
    cpp_error + dc_common_code \<times> remote_reader" where
  "remote_get_dir_list_attr parse r =
     (case get_dir_list_status r of
        DIR_LIST_STATUS_OVER \<Rightarrow> Inl AssertFailed
      | st \<Rightarrow>
          (case read_once (out_q (http_user_data r)) of
             (None, q) \<Rightarrow> Inr (E_DC_CONTENT_RETRY, r)
           | (Some n, q) \<Rightarrow>
               (let r = r\<lparr>http_user_data := (http_user_data r)\<lparr>out_q := q\<rparr>\<rparr> in
                (case code_cast n of
                   None \<Rightarrow> Inl InvalidRead
                 | Some ret \<Rightarrow>
                     if st = DIR_LIST_STATUS_INIT then
                       (if ret \<noteq> S_SUCCESS then Inr (ret, r)
                        else Inr (E_DC_CONTENT_RETRY, (send_get r)\<lparr>get_dir_list_status := DIR_LIST_STATUS_SEND\<rparr>))
                     else if ret = E_DC_CONTENT_RETRY then Inr (E_DC_CONTENT_RETRY, send_get r)
                     else if ret \<noteq> S_SUCCESS then Inr (ret, r)
                     else
                       (case parse (get_resp_body (http_user_data r)) of
                          None \<Rightarrow> Inl JsonParseError
                        | Some j \<Rightarrow> read_answer j r)))))"

section \<open>Both sides read a directory alike\<close>

lemma task_dir_attr_eq: "task_dir_attr os d = dir_attr_of os d"
  by (auto simp: task_dir_attr_def dir_attr_of_def new_attr_def Let_def split: option.splits prod.splits)

lemma task_dir_loop_eq: "task_dir_loop os (map JStr dirs) attrs = dir_attr_loop os dirs attrs"
  by (induction dirs arbitrary: attrs) (auto simp: task_dir_attr_eq ok_then_def split: sum.split)

text \<open>
  The serving side computes for a list of directories what the local reader computes for
  it: the two programs of the comparison agree on every directory, also on the errors and on what
  aborts.
\<close>

theorem serving_side_reads_alike:
  "task_dir_loop os (map JStr dirs) attrs =
     (case thd_worker_dir_list_attr os (r\<lparr>dir_list := dirs, dir_attr_list := attrs\<rparr>) of
        Inl e \<Rightarrow> Inl e | Inr (code, r) \<Rightarrow> Inr (dir_attr_list r))"
  by (simp add: task_dir_loop_eq thd_worker_dir_list_attr_def split: sum.split)

section \<open>The worker and the clients of the executor\<close>

text \<open>
  Clients add tasks and ask for results while the worker picks a task, works on it outside the mutex
  and marks it as over. \<open>running\<close> is the address of the reference the worker holds.
\<close>

record exec_conf =
  exec :: executor
  running :: "nat option"

inductive exec_step :: "(string \<Rightarrow> 'f os option) \<Rightarrow> exec_conf \<Rightarrow> exec_conf \<Rightarrow> bool" for chdir where
  client_add: "exec_step chdir c (c\<lparr>exec := ex_add (new_internal_task uuid j) (exec c)\<rparr>)"
| client_get: "ex_get uuid j (exec c) = (code, j', e) \<Longrightarrow> exec_step chdir c (c\<lparr>exec := e\<rparr>)"
| worker_pick: "running c = None \<Longrightarrow> thd_worker_pick_task_to_run (exec c) = Some (Inr (a, e)) \<Longrightarrow>
    exec_step chdir c (c\<lparr>exec := e, running := Some a\<rparr>)"
| worker_done: "running c = Some a \<Longrightarrow> map_of (task_list (exec c)) a = Some t \<Longrightarrow>
    thd_worker_task_dir_attr_list chdir t = Inr t' \<Longrightarrow>
    exec_step chdir c (c\<lparr>exec := (exec c)\<lparr>task_list := map (\<lambda>(b, s). if b = a then (b, t') else (b, s)) (task_list (exec c))\<rparr>,
      running := None\<rparr>)"

inductive_cases exec_stepE: "exec_step chdir c c'"

inductive exec_reach :: "(string \<Rightarrow> 'f os option) \<Rightarrow> exec_conf \<Rightarrow> bool" for chdir where
  exec_start: "exec_reach chdir \<lparr>exec = new_executor, running = None\<rparr>"
| exec_next: "exec_reach chdir c \<Longrightarrow> exec_step chdir c c' \<Longrightarrow> exec_reach chdir c'"

text \<open>What is true of a task in the list: it is being worked on exactly when the worker holds it,
  and when it is over it has the result of the work.\<close>

definition task_ok :: "(string \<Rightarrow> 'f os option) \<Rightarrow> nat option \<Rightarrow> nat \<times> internal_task \<Rightarrow> bool" where
  "task_ok chdir run = (\<lambda>(a, t).
     (i_task_status t = T_TASK_INIT \<or> i_task_status t = T_TASK_RUNNING \<or> i_task_status t = T_TASK_OVER) \<and>
     (i_task_status t = T_TASK_RUNNING \<longleftrightarrow> run = Some a) \<and>
     (i_task_status t \<noteq> T_TASK_OVER \<longrightarrow> i_out_json t = JNull) \<and>
     (i_task_status t = T_TASK_OVER \<longrightarrow>
        thd_worker_task_dir_attr_list chdir (t\<lparr>i_task_status := T_TASK_RUNNING, i_out_json := JNull\<rparr>) = Inr t))"

definition exec_ok :: "(string \<Rightarrow> 'f os option) \<Rightarrow> exec_conf \<Rightarrow> bool" where
  "exec_ok chdir c \<longleftrightarrow>
     distinct (map fst (task_list (exec c))) \<and> (\<forall>x \<in> set (task_list (exec c)). fst x < next_addr (exec c)) \<and>
     list_all (task_ok chdir (running c)) (task_list (exec c)) \<and>
     (case running c of None \<Rightarrow> True | Some a \<Rightarrow> a \<in> fst ` set (task_list (exec c)))"

lemma get_loop_kept:
  "get_loop uuid j ts = (code, j', ts') \<Longrightarrow>
     (\<exists>xs ys. ts = xs @ ys \<and> (\<forall>x \<in> set xs. i_uuid (snd x) \<noteq> uuid) \<and>
       (code = E_NOT_FOUND \<and> ys = [] \<and> j' = j \<and> ts' = ts \<or>
        (\<exists>a t zs. ys = (a, t) # zs \<and> i_uuid t = uuid \<and>
          (if i_task_status t = T_TASK_OVER then code = S_SUCCESS \<and> j' = i_out_json t \<and> ts' = xs @ zs
           else code = E_DC_CONTENT_RETRY \<and> j' = j \<and> ts' = ts))))"
proof (induction uuid j ts arbitrary: code j' ts' rule: get_loop.induct)
  case (2 uuid j a t ts)
  show ?case
  proof (cases "i_uuid t = uuid")
    case True
    then show ?thesis using "2.prems" by (intro exI [of _ "[]"] exI [of _ "(a, t) # ts"]) (auto split: if_splits)
  next
    case False
    then obtain ts0 where ts0: "get_loop uuid j ts = (code, j', ts0)" "ts' = (a, t) # ts0"
      using "2.prems" by (auto split: prod.splits)
    from "2.IH" [OF False this(1)] obtain xs ys where xy: "ts = xs @ ys" "\<forall>x \<in> set xs. i_uuid (snd x) \<noteq> uuid"
      "code = E_NOT_FOUND \<and> ys = [] \<and> j' = j \<and> ts0 = ts \<or>
        (\<exists>a t zs. ys = (a, t) # zs \<and> i_uuid t = uuid \<and>
          (if i_task_status t = T_TASK_OVER then code = S_SUCCESS \<and> j' = i_out_json t \<and> ts0 = xs @ zs
           else code = E_DC_CONTENT_RETRY \<and> j' = j \<and> ts0 = ts))" by blast
    then show ?thesis using False ts0(2)
      by (intro exI [of _ "(a, t) # xs"] exI [of _ ys]) (auto split: if_splits)
  qed
qed simp

lemma pick_loop_picks:
  "pick_loop ts = Some (a, ts') \<Longrightarrow>
     \<exists>xs t ys. ts = xs @ (a, t) # ys \<and> ts' = xs @ (a, t\<lparr>i_task_status := T_TASK_RUNNING\<rparr>) # ys \<and>
       i_task_status t = T_TASK_INIT \<and> (\<forall>x \<in> set xs. i_task_status (snd x) \<noteq> T_TASK_INIT)"
proof (induction ts arbitrary: ts' rule: pick_loop.induct)
  case (2 b t ts)
  show ?case
  proof (cases "i_task_status t = T_TASK_INIT")
    case True
    then show ?thesis using "2.prems" by (intro exI [of _ "[]"]) auto
  next
    case False
    then obtain ts0 where "pick_loop ts = Some (a, ts0)" "ts' = (b, t) # ts0" using "2.prems" by auto
    then obtain xs s ys where "ts = xs @ (a, s) # ys" "ts0 = xs @ (a, s\<lparr>i_task_status := T_TASK_RUNNING\<rparr>) # ys"
      "i_task_status s = T_TASK_INIT" "\<forall>x \<in> set xs. i_task_status (snd x) \<noteq> T_TASK_INIT" using "2.IH" [OF False] by blast
    then show ?thesis using False \<open>ts' = (b, t) # ts0\<close> by (intro exI [of _ "(b, t) # xs"] exI [of _ s] exI [of _ ys]) auto
  qed
qed simp

lemma worker_result:
  "thd_worker_task_dir_attr_list chdir t = Inr t' \<Longrightarrow>
     i_task_status t = T_TASK_RUNNING \<and> i_task_status t' = T_TASK_OVER \<and> t'\<lparr>i_task_status := T_TASK_RUNNING, i_out_json := i_out_json t\<rparr> = t"
  by (auto simp: thd_worker_task_dir_attr_list_def thd_worker_set_task_over_def Let_def ok_then_Inr
      split: if_splits option.splits)

lemma exec_ok_step:
  assumes "exec_ok chdir c" and "exec_step chdir c c'"
  shows "exec_ok chdir c'"
  using assms(2)
proof cases
  case (client_add uuid j)
  have "next_addr (exec c) \<notin> fst ` set (task_list (exec c))" using assms(1) by (auto simp: exec_ok_def)
  then show ?thesis using assms(1) client_add
    by (auto simp: exec_ok_def ex_add_def task_ok_def new_internal_task_def less_Suc_eq split: option.splits)
next
  case (client_get uuid j code j' e)
  then obtain ts' where g: "get_loop uuid j (task_list (exec c)) = (code, j', ts')" "e = (exec c)\<lparr>task_list := ts'\<rparr>"
    by (auto simp: ex_get_def split: prod.splits)
  have "ts' = task_list (exec c) \<or>
      (\<exists>xs a t zs. task_list (exec c) = xs @ (a, t) # zs \<and> i_task_status t = T_TASK_OVER \<and> ts' = xs @ zs)"
    using get_loop_kept [OF g(1)] by (auto split: if_splits) blast
  then show ?thesis using assms(1) client_get(1) g(2)
    by (auto simp: exec_ok_def task_ok_def split: option.splits)
next
  case (worker_pick a e)
  then obtain ts' where p: "pick_loop (task_list (exec c)) = Some (a, ts')" "e = (exec c)\<lparr>task_list := ts'\<rparr>"
    by (auto simp: thd_worker_pick_task_to_run_def split: if_splits option.splits prod.splits)
  obtain xs t ys where t: "task_list (exec c) = xs @ (a, t) # ys" "ts' = xs @ (a, t\<lparr>i_task_status := T_TASK_RUNNING\<rparr>) # ys"
    "i_task_status t = T_TASK_INIT" using pick_loop_picks [OF p(1)] by blast
  have others: "task_ok chdir (Some a) x" if "x \<in> set xs \<or> x \<in> set ys" for x
  proof -
    have "task_ok chdir None x" "fst x \<noteq> a"
      using assms(1) worker_pick(2) t(1) that by (auto simp: exec_ok_def list_all_iff)
    then show ?thesis by (auto simp: task_ok_def split: prod.splits)
  qed
  have "task_ok chdir None (a, t)" using assms(1) worker_pick(2) t(1) by (auto simp: exec_ok_def)
  then have "task_ok chdir (Some a) (a, t\<lparr>i_task_status := T_TASK_RUNNING\<rparr>)" using t(3) by (simp add: task_ok_def)
  then have "list_all (task_ok chdir (Some a)) ts'" using others t(2) by (auto simp: list_all_iff)
  then show ?thesis using assms(1) worker_pick(1) p(2) t(1,2) by (simp add: exec_ok_def)
next
  case (worker_done a t t')
  have r: "i_task_status t = T_TASK_RUNNING" "i_task_status t' = T_TASK_OVER"
    "t'\<lparr>i_task_status := T_TASK_RUNNING, i_out_json := i_out_json t\<rparr> = t"
    using worker_result [OF worker_done(4)] by auto
  have "(a, t) \<in> set (task_list (exec c))" using map_of_SomeD [OF worker_done(3)] .
  then have "task_ok chdir (Some a) (a, t)" using assms(1) worker_done(2) by (auto simp: exec_ok_def list_all_iff)
  then have "i_out_json t = JNull" using r(1) by (simp add: task_ok_def)
  then have "task_ok chdir None (a, t')" using r worker_done(4) by (simp add: task_ok_def)
  then have "task_ok chdir None (if b = a then (b, t') else (b, s))" if "(b, s) \<in> set (task_list (exec c))" for b s
    using assms(1) worker_done(2) that by (auto simp: exec_ok_def task_ok_def list_all_iff)
  then have "list_all (task_ok chdir None) (map (\<lambda>(b, s). if b = a then (b, t') else (b, s)) (task_list (exec c)))"
    by (auto simp: list_all_iff)
  moreover have f: "fst \<circ> (\<lambda>(b, s). if b = a then (b, t') else (b, s)) = fst"
    by (auto simp: fun_eq_iff)
  ultimately show ?thesis using assms(1) worker_done(1)
    by (auto simp: exec_ok_def f)
qed

lemma exec_ok_reach: "exec_reach chdir c \<Longrightarrow> exec_ok chdir c"
proof (induction rule: exec_reach.induct)
  case exec_start
  then show ?case by (simp add: exec_ok_def new_executor_def)
qed (rule exec_ok_step)

text \<open>
  C28. The reference the worker holds outside the mutex stays valid: whatever clients add and
  take away meanwhile, the task is still in the list, it is the one marked as running, and no other
  is.
\<close>

theorem executor_reference_valid:
  assumes "exec_reach chdir c" and "running c = Some a"
  shows "\<exists>t. map_of (task_list (exec c)) a = Some t \<and> i_task_status t = T_TASK_RUNNING \<and>
    (\<forall>b s. (b, s) \<in> set (task_list (exec c)) \<and> i_task_status s = T_TASK_RUNNING \<longrightarrow> b = a)"
proof -
  have ok: "exec_ok chdir c" using assms(1) by (rule exec_ok_reach)
  then obtain t where t: "(a, t) \<in> set (task_list (exec c))" using assms(2) by (auto simp: exec_ok_def)
  then have "map_of (task_list (exec c)) a = Some t" using ok by (simp add: exec_ok_def)
  then show ?thesis using ok t assms(2) by (auto simp: exec_ok_def task_ok_def list_all_iff)
qed

text \<open>A system in which every directory is readable, and a task for one.\<close>

definition one_dir_os :: "string os" where
  "one_dir_os = demo_os\<lparr>os_stat := \<lambda>_. Some \<lparr>st_kind = Directory, st_size = 0, st_mode = 493, st_uid = 0, st_mtime = 0\<rparr>,
     os_getpwuid := \<lambda>_. (Some ''root'', 0), os_time := \<lambda>_. Some ''now''\<rparr>"

definition one_dir_json :: json where
  "one_dir_json = JObj [(''base_dir'', JStr ''/b''), (''dirs'', JArr [JStr ''d'']), (''uuid'', JStr ''u'')]"

definition one_task :: exec_conf where
  "one_task = \<lparr>exec = ex_add (new_internal_task ''u'' one_dir_json) new_executor, running = None\<rparr>"

lemma one_task_reach: "exec_reach chdir one_task"
  using exec_next [OF exec_start client_add] by (simp add: one_task_def)

definition picked_task :: exec_conf where
  "picked_task = \<lparr>exec = \<lparr>task_list = [(0, (new_internal_task ''u'' one_dir_json)\<lparr>i_task_status := T_TASK_RUNNING\<rparr>)],
     next_addr = 1\<rparr>, running = Some 0\<rparr>"

lemma picked_task_reach: "exec_reach chdir picked_task"
proof -
  have "thd_worker_pick_task_to_run (exec one_task) = Some (Inr (0, exec picked_task))"
    by (simp add: one_task_def picked_task_def new_executor_def ex_add_def thd_worker_pick_task_to_run_def
        thd_worker_has_task_to_run_def new_internal_task_def)
  then have "exec_step chdir one_task (one_task\<lparr>exec := exec picked_task, running := Some 0\<rparr>)"
    by (intro worker_pick) (simp_all add: one_task_def)
  then show ?thesis using exec_next [OF one_task_reach] by (simp add: one_task_def picked_task_def)
qed

theorem executor_reference_valid_witness:
  "\<exists>t. map_of (task_list (exec picked_task)) 0 = Some t \<and> i_task_status t = T_TASK_RUNNING"
  using executor_reference_valid [OF picked_task_reach [of "\<lambda>_. Some one_dir_os"]] by (auto simp: picked_task_def)

text \<open>
  C29. Every answer of the executor is right: success comes with the result of the work on a task
  that was added under the uuid, and takes that task off the list, so that it is handed out once;
  a retry means that the first task of that uuid is not over; not found means that there is none. In
  the last two cases nothing changes.
\<close>

theorem executor_answers:
  assumes "exec_reach chdir c" and "ex_get uuid j (exec c) = (code, j', e)"
  shows "(code = S_SUCCESS \<and>
      (\<exists>xs a t zs. task_list (exec c) = xs @ (a, t) # zs \<and> task_list e = xs @ zs \<and> i_uuid t = uuid \<and> j' = i_out_json t \<and>
         thd_worker_task_dir_attr_list chdir ((new_internal_task uuid (i_json t))\<lparr>i_task_status := T_TASK_RUNNING\<rparr>) = Inr t)) \<or>
    (code = E_DC_CONTENT_RETRY \<and> e = exec c \<and> j' = j \<and>
      (\<exists>a t. (a, t) \<in> set (task_list (exec c)) \<and> i_uuid t = uuid \<and> i_task_status t \<noteq> T_TASK_OVER)) \<or>
    (code = E_NOT_FOUND \<and> e = exec c \<and> j' = j \<and> (\<forall>x \<in> set (task_list (exec c)). i_uuid (snd x) \<noteq> uuid))"
proof -
  from assms(2) obtain ts' where g: "get_loop uuid j (task_list (exec c)) = (code, j', ts')" "e = (exec c)\<lparr>task_list := ts'\<rparr>"
    by (auto simp: ex_get_def split: prod.splits)
  have ok: "exec_ok chdir c" using assms(1) by (rule exec_ok_reach)
  obtain xs ys where xy: "task_list (exec c) = xs @ ys" "\<forall>x \<in> set xs. i_uuid (snd x) \<noteq> uuid"
    "code = E_NOT_FOUND \<and> ys = [] \<and> j' = j \<and> ts' = task_list (exec c) \<or>
      (\<exists>a t zs. ys = (a, t) # zs \<and> i_uuid t = uuid \<and>
        (if i_task_status t = T_TASK_OVER then code = S_SUCCESS \<and> j' = i_out_json t \<and> ts' = xs @ zs
         else code = E_DC_CONTENT_RETRY \<and> j' = j \<and> ts' = task_list (exec c)))"
    using get_loop_kept [OF g(1)] by blast
  from xy(3) show ?thesis
  proof (elim disjE exE conjE)
    fix a t zs
    assume ys: "ys = (a, t) # zs" "i_uuid t = uuid"
      and r: "if i_task_status t = T_TASK_OVER then code = S_SUCCESS \<and> j' = i_out_json t \<and> ts' = xs @ zs
         else code = E_DC_CONTENT_RETRY \<and> j' = j \<and> ts' = task_list (exec c)"
    have "task_ok chdir (running c) (a, t)" using ok xy(1) ys(1) by (simp add: exec_ok_def)
    moreover have "(new_internal_task uuid (i_json t))\<lparr>i_task_status := T_TASK_RUNNING\<rparr> =
        t\<lparr>i_task_status := T_TASK_RUNNING, i_out_json := JNull\<rparr>" using ys(2) by (simp add: new_internal_task_def)
    moreover note t = calculation
    show ?thesis
    proof (cases "i_task_status t = T_TASK_OVER")
      case True
      then have "thd_worker_task_dir_attr_list chdir ((new_internal_task uuid (i_json t))\<lparr>i_task_status := T_TASK_RUNNING\<rparr>) = Inr t"
        using t by (simp add: task_ok_def)
      then show ?thesis using True r xy(1) ys g(2)
        by (intro disjI1 conjI exI [of _ xs] exI [of _ a] exI [of _ t] exI [of _ zs]) simp_all
    next
      case False
      then have "code = E_DC_CONTENT_RETRY \<and> e = exec c \<and> j' = j" using r g(2) by simp
      then show ?thesis using False xy(1) ys by auto
    qed
  qed (use xy g(2) in auto)
qed

theorem executor_answers_witness:
  "fst (ex_get ''u'' JNull (exec picked_task)) = E_DC_CONTENT_RETRY \<and> fst (ex_get ''v'' JNull (exec picked_task)) = E_NOT_FOUND"
proof -
  have p: "exec_reach (\<lambda>_. Some one_dir_os) picked_task" by (rule picked_task_reach)
  obtain c1 j1 e1 c2 j2 e2 where g: "ex_get ''u'' JNull (exec picked_task) = (c1, j1, e1)"
    "ex_get ''v'' JNull (exec picked_task) = (c2, j2, e2)" by (metis prod_cases3)
  then show ?thesis
    using executor_answers [OF p g(1)] executor_answers [OF p g(2)]
    by (auto simp: picked_task_def new_internal_task_def Cons_eq_append_conv dest!: worker_result)
qed

section \<open>The two sides do not understand each other\<close>

lemma push_at_find:
  assumes "json_ok j" and "json_push_at k v j = Inr j'"
  shows "json_ok j' \<and> (\<forall>k'. k' \<noteq> k \<longrightarrow> json_find j' k' = json_find j k')"
proof -
  from assms(2) obtain x j1 y where i: "json_index k j = Inr (x, j1)" and s: "json_set k y j1 = Inr j'"
    by (auto simp: json_push_at_def ok_then_Inr)
  have "json_ok j1 \<and> (\<forall>k'. k' \<noteq> k \<longrightarrow> json_find j1 k' = json_find j k')"
  proof (cases j)
    case (JObj m)
    then show ?thesis
      using assms(1) i str_map.insert_sorted [of m k JNull] by (auto simp: json_ok_def str_map_get split: option.splits)
  qed (use assms(1) i in \<open>auto simp: json_ok_def\<close>)
  then show ?thesis using json_set_ok [of j1 k y] s by auto
qed

lemma dirs_to_json_find:
  "json_ok j \<Longrightarrow> dirs_to_json as j = Inr j' \<Longrightarrow> k \<noteq> ''dirs'' \<Longrightarrow> json_find j' k = json_find j k"
proof (induction as arbitrary: j)
  case (Cons a as)
  then obtain x j1 where "json_push_at ''dirs'' x j = Inr j1" "dirs_to_json as j1 = Inr j'"
    by (auto simp: ok_then_Inr)
  then show ?case using Cons.IH [of j1] Cons.prems push_at_find [OF Cons.prems(1)] by auto
qed simp

lemma sets_find:
  "json_sets kvs JNull = Inr j \<Longrightarrow> json_find j k = fold (\<lambda>(k', v) r. if k' = k then Some v else r) kvs None"
  using json_sets_ok [of JNull kvs] by (auto simp: json_ok_def)

lemma sets_ok: "json_sets kvs JNull = Inr j \<Longrightarrow> json_ok j"
  using json_sets_ok [of JNull kvs] by (auto simp: json_ok_def)

lemma work_error_number:
  assumes "thd_worker_task_dir_attr_list chdir t = Inr t'" and "i_out_json t = JNull"
  shows "\<exists>n. json_find (i_out_json t') ''error'' = Some (JInt n) \<and> json_find (i_out_json t') ''result'' = None"
proof -
  define out where "out = i_out_json t"
  have nice: "\<exists>n. json_find out' ''error'' = Some (JInt n) \<and> json_find out' ''result'' = None"
    if "json_sets [(''error'', json_code E_OS_ENV_CHDIR), (''uuid'', u)] JNull = Inr out'" for u out'
    using that by (simp add: sets_find [OF that] json_code_def del: json_sets.simps)
  have nice': "\<exists>n. json_find out'' ''error'' = Some (JInt n) \<and> json_find out'' ''result'' = None"
    if "json_sets [(''uuid'', u), (''error'', json_code S_SUCCESS)] JNull = Inr out'" "dirs_to_json attrs out' = Inr out''"
    for u out' attrs out''
    using that dirs_to_json_find [OF sets_ok [OF that(1)] that(2)]
    by (simp add: sets_find [OF that(1)] json_code_def del: json_sets.simps)
  have "out = JNull" using assms(2) by (simp add: out_def)
  then show ?thesis
    using assms(1) unfolding thd_worker_task_dir_attr_list_def thd_worker_set_task_over_def Let_def out_def [symmetric]
    by (auto simp: ok_then_Inr simp del: json_sets.simps dirs_to_json.simps split: if_splits option.splits)
      (use nice nice' in blast)+
qed

text \<open>
  C30. The exchange cannot succeed. Whatever the serving side answers, to a posted task or to a
  question for a result, success or error, the code is a number under \<^verbatim>\<open>error\<close>; both callbacks of the asking
  side want a string there, and throw. A result would also be missing: the asking side looks for
  \<^verbatim>\<open>result\<close>, and the serving side writes \<^verbatim>\<open>dirs\<close>.
\<close>

theorem internal_replies_rejected:
  assumes "exec_reach chdir c"
    and "handle_internal_get uuid is_json (exec c) = Inr (j, e) \<or> handle_internal_post parse uuid is_json text (exec c) = Inr (j, e)"
  shows "reply_code j = Inl JsonTypeError \<and> json_find j ''result'' = None"
proof -
  have "\<exists>n. json_find j ''error'' = Some (JInt n) \<and> json_find j ''result'' = None"
    using assms(2)
  proof
    assume "handle_internal_get uuid is_json (exec c) = Inr (j, e)"
    moreover obtain code j' e' where g: "ex_get uuid JNull (exec c) = (code, j', e')" by (metis prod_cases3)
    moreover have "code = S_SUCCESS \<Longrightarrow> \<exists>n. json_find j' ''error'' = Some (JInt n) \<and> json_find j' ''result'' = None"
    proof -
      assume "code = S_SUCCESS"
      from g obtain ts' where gl: "get_loop uuid JNull (task_list (exec c)) = (code, j', ts')"
        by (auto simp: ex_get_def split: prod.splits)
      from get_loop_kept [OF gl] \<open>code = S_SUCCESS\<close> obtain a t where t: "(a, t) \<in> set (task_list (exec c))"
        "i_task_status t = T_TASK_OVER" "j' = i_out_json t" by (auto split: if_splits)
      then have "task_ok chdir (running c) (a, t)" using exec_ok_reach [OF assms(1)] by (auto simp: exec_ok_def list_all_iff)
      then show ?thesis using t work_error_number by (fastforce simp: task_ok_def)
    qed
    ultimately show ?thesis
      by (auto simp: handle_internal_get_def ok_then_Inr sets_find json_code_def split: if_splits)
  next
    assume "handle_internal_post parse uuid is_json text (exec c) = Inr (j, e)"
    then show ?thesis
      by (auto simp: handle_internal_post_def reply_error_def ok_then_Inr sets_find json_code_def
          split: if_splits option.splits)
  qed
  then show ?thesis by (auto simp: reply_code_def)
qed

theorem internal_replies_rejected_witness:
  "\<exists>j e. handle_internal_get ''u'' True (exec picked_task) = Inr (j, e) \<and> reply_code j = Inl JsonTypeError"
proof -
  obtain j e where h: "handle_internal_get ''u'' True (exec picked_task) = Inr (j, e)"
    by (auto simp: handle_internal_get_def ex_get_def picked_task_def new_internal_task_def)
  then show ?thesis using internal_replies_rejected [OF picked_task_reach [of "\<lambda>_. Some one_dir_os"]] by blast
qed

end
