(* ===== verification/C_Double.thy ===== *)
theory C_Double
  imports Prelude Complex_Main "HOL-Library.Log_Nat"
begin

text \<open>
  What the code uses of the C type \<^verbatim>\<open>double\<close>: the values of binary64 as rational numbers,
  infinities and NaN (the sign of a zero is not kept: nothing modelled here shows it), rounding to
  nearest with ties to even, the conversions to integers, \<^verbatim>\<open>strtod\<close> on the characters a JSON number
  is made of, and the conversion \<^verbatim>\<open>%g\<close> of \<^verbatim>\<open>printf\<close>.
\<close>

section \<open>Values\<close>

datatype c_double = Finite rat | Infinite bool \<comment> \<open>negative\<close> | Not_a_number

definition INT_MAX :: int where
  "INT_MAX = 2147483647"

definition INT_MIN :: int where
  "INT_MIN = - 2147483648"

lemmas int_limits = INT_MAX_def INT_MIN_def

text \<open>The comparisons of the language: every one with a NaN is false.\<close>

fun dbl_le :: "c_double \<Rightarrow> c_double \<Rightarrow> bool" where
  "dbl_le Not_a_number _ = False"
| "dbl_le _ Not_a_number = False"
| "dbl_le (Infinite True) _ = True"
| "dbl_le _ (Infinite False) = True"
| "dbl_le (Infinite False) (Finite _) = False"
| "dbl_le (Infinite False) (Infinite True) = False"
| "dbl_le (Finite _) (Infinite True) = False"
| "dbl_le (Finite x) (Finite y) = (x \<le> y)"

definition dbl_eq :: "c_double \<Rightarrow> c_double \<Rightarrow> bool" where
  "dbl_eq x y \<longleftrightarrow> dbl_le x y \<and> dbl_le y x"

definition isnan :: "c_double \<Rightarrow> bool" where
  "isnan d \<longleftrightarrow> \<not> dbl_eq d d"

definition isinf :: "c_double \<Rightarrow> bool" where
  "isinf d \<longleftrightarrow> (case d of Infinite _ \<Rightarrow> True | _ \<Rightarrow> False)"

section \<open>Rounding\<close>

text \<open>The exponent of the leading digit of a positive number to the base \<open>b\<close>.\<close>

definition ilog :: "nat \<Rightarrow> rat \<Rightarrow> int" where
  "ilog b v =
     (case quotient_of v of (p, q) \<Rightarrow>
        let k = int (floorlog b (nat p)) - int (floorlog b (nat q))
        in if of_nat b powi k \<le> v then k else k - 1)"

definition round_half_even :: "rat \<Rightarrow> int" where
  "round_half_even x =
     (let f = \<lfloor>x\<rfloor>; d = x - of_int f
      in if d < 1 / 2 then f else if 1 / 2 < d then f + 1 else if even f then f else f + 1)"

text \<open>Fifty-three bits of precision, no exponent below that of the subnormal numbers.\<close>

definition dbl_limit :: rat where
  "dbl_limit = 2 powi 1024"

definition dbl_tiny :: rat where
  "dbl_tiny = 2 powi (- 1074)"

definition round_pos :: "rat \<Rightarrow> c_double" where
  "round_pos v =
     (let e = max (ilog 2 v - 52) (- 1074);
          r = of_int (round_half_even (v / 2 powi e)) * 2 powi e
      in if dbl_limit \<le> r then Infinite False else Finite r)"

fun dbl_neg :: "c_double \<Rightarrow> c_double" where
  "dbl_neg (Finite x) = Finite (- x)"
| "dbl_neg (Infinite s) = Infinite (\<not> s)"
| "dbl_neg Not_a_number = Not_a_number"

definition to_double :: "rat \<Rightarrow> c_double" where
  "to_double v = (if v = 0 then Finite 0 else if 0 < v then round_pos v else dbl_neg (round_pos (- v)))"

section \<open>Conversion to integers\<close>

text \<open>Towards zero; the value of a number that does not fit is not defined.\<close>

definition trunc :: "rat \<Rightarrow> int" where
  "trunc x = (if 0 \<le> x then \<lfloor>x\<rfloor> else \<lceil>x\<rceil>)"

section \<open>Reading a number\<close>

text \<open>The digits after an optional radix character.\<close>

definition frac_digits :: "string \<Rightarrow> string \<times> string" where
  "frac_digits s =
     (case s of c # cs \<Rightarrow> if c = CHR ''.'' then (takeWhile isdigit cs, dropWhile isdigit cs) else ([], s)
      | [] \<Rightarrow> ([], []))"

definition split_sign :: "string \<Rightarrow> bool \<times> string" where
  "split_sign s =
     (case s of c # cs \<Rightarrow> if c = CHR ''-'' then (True, cs) else if c = CHR ''+'' then (False, cs) else (False, s)
      | [] \<Rightarrow> (False, []))"

text \<open>An exponent part, which needs a digit: otherwise the number ends in front of it.\<close>

definition exp_part :: "string \<Rightarrow> int \<times> string" where
  "exp_part s =
     (case s of
        c # cs \<Rightarrow>
          if c = CHR ''e'' \<or> c = CHR ''E'' then
            (case split_sign cs of (neg, ds) \<Rightarrow>
               case takeWhile isdigit ds of
                 [] \<Rightarrow> (0, s)
               | xs \<Rightarrow> ((if neg then - int (read_digits 0 xs) else int (read_digits 0 xs)), dropWhile isdigit ds))
          else (0, s)
      | [] \<Rightarrow> (0, []))"

text \<open>
  \<^verbatim>\<open>strtod\<close> on a text without blanks and without the letters of the other forms it reads
  (hexadecimal numbers, infinities): the value and how many characters were read, none when there
  is no number.
\<close>

definition strtod :: "string \<Rightarrow> c_double \<times> nat" where
  "strtod s =
     (case split_sign s of (neg, r) \<Rightarrow>
        let ds = takeWhile isdigit r in
        case frac_digits (dropWhile isdigit r) of (fs, r2) \<Rightarrow>
          if ds = [] \<and> fs = [] then (Finite 0, 0)
          else
            (case exp_part r2 of (x, r3) \<Rightarrow>
               let v = of_nat (read_digits 0 (ds @ fs)) * 10 powi (x - int (length fs))
               in (to_double (if neg then - v else v), length s - length r3)))"

section \<open>Printing a number\<close>

text \<open>The digits of a positive number to \<open>p\<close> significant places, with the exponent of the first.\<close>

definition sig_digits :: "nat \<Rightarrow> rat \<Rightarrow> nat \<times> int" where
  "sig_digits p v =
     (let x = ilog 10 v; n = nat (round_half_even (v / 10 powi (x + 1 - int p)))
      in if n = 10 ^ p then (10 ^ (p - 1), x + 1) else (n, x))"

definition rstrip_zeros :: "string \<Rightarrow> string" where
  "rstrip_zeros s = rev (dropWhile (\<lambda>c. c = CHR ''0'') (rev s))"

definition with_point :: "string \<Rightarrow> string \<Rightarrow> string" where
  "with_point a b = (let b' = rstrip_zeros b in if b' = [] then a else a @ ''.'' @ b')"

definition show_exp :: "int \<Rightarrow> string" where
  "show_exp x =
     (if x < 0 then ''e-'' else ''e+'') @ (if \<bar>x\<bar> < 10 then ''0'' else []) @ show_nat (nat \<bar>x\<bar>)"

text \<open>\<^verbatim>\<open>printf ("%1.<p>g", v)\<close>.\<close>

definition printf_g :: "nat \<Rightarrow> rat \<Rightarrow> string" where
  "printf_g p v =
     (if v = 0 then ''0''
      else
        (case sig_digits p \<bar>v\<bar> of (n, x) \<Rightarrow>
           let ds = show_nat n in
           (if v < 0 then ''-'' else []) @
           (if x < - 4 \<or> int p \<le> x then with_point (take 1 ds) (drop 1 ds) @ show_exp x
            else if x < 0 then with_point ''0'' (replicate (nat (- x - 1)) (CHR ''0'') @ ds)
            else with_point (take (nat x + 1) ds) (drop (nat x + 1) ds))))"

section \<open>What rounding does\<close>

lemma quotient_pos:
  assumes "0 < v" "quotient_of v = (p, q)"
  shows "0 < p" "0 < q" "v = of_int p / of_int q"
proof -
  show q: "0 < q" using quotient_of_denom_pos [OF assms(2)] .
  show v: "v = of_int p / of_int q" by (rule quotient_of_div [OF assms(2)])
  show "0 < p" using assms(1) q unfolding v by (simp add: zero_less_divide_iff)
qed

lemma floorlog_rat:
  assumes "0 < n" "1 < b"
  shows "(of_nat b :: rat) powi (int (floorlog b n) - 1) \<le> of_nat n" "(of_nat n :: rat) < of_nat b powi int (floorlog b n)"
proof -
  note fb = floorlog_bounds [OF assms]
  have pos: "0 < floorlog b n" using assms by (simp add: floorlog_def)
  have "(of_nat b :: rat) powi (int (floorlog b n) - 1) = of_nat (b ^ (floorlog b n - 1))"
    using pos by (simp add: of_nat_diff [symmetric] power_int_def nat_diff_distrib)
  also have "\<dots> \<le> of_nat n" using fb by (simp only: of_nat_le_iff)
  finally show "(of_nat b :: rat) powi (int (floorlog b n) - 1) \<le> of_nat n" .
  have "(of_nat n :: rat) < of_nat (b ^ floorlog b n)" using fb by (simp only: of_nat_less_iff)
  then show "(of_nat n :: rat) < of_nat b powi int (floorlog b n)" by simp
qed

lemma powi_quotients:
  "0 < (b :: rat) \<Longrightarrow> b powi x / b powi (y - 1) = b powi (x - y + 1)"
  "0 < b \<Longrightarrow> b powi (x - 1) / b powi y = b powi (x - y - 1)"
  by (simp_all add: power_int_diff [symmetric] algebra_simps)

lemma ilog_bounds:
  assumes "0 < v" "1 < b"
  shows "of_nat b powi ilog b v \<le> v \<and> v < of_nat b powi (ilog b v + 1)"
proof -
  obtain p q where qo: "quotient_of v = (p, q)" by (cases "quotient_of v")
  note pq = quotient_pos [OF assms(1) qo]
  let ?b = "of_nat b :: rat" and ?a = "int (floorlog b (nat p))" and ?c = "int (floorlog b (nat q))"
  have b0: "0 < ?b" using assms(2) by simp
  have P: "?b powi (?a - 1) \<le> of_int p" "of_int p < ?b powi ?a"
    using floorlog_rat [of "nat p" b] pq assms(2) by simp_all
  have Q: "?b powi (?c - 1) \<le> of_int q" "of_int q < ?b powi ?c"
    using floorlog_rat [of "nat q" b] pq assms(2) by simp_all
  have q0: "0 < (of_int q :: rat)" using pq by simp
  have "v < ?b powi ?a / ?b powi (?c - 1)"
    unfolding pq(3) by (rule frac_less) (use P Q pq b0 in auto)
  then have hi: "v < ?b powi (?a - ?c + 1)" by (simp only: powi_quotients(1) [OF b0])
  have "?b powi (?a - 1) / ?b powi ?c < v"
    unfolding pq(3) by (rule frac_less2) (use P Q pq b0 in auto)
  then have lo: "?b powi (?a - ?c - 1) \<le> v" by (simp only: powi_quotients(2) [OF b0] less_imp_le)
  show ?thesis
    using hi lo by (simp add: ilog_def qo Let_def)
qed

lemma round_half_even_int [simp]: "round_half_even (of_int n) = n"
  by (simp add: round_half_even_def)

lemma round_half_even_nearest: "\<bar>of_int (round_half_even x) - x\<bar> \<le> 1 / 2"
proof -
  have "of_int \<lfloor>x\<rfloor> \<le> x" "x < of_int \<lfloor>x\<rfloor> + 1" by linarith+
  then show ?thesis by (auto simp: round_half_even_def Let_def)
qed

text \<open>An integer below 2^53 is a value of the type.\<close>

lemma scaled_int:
  assumes "e \<le> 0"
  shows "(of_int n :: rat) / 2 powi e = of_int (n * 2 ^ nat (- e))"
    "of_int (n * 2 ^ nat (- e)) * (2 :: rat) powi e = of_int n"
proof -
  obtain k where k: "e = - int k" using assms by (metis nonpos_int_cases)
  show "(of_int n :: rat) / 2 powi e = of_int (n * 2 ^ nat (- e))"
    "of_int (n * 2 ^ nat (- e)) * (2 :: rat) powi e = of_int n"
    unfolding k by (simp_all add: power_int_minus divide_inverse)
qed

lemma round_pos_int:
  assumes "0 < n" "n < 2 ^ 53"
  shows "round_pos (of_int n) = Finite (of_int n)"
proof -
  let ?e = "max (ilog 2 (of_int n) - 52) (- 1074)"
  have b: "(2 :: rat) powi ilog 2 (of_int n) \<le> of_int n" "of_int n < (2 :: rat) powi (ilog 2 (of_int n) + 1)"
    using ilog_bounds [of "of_int n" 2] assms by simp_all
  have "(of_int n :: rat) < of_int (2 ^ 53)" using assms(2) by (simp only: of_int_less_iff)
  then have lt: "(of_int n :: rat) < 2 ^ 53" by simp
  have "(2 :: rat) powi ilog 2 (of_int n) < 2 powi 53"
    using le_less_trans [OF b(1) lt] by simp
  then have "ilog 2 (of_int n) < 53" using power_int_increasing [of 53 "ilog 2 (of_int n)" "2 :: rat"] by (meson leD leI one_le_numeral)
  then have e: "?e \<le> 0" by simp
  have r: "round_half_even (of_int n / 2 powi ?e) = n * 2 ^ nat (- ?e)"
    by (simp only: scaled_int(1) [OF e] round_half_even_int)
  note v = scaled_int(2) [OF e, of n]
  have "(2 :: rat) powi 53 \<le> dbl_limit" unfolding dbl_limit_def by (rule power_int_increasing) simp_all
  then have "\<not> dbl_limit \<le> (of_int n :: rat)" using lt by simp
  then show ?thesis unfolding round_pos_def Let_def r v by simp
qed

lemma to_double_int:
  assumes "\<bar>n\<bar> < 2 ^ 53"
  shows "to_double (of_int n) = Finite (of_int n)"
  using round_pos_int [of n] round_pos_int [of "- n"] assms
  by (cases "n = 0"; cases "0 < n") (auto simp: to_double_def)

lemma to_double_nonneg: "0 \<le> v \<Longrightarrow> dbl_le (Finite 0) (to_double v)"
proof -
  have "0 \<le> round_half_even x" if "0 \<le> x" for x
    using that by (auto simp: round_half_even_def Let_def)
  then show "0 \<le> v \<Longrightarrow> dbl_le (Finite 0) (to_double v)"
    by (auto simp: to_double_def round_pos_def Let_def)
qed

section \<open>The range of the type\<close>

definition dbl_ok :: "c_double \<Rightarrow> bool" where
  "dbl_ok d \<longleftrightarrow> (case d of Finite q \<Rightarrow> \<bar>q\<bar> < dbl_limit \<and> (q = 0 \<or> dbl_tiny \<le> \<bar>q\<bar>) | _ \<Rightarrow> True)"

lemma round_pos_ok:
  assumes "0 < v"
  shows "dbl_ok (round_pos v)"
proof -
  let ?e = "max (ilog 2 v - 52) (- 1074)"
  let ?m = "round_half_even (v / 2 powi ?e)"
  have "0 \<le> \<lfloor>v / 2 powi ?e\<rfloor>" using assms by simp
  then have m: "0 \<le> ?m" by (simp add: round_half_even_def Let_def)
  have e: "dbl_tiny \<le> (2 :: rat) powi ?e"
    unfolding dbl_tiny_def by (rule power_int_increasing) simp_all
  have "?m = 0 \<or> dbl_tiny \<le> of_int ?m * (2 :: rat) powi ?e"
  proof (cases "?m = 0")
    case False
    then have "1 \<le> (of_int ?m :: rat)" using m by simp
    then have "1 * (2 :: rat) powi ?e \<le> of_int ?m * 2 powi ?e" by (intro mult_right_mono) simp_all
    then have "(2 :: rat) powi ?e \<le> of_int ?m * 2 powi ?e" by (simp only: mult_1)
    with e show ?thesis by (blast intro: order_trans)
  qed simp
  moreover have "0 \<le> of_int ?m * (2 :: rat) powi ?e" using m by simp
  ultimately show ?thesis
    unfolding round_pos_def dbl_ok_def Let_def by (auto simp: not_le simp del: max_def)
qed

lemma dbl_neg_ok: "dbl_ok d \<Longrightarrow> dbl_ok (dbl_neg d)"
  by (cases d) (auto simp: dbl_ok_def)

lemma to_double_ok: "dbl_ok (to_double v)"
proof -
  have "dbl_ok (Finite 0)" by (simp add: dbl_ok_def dbl_limit_def)
  then show ?thesis using round_pos_ok [of v] dbl_neg_ok [OF round_pos_ok [of "- v"]] by (simp add: to_double_def)
qed

section \<open>How long a printed number is\<close>

lemma show_nat_length: "n < 10 ^ Suc p \<Longrightarrow> length (show_nat n) \<le> Suc p"
proof (induction p arbitrary: n)
  case 0
  then show ?case by (simp add: show_nat.simps)
next
  case (Suc p)
  then show ?case
  proof (cases "n < 10")
    case True
    then show ?thesis by (simp add: show_nat.simps)
  next
    case False
    have "n div 10 < 10 ^ Suc p" using Suc.prems by (simp add: less_mult_imp_div_less)
    then have "length (show_nat (n div 10)) \<le> Suc p" by (rule Suc.IH)
    then show ?thesis using False by (subst show_nat.simps) simp
  qed
qed

lemma show_int_length: "INT_MIN \<le> i \<Longrightarrow> i \<le> INT_MAX \<Longrightarrow> length (show_int i) \<le> 11"
proof -
  assume "INT_MIN \<le> i" "i \<le> INT_MAX"
  then have "nat i < 10 ^ Suc 9" "nat (- i) < 10 ^ Suc 9" by (auto simp: int_limits)
  then have "length (show_nat (nat i)) \<le> Suc 9" "length (show_nat (nat (- i))) \<le> Suc 9"
    by (simp_all only: show_nat_length)
  then show ?thesis by (simp add: show_int_def)
qed

lemma rstrip_zeros_length: "length (rstrip_zeros s) \<le> length s"
  unfolding rstrip_zeros_def using length_dropWhile_le [of "\<lambda>c. c = CHR ''0''" "rev s"] by simp

lemma with_point_length: "length (with_point a b) \<le> length a + 1 + length b"
  using rstrip_zeros_length [of b] by (simp add: with_point_def Let_def)

lemma show_exp_length:
  assumes "\<bar>x\<bar> < 10000"
  shows "length (show_exp x) \<le> 6"
proof -
  have "nat \<bar>x\<bar> < 10 ^ Suc 3" using assms by auto
  then have "length (show_nat (nat \<bar>x\<bar>)) \<le> Suc 3" by (rule show_nat_length)
  moreover have "\<bar>x\<bar> < 10 \<Longrightarrow> length (show_nat (nat \<bar>x\<bar>)) = 1" by (simp add: show_nat.simps)
  ultimately show ?thesis by (auto simp: show_exp_def)
qed

lemma round_half_even_le: "x \<le> of_int k \<Longrightarrow> round_half_even x \<le> k"
proof -
  assume a: "x \<le> of_int k"
  have "\<lfloor>x\<rfloor> \<le> k" using a by (simp add: floor_le_iff)
  moreover have "\<lfloor>x\<rfloor> = k \<Longrightarrow> x = of_int k" using a by (metis antisym of_int_floor_le)
  ultimately show ?thesis by (cases "\<lfloor>x\<rfloor> = k") (auto simp: round_half_even_def Let_def)
qed

lemma sig_digits_bounds:
  assumes "0 < v" "sig_digits p v = (n, x)" "0 < p"
  shows "n < 10 ^ p" "x = ilog 10 v \<or> x = ilog 10 v + 1"
proof -
  let ?x = "ilog 10 v"
  let ?y = "v / 10 powi (?x + 1 - int p)"
  have "v < (10 :: rat) powi (?x + 1)" using ilog_bounds [OF assms(1), of 10] by simp
  then have "?y \<le> 10 powi (?x + 1) / 10 powi (?x + 1 - int p)" by (intro divide_right_mono) simp_all
  also have "\<dots> = of_int (10 ^ p)" by (simp add: power_int_diff)
  finally have "round_half_even ?y \<le> 10 ^ p" by (rule round_half_even_le)
  then have "nat (round_half_even ?y) \<le> 10 ^ p" by (simp add: nat_le_iff)
  then show "n < 10 ^ p" "x = ilog 10 v \<or> x = ilog 10 v + 1"
    using assms(2,3) by (auto simp: sig_digits_def Let_def split: if_splits)
qed

lemma dbl_limits: "dbl_limit \<le> 10 powi 1024" "10 powi (- 1074) \<le> dbl_tiny" "0 < dbl_tiny"
proof -
  show "dbl_limit \<le> 10 powi 1024" unfolding dbl_limit_def by (rule power_int_mono) simp_all
  show "10 powi (- 1074) \<le> dbl_tiny" unfolding dbl_tiny_def by (rule power_int_antimono) simp_all
  show "0 < dbl_tiny" unfolding dbl_tiny_def by simp
qed

lemma ilog_range:
  assumes "dbl_tiny \<le> v" "v < dbl_limit"
  shows "- 1076 < ilog 10 v \<and> ilog 10 v < 1024"
proof -
  have v: "0 < v" using assms(1) dbl_limits(3) by linarith
  have b: "10 powi ilog 10 v \<le> v" "v < 10 powi (ilog 10 v + 1)" using ilog_bounds [OF v, of 10] by simp_all
  have "(10 :: rat) powi ilog 10 v < 10 powi 1024"
    by (rule le_less_trans [OF b(1) less_le_trans [OF assms(2) dbl_limits(1)]])
  moreover have "(10 :: rat) powi (- 1074) < 10 powi (ilog 10 v + 1)"
    by (rule le_less_trans [OF order_trans [OF dbl_limits(2) assms(1)] b(2)])
  ultimately have "\<not> 1024 \<le> ilog 10 v" "\<not> ilog 10 v + 1 \<le> - 1074"
    using leD [OF power_int_increasing [of 1024 "ilog 10 v" "10 :: rat"]] leD [OF power_int_increasing [of "ilog 10 v + 1" "- 1074" "10 :: rat"]]
    by (metis one_le_numeral)+
  then show ?thesis by simp
qed

lemma printf_g_length:
  assumes "dbl_ok (Finite q)" "0 < p"
  shows "length (printf_g p q) \<le> p + 8"
proof (cases "q = 0")
  case True
  then show ?thesis by (simp add: printf_g_def)
next
  case q0: False
  then have v: "0 < \<bar>q\<bar>" by simp
  obtain n x where sd: "sig_digits p \<bar>q\<bar> = (n, x)" by (cases "sig_digits p \<bar>q\<bar>")
  note b = sig_digits_bounds [OF v sd assms(2)]
  have "\<bar>x\<bar> < 10000" using ilog_range [of "\<bar>q\<bar>"] assms q0 b(2) by (auto simp: dbl_ok_def)
  note e = show_exp_length [OF this]
  have n: "length (show_nat n) \<le> p" using show_nat_length [of n "p - 1"] b(1) assms(2) by simp
  have w: "length (with_point (take k (show_nat n)) (drop k (show_nat n))) \<le> Suc p" for k
    using with_point_length [of "take k (show_nat n)" "drop k (show_nat n)"] n by simp
  have z: "length (with_point ''0'' (replicate (nat (- x - 1)) (CHR ''0'') @ show_nat n)) \<le> p + 5" if "- 4 \<le> x"
    using with_point_length [of "''0''" "replicate (nat (- x - 1)) (CHR ''0'') @ show_nat n"] n that by simp
  show ?thesis
  proof (cases "x < - 4 \<or> int p \<le> x")
    case True
    then show ?thesis using e w [of 1] by (simp add: printf_g_def sd Let_def q0)
  next
    case False
    then show ?thesis using z w [of "nat x + 1"] by (simp add: printf_g_def sd Let_def q0)
  qed
qed

section \<open>Printed numbers have no NUL\<close>

lemma show_nat_no_NUL: "NUL \<notin> set (show_nat n)"
  using show_nat_digits [of n] by (auto simp: list_all_iff isdigit_def)

lemma show_int_no_NUL: "NUL \<notin> set (show_int i)"
  using show_nat_no_NUL by (simp add: show_int_def)

lemma rstrip_zeros_set: "set (rstrip_zeros s) \<subseteq> set s"
  unfolding rstrip_zeros_def by (auto dest: set_dropWhileD)

lemma with_point_no_NUL: "NUL \<notin> set a \<Longrightarrow> NUL \<notin> set b \<Longrightarrow> NUL \<notin> set (with_point a b)"
  using rstrip_zeros_set [of b] by (auto simp: with_point_def Let_def)

lemma show_exp_no_NUL: "NUL \<notin> set (show_exp x)"
  using show_nat_no_NUL by (auto simp: show_exp_def)

lemma printf_g_no_NUL: "NUL \<notin> set (printf_g p v)"
proof -
  have "NUL \<notin> set (take k (show_nat n))" "NUL \<notin> set (drop k (show_nat n))" for k n
    using show_nat_no_NUL [of n] by (auto dest: in_set_takeD in_set_dropD)
  then show ?thesis
    using show_nat_no_NUL by (auto simp: printf_g_def Let_def with_point_no_NUL show_exp_no_NUL split: prod.splits)
qed

end
