(* ===== verification/Cjson.thy ===== *)
theory Cjson
  imports C_Double
begin

text \<open>
  \<^verbatim>\<open>file_compare/common/cJSON.h\<close> and \<^verbatim>\<open>cJSON.cc\<close>: the nodes of a JSON tree and what is asked of
  them. A node is a value with its children as a list: the pointers that link the children, and the
  flags of references and of constant names, which no tree read from a text has, are in \<open>Cjson_List\<close>.
\<close>

section \<open>Nodes\<close>

datatype cj_type =
    cJSON_Invalid | cJSON_False | cJSON_True | cJSON_NULL | cJSON_Number | cJSON_String | cJSON_Array | cJSON_Object | cJSON_Raw

datatype cjson =
  CJson (cj_name: "string option") (cj_type: cj_type) (cj_string: "string option") (cj_int: int)
    (cj_double: c_double) (cj_children: "cjson list")

definition cJSON_New_Item :: cjson where
  "cJSON_New_Item = CJson None cJSON_Invalid None 0 (Finite 0) []"

text \<open>
  The integer a number is also kept as: saturated, and undefined for a NaN, whose conversion is.
\<close>

definition saturated :: "c_double \<Rightarrow> int option" where
  "saturated number =
     (if dbl_le (Finite (of_int INT_MAX)) number then Some INT_MAX
      else if dbl_le number (Finite (of_int INT_MIN)) then Some INT_MIN
      else case number of Finite q \<Rightarrow> Some (trunc q) | _ \<Rightarrow> None)"

section \<open>Creating nodes\<close>

definition cJSON_CreateNull :: cjson where
  "cJSON_CreateNull = CJson None cJSON_NULL None 0 (Finite 0) []"

definition cJSON_CreateTrue :: cjson where
  "cJSON_CreateTrue = CJson None cJSON_True None 0 (Finite 0) []"

definition cJSON_CreateFalse :: cjson where
  "cJSON_CreateFalse = CJson None cJSON_False None 0 (Finite 0) []"

definition cJSON_CreateBool :: "bool \<Rightarrow> cjson" where
  "cJSON_CreateBool b = CJson None (if b then cJSON_True else cJSON_False) None 0 (Finite 0) []"

definition cJSON_CreateNumber :: "c_double \<Rightarrow> cjson option" where
  "cJSON_CreateNumber num = map_option (\<lambda>i. CJson None cJSON_Number None i num []) (saturated num)"

text \<open>\<^verbatim>\<open>cJSON_strdup\<close> gives no copy of a null pointer, and then there is no node.\<close>

definition cJSON_CreateString :: "string option \<Rightarrow> cjson option" where
  "cJSON_CreateString s = map_option (\<lambda>s. CJson None cJSON_String (Some (c_str s)) 0 (Finite 0) []) s"

definition cJSON_CreateRaw :: "string option \<Rightarrow> cjson option" where
  "cJSON_CreateRaw raw = map_option (\<lambda>s. CJson None cJSON_Raw (Some (c_str s)) 0 (Finite 0) []) raw"

definition cJSON_CreateArray :: cjson where
  "cJSON_CreateArray = CJson None cJSON_Array None 0 (Finite 0) []"

definition cJSON_CreateObject :: cjson where
  "cJSON_CreateObject = CJson None cJSON_Object None 0 (Finite 0) []"

section \<open>What a node is\<close>

definition cJSON_Is :: "cj_type \<Rightarrow> cjson option \<Rightarrow> bool" where
  "cJSON_Is ty item = (case item of None \<Rightarrow> False | Some n \<Rightarrow> cj_type n = ty)"

definition cJSON_IsInvalid :: "cjson option \<Rightarrow> bool" where
  "cJSON_IsInvalid = cJSON_Is cJSON_Invalid"

definition cJSON_IsFalse :: "cjson option \<Rightarrow> bool" where
  "cJSON_IsFalse = cJSON_Is cJSON_False"

definition cJSON_IsTrue :: "cjson option \<Rightarrow> bool" where
  "cJSON_IsTrue = cJSON_Is cJSON_True"

definition cJSON_IsBool :: "cjson option \<Rightarrow> bool" where
  "cJSON_IsBool item = (case item of None \<Rightarrow> False | Some n \<Rightarrow> cj_type n = cJSON_True \<or> cj_type n = cJSON_False)"

definition cJSON_IsNull :: "cjson option \<Rightarrow> bool" where
  "cJSON_IsNull = cJSON_Is cJSON_NULL"

definition cJSON_IsNumber :: "cjson option \<Rightarrow> bool" where
  "cJSON_IsNumber = cJSON_Is cJSON_Number"

definition cJSON_IsString :: "cjson option \<Rightarrow> bool" where
  "cJSON_IsString = cJSON_Is cJSON_String"

definition cJSON_IsArray :: "cjson option \<Rightarrow> bool" where
  "cJSON_IsArray = cJSON_Is cJSON_Array"

definition cJSON_IsObject :: "cjson option \<Rightarrow> bool" where
  "cJSON_IsObject = cJSON_Is cJSON_Object"

definition cJSON_IsRaw :: "cjson option \<Rightarrow> bool" where
  "cJSON_IsRaw = cJSON_Is cJSON_Raw"

definition cJSON_GetStringValue :: "cjson option \<Rightarrow> string option" where
  "cJSON_GetStringValue item = (if cJSON_IsString item then cj_string (the item) else None)"

definition cJSON_GetNumberValue :: "cjson option \<Rightarrow> c_double" where
  "cJSON_GetNumberValue item = (if cJSON_IsNumber item then cj_double (the item) else Not_a_number)"

section \<open>Looking for children\<close>

text \<open>The loop compares bytes folded to lower case up to a difference or the end of both.\<close>

definition case_insensitive_strcmp :: "string \<Rightarrow> string option \<Rightarrow> bool" where
  "case_insensitive_strcmp a b = (case b of None \<Rightarrow> True | Some b \<Rightarrow> \<not> strcasecmp_eq a b)"

text \<open>The count is a \<^verbatim>\<open>size_t\<close> made an \<^verbatim>\<open>int\<close>.\<close>

definition cJSON_GetArraySize :: "cjson option \<Rightarrow> int" where
  "cJSON_GetArraySize a = (case a of None \<Rightarrow> 0 | Some n \<Rightarrow> to_int32 (int (length (cj_children n))))"

fun get_array_item :: "cjson list \<Rightarrow> nat \<Rightarrow> cjson option" where
  "get_array_item [] _ = None"
| "get_array_item (c # cs) i = (if 0 < i then get_array_item cs (i - 1) else Some c)"

definition cJSON_GetArrayItem :: "cjson option \<Rightarrow> int \<Rightarrow> cjson option" where
  "cJSON_GetArrayItem a i =
     (if i < 0 then None else case a of None \<Rightarrow> None | Some n \<Rightarrow> get_array_item (cj_children n) (nat i))"

text \<open>
  With regard to case the search ends at a child without a name; without, it passes such a child.
\<close>

fun find_sensitive :: "string \<Rightarrow> cjson list \<Rightarrow> cjson option" where
  "find_sensitive name [] = None"
| "find_sensitive name (c # cs) =
     (case cj_name c of None \<Rightarrow> None | Some s \<Rightarrow> if c_str s = c_str name then Some c else find_sensitive name cs)"

definition get_object_item :: "cjson option \<Rightarrow> string option \<Rightarrow> bool \<Rightarrow> cjson option" where
  "get_object_item obj name case_sensitive =
     (case (obj, name) of
        (Some n, Some name) \<Rightarrow>
          if case_sensitive then find_sensitive name (cj_children n)
          else find (\<lambda>c. \<not> case_insensitive_strcmp name (cj_name c)) (cj_children n)
      | _ \<Rightarrow> None)"

definition cJSON_GetObjectItem :: "cjson \<Rightarrow> string \<Rightarrow> cjson option" where
  "cJSON_GetObjectItem node name = get_object_item (Some node) (Some name) False"

definition cJSON_GetObjectItemCaseSensitive :: "cjson \<Rightarrow> string \<Rightarrow> cjson option" where
  "cJSON_GetObjectItemCaseSensitive node name = get_object_item (Some node) (Some name) True"

definition cJSON_HasObjectItem :: "cjson \<Rightarrow> string \<Rightarrow> bool" where
  "cJSON_HasObjectItem node name = (cJSON_GetObjectItem node name \<noteq> None)"

lemma cJSON_GetObjectItem_find:
  "cJSON_GetObjectItem node name = find (\<lambda>c. \<not> case_insensitive_strcmp name (cj_name c)) (cj_children node)"
  by (simp add: cJSON_GetObjectItem_def get_object_item_def)

lemma find_Some_in: "find P xs = Some x \<Longrightarrow> x \<in> set xs"
  by (induction xs) (auto split: if_splits)

lemma find_sensitive_in: "find_sensitive name xs = Some x \<Longrightarrow> x \<in> set xs"
  by (induction xs) (auto split: if_splits option.splits)

lemma get_object_item_in: "get_object_item (Some n) name cs = Some x \<Longrightarrow> x \<in> set (cj_children n)"
  by (auto simp: get_object_item_def dest: find_Some_in find_sensitive_in split: option.splits if_splits)

lemma cj_child_size: "x \<in> set (cj_children n) \<Longrightarrow> size x < size n"
  by (cases n) (auto dest: size_list_estimation' [of _ _ _ size, OF _ order_refl])

lemma zip_children_size:
  "(x, y) \<in> set (zip (cj_children a) (cj_children b)) \<Longrightarrow> size x + size y < size a + size b"
  using cj_child_size [of x a] cj_child_size [of y b] set_zip_leftD [of x y] set_zip_rightD [of x y]
  by (meson add_less_mono)

lemma item_size: "get_object_item (Some n) name cs = Some x \<Longrightarrow> size x < size n"
  by (rule cj_child_size) (rule get_object_item_in)

section \<open>Copying and comparing\<close>

fun cJSON_Duplicate :: "cjson \<Rightarrow> bool \<Rightarrow> cjson" where
  "cJSON_Duplicate (CJson name ty s i d cs) recurse =
     CJson (map_option c_str name) ty (map_option c_str s) i d
       (if recurse then map (\<lambda>c. cJSON_Duplicate c True) cs else [])"

text \<open>
  The subtraction and the product are rounded; an infinite number is as far from a finite one as
  the tolerance allows.
\<close>

fun compare_double :: "c_double \<Rightarrow> c_double \<Rightarrow> bool" where
  "compare_double (Finite a) (Finite b) =
     dbl_le (to_double \<bar>a - b\<bar>) (to_double (max \<bar>a\<bar> \<bar>b\<bar> / 2 ^ 52))"
| "compare_double (Infinite s) (Infinite t) = (s \<noteq> t)"
| "compare_double (Infinite _) (Finite _) = True"
| "compare_double (Finite _) (Infinite _) = True"
| "compare_double _ _ = False"

text \<open>
  Two distinct trees; a tree compared with itself is equal to itself without being looked at.
\<close>

function cJSON_Compare :: "cjson \<Rightarrow> cjson \<Rightarrow> bool \<Rightarrow> bool" where
  "cJSON_Compare a b case_sensitive =
     (if cj_type a \<noteq> cj_type b then False
      else case cj_type a of
        cJSON_Invalid \<Rightarrow> False
      | cJSON_False \<Rightarrow> True
      | cJSON_True \<Rightarrow> True
      | cJSON_NULL \<Rightarrow> True
      | cJSON_Number \<Rightarrow> compare_double (cj_double a) (cj_double b)
      | cJSON_String \<Rightarrow> (case (cj_string a, cj_string b) of (Some s, Some t) \<Rightarrow> c_str s = c_str t | _ \<Rightarrow> False)
      | cJSON_Raw \<Rightarrow> (case (cj_string a, cj_string b) of (Some s, Some t) \<Rightarrow> c_str s = c_str t | _ \<Rightarrow> False)
      | cJSON_Array \<Rightarrow>
          length (cj_children a) = length (cj_children b) \<and>
          list_all (\<lambda>(x, y). cJSON_Compare x y case_sensitive) (zip (cj_children a) (cj_children b))
      | cJSON_Object \<Rightarrow>
          list_all (\<lambda>x. case get_object_item (Some b) (cj_name x) case_sensitive of
              None \<Rightarrow> False | Some y \<Rightarrow> cJSON_Compare x y case_sensitive) (cj_children a) \<and>
          list_all (\<lambda>y. case get_object_item (Some a) (cj_name y) case_sensitive of
              None \<Rightarrow> False | Some x \<Rightarrow> cJSON_Compare y x case_sensitive) (cj_children b))"
  by pat_completeness auto

termination
  by (relation "measure (\<lambda>(a, b, _). size a + size b)")
     (auto dest: zip_children_size,
      (metis add_less_mono add.commute item_size cj_child_size)+)

declare cJSON_Compare.simps [simp del]

section \<open>Well-formed trees\<close>

text \<open>
  What a tree read from a text is like: the members a type does not use are zero, a number is kept
  as its saturated integer too, the children of an array have no names and those of an object do.
\<close>

definition text_ok :: "string option \<Rightarrow> bool" where
  "text_ok s = (case s of None \<Rightarrow> False | Some t \<Rightarrow> NUL \<notin> set t)"

fun node_ok :: "cjson \<Rightarrow> bool" where
  "node_ok (CJson name ty s i d cs) =
     (case ty of
        cJSON_NULL \<Rightarrow> s = None \<and> i = 0 \<and> d = Finite 0 \<and> cs = []
      | cJSON_False \<Rightarrow> s = None \<and> i = 0 \<and> d = Finite 0 \<and> cs = []
      | cJSON_True \<Rightarrow> s = None \<and> i = 1 \<and> d = Finite 0 \<and> cs = []
      | cJSON_Number \<Rightarrow> s = None \<and> dbl_ok d \<and> saturated d = Some i \<and> cs = []
      | cJSON_String \<Rightarrow> text_ok s \<and> i = 0 \<and> d = Finite 0 \<and> cs = []
      | cJSON_Array \<Rightarrow> s = None \<and> i = 0 \<and> d = Finite 0 \<and> list_all (\<lambda>c. cj_name c = None \<and> node_ok c) cs
      | cJSON_Object \<Rightarrow> s = None \<and> i = 0 \<and> d = Finite 0 \<and> list_all (\<lambda>c. text_ok (cj_name c) \<and> node_ok c) cs
      | _ \<Rightarrow> False)"

fun nesting :: "cjson \<Rightarrow> nat" where
  "nesting (CJson name ty s i d cs) =
     (if ty = cJSON_Array \<or> ty = cJSON_Object then Suc (foldr max (map nesting cs) 0) else 0)"

lemma foldr_max_le: "foldr max (map f xs) 0 \<le> (m :: nat) \<longleftrightarrow> list_all (\<lambda>x. f x \<le> m) xs"
  by (induction xs) auto

lemma saturated_range: "saturated d = Some i \<Longrightarrow> INT_MIN \<le> i \<and> i \<le> INT_MAX"
proof (cases d)
  case (Finite q)
  assume "saturated d = Some i"
  then show ?thesis
    unfolding Finite saturated_def by (auto simp: int_limits trunc_def le_floor_iff ceiling_le_iff floor_le_iff le_ceiling_iff split: if_splits)
qed (auto simp: saturated_def int_limits split: if_splits)

end
