(* ===== verification/Dc_Task.thy ===== *)
theory Dc_Task
  imports Dc_Error Dc_Json Cjson
begin

text \<open>
  \<^verbatim>\<open>file_compare/api/dc_api_task.h\<close> and \<^verbatim>\<open>dc_api_task.cc\<close>: a comparison task and how it is read
  from a JSON text. The text is parsed by \<^verbatim>\<open>cJSON_Parse\<close>, an argument here that \<open>Cjson_Task\<close> gives the model of \<open>Cjson_Parse\<close>; what
  the code does with a parsed node (its type, its values, its children, the lookup of a member
  without regard to case) is modelled. The members nothing writes are left out.
\<close>

section \<open>State\<close>

record server_info =
  c_center :: string
  c_host :: string
  c_user :: string
  c_password :: string
  c_port :: int
  c_standard :: bool
  c_excluded_file_regex :: "string list"
  c_base_dir :: string
  c_path_to_compare :: string

definition FC_TASK_RESULT_GIT_DIFF :: int where
  "FC_TASK_RESULT_GIT_DIFF = 0"

definition FC_TASK_RESULT_INVALID :: int where
  "FC_TASK_RESULT_INVALID = 1"

record api_task =
  t_task_uuid :: string
  t_server_info_arr :: "server_info list"
  t_result_type :: int
  t_excluded_file_regex :: "string list"
  t_std_idx :: int
  t_error :: dc_common_code
  t_error_msg :: string
  t_compare_result_json :: json

text \<open>\<^verbatim>\<open>new dc_api_task_t ()\<close> sets the numbers to zero.\<close>

definition new_api_task :: api_task where
  "new_api_task = \<lparr>t_task_uuid = [], t_server_info_arr = [], t_result_type = 0, t_excluded_file_regex = [],
     t_std_idx = 0, t_error = S_SUCCESS, t_error_msg = [], t_compare_result_json = JNull\<rparr>"

section \<open>Servers\<close>

text \<open>
  The test every text member goes through. A failure sets the message of a server that is then
  thrown away with it, and the code; here the value is that message.
\<close>

definition text_member :: "cjson \<Rightarrow> string \<Rightarrow> string \<Rightarrow> string + string" where
  "text_member node name emsg =
     (case cJSON_GetObjectItem node name of
        None \<Rightarrow> Inl emsg
      | Some item \<Rightarrow>
          if cj_type item \<noteq> cJSON_String then Inl emsg
          else (case cj_string item of
                  None \<Rightarrow> Inl emsg
                | Some s \<Rightarrow> if c_str s = [] then Inl emsg else Inr (c_str s)))"

fun server_regexes :: "cjson list \<Rightarrow> string list \<Rightarrow> string + string list" where
  "server_regexes [] acc = Inr acc"
| "server_regexes (item # items) acc =
     (if cj_type item \<noteq> cJSON_String then Inl ''excluded_file_regex is invalid''
      else (case cj_string item of
              None \<Rightarrow> Inl ''excluded_file_regex is invalid''
            | Some s \<Rightarrow>
                if c_str s = [] then Inl ''excluded_file_regex is invalid''
                else server_regexes items (acc @ [c_str s])))"

definition msg_then :: "string + 'a \<Rightarrow> ('a \<Rightarrow> string + 'b) \<Rightarrow> string + 'b" where
  "msg_then r k = (case r of Inl m \<Rightarrow> Inl m | Inr x \<Rightarrow> k x)"

definition build_task_server_info :: "cjson \<Rightarrow> string + server_info" where
  "build_task_server_info node =
     msg_then (text_member node ''center'' ''center name is invalid'') (\<lambda>center.
     msg_then (text_member node ''host'' ''server host is invalid'') (\<lambda>host.
     msg_then (text_member node ''user'' ''user is invalid'') (\<lambda>user.
     msg_then (text_member node ''password'' ''password is invalid'') (\<lambda>password.
     msg_then
       (case cJSON_GetObjectItem node ''port'' of
          None \<Rightarrow> Inl ''port is invalid''
        | Some item \<Rightarrow> if cj_type item \<noteq> cJSON_Number \<or> cj_int item \<le> 0 then Inl ''port is invalid'' else Inr (cj_int item)) (\<lambda>port.
     msg_then
       (case cJSON_GetObjectItem node ''standard'' of
          None \<Rightarrow> Inl ''is_standard is invalid''
        | Some item \<Rightarrow>
            if cj_type item \<noteq> cJSON_True \<and> cj_type item \<noteq> cJSON_False then Inl ''is_standard is invalid''
            else Inr (cj_type item = cJSON_True)) (\<lambda>standard.
     msg_then
       (case cJSON_GetObjectItem node ''excluded_file_regex'' of
          None \<Rightarrow> Inr []
        | Some item \<Rightarrow>
            if cj_type item \<noteq> cJSON_Array then Inl ''excluded_file_regex is invalid''
            else server_regexes (cj_children item) []) (\<lambda>regexes.
     msg_then (text_member node ''path_to_compare'' ''path_to_compare is invalid'') (\<lambda>path.
     msg_then (text_member node ''base_dir'' ''base_dir is invalid'') (\<lambda>base.
       Inr \<lparr>c_center = center, c_host = host, c_user = user, c_password = password, c_port = port,
            c_standard = standard, c_excluded_file_regex = regexes, c_base_dir = base, c_path_to_compare = path\<rparr>)))))))))"

section \<open>Tasks\<close>

definition task_fails :: "string \<Rightarrow> api_task \<Rightarrow> cpp_error + dc_common_code \<times> api_task" where
  "task_fails emsg t = Inr (E_ARG_INVALID, t\<lparr>t_error := E_ARG_INVALID, t_error_msg := emsg\<rparr>)"

fun task_regexes :: "cjson list \<Rightarrow> string list \<Rightarrow> string list \<times> bool" where
  "task_regexes [] acc = (acc, True)"
| "task_regexes (item # items) acc =
     (if cj_type item \<noteq> cJSON_String \<or> cj_string item = None then (acc, False)
      else task_regexes items (acc @ [c_str (the (cj_string item))]))"

text \<open>The loop over the servers; a server that cannot be read ends it with the code alone.\<close>

fun server_loop :: "cjson list \<Rightarrow> api_task \<Rightarrow> cpp_error + dc_common_code \<times> api_task" where
  "server_loop [] t = Inr (S_SUCCESS, t)"
| "server_loop (item # items) t =
     (if cj_type item \<noteq> cJSON_Object then task_fails ''server item is not object'' t
      else
        (case build_task_server_info item of
           Inl _ \<Rightarrow> Inr (E_ARG_INVALID, t)
         | Inr info \<Rightarrow> server_loop items (t\<lparr>t_server_info_arr := t_server_info_arr t @ [info]\<rparr>)))"

text \<open>The loop that looks for the standard server; \<open>i\<close> is the index of the first element.\<close>

fun std_loop :: "nat \<Rightarrow> server_info list \<Rightarrow> int \<Rightarrow> int option" where
  "std_loop i [] idx = Some idx"
| "std_loop i (s # ss) idx =
     (if c_standard s then (if idx \<noteq> -1 then None else std_loop (i + 1) ss (int i))
      else std_loop (i + 1) ss idx)"

definition find_standard :: "api_task \<Rightarrow> cpp_error + dc_common_code \<times> api_task" where
  "find_standard t =
     (case std_loop 0 (t_server_info_arr t) (-1) of
        None \<Rightarrow> Inr (E_ARG_INVALID, t\<lparr>t_std_idx := int (length (takeWhile (\<lambda>s. \<not> c_standard s) (t_server_info_arr t)))\<rparr>)
      | Some idx \<Rightarrow>
          (let t = t\<lparr>t_std_idx := idx\<rparr> in
           if idx = -1 then task_fails ''no standard server provided'' t else Inr (S_SUCCESS, t)))"

text \<open>The servers and the standard one, once the rest of the task is read.\<close>

definition build_servers :: "cjson \<Rightarrow> api_task \<Rightarrow> cpp_error + dc_common_code \<times> api_task" where
  "build_servers tree t =
     (case cJSON_GetObjectItem tree ''servers'' of
        None \<Rightarrow> task_fails ''no servers_list provided'' t
      | Some servers \<Rightarrow>
          if cj_type servers \<noteq> cJSON_Array then task_fails ''no servers_list provided'' t
          else
            ok_then (server_loop (cj_children servers) t) (\<lambda>(ret, t).
              if log_check_err_return ret then Inr (ret, t) else find_standard t))"

definition build_excluded :: "cjson \<Rightarrow> api_task \<Rightarrow> cpp_error + dc_common_code \<times> api_task" where
  "build_excluded tree t =
     (case cJSON_GetObjectItem tree ''excluded_file_regex'' of
        None \<Rightarrow> build_servers tree t
      | Some arr \<Rightarrow>
          if cj_type arr \<noteq> cJSON_Array then task_fails ''excluded_file_regex is not array'' t
          else
            (case task_regexes (cj_children arr) (t_excluded_file_regex t) of
               (res, ok) \<Rightarrow>
                 (let t = t\<lparr>t_excluded_file_regex := res\<rparr> in
                  if ok then build_servers tree t else task_fails ''excluded_file_regex item is not string'' t)))"

definition build_result_type :: "cjson \<Rightarrow> api_task \<Rightarrow> cpp_error + dc_common_code \<times> api_task" where
  "build_result_type tree t =
     (let t = t\<lparr>t_result_type := FC_TASK_RESULT_GIT_DIFF\<rparr> in
      case cJSON_GetObjectItem tree ''result_type'' of
        None \<Rightarrow> build_excluded tree t
      | Some item \<Rightarrow>
          if cj_type item \<noteq> cJSON_Number then task_fails ''result_type is not number'' t
          else if \<not> (FC_TASK_RESULT_GIT_DIFF \<le> cj_int item \<and> cj_int item < FC_TASK_RESULT_INVALID)
          then task_fails ''result_type value is not valid'' t
          else build_excluded tree (t\<lparr>t_result_type := cj_int item\<rparr>))"

text \<open>
  \<open>parse\<close> is \<^verbatim>\<open>cJSON_Parse\<close>. The message for a text that is not JSON is cut to the 4095
  characters its buffer holds; the length is passed on as \<^verbatim>\<open>uint32_t\<close> and read as a precision, an
  \<^verbatim>\<open>int\<close> that is ignored below 0.
\<close>

definition printed :: "nat \<Rightarrow> string \<Rightarrow> string" where
  "printed len s = (let prec = to_int32 (int len) in if prec < 0 then s else take (nat prec) s)"

definition build_task_from_json :: "(string \<Rightarrow> cjson option) \<Rightarrow> string \<Rightarrow> api_task \<Rightarrow>
    cpp_error + dc_common_code \<times> api_task" where
  "build_task_from_json parse task_content t =
     (if length task_content mod 2 ^ 32 = 0 then Inl AssertFailed
      else
        (case parse (c_str task_content) of
           None \<Rightarrow> task_fails (take 4095 (''task_content:'' @ printed (length task_content) (c_str task_content) @ '' is not a valid json string'')) t
         | Some tree \<Rightarrow>
             (case cJSON_GetObjectItem tree ''uuid'' of
                None \<Rightarrow> task_fails ''no task uuid provided'' t
              | Some uuid \<Rightarrow>
                  if cj_type uuid \<noteq> cJSON_String \<or> cj_string uuid = None then task_fails ''no task uuid provided'' t
                  else
                    (let t = t\<lparr>t_task_uuid := c_str (the (cj_string uuid))\<rparr> in
                     if t_task_uuid t = [] then Inl AssertFailed else build_result_type tree t))))"

section \<open>What a task that was read is like\<close>

definition valid_text :: "string \<Rightarrow> bool" where
  "valid_text s \<longleftrightarrow> s \<noteq> [] \<and> NUL \<notin> set s"

definition valid_server :: "server_info \<Rightarrow> bool" where
  "valid_server s \<longleftrightarrow>
     list_all valid_text [c_center s, c_host s, c_user s, c_password s, c_path_to_compare s, c_base_dir s] \<and>
     0 < c_port s \<and> list_all valid_text (c_excluded_file_regex s)"

text \<open>The comparison asserts of a task that its standard index is in range; here it is also the
  only standard server.\<close>

definition one_standard :: "server_info list \<Rightarrow> int \<Rightarrow> bool" where
  "one_standard ss i \<longleftrightarrow>
     (\<exists>xs s ys. ss = xs @ s # ys \<and> i = int (length xs) \<and> c_standard s \<and> list_all (\<lambda>s. \<not> c_standard s) (xs @ ys))"

definition valid_task :: "api_task \<Rightarrow> bool" where
  "valid_task t \<longleftrightarrow>
     valid_text (t_task_uuid t) \<and> t_result_type t = FC_TASK_RESULT_GIT_DIFF \<and> list_all valid_server (t_server_info_arr t) \<and>
     one_standard (t_server_info_arr t) (t_std_idx t)"

lemma msg_then_Inr: "msg_then r k = Inr y \<longleftrightarrow> (\<exists>x. r = Inr x \<and> k x = Inr y)"
  by (cases r) (auto simp: msg_then_def)

lemma text_member_valid: "text_member node name m = Inr s \<Longrightarrow> valid_text s"
  by (auto simp: text_member_def valid_text_def c_str_no_NUL split: option.splits if_splits)

lemma server_regexes_valid: "server_regexes items acc = Inr rs \<Longrightarrow> list_all valid_text acc \<Longrightarrow> list_all valid_text rs"
  by (induction items arbitrary: acc) (auto simp: valid_text_def c_str_no_NUL split: option.splits if_splits)

lemma build_server_valid: "build_task_server_info node = Inr info \<Longrightarrow> valid_server info"
  by (auto simp: build_task_server_info_def msg_then_Inr valid_server_def
      dest: text_member_valid server_regexes_valid split: option.splits if_splits)

lemma server_loop_result:
  "server_loop items t = Inr (ret, t') \<Longrightarrow> list_all valid_server (t_server_info_arr t) \<Longrightarrow>
     (ret = S_SUCCESS \<or> ret = E_ARG_INVALID) \<and>
     (ret = S_SUCCESS \<longrightarrow> list_all valid_server (t_server_info_arr t') \<and> t_task_uuid t' = t_task_uuid t \<and> t_result_type t' = t_result_type t)"
  by (induction items arbitrary: t)
     (auto simp: task_fails_def build_server_valid split: if_splits sum.splits)

lemma std_loop_after: "idx \<noteq> -1 \<Longrightarrow> std_loop i ss idx = (if list_ex c_standard ss then None else Some idx)"
  by (induction ss arbitrary: i) auto

lemma std_loop_finds:
  "std_loop i ss (-1) = Some r \<Longrightarrow> r = -1 \<or> one_standard ss (r - int i)"
proof (induction ss arbitrary: i)
  case (Cons s ss)
  show ?case
  proof (cases "c_standard s")
    case True
    then have "list_all (\<lambda>s. \<not> c_standard s) ss" "r = int i"
      using Cons.prems std_loop_after [of "int i" "i + 1" ss] by (auto simp: list_all_iff list_ex_iff split: if_splits)
    then have "one_standard (s # ss) (r - int i)" using True
      unfolding one_standard_def by (intro exI [of _ "[]"] exI [of _ s] exI [of _ ss]) auto
    then show ?thesis ..
  next
    case False
    then have "std_loop (Suc i) ss (-1) = Some r" using Cons.prems by simp
    from Cons.IH [OF this] show ?thesis
    proof
      assume "one_standard ss (r - int (Suc i))"
      then obtain xs x ys where "ss = xs @ x # ys" "r - int (Suc i) = int (length xs)" "c_standard x"
        "list_all (\<lambda>s. \<not> c_standard s) (xs @ ys)" by (auto simp: one_standard_def)
      then have "one_standard (s # ss) (r - int i)" using False
        unfolding one_standard_def by (intro exI [of _ "s # xs"] exI [of _ x] exI [of _ ys]) auto
      then show ?thesis ..
    qed simp
  qed
qed simp

lemma find_standard_result:
  "find_standard t = Inr (ret, t') \<Longrightarrow> (ret = S_SUCCESS \<or> ret = E_ARG_INVALID) \<and>
    (ret = S_SUCCESS \<longrightarrow> t_server_info_arr t' = t_server_info_arr t \<and> t_task_uuid t' = t_task_uuid t \<and>
      t_result_type t' = t_result_type t \<and> one_standard (t_server_info_arr t') (t_std_idx t'))"
  by (auto simp: find_standard_def task_fails_def Let_def dest!: std_loop_finds split: option.splits if_splits)

lemma build_servers_result:
  assumes "build_servers tree u = Inr (ret, t')" and "t_server_info_arr u = []" and "valid_text (t_task_uuid u)"
    and "t_result_type u = FC_TASK_RESULT_GIT_DIFF"
  shows "(ret = S_SUCCESS \<or> ret = E_ARG_INVALID) \<and> (ret = S_SUCCESS \<longrightarrow> valid_task t')"
proof (cases "cJSON_GetObjectItem tree ''servers''")
  case None
  then show ?thesis using assms(1) by (auto simp: build_servers_def task_fails_def)
next
  case (Some servers)
  show ?thesis
  proof (cases "cj_type servers = cJSON_Array")
    case True
    then obtain r1 t1 where loop: "server_loop (cj_children servers) u = Inr (r1, t1)"
      and rest: "(if log_check_err_return r1 then Inr (r1, t1) else find_standard t1) = Inr (ret, t')"
      using assms(1) Some by (auto simp: build_servers_def ok_then_Inr)
    note one = server_loop_result [OF loop]
    show ?thesis
    proof (cases "log_check_err_return r1")
      case True
      then show ?thesis using rest one assms(2) by (auto simp: log_check_err_return_def)
    next
      case False
      then have "r1 = S_SUCCESS" using one assms(2) by (auto simp: log_check_err_return_def)
      then show ?thesis using rest False one assms find_standard_result [of t1 ret t'] by (auto simp: valid_task_def)
    qed
  qed (use assms(1) Some in \<open>auto simp: build_servers_def task_fails_def\<close>)
qed

lemma build_excluded_result:
  assumes "build_excluded tree u = Inr (ret, t')" and "t_server_info_arr u = []" and "valid_text (t_task_uuid u)"
    and "t_result_type u = FC_TASK_RESULT_GIT_DIFF"
  shows "(ret = S_SUCCESS \<or> ret = E_ARG_INVALID) \<and> (ret = S_SUCCESS \<longrightarrow> valid_task t')"
  using assms build_servers_result [of tree]
  by (auto simp: build_excluded_def task_fails_def Let_def split: option.splits if_splits prod.splits)

lemma build_type_result:
  assumes "build_result_type tree u = Inr (ret, t')" and "t_server_info_arr u = []" and "valid_text (t_task_uuid u)"
  shows "(ret = S_SUCCESS \<or> ret = E_ARG_INVALID) \<and> (ret = S_SUCCESS \<longrightarrow> valid_task t')"
  using assms build_excluded_result [of tree]
  by (auto simp: build_result_type_def task_fails_def Let_def FC_TASK_RESULT_GIT_DIFF_def FC_TASK_RESULT_INVALID_def
      split: option.splits if_splits)

lemma build_task_result:
  assumes "build_task_from_json parse txt t = Inr (ret, t')" and "t_server_info_arr t = []"
  shows "(ret = S_SUCCESS \<or> ret = E_ARG_INVALID) \<and> (ret = S_SUCCESS \<longrightarrow> valid_task t')"
  using assms build_type_result c_str_no_NUL
  by (auto simp: build_task_from_json_def task_fails_def Let_def valid_text_def split: option.splits if_splits)

lemma build_type_no_throw: "build_result_type tree u \<noteq> Inl e"
proof -
  have "server_loop items t \<noteq> Inl e" for items t
    by (induction items arbitrary: t) (auto simp: task_fails_def split: sum.splits)
  moreover have "find_standard t \<noteq> Inl e" for t
    by (auto simp: find_standard_def task_fails_def Let_def split: option.splits)
  ultimately have "build_servers tree t \<noteq> Inl e" for t
    by (auto simp: build_servers_def task_fails_def ok_then_Inl split: option.splits if_splits)
  then show ?thesis
    by (auto simp: build_result_type_def build_excluded_def task_fails_def Let_def split: option.splits if_splits prod.splits)
qed

text \<open>
  C21. Reading a task. The code is success or invalid argument. After a success the task is
  what the comparison takes for granted: its texts are not empty, every server has a port above zero,
  and exactly one server is the standard, the one the standard index points at.
\<close>

theorem built_task_is_valid:
  assumes "build_task_from_json parse txt new_api_task = Inr (ret, t)"
  shows "(ret = S_SUCCESS \<or> ret = E_ARG_INVALID) \<and> (ret = S_SUCCESS \<longrightarrow> valid_task t \<and>
    0 \<le> t_std_idx t \<and> nat (t_std_idx t) < length (t_server_info_arr t))"
  using build_task_result [OF assms] by (auto simp: new_api_task_def valid_task_def one_standard_def)

definition text_node :: "string \<Rightarrow> string \<Rightarrow> cjson" where
  "text_node name s = CJson (Some name) cJSON_String (Some s) 0 (Finite 0) []"

definition server_node :: cjson where
  "server_node = CJson None cJSON_Object None 0 (Finite 0)
     [text_node ''center'' ''m1'', text_node ''host'' ''h'', text_node ''user'' ''u'', text_node ''password'' ''p'',
      CJson (Some ''port'') cJSON_Number None 8091 (Finite 8091) [], CJson (Some ''standard'') cJSON_True None 1 (Finite 0) [],
      text_node ''path_to_compare'' ''.'', text_node ''base_dir'' ''/opt'']"

definition task_node :: cjson where
  "task_node = CJson None cJSON_Object None 0 (Finite 0)
     [text_node ''uuid'' ''x'', CJson (Some ''servers'') cJSON_Array None 0 (Finite 0) [server_node]]"

theorem built_task_is_valid_witness:
  "\<exists>t. build_task_from_json (\<lambda>_. Some task_node) ''{}'' new_api_task = Inr (S_SUCCESS, t) \<and> valid_task t"
proof -
  obtain t where b: "build_task_from_json (\<lambda>_. Some task_node) ''{}'' new_api_task = Inr (S_SUCCESS, t)"
    by (auto simp: build_task_from_json_def build_result_type_def build_excluded_def build_servers_def Let_def task_node_def
      server_node_def text_node_def cJSON_GetObjectItem_find case_insensitive_strcmp_def strcasecmp_eq_def fold_case_def
      c_str_def tolower_def build_task_server_info_def text_member_def msg_then_def new_api_task_def find_standard_def
      log_check_err_return_def)
  then show ?thesis using built_task_is_valid [OF b] by blast
qed

text \<open>
  What aborts the agent while it reads a task: besides an empty text (or one whose length is 0 in 32 bits), only a task whose
  uuid is the empty string; everything else that is wrong with a text is answered with a code.
\<close>

theorem empty_uuid_aborts:
  "build_task_from_json parse txt t = Inl e \<longleftrightarrow>
     e = AssertFailed \<and>
     (length txt mod 2 ^ 32 = 0 \<or>
      (\<exists>tree uuid s. parse (c_str txt) = Some tree \<and> cJSON_GetObjectItem tree ''uuid'' = Some uuid \<and>
         cj_type uuid = cJSON_String \<and> cj_string uuid = Some s \<and> c_str s = []))"
  using build_type_no_throw
  by (auto simp: build_task_from_json_def task_fails_def Let_def split: option.splits if_splits)

end
