(* ===== verification/Dc_Compare.thy ===== *)
theory Dc_Compare
  imports Dc_Content Dc_Task
begin

text \<open>
  \<^verbatim>\<open>file_compare/compare/dc_compare.h\<close> and \<^verbatim>\<open>dc_compare.cc\<close>: the worker that takes a task off a
  channel, walks the directory of the standard server, asks every server for the attributes of the
  directories in batches, and writes the differences into the task's JSON. A content object, the
  interface \<^verbatim>\<open>dc_content_t\<close>, is a value of type \<open>'c\<close> with the operations in \<open>content_ops\<close>, where
  whatever its threads do between two polls is part of the poll; \<open>walk_sys\<close> is the file system as
  seen from the working directory, and \<open>chdir\<close> gives the view from another one. Polling may go on
  for ever and a tree may be endless: such a run has the value \<open>None\<close>.
\<close>

section \<open>Interfaces and state\<close>

record 'c content_ops =
  ct_do :: "string list \<Rightarrow> 'c \<Rightarrow> (dc_common_code \<times> 'c) run"
  ct_get :: "'c \<Rightarrow> (dc_common_code \<times> 'c) run"
  ct_attrs :: "'c \<Rightarrow> dc_file_attr list"
  ct_new :: "bool \<Rightarrow> server_info \<Rightarrow> 'c"

datatype d_type = DT_DIR | DT_LNK | DT_OTHER

record walk_sys =
  ws_stat :: "string \<Rightarrow> dc_stat option"
  ws_readdir :: "string \<Rightarrow> (string \<times> d_type) list option"

record 'c job =
  cmp_task :: api_task
  dir_q :: "(string \<times> nat) list"
  contents :: "'c list"

section \<open>Attributes as JSON\<close>

definition size_member :: "dc_file_attr \<Rightarrow> (string \<times> json) list" where
  "size_member attr = (if 0 \<le> f_size attr then [(''size'', JInt (f_size attr))] else [])"

definition assign_attr_to_json :: "string \<Rightarrow> dc_file_attr \<Rightarrow> json \<Rightarrow> cpp_error + json" where
  "assign_attr_to_json center_name attr j =
     json_sets ([(''server_name'', JStr center_name)] @ size_member attr @
       [(''owner'', JStr (f_owner attr)), (''last_updated'', JStr (f_last_updated attr)), (''mode'', JStr (f_mode attr))]) j"

definition assign_attr_md5_to_json :: "string \<Rightarrow> dc_file_attr \<Rightarrow> string \<Rightarrow> json \<Rightarrow> cpp_error + json" where
  "assign_attr_md5_to_json center_name attr md5 j =
     json_sets ([(''server_name'', JStr center_name)] @ size_member attr @
       [(''owner'', JStr (f_owner attr)), (''last_updated'', JStr (f_last_updated attr)), (''mode'', JStr (f_mode attr)),
        (''md5'', JStr md5)]) j"

text \<open>\<^verbatim>\<open>json["errno"] = code; json["error"] = message\<close>.\<close>

definition assign_error :: "dc_common_code \<Rightarrow> json \<Rightarrow> cpp_error + json" where
  "assign_error code j =
     ok_then (json_set ''errno'' (json_code code) j) (\<lambda>j. ok_then (json_msg code) (\<lambda>msg. json_set ''error'' msg j))"

definition differing_members :: "dc_file_attr \<Rightarrow> dc_file_attr \<Rightarrow> (string \<times> json) list" where
  "differing_members std other =
     (if f_size std \<noteq> f_size other then [(''size'', JInt (f_size other))] else []) @
     (if f_owner std \<noteq> f_owner other then [(''owner'', JStr (f_owner other))] else []) @
     (if f_last_updated std \<noteq> f_last_updated other then [(''last_updated'', JStr (f_last_updated other))] else []) @
     (if f_mode std \<noteq> f_mode other then [(''mode'', JStr (f_mode other))] else [])"

text \<open>The flag says whether something was put into the value.\<close>

definition compare_assign_attr_to_json :: "dc_file_attr \<Rightarrow> dc_file_attr \<Rightarrow> json \<Rightarrow> string \<Rightarrow> cpp_error + bool \<times> json" where
  "compare_assign_attr_to_json std other j center_name =
     (if f_code other \<noteq> S_SUCCESS then ok_then (assign_error (f_code other) j) (\<lambda>j. Inr (True, j))
      else if f_code std \<noteq> S_SUCCESS then ok_then (assign_attr_to_json center_name other j) (\<lambda>j. Inr (True, j))
      else if attr_compare std other then Inr (False, j)
      else ok_then (json_sets ((''server_name'', JStr center_name) # differing_members std other) j) (\<lambda>j. Inr (True, j)))"

definition compare_assign_attr_md5_to_json :: "dc_file_attr \<Rightarrow> dc_file_attr \<Rightarrow> json \<Rightarrow> string \<Rightarrow> string \<Rightarrow> string \<Rightarrow>
    cpp_error + bool \<times> json" where
  "compare_assign_attr_md5_to_json std other j center_name std_md5 other_md5 =
     (if f_code other \<noteq> S_SUCCESS then ok_then (assign_error (f_code other) j) (\<lambda>j. Inr (True, j))
      else if f_code std \<noteq> S_SUCCESS then ok_then (assign_attr_md5_to_json center_name other other_md5 j) (\<lambda>j. Inr (True, j))
      else if attr_compare std other then Inr (False, j)
      else
        ok_then (json_sets ((''server_name'', JStr center_name) # differing_members std other @
          (if std_md5 \<noteq> other_md5 then [(''md5'', JStr other_md5)] else [])) j) (\<lambda>j. Inr (True, j)))"

section \<open>Asking the servers\<close>

text \<open>A content object with \<^verbatim>\<open>has_done\<close> and \<^verbatim>\<open>has_failed\<close>; no failure is the code 0.\<close>

type_synonym 'c polled = "'c \<times> bool \<times> dc_common_code"

fun ask_all :: "'c content_ops \<Rightarrow> string list \<Rightarrow> 'c list \<Rightarrow> 'c polled list run" where
  "ask_all ops dirs [] = done_with []"
| "ask_all ops dirs (c # cs) =
     run_then (ct_do ops dirs c) (\<lambda>(ret, c).
       run_then (ask_all ops dirs cs) (\<lambda>as. done_with ((c, ret \<noteq> S_SUCCESS, ret) # as)))"

text \<open>One pass of the polling loop over the servers.\<close>

fun poll_all :: "'c content_ops \<Rightarrow> 'c polled list \<Rightarrow> 'c polled list run" where
  "poll_all ops [] = done_with []"
| "poll_all ops ((c, has_done, failed) # as) =
     run_then
       (if has_done then done_with (c, has_done, failed)
        else
          run_then (ct_get ops c) (\<lambda>(ret, c).
            done_with (if ret = E_DC_CONTENT_RETRY then (c, False, failed)
                       else (c, True, if ret \<noteq> S_SUCCESS then ret else failed))))
       (\<lambda>a. run_then (poll_all ops as) (\<lambda>as. done_with (a # as)))"

partial_function (option) poll_until :: "'c content_ops \<Rightarrow> 'c polled list \<Rightarrow> 'c polled list run" where
  "poll_until ops as =
     (if list_all (\<lambda>(c, has_done, failed). has_done) as then done_with as
      else run_then (poll_all ops as) (\<lambda>as. poll_until ops as))"

section \<open>The report on a batch of directories\<close>

text \<open>The standard's entry, and what its attributes are for the comparison with the others.\<close>

definition std_entry :: "string \<Rightarrow> dc_file_attr list \<Rightarrow> dc_common_code \<Rightarrow> nat \<Rightarrow> cpp_error + json \<times> dc_file_attr" where
  "std_entry center attrs failed dir_idx =
     ok_then (json_set ''is_standard'' (JBool True) JNull) (\<lambda>j.
       if length attrs \<le> dir_idx then
         ok_then (assign_error failed j) (\<lambda>j. Inr (j, new_attr\<lparr>f_code := failed\<rparr>))
       else ok_then (assign_attr_to_json center (attrs ! dir_idx) j) (\<lambda>j. Inr (j, attrs ! dir_idx)))"

text \<open>The entry of another server: none when nothing differs.\<close>

definition other_entry :: "dc_file_attr \<Rightarrow> string \<Rightarrow> dc_file_attr list \<Rightarrow> dc_common_code \<Rightarrow> nat \<Rightarrow> cpp_error + json list" where
  "other_entry std center attrs failed dir_idx =
     (if length attrs \<le> dir_idx then ok_then (assign_error failed JNull) (\<lambda>j. Inr [j])
      else
        ok_then (compare_assign_attr_to_json std (attrs ! dir_idx) JNull center) (\<lambda>(put, j).
          Inr (if put then [j] else [])))"

fun other_entries :: "dc_file_attr \<Rightarrow> nat \<Rightarrow> nat \<Rightarrow> nat \<Rightarrow> (string \<times> dc_file_attr list \<times> dc_common_code) list \<Rightarrow>
    cpp_error + json list" where
  "other_entries std std_idx dir_idx i [] = Inr []"
| "other_entries std std_idx dir_idx i ((center, attrs, failed) # rs) =
     (if i = std_idx then other_entries std std_idx dir_idx (i + 1) rs
      else
        ok_then (other_entry std center attrs failed dir_idx) (\<lambda>j.
          ok_then (other_entries std std_idx dir_idx (i + 1) rs) (\<lambda>js. Inr (j @ js))))"

definition dir_servers :: "nat \<Rightarrow> (string \<times> dc_file_attr list \<times> dc_common_code) list \<Rightarrow> nat \<Rightarrow> cpp_error + json list" where
  "dir_servers std_idx rs dir_idx =
     (case rs ! std_idx of (center, attrs, failed) \<Rightarrow>
        ok_then (std_entry center attrs failed dir_idx) (\<lambda>(j, std).
          ok_then (other_entries std std_idx dir_idx 0 rs) (\<lambda>js. Inr (j # js))))"

text \<open>What is done to the array \<^verbatim>\<open>t_compare_result_json["diffs"]\<close>.\<close>

definition with_diffs :: "(json \<Rightarrow> cpp_error + 'b \<times> json) \<Rightarrow> api_task \<Rightarrow> cpp_error + 'b \<times> api_task" where
  "with_diffs f t =
     ok_then (json_index ''diffs'' (t_compare_result_json t)) (\<lambda>(deltas, j).
       ok_then (f deltas) (\<lambda>(x, deltas).
         ok_then (json_set ''diffs'' deltas j) (\<lambda>j. Inr (x, t\<lparr>t_compare_result_json := j\<rparr>))))"

text \<open>\<^verbatim>\<open>diffs[i]["servers"] = servers\<close> after the assertions on the index; the servers are
  made up in between.\<close>

definition set_servers :: "nat \<Rightarrow> cpp_error + json list \<Rightarrow> json \<Rightarrow> cpp_error + unit \<times> json" where
  "set_servers i servers deltas =
     (if \<not> i < json_size deltas then Inl AssertFailed
      else
        (case deltas of
           JArr vs \<Rightarrow>
             ok_then servers (\<lambda>js.
               ok_then (json_set ''servers'' (JArr js) (vs ! i)) (\<lambda>v. Inr ((), JArr (vs[i := v]))))
         | _ \<Rightarrow> Inl JsonTypeError))"

fun report_dirs :: "nat \<Rightarrow> (string \<times> dc_file_attr list \<times> dc_common_code) list \<Rightarrow> nat \<Rightarrow> (string \<times> nat) list \<Rightarrow>
    api_task \<Rightarrow> cpp_error + api_task" where
  "report_dirs std_idx rs dir_idx [] t = Inr t"
| "report_dirs std_idx rs dir_idx ((path, json_idx) # q) t =
     ok_then (with_diffs (set_servers json_idx (dir_servers std_idx rs dir_idx)) t) (\<lambda>(_, t).
       report_dirs std_idx rs (dir_idx + 1) q t)"

text \<open>The standard index in range, as many contents as servers.\<close>

definition job_asserts :: "'c job \<Rightarrow> bool" where
  "job_asserts jb \<longleftrightarrow>
     0 \<le> t_std_idx (cmp_task jb) \<and> t_std_idx (cmp_task jb) < int (length (t_server_info_arr (cmp_task jb))) \<and>
     length (t_server_info_arr (cmp_task jb)) = length (contents jb)"

definition exe_sql_job_for_single_item_dir1 :: "'c content_ops \<Rightarrow> 'c job \<Rightarrow> (dc_common_code \<times> 'c job) run" where
  "exe_sql_job_for_single_item_dir1 ops jb =
     (if dir_q jb = [] then done_with (S_SUCCESS, jb)
      else if \<not> job_asserts jb then Some (Inl AssertFailed)
      else
        run_then (ask_all ops (map fst (dir_q jb)) (contents jb)) (\<lambda>as.
          run_then (poll_until ops as) (\<lambda>as.
            run_then
              (Some (report_dirs (nat (t_std_idx (cmp_task jb)))
                 (map2 (\<lambda>s (c, has_done, failed). (c_center s, ct_attrs ops c, failed)) (t_server_info_arr (cmp_task jb)) as)
                 0 (dir_q jb) (cmp_task jb)))
              (\<lambda>t. done_with (S_SUCCESS, jb\<lparr>cmp_task := t, dir_q := [], contents := map fst as\<rparr>)))))"

definition dir_batch_size :: nat where
  "dir_batch_size = 1000"

definition exe_sql_job_for_single_item_dir :: "'c content_ops \<Rightarrow> string \<Rightarrow> nat \<Rightarrow> 'c job \<Rightarrow> (dc_common_code \<times> 'c job) run" where
  "exe_sql_job_for_single_item_dir ops dir_full_path json_idx jb =
     (if \<not> job_asserts jb then Some (Inl AssertFailed)
      else
        (let jb = jb\<lparr>dir_q := dir_q jb @ [(dir_full_path, json_idx)]\<rparr> in
         if length (dir_q jb) > dir_batch_size then exe_sql_job_for_single_item_dir1 ops jb
         else done_with (S_SUCCESS, jb)))"

definition exe_sql_job_for_single_item_file :: "string \<Rightarrow> int \<Rightarrow> 'c job \<Rightarrow> (dc_common_code \<times> 'c job) run" where
  "exe_sql_job_for_single_item_file file_full_path json_idx jb =
     (if \<not> job_asserts jb then Some (Inl AssertFailed) else done_with (S_SUCCESS, jb))"

section \<open>The walk over a directory\<close>

definition get_parent_dir :: "nat \<Rightarrow> string \<Rightarrow> string" where
  "get_parent_dir depth path =
     (if depth = 0 then ''.''
      else
        (let parent_dir = (if last path = CHR ''/'' then butlast path else path) in
         (case find_last (\<lambda>c. c = CHR ''/'') parent_dir of
            None \<Rightarrow> parent_dir
          | Some pos \<Rightarrow> drop pos parent_dir)))"

definition item_json :: "string \<Rightarrow> string \<Rightarrow> bool \<Rightarrow> string option \<Rightarrow> cpp_error + json" where
  "item_json name dir dir_flag path =
     json_sets ([(''name'', JStr name), (''dir'', JStr dir), (''is_dir'', JBool dir_flag)] @
       (case path of None \<Rightarrow> [] | Some p \<Rightarrow> [(''path'', JStr p)])) JNull"

text \<open>\<^verbatim>\<open>emplace_back\<close> and the members of the new element; the result is its index.\<close>

definition add_item :: "string \<Rightarrow> string \<Rightarrow> bool \<Rightarrow> string option \<Rightarrow> 'c job \<Rightarrow> cpp_error + nat \<times> 'c job" where
  "add_item name dir dir_flag path jb =
     ok_then (with_diffs (\<lambda>deltas.
         ok_then (item_json name dir dir_flag path) (\<lambda>item.
           ok_then (json_push item deltas) (\<lambda>deltas. Inr (json_size deltas - 1, deltas)))) (cmp_task jb))
       (\<lambda>(i, t). Inr (i, jb\<lparr>cmp_task := t\<rparr>))"

text \<open>
  The loop over the entries of a directory. An entry that is a directory is opened and walked in
  turn; what that answers is only logged.
\<close>

partial_function (option) walk_entries :: "walk_sys \<Rightarrow> 'c content_ops \<Rightarrow> nat \<Rightarrow> string \<Rightarrow> (string \<times> d_type) list \<Rightarrow> 'c job \<Rightarrow>
    (dc_common_code \<times> 'c job) run" where
  "walk_entries sys ops depth path entries jb =
     (case entries of
        [] \<Rightarrow> done_with (S_SUCCESS, jb)
      | (name, ty) # rest \<Rightarrow>
          (if ty = DT_LNK then walk_entries sys ops depth path rest jb
           else if ty = DT_DIR then
             (if name = ''.'' \<or> name = ''..'' then walk_entries sys ops depth path rest jb
              else
                run_then (Some (add_item name (get_parent_dir depth path) True None jb)) (\<lambda>(i, jb).
                  run_then (exe_sql_job_for_single_item_dir ops (path @ ''/'' @ name) i jb) (\<lambda>(_, jb).
                    run_then
                      (if \<not> job_asserts jb then Some (Inl AssertFailed)
                       else
                         (case ws_readdir sys (path @ ''/'' @ name) of
                            None \<Rightarrow> done_with (E_OS_ENV_OPEN, jb)
                          | Some es \<Rightarrow> walk_entries sys ops (depth + 1) (path @ ''/'' @ name) es jb))
                      (\<lambda>(_, jb). walk_entries sys ops depth path rest jb))))
           else
             (case ws_stat sys (path @ ''/'' @ name) of
                None \<Rightarrow> done_with (E_OS_ENV_STAT, jb)
              | Some st \<Rightarrow>
                  if st_kind st \<noteq> Regular then walk_entries sys ops depth path rest jb
                  else
                    run_then (Some (add_item name (get_parent_dir depth path) False (Some (path @ ''/'' @ name)) jb)) (\<lambda>(i, jb).
                      run_then (exe_sql_job_for_single_item_file (path @ ''/'' @ name) (int i) jb) (\<lambda>(ret, jb).
                        if log_check_err_return ret then done_with (ret, jb)
                        else walk_entries sys ops depth path rest jb)))))"

definition exe_sql_job_for_dir :: "walk_sys \<Rightarrow> 'c content_ops \<Rightarrow> string \<Rightarrow> nat \<Rightarrow> 'c job \<Rightarrow> (dc_common_code \<times> 'c job) run" where
  "exe_sql_job_for_dir sys ops path depth jb =
     (if \<not> job_asserts jb then Some (Inl AssertFailed)
      else
        (case ws_readdir sys path of
           None \<Rightarrow> done_with (E_OS_ENV_OPEN, jb)
         | Some es \<Rightarrow> walk_entries sys ops depth path es jb))"

section \<open>A task\<close>

definition std_server :: "api_task \<Rightarrow> server_info" where
  "std_server t = t_server_info_arr t ! nat (t_std_idx t)"

definition exe_sql_job1 :: "walk_sys \<Rightarrow> (string \<Rightarrow> walk_sys option) \<Rightarrow> 'c content_ops \<Rightarrow> 'c job \<Rightarrow> (dc_common_code \<times> 'c job) run" where
  "exe_sql_job1 sys chdir ops jb =
     (let t = cmp_task jb; path = c_str (c_path_to_compare (std_server t)) in
      if \<not> (0 \<le> t_std_idx t \<and> t_std_idx t < int (length (t_server_info_arr t))) then Some (Inl AssertFailed)
      else
        (case ws_stat sys path of
           None \<Rightarrow> done_with (E_OS_ENV_STAT, jb)
         | Some st \<Rightarrow>
             if st_kind st = Regular then
               run_then (Some (with_diffs (\<lambda>deltas. ok_then (json_push JNull deltas) (\<lambda>deltas. Inr (JNull, deltas))) t)) (\<lambda>(new, t).
                 run_then (Some (json_int new)) (\<lambda>json_idx.
                   run_then (exe_sql_job_for_single_item_file path json_idx (jb\<lparr>cmp_task := t\<rparr>)) done_with))
             else if st_kind st = Directory then
               (let sys = (case chdir (c_str (c_base_dir (std_server t))) of None \<Rightarrow> sys | Some sys \<Rightarrow> sys) in
                run_then (exe_sql_job_for_dir sys ops path 0 jb) (\<lambda>(ret, jb).
                  if log_check_err_return ret then done_with (ret, jb)
                  else if dir_q jb \<noteq> [] then exe_sql_job_for_single_item_dir1 ops jb
                  else done_with (ret, jb)))
             else done_with (E_NOT_SUPPORT_FILE_TYPE, jb)))"

text \<open>The contents live as long as the job; the queue of directories belongs to the worker.\<close>

definition new_contents :: "'c content_ops \<Rightarrow> api_task \<Rightarrow> 'c list" where
  "new_contents ops t =
     map2 (\<lambda>i s. ct_new ops (int i = t_std_idx t) s) [0..<length (t_server_info_arr t)] (t_server_info_arr t)"

definition exe_sql_job :: "walk_sys \<Rightarrow> (string \<Rightarrow> walk_sys option) \<Rightarrow> 'c content_ops \<Rightarrow> (string \<times> nat) list \<Rightarrow> api_task \<Rightarrow>
    (dc_common_code \<times> (string \<times> nat) list \<times> api_task) run" where
  "exe_sql_job sys chdir ops q t =
     run_then (exe_sql_job1 sys chdir ops \<lparr>cmp_task = t, dir_q = q, contents = new_contents ops t\<rparr>) (\<lambda>(ret, jb).
       done_with (ret, dir_q jb, cmp_task jb))"

section \<open>The worker\<close>

record compare_worker =
  w_dir_q :: "(string \<times> nat) list"
  w_task_q :: "api_task spsc_queue"
  w_out_q :: "api_task spsc_queue"

definition new_compare_worker :: compare_worker where
  "new_compare_worker = \<lparr>w_dir_q = [], w_task_q = new_chan, w_out_q = new_chan\<rparr>"

definition compare_add :: "api_task \<Rightarrow> compare_worker \<Rightarrow> (dc_common_code \<times> compare_worker) run" where
  "compare_add t w = map_option (\<lambda>q. Inr (S_SUCCESS, w\<lparr>w_task_q := q\<rparr>)) (chan_write t (w_task_q w))"

definition compare_get :: "json \<Rightarrow> compare_worker \<Rightarrow> dc_common_code \<times> json \<times> compare_worker" where
  "compare_get j w =
     (case read_once (w_out_q w) of
        (None, q) \<Rightarrow> (E_DC_TASK_MEM_VOPS_NOT_OVER, j, w)
      | (Some t, q) \<Rightarrow> (S_SUCCESS, t_compare_result_json t, w\<lparr>w_out_q := q\<rparr>))"

definition start_json :: "api_task \<Rightarrow> cpp_error + api_task" where
  "start_json t =
     ok_then (json_sets [(''uuid'', JStr (t_task_uuid t)), (''diffs'', JArr []), (''next_shard'', JInt (-1))] (t_compare_result_json t))
       (\<lambda>j. Inr (t\<lparr>t_compare_result_json := j\<rparr>))"

definition end_json :: "dc_common_code \<Rightarrow> api_task \<Rightarrow> cpp_error + api_task" where
  "end_json ret t =
     (if ret \<noteq> S_SUCCESS then ok_then (assign_error ret (t_compare_result_json t)) (\<lambda>j. Inr (t\<lparr>t_compare_result_json := j\<rparr>))
      else Inr t)"

text \<open>One round of the loop of \<^verbatim>\<open>execute\<close>; with no task it sleeps and looks again.\<close>

definition execute :: "walk_sys \<Rightarrow> (string \<Rightarrow> walk_sys option) \<Rightarrow> 'c content_ops \<Rightarrow> compare_worker \<Rightarrow> compare_worker run" where
  "execute sys chdir ops w =
     (if w_dir_q w \<noteq> [] then Some (Inl AssertFailed)
      else
        (case read_once (w_task_q w) of
           (None, q) \<Rightarrow> done_with w
         | (Some t, q) \<Rightarrow>
             run_then (Some (start_json t)) (\<lambda>t.
               run_then (exe_sql_job sys chdir ops [] t) (\<lambda>(ret, dirs, t).
                 run_then (Some (end_json ret t)) (\<lambda>t.
                   map_option (\<lambda>out. Inr (w\<lparr>w_dir_q := dirs, w_task_q := q, w_out_q := out\<rparr>)) (chan_write t (w_out_q w)))))))"

section \<open>The report\<close>

definition has_message :: "dc_common_code \<Rightarrow> bool" where
  "has_message c \<longleftrightarrow> (\<exists>s. dc_common_code_msg c = Inr (Some s))"

lemma assign_error_result:
  assumes "json_ok j" and "has_message c"
  shows "\<exists>j'. assign_error c j = Inr j' \<and> json_find j' ''errno'' = Some (json_code c) \<and>
    json_find j' ''server_name'' = json_find j ''server_name'' \<and> json_find j' ''is_standard'' = json_find j ''is_standard''"
proof -
  from assms(2) obtain s where s: "json_msg c = Inr (JStr s)" by (auto simp: has_message_def json_msg_def)
  let ?kvs = "[(''errno'', json_code c), (''error'', JStr s)]"
  have "assign_error c j = json_sets ?kvs j"
    by (simp add: assign_error_def s ok_then_def split: sum.split)
  moreover obtain j' where "json_sets ?kvs j = Inr j'" and
    "\<forall>k. json_find j' k = fold (\<lambda>(k', v) r. if k' = k then Some v else r) ?kvs (json_find j k)"
    using json_sets_ok [OF assms(1)] by blast
  ultimately show ?thesis by (intro exI [of _ j']) (simp del: json_sets.simps)
qed

text \<open>The attributes an answer has for the directory \<open>i\<close>, and the code it failed with.\<close>

type_synonym answer = "string \<times> dc_file_attr list \<times> dc_common_code"

definition answer_attr :: "nat \<Rightarrow> answer \<Rightarrow> dc_file_attr" where
  "answer_attr i = (\<lambda>(center, attrs, failed). if length attrs \<le> i then new_attr\<lparr>f_code := failed\<rparr> else attrs ! i)"

definition answered :: "nat \<Rightarrow> answer \<Rightarrow> bool" where
  "answered i = (\<lambda>(center, attrs, failed). i < length attrs \<and> f_code (attrs ! i) = S_SUCCESS)"

definition to_report :: "dc_file_attr \<Rightarrow> nat \<Rightarrow> answer \<Rightarrow> bool" where
  "to_report std i r \<longleftrightarrow> \<not> answered i r \<or> \<not> attr_compare std (answer_attr i r)"

definition entry_tells :: "dc_file_attr \<Rightarrow> nat \<Rightarrow> answer \<Rightarrow> json \<Rightarrow> bool" where
  "entry_tells std i r j \<longleftrightarrow>
     (if answered i r then
        json_find j ''errno'' = None \<and> json_find j ''server_name'' = Some (JStr (fst r)) \<and>
        (f_code std = S_SUCCESS \<longrightarrow>
           (let a = answer_attr i r in
            json_find j ''size'' = (if f_size std = f_size a then None else Some (JInt (f_size a))) \<and>
            json_find j ''owner'' = (if f_owner std = f_owner a then None else Some (JStr (f_owner a))) \<and>
            json_find j ''last_updated'' = (if f_last_updated std = f_last_updated a then None else Some (JStr (f_last_updated a))) \<and>
            json_find j ''mode'' = (if f_mode std = f_mode a then None else Some (JStr (f_mode a)))))
      else json_find j ''errno'' = Some (json_code (f_code (answer_attr i r))) \<and> json_find j ''server_name'' = None)"

definition others_of :: "nat \<Rightarrow> 'a list \<Rightarrow> 'a list" where
  "others_of s rs = take s rs @ drop (Suc s) rs"

lemma sets_from_null:
  "\<exists>j. json_sets kvs JNull = Inr j \<and> json_ok j \<and> (\<forall>k. json_find j k = fold (\<lambda>(k', v) r. if k' = k then Some v else r) kvs None)"
  using json_sets_ok [of JNull kvs] by simp

lemma assign_attr_result:
  assumes "json_ok j"
  shows "\<exists>j'. assign_attr_to_json center a j = Inr j' \<and> json_find j' ''server_name'' = Some (JStr center) \<and>
    json_find j' ''errno'' = json_find j ''errno'' \<and> json_find j' ''is_standard'' = json_find j ''is_standard''"
proof -
  let ?kvs = "[(''server_name'', JStr center)] @ size_member a @
    [(''owner'', JStr (f_owner a)), (''last_updated'', JStr (f_last_updated a)), (''mode'', JStr (f_mode a))]"
  obtain j' where "json_sets ?kvs j = Inr j'" and
    "\<forall>k. json_find j' k = fold (\<lambda>(k', v) r. if k' = k then Some v else r) ?kvs (json_find j k)"
    using json_sets_ok [OF assms] by blast
  then show ?thesis
    by (intro exI [of _ j']) (simp add: assign_attr_to_json_def size_member_def del: json_sets.simps)
qed

lemma other_entry_result:
  assumes "has_message (f_code (answer_attr i (center, attrs, failed)))"
  shows "\<exists>js. other_entry std center attrs failed i = Inr js \<and>
    list_all2 (entry_tells std i) (filter (to_report std i) [(center, attrs, failed)]) js"
proof -
  let ?r = "(center, attrs, failed)"
  consider "length attrs \<le> i" | "i < length attrs" "f_code (attrs ! i) \<noteq> S_SUCCESS"
    | "answered i ?r" "f_code std \<noteq> S_SUCCESS" | "answered i ?r" "f_code std = S_SUCCESS"
    by (fastforce simp: answered_def)
  then show ?thesis
  proof cases
    case 1
    then obtain j where "assign_error failed JNull = Inr j" "json_find j ''errno'' = Some (json_code failed)"
      "json_find j ''server_name'' = None"
      using assign_error_result [OF json_ok_Null, of failed] assms by (auto simp: answer_attr_def)
    then show ?thesis using 1
      by (simp add: other_entry_def to_report_def answered_def entry_tells_def answer_attr_def)
  next
    case 2
    then obtain j where "assign_error (f_code (attrs ! i)) JNull = Inr j"
      "json_find j ''errno'' = Some (json_code (f_code (attrs ! i)))" "json_find j ''server_name'' = None"
      using assign_error_result [OF json_ok_Null, of "f_code (attrs ! i)"] assms by (auto simp: answer_attr_def)
    then show ?thesis using 2
      by (simp add: other_entry_def compare_assign_attr_to_json_def to_report_def answered_def entry_tells_def answer_attr_def)
  next
    case 3
    obtain j where "assign_attr_to_json center (attrs ! i) JNull = Inr j"
      and "json_find j ''errno'' = None" "json_find j ''server_name'' = Some (JStr center)"
      using assign_attr_result [OF json_ok_Null, of center "attrs ! i"] by auto
    then show ?thesis using 3
      by (auto simp: other_entry_def compare_assign_attr_to_json_def to_report_def answered_def entry_tells_def answer_attr_def
          attr_compare_def ok_then_Inr)
  next
    case 4
    obtain j where "json_sets ((''server_name'', JStr center) # differing_members std (attrs ! i)) JNull = Inr j"
      and "\<forall>k. json_find j k = fold (\<lambda>(k', v) r. if k' = k then Some v else r)
             ((''server_name'', JStr center) # differing_members std (attrs ! i)) None"
      using sets_from_null by blast
    then show ?thesis using 4
      by (cases "attr_compare std (attrs ! i)")
         (auto simp: other_entry_def compare_assign_attr_to_json_def to_report_def answered_def entry_tells_def answer_attr_def
          differing_members_def Let_def simp del: json_sets.simps)
  qed
qed

lemma other_entries_result:
  assumes "\<forall>r \<in> set rs. has_message (f_code (answer_attr i r))"
  shows "\<exists>js. other_entries std s i k rs = Inr js \<and>
    list_all2 (entry_tells std i) (filter (to_report std i) (if k \<le> s then others_of (s - k) rs else rs)) js"
  using assms
proof (induction rs arbitrary: k)
  case (Cons r rs)
  obtain center attrs failed where r: "r = (center, attrs, failed)" by (cases r)
  obtain js where js: "other_entries std s i (k + 1) rs = Inr js"
    "list_all2 (entry_tells std i) (filter (to_report std i) (if k + 1 \<le> s then others_of (s - (k + 1)) rs else rs)) js"
    using Cons.IH [of "k + 1"] Cons.prems by (meson list.set_intros(2))
  obtain j where j: "other_entry std center attrs failed i = Inr j"
    "list_all2 (entry_tells std i) (filter (to_report std i) [r]) j"
    using other_entry_result [of i center attrs failed std] Cons.prems by (auto simp: r)
  show ?case
  proof (cases "k = s")
    case True
    then show ?thesis using js by (simp add: r others_of_def)
  next
    case False
    then have rest: "(if k \<le> s then others_of (s - k) (r # rs) else r # rs) =
        r # (if k + 1 \<le> s then others_of (s - (k + 1)) rs else rs)"
      by (auto simp: others_of_def take_Cons' Suc_diff_Suc)
    have found: "other_entries std s i k (r # rs) = Inr (j @ js)"
      using False js(1) j(1) by (simp add: r)
    have "list_all2 (entry_tells std i)
        (filter (to_report std i) (r # (if k + 1 \<le> s then others_of (s - (k + 1)) rs else rs))) (j @ js)"
      using list_all2_appendI [OF j(2) js(2)] unfolding filter_append [symmetric] by simp
    then show ?thesis by (intro exI [of _ "j @ js"] conjI found) (unfold rest)
  qed
qed (simp add: others_of_def)

lemma std_entry_result:
  assumes "has_message (f_code (answer_attr i (center, attrs, failed)))"
  shows "\<exists>j. std_entry center attrs failed i = Inr (j, answer_attr i (center, attrs, failed)) \<and>
    json_find j ''is_standard'' = Some (JBool True)"
proof -
  obtain j0 where j0: "json_set ''is_standard'' (JBool True) JNull = Inr j0" "json_ok j0" "json_find j0 ''is_standard'' = Some (JBool True)"
    using json_set_ok [OF json_ok_Null] by metis
  show ?thesis
  proof (cases "length attrs \<le> i")
    case True
    then obtain j where "assign_error failed j0 = Inr j" "json_find j ''is_standard'' = Some (JBool True)"
      using assign_error_result [OF j0(2), of failed] assms j0(3) by (auto simp: answer_attr_def)
    then show ?thesis using True j0(1) by (simp add: std_entry_def answer_attr_def)
  next
    case False
    obtain j where "assign_attr_to_json center (attrs ! i) j0 = Inr j" "json_find j ''is_standard'' = Some (JBool True)"
      using assign_attr_result [OF j0(2), of center "attrs ! i"] j0(3) by auto
    then show ?thesis using False j0(1) by (simp add: std_entry_def answer_attr_def)
  qed
qed

lemma dir_servers_report:
  assumes "s < length rs" and "\<forall>r \<in> set rs. has_message (f_code (answer_attr i r))"
  shows "\<exists>j js. dir_servers s rs i = Inr (j # js) \<and> json_find j ''is_standard'' = Some (JBool True) \<and>
    list_all2 (entry_tells (answer_attr i (rs ! s)) i) (filter (to_report (answer_attr i (rs ! s)) i) (others_of s rs)) js"
proof -
  obtain center attrs failed where r: "rs ! s = (center, attrs, failed)" by (cases "rs ! s")
  obtain j where "std_entry center attrs failed i = Inr (j, answer_attr i (rs ! s))" "json_find j ''is_standard'' = Some (JBool True)"
    using std_entry_result [of i center attrs failed] assms r by (metis nth_mem)
  moreover obtain js where "other_entries (answer_attr i (rs ! s)) s i 0 rs = Inr js"
    "list_all2 (entry_tells (answer_attr i (rs ! s)) i) (filter (to_report (answer_attr i (rs ! s)) i) (others_of s rs)) js"
    using other_entries_result [OF assms(2), of "answer_attr i (rs ! s)" s 0] by auto
  ultimately show ?thesis by (simp add: dir_servers_def r)
qed

text \<open>
  C12. The report on a directory. When the codes of the answers have messages, the report is
  made. It begins with the entry of the standard; then come, in the order of the servers, the entries
  of exactly those other servers that did not give the attributes or whose attributes are not the
  standard's. An entry of a server that answered has its name and, of the attributes, exactly those
  that differ; the entry of one that failed has the number of the code, and not the name.
\<close>

theorem report_tells_differences:
  assumes "s < length rs" and "\<forall>r \<in> set rs. has_message (f_code (answer_attr i r))"
  shows "\<exists>j js. dir_servers s rs i = Inr (j # js) \<and> json_find j ''is_standard'' = Some (JBool True) \<and>
    list_all2 (entry_tells (answer_attr i (rs ! s)) i) (filter (to_report (answer_attr i (rs ! s)) i) (others_of s rs)) js"
  using assms by (rule dir_servers_report)

definition same_attr :: dc_file_attr where
  "same_attr = new_attr\<lparr>f_mode := ''drwx'', f_owner := ''root''\<rparr>"

theorem report_tells_differences_witness:
  "\<exists>j j1 j2. dir_servers 0
     [(''a'', [same_attr], S_SUCCESS), (''b'', [same_attr], S_SUCCESS),
      (''c'', [same_attr\<lparr>f_owner := ''adm''\<rparr>], S_SUCCESS), (''d'', [], E_OS_ENV_STAT)] 0 = Inr [j, j1, j2] \<and>
     json_find j1 ''owner'' = Some (JStr ''adm'') \<and> json_find j2 ''errno'' = Some (json_code E_OS_ENV_STAT)"
proof -
  let ?rs = "[(''a'', [same_attr], S_SUCCESS), (''b'', [same_attr], S_SUCCESS),
      (''c'', [same_attr\<lparr>f_owner := ''adm''\<rparr>], S_SUCCESS), (''d'', [], E_OS_ENV_STAT)]"
  have msg: "has_message S_SUCCESS" "has_message E_OS_ENV_STAT"
    by (simp_all add: has_message_def dc_common_code_msg_def error_code_msg_def code_num_eval)
  then have "\<forall>r \<in> set ?rs. has_message (f_code (answer_attr 0 r))"
    by (simp add: answer_attr_def same_attr_def new_attr_def)
  from report_tells_differences [OF _ this, of 0] show ?thesis
    by (auto simp: others_of_def to_report_def answered_def answer_attr_def same_attr_def new_attr_def attr_compare_def
        entry_tells_def list_all2_Cons1 numeral_eq_Suc)
qed

section \<open>A task for a single file\<close>

lemma start_json_null:
  assumes "t_compare_result_json t = JNull"
  shows "\<exists>j. start_json t = Inr (t\<lparr>t_compare_result_json := j\<rparr>) \<and> json_ok j \<and> json_find j ''diffs'' = Some (JArr [])"
proof -
  let ?kvs = "[(''uuid'', JStr (t_task_uuid t)), (''diffs'', JArr []), (''next_shard'', JInt (-1))]"
  obtain j where "json_sets ?kvs JNull = Inr j" "json_ok j" and
    "\<forall>k. json_find j k = fold (\<lambda>(k', v) r. if k' = k then Some v else r) ?kvs (json_find JNull k)"
    using json_sets_ok [OF json_ok_Null] by blast
  then show ?thesis using assms by (intro exI [of _ j]) (simp add: start_json_def del: json_sets.simps)
qed

definition put_diffs :: "json \<Rightarrow> api_task \<Rightarrow> api_task" where
  "put_diffs d t = (case json_set ''diffs'' d (t_compare_result_json t) of Inl _ \<Rightarrow> t | Inr j \<Rightarrow> t\<lparr>t_compare_result_json := j\<rparr>)"

lemma with_diffs_eq:
  assumes "json_ok (t_compare_result_json t)" and "json_find (t_compare_result_json t) ''diffs'' = Some d"
  shows "with_diffs f t = ok_then (f d) (\<lambda>(x, d'). Inr (x, put_diffs d' t))"
proof -
  obtain m where m: "t_compare_result_json t = JObj m" "smap_get str_lt m ''diffs'' = Some d"
    using assms by (auto simp: json_ok_def)
  then show ?thesis by (cases "f d") (auto simp: with_diffs_def put_diffs_def)
qed

lemma put_diffs_result:
  assumes "json_ok (t_compare_result_json t)"
  shows "json_ok (t_compare_result_json (put_diffs d t)) \<and>
    json_find (t_compare_result_json (put_diffs d t)) ''diffs'' = Some d \<and>
    t_server_info_arr (put_diffs d t) = t_server_info_arr t \<and> t_std_idx (put_diffs d t) = t_std_idx t"
proof -
  obtain j where j: "json_set ''diffs'' d (t_compare_result_json t) = Inr j" "json_ok j" "json_find j ''diffs'' = Some d"
    using json_set_ok [OF assms] by metis
  then show ?thesis by (simp add: put_diffs_def)
qed

text \<open>
  A task whose path at the standard server is a regular file. Whatever the contents are,
  the worker that takes it throws: the element just added to the list of differences is null, and it
  is converted to the number of an element.
\<close>

theorem single_file_throws:
  assumes "holds (w_task_q w) (t # ts)" and "w_dir_q w = []"
    and "t_compare_result_json t = JNull" and "0 \<le> t_std_idx t" and "t_std_idx t < int (length (t_server_info_arr t))"
    and "ws_stat sys (c_str (c_path_to_compare (std_server t))) = Some st" and "st_kind st = Regular"
  shows "execute sys chdir ops w = Some (Inl JsonTypeError)"
proof -
  obtain q where q: "read_once (w_task_q w) = (Some t, q)" using holds_read [OF assms(1)] by blast
  obtain j where j: "start_json t = Inr (t\<lparr>t_compare_result_json := j\<rparr>)" "json_ok j" "json_find j ''diffs'' = Some (JArr [])"
    using start_json_null [OF assms(3)] by blast
  show ?thesis using assms q j
    by (simp add: execute_def exe_sql_job_def exe_sql_job1_def std_server_def with_diffs_eq Let_def)
qed

definition idle_ops :: "unit content_ops" where
  "idle_ops = \<lparr>ct_do = (\<lambda>_ c. done_with (S_SUCCESS, c)), ct_get = (\<lambda>c. done_with (S_SUCCESS, c)), ct_attrs = (\<lambda>_. []), ct_new = (\<lambda>_ _. ())\<rparr>"

definition one_server :: server_info where
  "one_server = \<lparr>c_center = ''m'', c_host = ''h'', c_user = ''u'', c_password = ''p'', c_port = 1, c_standard = True,
     c_excluded_file_regex = [], c_base_dir = ''/o'', c_path_to_compare = ''t''\<rparr>"

definition one_server_task :: api_task where
  "one_server_task = new_api_task\<lparr>t_task_uuid := ''x'', t_server_info_arr := [one_server]\<rparr>"

definition fs_object :: "file_kind \<Rightarrow> dc_stat" where
  "fs_object k = \<lparr>st_kind = k, st_size = 0, st_mode = 0, st_uid = 0, st_mtime = 0\<rparr>"

theorem single_file_throws_witness:
  "\<exists>w. execute \<lparr>ws_stat = \<lambda>_. Some (fs_object Regular), ws_readdir = \<lambda>_. None\<rparr> (\<lambda>_. None) idle_ops w = Some (Inl JsonTypeError)"
proof -
  obtain q where q: "holds q [one_server_task]"
    using holds_write [OF holds_new, of one_server_task] by auto
  show ?thesis
    by (rule exI [of _ "new_compare_worker\<lparr>w_task_q := q\<rparr>"], rule single_file_throws [where t = one_server_task and ts = "[]" and st = "fs_object Regular"])
       (use q in \<open>simp_all add: new_compare_worker_def one_server_task_def new_api_task_def std_server_def one_server_def fs_object_def\<close>)
qed

section \<open>The walk over a finite tree\<close>

text \<open>
  A directory as the walk finds it: subdirectories with what is in them, subdirectories that cannot
  be opened, regular files, and the entries that are passed over (links, the directory itself and its
  parent, devices and the like).
\<close>

datatype listing =
    End | Subdir string listing listing | Locked string listing | Plain string listing | Passed string d_type listing

primrec entries_of :: "listing \<Rightarrow> (string \<times> d_type) list" where
  "entries_of End = []"
| "entries_of (Subdir n l r) = (n, DT_DIR) # entries_of r"
| "entries_of (Locked n r) = (n, DT_DIR) # entries_of r"
| "entries_of (Plain n r) = (n, DT_OTHER) # entries_of r"
| "entries_of (Passed n ty r) = (n, ty) # entries_of r"

primrec lists :: "walk_sys \<Rightarrow> string \<Rightarrow> listing \<Rightarrow> bool" where
  "lists sys path End \<longleftrightarrow> True"
| "lists sys path (Subdir n l r) \<longleftrightarrow>
     n \<noteq> ''.'' \<and> n \<noteq> ''..'' \<and> ws_readdir sys (path @ ''/'' @ n) = Some (entries_of l) \<and>
     lists sys (path @ ''/'' @ n) l \<and> lists sys path r"
| "lists sys path (Locked n r) \<longleftrightarrow>
     n \<noteq> ''.'' \<and> n \<noteq> ''..'' \<and> ws_readdir sys (path @ ''/'' @ n) = None \<and> lists sys path r"
| "lists sys path (Plain n r) \<longleftrightarrow>
     (\<exists>st. ws_stat sys (path @ ''/'' @ n) = Some st \<and> st_kind st = Regular) \<and> lists sys path r"
| "lists sys path (Passed n ty r) \<longleftrightarrow>
     (case ty of
        DT_LNK \<Rightarrow> True
      | DT_DIR \<Rightarrow> n = ''.'' \<or> n = ''..''
      | DT_OTHER \<Rightarrow> \<exists>st. ws_stat sys (path @ ''/'' @ n) = Some st \<and> st_kind st \<noteq> Regular) \<and> lists sys path r"

text \<open>What is to be compared, in order: for each item its name, the name of its parent as the report
  has it, the full path, and whether it is a directory.\<close>

primrec items_in :: "nat \<Rightarrow> string \<Rightarrow> listing \<Rightarrow> (string \<times> string \<times> string \<times> bool) list" where
  "items_in depth path End = []"
| "items_in depth path (Subdir n l r) =
     (n, get_parent_dir depth path, path @ ''/'' @ n, True) # items_in (depth + 1) (path @ ''/'' @ n) l @ items_in depth path r"
| "items_in depth path (Locked n r) = (n, get_parent_dir depth path, path @ ''/'' @ n, True) # items_in depth path r"
| "items_in depth path (Plain n r) = (n, get_parent_dir depth path, path @ ''/'' @ n, False) # items_in depth path r"
| "items_in depth path (Passed n ty r) = items_in depth path r"

text \<open>The queue that goes with the items, the first of which is at index \<open>i\<close>.\<close>

definition queue_of :: "nat \<Rightarrow> (string \<times> string \<times> string \<times> bool) list \<Rightarrow> (string \<times> nat) list" where
  "queue_of i fs = map (\<lambda>(f, k). (fst (snd (snd f)), k)) (filter (\<lambda>(f, k). snd (snd (snd f))) (zip fs [i..<i + length fs]))"

definition tells_item :: "string \<times> string \<times> string \<times> bool \<Rightarrow> json \<Rightarrow> bool" where
  "tells_item f j \<longleftrightarrow>
     json_ok j \<and> json_find j ''name'' = Some (JStr (fst f)) \<and> json_find j ''dir'' = Some (JStr (fst (snd f))) \<and>
     json_find j ''is_dir'' = Some (JBool (snd (snd (snd f)))) \<and>
     json_find j ''path'' = (if snd (snd (snd f)) then None else Some (JStr (fst (snd (snd f)))))"

definition job_diffs :: "'c job \<Rightarrow> json list \<Rightarrow> bool" where
  "job_diffs jb vs \<longleftrightarrow>
     json_ok (t_compare_result_json (cmp_task jb)) \<and>
     json_find (t_compare_result_json (cmp_task jb)) ''diffs'' = Some (JArr vs) \<and> job_asserts jb"

text \<open>From one job to a later one the items \<open>fs\<close> were added to the report and the queue.\<close>

definition extends :: "'c job \<Rightarrow> (string \<times> string \<times> string \<times> bool) list \<Rightarrow> 'c job \<Rightarrow> bool" where
  "extends jb fs jb' \<longleftrightarrow>
     contents jb' = contents jb \<and> t_server_info_arr (cmp_task jb') = t_server_info_arr (cmp_task jb) \<and>
     t_std_idx (cmp_task jb') = t_std_idx (cmp_task jb) \<and>
     (\<forall>vs. job_diffs jb vs \<longrightarrow> dir_q jb' = dir_q jb @ queue_of (length vs) fs \<and>
        (\<exists>ws. list_all2 tells_item fs ws \<and> job_diffs jb' (vs @ ws)))"

lemma queue_of_append: "queue_of i (fs @ gs) = queue_of i fs @ queue_of (i + length fs) gs"
proof -
  have "zip (fs @ gs) [i..<i + length (fs @ gs)] = zip fs [i..<i + length fs] @ zip gs [i + length fs..<i + length fs + length gs]"
    using upt_add_eq_append [of i "i + length fs" "length gs"] by (simp add: zip_append add.assoc)
  then show ?thesis by (simp add: queue_of_def)
qed

lemma queue_of_one: "queue_of i [(n, d, p, flag)] = (if flag then [(p, i)] else [])"
  by (simp add: queue_of_def)

lemma extends_trans:
  assumes "extends jb fs jb1" and "extends jb1 gs jb2"
  shows "extends jb (fs @ gs) jb2"
proof -
  have "dir_q jb2 = dir_q jb @ queue_of (length vs) (fs @ gs) \<and> (\<exists>ws. list_all2 tells_item (fs @ gs) ws \<and> job_diffs jb2 (vs @ ws))"
    if vs: "job_diffs jb vs" for vs
  proof -
    obtain ws where ws: "list_all2 tells_item fs ws" "job_diffs jb1 (vs @ ws)" and q1: "dir_q jb1 = dir_q jb @ queue_of (length vs) fs"
      using assms(1) vs by (auto simp: extends_def)
    obtain us where us: "list_all2 tells_item gs us" "job_diffs jb2 ((vs @ ws) @ us)"
      and q2: "dir_q jb2 = dir_q jb1 @ queue_of (length (vs @ ws)) gs"
      using assms(2) ws(2) unfolding extends_def by blast
    have "list_all2 tells_item (fs @ gs) (ws @ us)" using ws(1) us(1) by (rule list_all2_appendI)
    then show ?thesis using q1 q2 us(2) list_all2_lengthD [OF ws(1)]
      by (auto simp: queue_of_append intro!: exI [of _ "ws @ us"])
  qed
  then show ?thesis using assms by (auto simp: extends_def)
qed

lemma job_diffs_unique: "job_diffs jb vs \<Longrightarrow> job_diffs jb us \<Longrightarrow> us = vs"
  by (auto simp: job_diffs_def)

lemma item_json_result:
  "\<exists>j. item_json n d flag (if flag then None else Some p) = Inr j \<and> tells_item (n, d, p, flag) j"
proof -
  let ?kvs = "[(''name'', JStr n), (''dir'', JStr d), (''is_dir'', JBool flag)] @
    (case if flag then None else Some p of None \<Rightarrow> [] | Some p \<Rightarrow> [(''path'', JStr p)])"
  obtain j where "json_sets ?kvs JNull = Inr j" "json_ok j" and
    "\<forall>k. json_find j k = fold (\<lambda>(k', v) r. if k' = k then Some v else r) ?kvs None"
    using sets_from_null by blast
  then show ?thesis
    by (intro exI [of _ j]) (simp add: item_json_def tells_item_def del: json_sets.simps split: if_split)
qed

lemma add_item_result:
  assumes "job_diffs jb vs"
  shows "\<exists>jb'. add_item n d flag (if flag then None else Some p) jb = Inr (length vs, jb') \<and>
    dir_q jb' = dir_q jb \<and> (flag \<longrightarrow> extends jb [(n, d, p, True)] (jb'\<lparr>dir_q := dir_q jb @ [(p, length vs)]\<rparr>)) \<and>
    (\<not> flag \<longrightarrow> extends jb [(n, d, p, False)] jb') \<and> job_asserts jb'"
proof -
  obtain j where j: "item_json n d flag (if flag then None else Some p) = Inr j" "tells_item (n, d, p, flag) j"
    using item_json_result by blast
  have ok: "json_ok (t_compare_result_json (cmp_task jb))"
    and d: "json_find (t_compare_result_json (cmp_task jb)) ''diffs'' = Some (JArr vs)"
    using assms by (auto simp: job_diffs_def)
  let ?jb = "jb\<lparr>cmp_task := put_diffs (JArr (vs @ [j])) (cmp_task jb)\<rparr>"
  note put = put_diffs_result [OF ok, of "JArr (vs @ [j])"]
  have add: "add_item n d flag (if flag then None else Some p) jb = Inr (length vs, ?jb)"
    using j(1) by (simp add: add_item_def with_diffs_eq [OF ok d])
  have after: "job_diffs ?jb (vs @ [j])" "job_diffs (?jb\<lparr>dir_q := q\<rparr>) (vs @ [j])" for q
    using put assms by (auto simp: job_diffs_def job_asserts_def)
  have tells: "list_all2 tells_item [(n, d, p, flag)] [j]" using j(2) by simp
  have "\<not> flag \<Longrightarrow> extends jb [(n, d, p, False)] ?jb" and
    "flag \<Longrightarrow> extends jb [(n, d, p, True)] (?jb\<lparr>dir_q := dir_q jb @ [(p, length vs)]\<rparr>)"
    using put after tells by (auto simp: extends_def queue_of_one dest!: job_diffs_unique [OF assms])
  then show ?thesis using add after(1) by (intro exI [of _ ?jb]) (simp add: job_diffs_def)
qed

definition dirs_among :: "(string \<times> string \<times> string \<times> bool) list \<Rightarrow> nat" where
  "dirs_among fs = length (filter (\<lambda>f. snd (snd (snd f))) fs)"

lemma queue_of_length: "length (queue_of i fs) = dirs_among fs"
proof (induction fs arbitrary: i)
  case (Cons f fs)
  have "queue_of i (f # fs) = queue_of i [f] @ queue_of (i + 1) fs" using queue_of_append [of i "[f]" fs] by simp
  then show ?case using Cons by (cases f) (auto simp: queue_of_one dirs_among_def)
qed (simp add: queue_of_def dirs_among_def)

lemma dirs_among_simps [simp]:
  "dirs_among [] = 0" "dirs_among (f # fs) = (if snd (snd (snd f)) then 1 else 0) + dirs_among fs"
  "dirs_among (fs @ gs) = dirs_among fs + dirs_among gs"
  by (simp_all add: dirs_among_def)

lemma extends_same: "extends jb [] jb"
  by (auto simp: extends_def queue_of_def)

lemma extends_room:
  assumes "extends jb fs jb'" and "job_diffs jb vs"
  shows "(\<exists>us. job_diffs jb' us) \<and> length (dir_q jb') = length (dir_q jb) + dirs_among fs"
  using assms by (auto simp: extends_def queue_of_length)

lemma walk_passes:
  assumes "lists sys path (Passed n ty r)"
  shows "walk_entries sys ops depth path ((n, ty) # es) jb = walk_entries sys ops depth path es jb"
  using assms by (subst walk_entries.simps) (cases ty; auto)

lemma walk_end: "walk_entries sys ops depth path [] jb = done_with (S_SUCCESS, jb)"
  by (subst walk_entries.simps) simp

text \<open>What the walk does with a subdirectory: it is put on the queue and, if it can be opened, walked.\<close>

lemma walk_subdir:
  assumes "job_diffs jb vs" and "length (dir_q jb) < dir_batch_size" and "n \<noteq> ''.''" and "n \<noteq> ''..''"
  shows "\<exists>jb1. extends jb [(n, get_parent_dir depth path, path @ ''/'' @ n, True)] jb1 \<and>
    walk_entries sys ops depth path ((n, DT_DIR) # es) jb =
      run_then
        (case ws_readdir sys (path @ ''/'' @ n) of
           None \<Rightarrow> done_with (E_OS_ENV_OPEN, jb1)
         | Some es \<Rightarrow> walk_entries sys ops (depth + 1) (path @ ''/'' @ n) es jb1)
        (\<lambda>(_, jb). walk_entries sys ops depth path es jb)"
proof -
  obtain jb' where jb': "add_item n (get_parent_dir depth path) True None jb = Inr (length vs, jb')" "dir_q jb' = dir_q jb"
    "job_asserts jb'"
    "extends jb [(n, get_parent_dir depth path, path @ ''/'' @ n, True)] (jb'\<lparr>dir_q := dir_q jb @ [(path @ ''/'' @ n, length vs)]\<rparr>)"
    using add_item_result [OF assms(1), of n "get_parent_dir depth path" True "path @ ''/'' @ n"] by auto
  let ?jb1 = "jb'\<lparr>dir_q := dir_q jb @ [(path @ ''/'' @ n, length vs)]\<rparr>"
  have "exe_sql_job_for_single_item_dir ops (path @ ''/'' @ n) (length vs) jb' = done_with (S_SUCCESS, ?jb1)"
    using jb' assms(2) by (simp add: exe_sql_job_for_single_item_dir_def)
  moreover have "job_asserts ?jb1" using jb'(3) by (simp add: job_asserts_def)
  ultimately show ?thesis using jb' assms
    by (intro exI [of _ ?jb1] conjI) (simp, subst walk_entries.simps, simp split: option.split)
qed

lemma walk_plain:
  assumes "job_diffs jb vs" and "ws_stat sys (path @ ''/'' @ n) = Some st" and "st_kind st = Regular"
  shows "\<exists>jb1. extends jb [(n, get_parent_dir depth path, path @ ''/'' @ n, False)] jb1 \<and>
    walk_entries sys ops depth path ((n, DT_OTHER) # es) jb = walk_entries sys ops depth path es jb1"
proof -
  obtain jb1 where "add_item n (get_parent_dir depth path) False (Some (path @ ''/'' @ n)) jb = Inr (length vs, jb1)"
    "job_asserts jb1" "extends jb [(n, get_parent_dir depth path, path @ ''/'' @ n, False)] jb1"
    using add_item_result [OF assms(1), of n "get_parent_dir depth path" False "path @ ''/'' @ n"] by auto
  then show ?thesis using assms
    by (intro exI [of _ jb1] conjI) (simp, subst walk_entries.simps, simp add: exe_sql_job_for_single_item_file_def log_check_err_return_def)
qed

lemma walk_extends:
  "lists sys path l \<Longrightarrow> job_diffs jb vs \<Longrightarrow> length (dir_q jb) + dirs_among (items_in depth path l) \<le> dir_batch_size \<Longrightarrow>
   \<exists>jb'. walk_entries sys ops depth path (entries_of l @ es) jb = walk_entries sys ops depth path es jb' \<and> extends jb (items_in depth path l) jb'"
proof (induction l arbitrary: path depth jb vs es)
  case End
  then show ?case by (auto intro: extends_same)
next
  case (Subdir n l r)
  let ?f = "(n, get_parent_dir depth path, path @ ''/'' @ n, True)"
  obtain jb1 where jb1: "extends jb [?f] jb1"
    and w1: "walk_entries sys ops depth path ((n, DT_DIR) # entries_of r @ es) jb =
      run_then (walk_entries sys ops (depth + 1) (path @ ''/'' @ n) (entries_of l @ []) jb1)
        (\<lambda>(_, jb). walk_entries sys ops depth path (entries_of r @ es) jb)"
    using walk_subdir [OF Subdir.prems(2), of n depth path sys ops "entries_of r @ es"] Subdir.prems by auto
  obtain vs1 where vs1: "job_diffs jb1 vs1" and q1: "length (dir_q jb1) = length (dir_q jb) + 1"
    using extends_room [OF jb1 Subdir.prems(2)] by auto
  obtain jb2 where jb2: "extends jb1 (items_in (depth + 1) (path @ ''/'' @ n) l) jb2"
    and w2: "walk_entries sys ops (depth + 1) (path @ ''/'' @ n) (entries_of l @ []) jb1 = walk_entries sys ops (depth + 1) (path @ ''/'' @ n) [] jb2"
    using Subdir.IH(1) [of "path @ ''/'' @ n" jb1 vs1 "depth + 1" "[]"] Subdir.prems vs1 q1 by auto
  obtain vs2 where vs2: "job_diffs jb2 vs2"
    and q2: "length (dir_q jb2) = length (dir_q jb1) + dirs_among (items_in (depth + 1) (path @ ''/'' @ n) l)"
    using extends_room [OF jb2 vs1] by auto
  obtain jb3 where jb3: "extends jb2 (items_in depth path r) jb3"
    and w3: "walk_entries sys ops depth path (entries_of r @ es) jb2 = walk_entries sys ops depth path es jb3"
    using Subdir.IH(2) [of path jb2 vs2 depth es] Subdir.prems vs2 q1 q2 by auto
  have "extends jb (items_in depth path (Subdir n l r)) jb3"
    using extends_trans [OF extends_trans [OF jb1 jb2] jb3] by simp
  then show ?case
    by (intro exI [of _ jb3] conjI) (simp only: entries_of.simps append_Cons [of "(n, DT_DIR)"] w1 w2 w3 walk_end run_then_simps prod.case)
next
  case (Locked n r)
  let ?f = "(n, get_parent_dir depth path, path @ ''/'' @ n, True)"
  obtain jb1 where jb1: "extends jb [?f] jb1"
    and w1: "walk_entries sys ops depth path ((n, DT_DIR) # entries_of r @ es) jb = walk_entries sys ops depth path (entries_of r @ es) jb1"
    using walk_subdir [OF Locked.prems(2), of n depth path sys ops "entries_of r @ es"] Locked.prems by auto
  obtain vs1 where "job_diffs jb1 vs1" "length (dir_q jb1) = length (dir_q jb) + 1"
    using extends_room [OF jb1 Locked.prems(2)] by auto
  then obtain jb2 where w2: "walk_entries sys ops depth path (entries_of r @ es) jb1 = walk_entries sys ops depth path es jb2"
    and jb2: "extends jb1 (items_in depth path r) jb2"
    using Locked.IH [of path jb1 vs1 depth es] Locked.prems by auto
  have "extends jb (items_in depth path (Locked n r)) jb2" using extends_trans [OF jb1 jb2] by simp
  then show ?case by (intro exI [of _ jb2] conjI) (simp only: entries_of.simps append_Cons [of "(n, DT_DIR)"] w1 w2)
next
  case (Plain n r)
  let ?f = "(n, get_parent_dir depth path, path @ ''/'' @ n, False)"
  obtain st where "ws_stat sys (path @ ''/'' @ n) = Some st" "st_kind st = Regular" using Plain.prems(1) by auto
  then obtain jb1 where jb1: "extends jb [?f] jb1"
    and w1: "walk_entries sys ops depth path ((n, DT_OTHER) # entries_of r @ es) jb = walk_entries sys ops depth path (entries_of r @ es) jb1"
    using walk_plain [OF Plain.prems(2), of sys path n st depth ops "entries_of r @ es"] by auto
  obtain vs1 where "job_diffs jb1 vs1" "length (dir_q jb1) = length (dir_q jb)"
    using extends_room [OF jb1 Plain.prems(2)] by auto
  then obtain jb2 where w2: "walk_entries sys ops depth path (entries_of r @ es) jb1 = walk_entries sys ops depth path es jb2"
    and jb2: "extends jb1 (items_in depth path r) jb2"
    using Plain.IH [of path jb1 vs1 depth es] Plain.prems by auto
  have "extends jb (items_in depth path (Plain n r)) jb2" using extends_trans [OF jb1 jb2] by simp
  then show ?case by (intro exI [of _ jb2] conjI) (simp only: entries_of.simps append_Cons [of "(n, DT_OTHER)"] w1 w2)
next
  case (Passed n ty r)
  from Passed.prems have "lists sys path r" "length (dir_q jb) + dirs_among (items_in depth path r) \<le> dir_batch_size" by auto
  then obtain jb' where "walk_entries sys ops depth path (entries_of r @ es) jb = walk_entries sys ops depth path es jb'"
    "extends jb (items_in depth path r) jb'" using Passed.IH [of path jb vs depth es] Passed.prems(2) by blast
  then show ?case by (intro exI [of _ jb']) (simp add: walk_passes [OF Passed.prems(1)])
qed


definition demo_sys :: walk_sys where
  "demo_sys = \<lparr>ws_stat = (\<lambda>p. Some (fs_object (if p = ''t'' then Directory else Regular))),
     ws_readdir = (\<lambda>p. if p = ''t'' then Some [(''.'', DT_DIR), (''a'', DT_DIR), (''f'', DT_OTHER)]
       else if p = ''t/a'' then Some [(''g'', DT_OTHER)] else None)\<rparr>"

definition demo_job :: "unit job" where
  "demo_job = \<lparr>cmp_task = one_server_task\<lparr>t_compare_result_json := JObj [(''diffs'', JArr [])]\<rparr>, dir_q = [], contents = [()]\<rparr>"

lemma demo_job_diffs: "job_diffs demo_job []"
  by (simp add: job_diffs_def demo_job_def json_ok_def job_asserts_def one_server_task_def new_api_task_def)


section \<open>Directories left on the queue\<close>

lemma job_of_task:
  assumes "0 \<le> t_std_idx t" and "t_std_idx t < int (length (t_server_info_arr t))"
  shows "job_asserts \<lparr>cmp_task = t\<lparr>t_compare_result_json := j\<rparr>, dir_q = [],
    contents = new_contents ops (t\<lparr>t_compare_result_json := j\<rparr>)\<rparr>"
  using assms by (simp add: job_asserts_def new_contents_def)

text \<open>
  C19. The walk of a task meets a subdirectory and then, in the same directory, an entry that
  cannot be examined. The task ends with the code of \<^verbatim>\<open>stat\<close> and is handed out; but the
  subdirectories stay on the queue, and the round after that, whatever it would do, aborts.
\<close>

theorem leaked_queue_aborts:
  assumes "holds (w_task_q w) (t # ts)" and "holds (w_out_q w) os" and "length os < 64" and "w_dir_q w = []"
    and "t_compare_result_json t = JNull" and "0 \<le> t_std_idx t" and "t_std_idx t < int (length (t_server_info_arr t))"
    and "ws_stat sys (c_str (c_path_to_compare (std_server t))) = Some st" and "st_kind st = Directory"
    and "chdir (c_str (c_base_dir (std_server t))) = Some sys'"
    and "ws_readdir sys' (c_str (c_path_to_compare (std_server t))) = Some (entries_of l @ (f, DT_OTHER) # es)"
    and "lists sys' (c_str (c_path_to_compare (std_server t))) l"
    and "0 < dirs_among (items_in 0 (c_str (c_path_to_compare (std_server t))) l)"
    and "dirs_among (items_in 0 (c_str (c_path_to_compare (std_server t))) l) \<le> dir_batch_size"
    and "ws_stat sys' (c_str (c_path_to_compare (std_server t)) @ ''/'' @ f) = None"
  shows "\<exists>w' t'. execute sys chdir ops w = done_with w' \<and> holds (w_out_q w') (os @ [t']) \<and>
    json_find (t_compare_result_json t') ''errno'' = Some (json_code E_OS_ENV_STAT) \<and>
    (\<forall>sys chdir. execute sys chdir ops w' = Some (Inl AssertFailed))"
proof -
  let ?path = "c_str (c_path_to_compare (std_server t))"
  obtain q where q: "read_once (w_task_q w) = (Some t, q)" using holds_read [OF assms(1)] by blast
  obtain j where j: "start_json t = Inr (t\<lparr>t_compare_result_json := j\<rparr>)" "json_ok j" "json_find j ''diffs'' = Some (JArr [])"
    using start_json_null [OF assms(5)] by blast
  let ?t = "t\<lparr>t_compare_result_json := j\<rparr>"
  let ?jb = "\<lparr>cmp_task = ?t, dir_q = [], contents = new_contents ops ?t\<rparr>"
  have jb: "job_diffs ?jb []" using j job_of_task [OF assms(6,7)] by (simp add: job_diffs_def)
  obtain jb' where w: "walk_entries sys' ops 0 ?path (entries_of l @ (f, DT_OTHER) # es) ?jb = walk_entries sys' ops 0 ?path ((f, DT_OTHER) # es) jb'"
    and ext: "extends ?jb (items_in 0 ?path l) jb'"
    using walk_extends [OF assms(12) jb, of 0 ops "(f, DT_OTHER) # es"] assms(14) by auto
  have leaked: "dir_q jb' \<noteq> []" and ok: "json_ok (t_compare_result_json (cmp_task jb'))"
    using extends_room [OF ext jb] assms(13) by (auto simp: job_diffs_def)
  have "walk_entries sys' ops 0 ?path ((f, DT_OTHER) # es) jb' = done_with (E_OS_ENV_STAT, jb')"
    using assms(15) by (subst walk_entries.simps) simp
  then have "exe_sql_job_for_dir sys' ops ?path 0 ?jb = done_with (E_OS_ENV_STAT, jb')"
    using jb assms(11) w by (simp add: exe_sql_job_for_dir_def job_diffs_def)
  then have run: "exe_sql_job sys chdir ops [] ?t = done_with (E_OS_ENV_STAT, dir_q jb', cmp_task jb')"
    using assms(6-10) by (simp add: exe_sql_job_def exe_sql_job1_def std_server_def Let_def log_check_err_return_def)
  obtain j' where j': "assign_error E_OS_ENV_STAT (t_compare_result_json (cmp_task jb')) = Inr j'"
    "json_find j' ''errno'' = Some (json_code E_OS_ENV_STAT)"
    using assign_error_result [OF ok, of E_OS_ENV_STAT]
    by (auto simp: has_message_def dc_common_code_msg_def error_code_msg_def code_num_eval)
  let ?t' = "cmp_task jb'\<lparr>t_compare_result_json := j'\<rparr>"
  obtain out where out: "chan_write ?t' (w_out_q w) = Some out" "holds out (os @ [?t'])"
    using holds_write [OF assms(2,3)] by blast
  let ?w = "w\<lparr>w_dir_q := dir_q jb', w_task_q := q, w_out_q := out\<rparr>"
  have "execute sys chdir ops w = done_with ?w"
    using assms(4) q j(1) run j'(1) out(1) by (simp add: execute_def end_json_def done_with_def)
  moreover have "execute sys chdir ops ?w = Some (Inl AssertFailed)" for sys chdir
    using leaked by (simp add: execute_def)
  ultimately show ?thesis using out(2) j'(2) by (intro exI [of _ ?w] exI [of _ ?t']) simp
qed

definition leaking_sys :: walk_sys where
  "leaking_sys = \<lparr>ws_stat = (\<lambda>p. if p = ''t'' then Some (fs_object Directory) else None),
     ws_readdir = (\<lambda>p. if p = ''t'' then Some [(''a'', DT_DIR), (''f'', DT_OTHER)] else Some [])\<rparr>"

theorem leaked_queue_aborts_witness:
  "\<exists>w w'. execute leaking_sys (\<lambda>_. Some leaking_sys) idle_ops w = done_with w' \<and>
     execute leaking_sys (\<lambda>_. Some leaking_sys) idle_ops w' = Some (Inl AssertFailed)"
proof -
  obtain q where q: "holds q [one_server_task]"
    using holds_write [OF holds_new, of one_server_task] by auto
  let ?w = "new_compare_worker\<lparr>w_task_q := q\<rparr>"
  let ?l = "Subdir ''a'' End End"
  have path: "c_str (c_path_to_compare (std_server one_server_task)) = ''t''"
    by (simp add: std_server_def one_server_task_def new_api_task_def one_server_def c_str_def)
  have dirs: "dirs_among (items_in 0 ''t'' ?l) = 1" by simp
  have task: "t_compare_result_json one_server_task = JNull" "t_std_idx one_server_task = 0"
    "t_server_info_arr one_server_task = [one_server]"
    by (simp_all add: one_server_task_def new_api_task_def)
  have "\<exists>w' t'. execute leaking_sys (\<lambda>_. Some leaking_sys) idle_ops ?w = done_with w' \<and> holds (w_out_q w') ([] @ [t']) \<and>
    json_find (t_compare_result_json t') ''errno'' = Some (json_code E_OS_ENV_STAT) \<and>
    (\<forall>sys chdir. execute sys chdir idle_ops w' = Some (Inl AssertFailed))"
    by (rule leaked_queue_aborts [where t = one_server_task and ts = "[]" and st = "fs_object Directory" and l = ?l
          and f = "''f''" and es = "[]" and sys' = leaking_sys])
       (use q in \<open>simp_all add: path new_compare_worker_def holds_new dirs dir_batch_size_def leaking_sys_def fs_object_def task\<close>)
  then show ?thesis by blast
qed

end
