(* ===== verification/Dc_Agent.thy ===== *)
theory Dc_Agent
  imports Dc_Compare Http_Def
begin

text \<open>
  The handlers of \<^verbatim>\<open>file_compare/main.cc\<close> for comparison tasks: a client posts a task, which goes to
  the comparing worker, and asks for its result. What they share is the worker with its two channels
  and the set of the known uuids. The value of a handler is the JSON text it answers with; the
  compression and the content type it sets are the same for all answers. Where the channel is full the
  handler waits, here \<open>None\<close>; what the worker does meanwhile is a step of its own.
\<close>

record agent =
  compare_worker :: compare_worker
  task_uuid_set :: "string set"

definition new_agent :: agent where
  "new_agent = \<lparr>compare_worker = new_compare_worker, task_uuid_set = {}\<rparr>"

definition answer_with :: "(string \<times> json) list \<Rightarrow> json \<Rightarrow> agent \<Rightarrow> (json \<times> agent) run" where
  "answer_with kvs j a = run_then (Some (json_sets kvs j)) (\<lambda>j. done_with (j, a))"

definition content_type_num :: "http_content_type \<Rightarrow> int" where
  "content_type_num ct =
     int (position ct
       [CONTENT_TYPE_NONE, TEXT_PLAIN, TEXT_HTML, TEXT_CSS, IMAGE_JPEG, IMAGE_PNG, IMAGE_GIF, IMAGE_BMP, IMAGE_SVG,
        APPLICATION_OCTET_STREAM, APPLICATION_JAVASCRIPT, APPLICATION_XML, APPLICATION_JSON, APPLICATION_GRPC,
        APPLICATION_URLENCODED, MULTIPART_FORM_DATA, CONTENT_TYPE_UNDEFINED])"

definition handle_task_post :: "(string \<Rightarrow> cjson option) \<Rightarrow> string \<Rightarrow> http_content_type \<Rightarrow> string \<Rightarrow> agent \<Rightarrow>
    (json \<times> agent) run" where
  "handle_task_post parse uuid ct text a =
     (if uuid = [] then answer_with [(''error'', JStr ''uuid is empty''), (''uuid'', JStr uuid)] JNull a
      else if ct \<noteq> APPLICATION_JSON then
        answer_with [(''error'', JStr ''content type is not json''), (''content_type'', JInt (content_type_num ct)),
          (''uuid'', JStr uuid)] JNull a
      else if text = [] then answer_with [(''error'', JStr ''body is empty''), (''uuid'', JStr uuid)] JNull a
      else
        run_then (Some (build_task_from_json parse text new_api_task)) (\<lambda>(ret, t).
          if ret \<noteq> S_SUCCESS then
            answer_with [(''uuid'', JStr uuid),
              (''error'', JStr (''build_task_from_json failed: error:'' @ show_int (code_num ret)))] JNull a
          else if uuid \<noteq> t_task_uuid t then
            answer_with [(''uuid'', JStr uuid), (''error'', JStr ''uuid is not equal to task->t_task_uuid'')] JNull a
          else
            run_then (compare_add t (compare_worker a)) (\<lambda>(ret, w).
              let a = a\<lparr>compare_worker := w\<rparr> in
              if ret \<noteq> S_SUCCESS then
                answer_with [(''uuid'', JStr uuid),
                  (''error'', JStr (''compare_worker.add failed: error:'' @ show_int (code_num ret)))] JNull a
              else
                answer_with [(''uuid'', JStr uuid), (''msg'', JStr ''put into queue, wait for schedule to run'')] JNull
                  (a\<lparr>task_uuid_set := insert uuid (task_uuid_set a)\<rparr>))))"

definition handle_task_get :: "string \<Rightarrow> agent \<Rightarrow> (json \<times> agent) run" where
  "handle_task_get uuid a =
     (if uuid = [] then answer_with [(''error'', JStr ''uuid is empty''), (''uuid'', JStr uuid)] JNull a
      else if uuid \<notin> task_uuid_set a then
        answer_with [(''uuid'', JStr uuid), (''error'', JStr ''task not found'')] JNull a
      else
        (case compare_get JNull (compare_worker a) of (ret, result_json, w) \<Rightarrow>
           let a = a\<lparr>compare_worker := w\<rparr>; gone = a\<lparr>task_uuid_set := task_uuid_set a - {uuid}\<rparr> in
           if ret = S_SUCCESS then done_with (result_json, gone)
           else if ret = E_DC_TASK_MEM_VOPS_NOT_OVER then
             answer_with [(''uuid'', JStr uuid), (''errno'', json_code ret), (''error'', JStr ''task still running...'')] result_json a
           else
             answer_with [(''uuid'', JStr uuid), (''errno'', json_code ret),
               (''error'', JStr (''compare_worker.result failed: error:'' @ show_int (code_num ret)))] result_json gone))"

text \<open>One round of the worker's thread.\<close>

definition worker_round :: "walk_sys \<Rightarrow> (string \<Rightarrow> walk_sys option) \<Rightarrow> 'c content_ops \<Rightarrow> agent \<Rightarrow> agent run" where
  "worker_round sys chdir ops a = run_then (execute sys chdir ops (compare_worker a)) (\<lambda>w. done_with (a\<lparr>compare_worker := w\<rparr>))"

section \<open>Lemmas\<close>

lemma answer_with_result:
  assumes "json_ok j"
  shows "\<exists>j'. answer_with kvs j a = done_with (j', a) \<and>
    (\<forall>k. json_find j' k = fold (\<lambda>(k', v) r. if k' = k then Some v else r) kvs (json_find j k))"
proof -
  obtain j' where "json_sets kvs j = Inr j'"
    "\<forall>k. json_find j' k = fold (\<lambda>(k', v) r. if k' = k then Some v else r) kvs (json_find j k)"
    using json_sets_ok [OF assms] by blast
  then show ?thesis by (auto simp: answer_with_def)
qed

text \<open>The state of an agent: the tasks waiting, those done, and the uuids known.\<close>

definition agent_at :: "agent \<Rightarrow> api_task list \<Rightarrow> api_task list \<Rightarrow> string set \<Rightarrow> bool" where
  "agent_at a waiting finished uuids \<longleftrightarrow>
     holds (w_task_q (compare_worker a)) waiting \<and> holds (w_out_q (compare_worker a)) finished \<and>
     w_dir_q (compare_worker a) = [] \<and> task_uuid_set a = uuids"

lemma post_result:
  assumes "agent_at a waiting finished uuids" and "length waiting < 64" and "text \<noteq> []"
    and "build_task_from_json parse text new_api_task = Inr (S_SUCCESS, t)" and "t_task_uuid t \<noteq> []"
  shows "\<exists>j a'. handle_task_post parse (t_task_uuid t) APPLICATION_JSON text a = done_with (j, a') \<and>
    json_find j ''uuid'' = Some (JStr (t_task_uuid t)) \<and> json_find j ''error'' = None \<and>
    agent_at a' (waiting @ [t]) finished (insert (t_task_uuid t) uuids)"
proof -
  obtain q where q: "chan_write t (w_task_q (compare_worker a)) = Some q" "holds q (waiting @ [t])"
    using holds_write [of "w_task_q (compare_worker a)" waiting t] assms(1,2) by (auto simp: agent_at_def)
  let ?w = "(compare_worker a)\<lparr>w_task_q := q\<rparr>"
  let ?a = "a\<lparr>compare_worker := ?w, task_uuid_set := insert (t_task_uuid t) (task_uuid_set a)\<rparr>"
  let ?kvs = "[(''uuid'', JStr (t_task_uuid t)), (''msg'', JStr ''put into queue, wait for schedule to run'')]"
  obtain j where j: "answer_with ?kvs JNull ?a = done_with (j, ?a)"
    "\<forall>k. json_find j k = fold (\<lambda>(k', v) r. if k' = k then Some v else r) ?kvs (json_find JNull k)"
    using answer_with_result [OF json_ok_Null] by blast
  have "compare_add t (compare_worker a) = done_with (S_SUCCESS, ?w)"
    using q(1) by (simp add: compare_add_def done_with_def)
  then have "handle_task_post parse (t_task_uuid t) APPLICATION_JSON text a = done_with (j, ?a)"
    using assms(3-5) j(1) by (simp add: handle_task_post_def)
  moreover have "agent_at ?a (waiting @ [t]) finished (insert (t_task_uuid t) uuids)"
    using assms(1) q(2) by (simp add: agent_at_def)
  ultimately show ?thesis using j(2) by (intro exI [of _ j] exI [of _ ?a]) simp
qed

lemma get_finished:
  assumes "agent_at a waiting (t # ts) uuids" and "uuid \<in> uuids" and "uuid \<noteq> []"
  shows "\<exists>a'. handle_task_get uuid a = done_with (t_compare_result_json t, a') \<and> agent_at a' waiting ts (uuids - {uuid})"
proof -
  obtain q where "read_once (w_out_q (compare_worker a)) = (Some t, q)" "holds q ts"
    using holds_read [of "w_out_q (compare_worker a)" t ts] assms(1) by (auto simp: agent_at_def)
  then show ?thesis using assms by (simp add: handle_task_get_def compare_get_def agent_at_def Let_def)
qed

lemma get_unknown:
  assumes "agent_at a waiting finished uuids" and "uuid \<notin> uuids" and "uuid \<noteq> []"
  shows "\<exists>j. handle_task_get uuid a = done_with (j, a) \<and> json_find j ''error'' = Some (JStr ''task not found'')"
proof -
  let ?kvs = "[(''uuid'', JStr uuid), (''error'', JStr ''task not found'')]"
  obtain j where "answer_with ?kvs JNull a = done_with (j, a)"
    "\<forall>k. json_find j k = fold (\<lambda>(k', v) r. if k' = k then Some v else r) ?kvs (json_find JNull k)"
    using answer_with_result [OF json_ok_Null] by blast
  then show ?thesis using assms by (intro exI [of _ j]) (simp add: handle_task_get_def agent_at_def)
qed

lemma server_loop_json: "server_loop items t = Inr (ret, t') \<Longrightarrow> t_compare_result_json t' = t_compare_result_json t"
  by (induction items arbitrary: t) (auto simp: task_fails_def split: if_splits sum.splits)

lemma build_servers_json:
  assumes "build_servers tree t = Inr (ret, t')"
  shows "t_compare_result_json t' = t_compare_result_json t"
proof -
  have "find_standard u = Inr (r, u') \<Longrightarrow> t_compare_result_json u' = t_compare_result_json u" for u r u'
    by (auto simp: find_standard_def task_fails_def Let_def split: option.splits if_splits)
  note std = this
  show ?thesis
  proof (cases "\<exists>servers. cJSON_GetObjectItem tree ''servers'' = Some servers \<and> cj_type servers = cJSON_Array")
    case True
    then obtain servers r1 t1 where "server_loop (cj_children servers) t = Inr (r1, t1)"
      and "(if log_check_err_return r1 then Inr (r1, t1) else find_standard t1) = Inr (ret, t')"
      using assms by (auto simp: build_servers_def ok_then_Inr)
    then show ?thesis using server_loop_json std by (auto split: if_splits)
  qed (use assms in \<open>auto simp: build_servers_def task_fails_def split: option.splits if_splits\<close>)
qed

lemma built_task:
  assumes "build_task_from_json parse text new_api_task = Inr (S_SUCCESS, t)"
  shows "t_compare_result_json t = JNull" and "t_task_uuid t \<noteq> []" and "0 \<le> t_std_idx t"
    and "t_std_idx t < int (length (t_server_info_arr t))"
proof -
  have excluded: "build_excluded tree u = Inr (ret, u') \<Longrightarrow> t_compare_result_json u' = t_compare_result_json u" for tree u ret u'
    by (auto simp: build_excluded_def task_fails_def Let_def dest!: build_servers_json split: option.splits if_splits prod.splits)
  have "build_result_type tree u = Inr (ret, u') \<Longrightarrow> t_compare_result_json u' = t_compare_result_json u" for tree u ret u'
    by (auto simp: build_result_type_def task_fails_def Let_def dest!: excluded split: option.splits if_splits)
  then show "t_compare_result_json t = JNull" using assms
    by (auto simp: build_task_from_json_def task_fails_def Let_def new_api_task_def split: option.splits if_splits)
  have "valid_task t" using build_task_result [OF assms] by (simp add: new_api_task_def)
  then show "t_task_uuid t \<noteq> []" "0 \<le> t_std_idx t" "t_std_idx t < int (length (t_server_info_arr t))"
    by (auto simp: valid_task_def valid_text_def one_standard_def)
qed

text \<open>A task whose path does not exist at the standard server.\<close>

lemma round_no_path:
  assumes "agent_at a (t # ts) finished uuids" and "length finished < 64" and "t_compare_result_json t = JNull"
    and "0 \<le> t_std_idx t" and "t_std_idx t < int (length (t_server_info_arr t))"
    and "ws_stat sys (c_str (c_path_to_compare (std_server t))) = None"
  shows "\<exists>a' t'. worker_round sys chdir ops a = done_with a' \<and> agent_at a' ts (finished @ [t']) uuids \<and>
    json_find (t_compare_result_json t') ''uuid'' = Some (JStr (t_task_uuid t)) \<and>
    json_find (t_compare_result_json t') ''errno'' = Some (json_code E_OS_ENV_STAT)"
proof -
  obtain q where q: "read_once (w_task_q (compare_worker a)) = (Some t, q)" "holds q ts"
    using holds_read [of "w_task_q (compare_worker a)" t ts] assms(1) by (auto simp: agent_at_def)
  let ?kvs = "[(''uuid'', JStr (t_task_uuid t)), (''diffs'', JArr []), (''next_shard'', JInt (-1))]"
  obtain j where j: "json_sets ?kvs JNull = Inr j" "json_ok j" and
    find: "\<forall>k. json_find j k = fold (\<lambda>(k', v) r. if k' = k then Some v else r) ?kvs (json_find JNull k)"
    using json_sets_ok [OF json_ok_Null] by blast
  have uuid: "json_find j ''uuid'' = Some (JStr (t_task_uuid t))" using find by simp
  have start: "start_json t = Inr (t\<lparr>t_compare_result_json := j\<rparr>)" using assms(3) j(1) by (simp add: start_json_def)
  obtain s where s: "json_msg E_OS_ENV_STAT = Inr (JStr s)"
    by (auto simp: json_msg_def dc_common_code_msg_def error_code_msg_def code_num_eval)
  let ?kvs' = "[(''errno'', json_code E_OS_ENV_STAT), (''error'', JStr s)]"
  obtain j' where "json_sets ?kvs' j = Inr j'" and
    "\<forall>k. json_find j' k = fold (\<lambda>(k', v) r. if k' = k then Some v else r) ?kvs' (json_find j k)"
    using json_sets_ok [OF j(2)] by blast
  then have j': "assign_error E_OS_ENV_STAT j = Inr j'" "json_find j' ''uuid'' = Some (JStr (t_task_uuid t))"
    "json_find j' ''errno'' = Some (json_code E_OS_ENV_STAT)"
    using uuid s by (simp_all add: assign_error_def ok_then_def split: sum.splits)
  let ?t' = "t\<lparr>t_compare_result_json := j'\<rparr>"
  obtain out where out: "chan_write ?t' (w_out_q (compare_worker a)) = Some out" "holds out (finished @ [?t'])"
    using holds_write [of "w_out_q (compare_worker a)" finished ?t'] assms(1,2) by (auto simp: agent_at_def)
  let ?w = "(compare_worker a)\<lparr>w_dir_q := [], w_task_q := q, w_out_q := out\<rparr>"
  have "exe_sql_job sys chdir ops [] (t\<lparr>t_compare_result_json := j\<rparr>) = done_with (E_OS_ENV_STAT, [], t\<lparr>t_compare_result_json := j\<rparr>)"
    using assms(4-6) by (simp add: exe_sql_job_def exe_sql_job1_def std_server_def Let_def)
  then have "execute sys chdir ops (compare_worker a) = done_with ?w"
    using assms(1) q(1) start j'(1) out(1) by (simp add: execute_def end_json_def done_with_def agent_at_def)
  then have "worker_round sys chdir ops a = done_with (a\<lparr>compare_worker := ?w\<rparr>)" by (simp add: worker_round_def)
  moreover have "agent_at (a\<lparr>compare_worker := ?w\<rparr>) ts (finished @ [?t']) uuids"
    using assms(1) q(2) out(2) by (simp add: agent_at_def)
  ultimately show ?thesis using j'(2,3) by (intro exI [of _ "a\<lparr>compare_worker := ?w\<rparr>"] exI [of _ ?t']) simp
qed

lemma new_agent_at: "agent_at new_agent [] [] {}"
  by (simp add: agent_at_def new_agent_def new_compare_worker_def holds_new)

text \<open>
  C18. Results go to whoever asks. Two clients post tasks; the path of the first does not exist at
  its standard server; the worker makes one round. The client of the second task, which has not even
  been begun, is then answered with the result of the first, under the uuid of the first; and from then
  on its own task is unknown, although it is still waiting.
\<close>

theorem result_goes_to_first_asker:
  assumes "build_task_from_json parse text1 new_api_task = Inr (S_SUCCESS, t1)"
    and "build_task_from_json parse text2 new_api_task = Inr (S_SUCCESS, t2)"
    and "text1 \<noteq> []" and "text2 \<noteq> []" and "t_task_uuid t1 \<noteq> t_task_uuid t2"
    and "ws_stat sys (c_str (c_path_to_compare (std_server t1))) = None"
  shows "\<exists>j1 a1 j2 a2 a3 res a4 j5.
    handle_task_post parse (t_task_uuid t1) APPLICATION_JSON text1 new_agent = done_with (j1, a1) \<and>
    handle_task_post parse (t_task_uuid t2) APPLICATION_JSON text2 a1 = done_with (j2, a2) \<and>
    worker_round sys chdir ops a2 = done_with a3 \<and>
    handle_task_get (t_task_uuid t2) a3 = done_with (res, a4) \<and> json_find res ''uuid'' = Some (JStr (t_task_uuid t1)) \<and>
    handle_task_get (t_task_uuid t2) a4 = done_with (j5, a4) \<and> json_find j5 ''error'' = Some (JStr ''task not found'') \<and>
    agent_at a4 [t2] [] {t_task_uuid t1}"
proof -
  note t1 = built_task [OF assms(1)] and t2 = built_task [OF assms(2)]
  obtain j1 a1 where a1: "handle_task_post parse (t_task_uuid t1) APPLICATION_JSON text1 new_agent = done_with (j1, a1)"
    "agent_at a1 [t1] [] {t_task_uuid t1}"
    using post_result [OF new_agent_at _ assms(3,1) t1(2)] by auto
  obtain j2 a2 where a2: "handle_task_post parse (t_task_uuid t2) APPLICATION_JSON text2 a1 = done_with (j2, a2)"
    "agent_at a2 [t1, t2] [] {t_task_uuid t2, t_task_uuid t1}"
    using post_result [OF a1(2) _ assms(4,2) t2(2)] by auto
  obtain a3 t' where a3: "worker_round sys chdir ops a2 = done_with a3"
    "agent_at a3 [t2] [t'] {t_task_uuid t2, t_task_uuid t1}"
    "json_find (t_compare_result_json t') ''uuid'' = Some (JStr (t_task_uuid t1))"
    using round_no_path [OF a2(2) _ t1(1,3,4) assms(6), of chdir ops] by auto
  obtain a4 where a4: "handle_task_get (t_task_uuid t2) a3 = done_with (t_compare_result_json t', a4)"
    "agent_at a4 [t2] [] ({t_task_uuid t2, t_task_uuid t1} - {t_task_uuid t2})"
    using get_finished [OF a3(2) _ t2(2)] by auto
  have left: "{t_task_uuid t2, t_task_uuid t1} - {t_task_uuid t2} = {t_task_uuid t1}" using assms(5) by auto
  obtain j5 where "handle_task_get (t_task_uuid t2) a4 = done_with (j5, a4)" "json_find j5 ''error'' = Some (JStr ''task not found'')"
    using get_unknown [OF a4(2) _ t2(2)] by auto
  then show ?thesis using a1(1) a2(1) a3(1,3) a4 left by metis
qed

definition task_node_2 :: cjson where
  "task_node_2 = CJson None cJSON_Object None 0 (Finite 0)
     [text_node ''uuid'' ''y'', CJson (Some ''servers'') cJSON_Array None 0 (Finite 0) [server_node]]"

definition demo_parse :: "string \<Rightarrow> cjson option" where
  "demo_parse text = (if text = ''1'' then Some task_node else if text = ''2'' then Some task_node_2 else None)"

lemmas demo_build = build_task_from_json_def build_result_type_def build_excluded_def build_servers_def Let_def task_node_def
  task_node_2_def server_node_def text_node_def cJSON_GetObjectItem_find case_insensitive_strcmp_def strcasecmp_eq_def
  fold_case_def c_str_def tolower_def build_task_server_info_def text_member_def msg_then_def new_api_task_def
  find_standard_def log_check_err_return_def demo_parse_def

theorem result_goes_to_first_asker_witness:
  "\<exists>a res a'. handle_task_get ''y'' a = done_with (res, a') \<and> json_find res ''uuid'' = Some (JStr ''x'')"
proof -
  obtain t1 where t1: "build_task_from_json demo_parse ''1'' new_api_task = Inr (S_SUCCESS, t1)" "t_task_uuid t1 = ''x''"
    by (auto simp: demo_build)
  obtain t2 where t2: "build_task_from_json demo_parse ''2'' new_api_task = Inr (S_SUCCESS, t2)" "t_task_uuid t2 = ''y''"
    by (auto simp: demo_build)
  have "ws_stat leaking_sys (c_str (c_path_to_compare (std_server t1))) = None"
    using t1 by (auto simp: demo_build leaking_sys_def std_server_def)
  then show ?thesis
    using result_goes_to_first_asker [OF t1(1) t2(1), of leaking_sys "\<lambda>_. None" idle_ops] t1(2) t2(2) by auto
qed

end
