(* ===== verification/Dc_Batch.thy ===== *)
theory Dc_Batch
  imports Dc_Compare
begin

text \<open>
  The comparing worker over any content objects that keep the contract of their interface: a ready
  object that is asked for directories answers, after a finite number of polls, with the attributes it
  sees of each of them, and is ready again. The locale \<open>dir_content\<close> states this and proves the
  polling and the report of the worker once; the local reader with its worker thread is shown to be
  such an object.
\<close>

section \<open>The report on a batch\<close>

definition task_diffs :: "api_task \<Rightarrow> json list \<Rightarrow> bool" where
  "task_diffs t vs \<longleftrightarrow>
     json_ok (t_compare_result_json t) \<and> json_find (t_compare_result_json t) ''diffs'' = Some (JArr vs)"

text \<open>What the report says of a directory, of whose servers the answers are \<open>rs\<close>.\<close>

definition servers_told :: "nat \<Rightarrow> answer list \<Rightarrow> nat \<Rightarrow> json \<Rightarrow> bool" where
  "servers_told s rs k v \<longleftrightarrow>
     (\<exists>j js. json_find v ''servers'' = Some (JArr (j # js)) \<and> json_find j ''is_standard'' = Some (JBool True) \<and>
        list_all2 (entry_tells (answer_attr k (rs ! s)) k) (filter (to_report (answer_attr k (rs ! s)) k) (others_of s rs)) js)"

definition only_servers :: "json \<Rightarrow> json \<Rightarrow> bool" where
  "only_servers v v' \<longleftrightarrow> json_ok v' \<and> (\<forall>k. k \<noteq> ''servers'' \<longrightarrow> json_find v' k = json_find v k)"

lemma set_servers_result:
  assumes "task_diffs t vs" and "i < length vs" and "json_ok (vs ! i)" and "s < length rs"
    and "\<forall>r \<in> set rs. has_message (f_code (answer_attr k r))"
  shows "\<exists>v. with_diffs (set_servers i (dir_servers s rs k)) t = Inr ((), put_diffs (JArr (vs[i := v])) t) \<and>
    only_servers (vs ! i) v \<and> servers_told s rs k v"
proof -
  obtain j js where js: "dir_servers s rs k = Inr (j # js)" "json_find j ''is_standard'' = Some (JBool True)"
    "list_all2 (entry_tells (answer_attr k (rs ! s)) k) (filter (to_report (answer_attr k (rs ! s)) k) (others_of s rs)) js"
    using dir_servers_report [OF assms(4,5)] by blast
  obtain v where v: "json_set ''servers'' (JArr (j # js)) (vs ! i) = Inr v" "json_ok v"
    "\<forall>k'. json_find v k' = (if k' = ''servers'' then Some (JArr (j # js)) else json_find (vs ! i) k')"
    using json_set_ok [OF assms(3)] by metis
  have "with_diffs (set_servers i (dir_servers s rs k)) t =
      ok_then (set_servers i (dir_servers s rs k) (JArr vs)) (\<lambda>(x, d'). Inr (x, put_diffs d' t))"
    using assms(1) by (intro with_diffs_eq) (auto simp: task_diffs_def)
  then have "with_diffs (set_servers i (dir_servers s rs k)) t = Inr ((), put_diffs (JArr (vs[i := v])) t)"
    using assms(2) js(1) v(1) by (simp add: set_servers_def)
  then show ?thesis using v(2,3) js(2,3) by (intro exI [of _ v]) (simp add: only_servers_def servers_told_def)
qed

lemma put_task_diffs: "task_diffs t vs \<Longrightarrow> task_diffs (put_diffs (JArr us) t) us"
  using put_diffs_result [of t "JArr us"] by (simp add: task_diffs_def)

lemma report_dirs_result:
  "task_diffs t vs \<Longrightarrow> s < length rs \<Longrightarrow> distinct (map snd q) \<Longrightarrow>
   \<forall>e \<in> set q. snd e < length vs \<and> json_ok (vs ! snd e) \<Longrightarrow>
   \<forall>k < d + length q. \<forall>r \<in> set rs. has_message (f_code (answer_attr k r)) \<Longrightarrow>
   \<exists>t' vs'. report_dirs s rs d q t = Inr t' \<and> task_diffs t' vs' \<and> length vs' = length vs \<and>
     t_server_info_arr t' = t_server_info_arr t \<and> t_std_idx t' = t_std_idx t \<and>
     (\<forall>i < length vs. i \<notin> snd ` set q \<longrightarrow> vs' ! i = vs ! i) \<and>
     (\<forall>k < length q. only_servers (vs ! snd (q ! k)) (vs' ! snd (q ! k)) \<and> servers_told s rs (d + k) (vs' ! snd (q ! k)))"
proof (induction q arbitrary: d t vs)
  case (Cons e q)
  obtain p i where e: "e = (p, i)" by (cases e)
  have i: "i < length vs" "json_ok (vs ! i)" "i \<notin> snd ` set q" using Cons.prems e by auto
  obtain v where v: "with_diffs (set_servers i (dir_servers s rs d)) t = Inr ((), put_diffs (JArr (vs[i := v])) t)"
    "only_servers (vs ! i) v" "servers_told s rs d v"
    using set_servers_result [OF Cons.prems(1) i(1,2) Cons.prems(2), of d] Cons.prems(5) by auto
  let ?t = "put_diffs (JArr (vs[i := v])) t"
  have ok: "json_ok (t_compare_result_json t)" using Cons.prems(1) by (simp add: task_diffs_def)
  note put = put_diffs_result [OF ok, of "JArr (vs[i := v])"]
  have other: "snd x \<noteq> i" if "x \<in> set q" for x using i(3) that by force
  have "\<forall>e \<in> set q. snd e < length (vs[i := v]) \<and> json_ok (vs[i := v] ! snd e)"
  proof
    fix x assume "x \<in> set q"
    then show "snd x < length (vs[i := v]) \<and> json_ok (vs[i := v] ! snd x)" using Cons.prems(4) other [of x] by simp
  qed
  then obtain t' vs' where IH: "report_dirs s rs (d + 1) q ?t = Inr t'" "task_diffs t' vs'" "length vs' = length vs"
    "t_server_info_arr t' = t_server_info_arr ?t" "t_std_idx t' = t_std_idx ?t"
    "\<forall>j < length vs. j \<notin> snd ` set q \<longrightarrow> vs' ! j = vs[i := v] ! j"
    "\<forall>k < length q. only_servers (vs[i := v] ! snd (q ! k)) (vs' ! snd (q ! k)) \<and> servers_told s rs (d + 1 + k) (vs' ! snd (q ! k))"
    using Cons.IH [OF put_task_diffs [OF Cons.prems(1), of "vs[i := v]"] Cons.prems(2), of "d + 1"] Cons.prems(3,5) by auto
  have here: "vs' ! i = v" using IH(6) i by simp
  have "only_servers (vs ! snd ((e # q) ! k)) (vs' ! snd ((e # q) ! k)) \<and> servers_told s rs (d + k) (vs' ! snd ((e # q) ! k))"
    if "k < length (e # q)" for k
  proof (cases k)
    case 0
    then show ?thesis using here v e by simp
  next
    case (Suc m)
    then have "m < length q" "i \<noteq> snd (q ! m)" using that other [of "q ! m"] by auto
    moreover from this(1) have "only_servers (vs[i := v] ! snd (q ! m)) (vs' ! snd (q ! m))"
      "servers_told s rs (d + 1 + m) (vs' ! snd (q ! m))" using IH(7) by blast+
    ultimately show ?thesis using Suc by simp
  qed
  moreover have "\<forall>j < length vs. j \<notin> snd ` set (e # q) \<longrightarrow> vs' ! j = vs ! j" using IH(6) e by simp
  ultimately show ?case using IH(1-5) put v(1) e by (intro exI [of _ t'] exI [of _ vs']) simp
qed auto

lemma queue_of_in: "e \<in> set (queue_of i fs) \<Longrightarrow> i \<le> snd e \<and> snd e < i + length fs"
  by (auto simp: queue_of_def set_zip)

lemma queue_of_range: "e \<in> set (queue_of 0 fs) \<Longrightarrow> snd e < length fs"
  using queue_of_in [of e 0 fs] by simp

lemma queue_of_distinct: "distinct (map snd (queue_of i fs))"
proof (induction fs arbitrary: i)
  case (Cons f fs)
  obtain n d p flag where f: "f = (n, d, p, flag)" by (cases f)
  have "queue_of i (f # fs) = queue_of i [f] @ queue_of (i + 1) fs" using queue_of_append [of i "[f]" fs] by simp
  moreover have "i \<notin> snd ` set (queue_of (i + 1) fs)" using queue_of_in [of _ "i + 1" fs] by fastforce
  ultimately show ?case using Cons [of "i + 1"] by (simp add: f queue_of_one)
qed (simp add: queue_of_def)

section \<open>The contract\<close>

locale dir_content =
  fixes ops :: "'c content_ops"
    and ready :: "'c \<Rightarrow> bool"
    and busy :: "nat \<Rightarrow> string list \<Rightarrow> 'c \<Rightarrow> bool"
    and fine :: "'c \<Rightarrow> string \<Rightarrow> bool"
    and view :: "'c \<Rightarrow> string \<Rightarrow> dc_file_attr"
  assumes start: "ready c \<Longrightarrow> list_all (fine c) dirs \<Longrightarrow>
      \<exists>c' n. ct_do ops dirs c = done_with (S_SUCCESS, c') \<and> busy n dirs c' \<and> view c' = view c"
    and wait: "busy (Suc n) dirs c \<Longrightarrow>
      \<exists>c'. ct_get ops c = done_with (E_DC_CONTENT_RETRY, c') \<and> busy n dirs c' \<and> view c' = view c"
    and finish: "busy 0 dirs c \<Longrightarrow>
      \<exists>c'. ct_get ops c = done_with (S_SUCCESS, c') \<and> ready c' \<and> view c' = view c \<and> ct_attrs ops c' = map (view c) dirs"
    and view_code: "has_message (f_code (view c d))"
begin

text \<open>How far a content object is that was asked for \<open>dirs\<close>: at most \<open>k\<close> more passes.\<close>

definition left_in :: "nat \<Rightarrow> string list \<Rightarrow> ('c \<Rightarrow> bool) \<Rightarrow> 'c polled \<Rightarrow> bool" where
  "left_in k dirs P = (\<lambda>(c, has_done, failed). failed = S_SUCCESS \<and> P c \<and>
     (if has_done then ready c \<and> ct_attrs ops c = map (view c) dirs else \<exists>n < k. busy n dirs c))"

abbreviation seen_as :: "(string \<Rightarrow> dc_file_attr) \<Rightarrow> 'c \<Rightarrow> bool" where
  "seen_as v c \<equiv> view c = v"

lemma ask_all_ready:
  "list_all ready cs \<Longrightarrow> list_all (\<lambda>c. list_all (fine c) dirs) cs \<Longrightarrow>
   \<exists>as k. ask_all ops dirs cs = done_with as \<and> list_all2 (\<lambda>c. left_in k dirs (seen_as (view c))) cs as"
proof (induction cs)
  case (Cons c cs)
  obtain c' n where c': "ct_do ops dirs c = done_with (S_SUCCESS, c')" "busy n dirs c'" "view c' = view c"
    using start [of c dirs] Cons.prems by auto
  obtain as k where as: "ask_all ops dirs cs = done_with as" "list_all2 (\<lambda>c. left_in k dirs (seen_as (view c))) cs as"
    using Cons by auto
  have "list_all2 (\<lambda>c. left_in (max k (Suc n)) dirs (seen_as (view c))) cs as"
    using as(2) by (rule list_all2_mono) (auto simp: left_in_def less_max_iff_disj split: if_splits)
  then show ?case using c' as(1)
    by (intro exI [of _ "(c', False, S_SUCCESS) # as"] exI [of _ "max k (Suc n)"]) (auto simp: left_in_def less_max_iff_disj)
qed simp

lemma poll_one:
  assumes "left_in (Suc k) dirs P (c, False, failed)" and "\<And>c c'. view c' = view c \<Longrightarrow> P c \<Longrightarrow> P c'"
  shows "\<exists>a. run_then (ct_get ops c) (\<lambda>(ret, c).
      done_with (if ret = E_DC_CONTENT_RETRY then (c, False, failed)
           else (c, True, if ret \<noteq> S_SUCCESS then ret else failed))) = done_with a \<and> left_in k dirs P a"
proof -
  obtain n where n: "n < Suc k" "busy n dirs c" "failed = S_SUCCESS" "P c" using assms(1) by (auto simp: left_in_def)
  show ?thesis
  proof (cases n)
    case 0
    then obtain c' where "ct_get ops c = done_with (S_SUCCESS, c')" "ready c'" "view c' = view c" "ct_attrs ops c' = map (view c) dirs"
      using finish n(2) by blast
    then show ?thesis using n assms(2) by (auto simp: left_in_def)
  next
    case (Suc m)
    then obtain c' where "ct_get ops c = done_with (E_DC_CONTENT_RETRY, c')" "busy m dirs c'" "view c' = view c"
      using wait n(2) by blast
    then show ?thesis using n assms(2) Suc by (auto simp: left_in_def)
  qed
qed

lemma poll_all_left:
  "list_all2 (\<lambda>v. left_in (Suc k) dirs (seen_as v)) vs as \<Longrightarrow>
   \<exists>as'. poll_all ops as = done_with as' \<and> list_all2 (\<lambda>v. left_in k dirs (seen_as v)) vs as'"
proof (induction vs as rule: list_all2_induct)
  case (Cons v vs a as)
  obtain c d failed where a: "a = (c, d, failed)" by (cases a)
  obtain as' where as': "poll_all ops as = done_with as'" "list_all2 (\<lambda>v. left_in k dirs (seen_as v)) vs as'" using Cons by blast
  show ?case
  proof (cases d)
    case True
    then show ?thesis using Cons.hyps(1) as' by (auto simp: a left_in_def)
  next
    case False
    then obtain b where "run_then (ct_get ops c) (\<lambda>(ret, c).
      done_with (if ret = E_DC_CONTENT_RETRY then (c, False, failed)
           else (c, True, if ret \<noteq> S_SUCCESS then ret else failed))) = done_with b"
      "left_in k dirs (seen_as v) b"
      using poll_one [of k dirs "seen_as v" c failed] Cons.hyps(1) by (auto simp: a)
    then show ?thesis using as' False by (auto simp: a)
  qed
qed simp

lemma poll_until_ends:
  "list_all2 (\<lambda>v. left_in k dirs (seen_as v)) vs as \<Longrightarrow>
   \<exists>as'. poll_until ops as = done_with as' \<and>
     list_all2 (\<lambda>v (c, d, failed). failed = S_SUCCESS \<and> ready c \<and> view c = v \<and> ct_attrs ops c = map v dirs) vs as'"
proof (induction k arbitrary: as)
  case 0
  then have "list_all (\<lambda>(c, has_done, failed). has_done) as"
    by (induction rule: list_all2_induct) (auto simp: left_in_def split: if_splits)
  moreover have "list_all2 (\<lambda>v (c, d, failed). failed = S_SUCCESS \<and> ready c \<and> view c = v \<and> ct_attrs ops c = map v dirs) vs as"
    using 0 by (rule list_all2_mono) (auto simp: left_in_def split: if_splits)
  ultimately show ?case by (subst poll_until.simps) simp
next
  case (Suc k)
  show ?case
  proof (cases "list_all (\<lambda>(c, has_done, failed). has_done) as")
    case True
    then have "list_all2 (\<lambda>v a. left_in (Suc k) dirs (seen_as v) a \<and> fst (snd a)) vs as"
      using Suc.prems by (auto simp: list_all2_conv_all_nth list_all_length)
    then have "list_all2 (\<lambda>v (c, d, failed). failed = S_SUCCESS \<and> ready c \<and> view c = v \<and> ct_attrs ops c = map v dirs) vs as"
      by (rule list_all2_mono) (auto simp: left_in_def split: if_splits)
    then show ?thesis using True by (subst poll_until.simps) simp
  next
    case False
    obtain as' where "poll_all ops as = done_with as'" "list_all2 (\<lambda>v. left_in k dirs (seen_as v)) vs as'"
      using poll_all_left [OF Suc.prems] by blast
    then show ?thesis using Suc.IH [of as'] False by (subst poll_until.simps) simp
  qed
qed

lemma batch_reports:
  assumes "job_asserts jb" and "task_diffs (cmp_task jb) vs" and "list_all ready (contents jb)"
    and "list_all (\<lambda>c. list_all (fine c) (map fst (dir_q jb))) (contents jb)"
    and "distinct (map snd (dir_q jb))" and "\<forall>e \<in> set (dir_q jb). snd e < length vs \<and> json_ok (vs ! snd e)"
  shows "\<exists>jb' vs'. exe_sql_job_for_single_item_dir1 ops jb = done_with (S_SUCCESS, jb') \<and> dir_q jb' = [] \<and>
    task_diffs (cmp_task jb') vs' \<and> length vs' = length vs \<and>
    (\<forall>i < length vs. i \<notin> snd ` set (dir_q jb) \<longrightarrow> vs' ! i = vs ! i) \<and>
    (\<forall>k < length (dir_q jb). only_servers (vs ! snd (dir_q jb ! k)) (vs' ! snd (dir_q jb ! k)) \<and>
       servers_told (nat (t_std_idx (cmp_task jb)))
         (map2 (\<lambda>s c. (c_center s, map (view c) (map fst (dir_q jb)), S_SUCCESS)) (t_server_info_arr (cmp_task jb)) (contents jb))
         k (vs' ! snd (dir_q jb ! k)))"
proof (cases "dir_q jb = []")
  case True
  then show ?thesis using assms(2) by (auto simp: exe_sql_job_for_single_item_dir1_def)
next
  case False
  let ?dirs = "map fst (dir_q jb)" and ?ss = "t_server_info_arr (cmp_task jb)" and ?s = "nat (t_std_idx (cmp_task jb))"
  let ?rs = "map2 (\<lambda>s c. (c_center s, map (view c) ?dirs, S_SUCCESS)) ?ss (contents jb)"
  have len: "length ?ss = length (contents jb)" "?s < length ?rs" using assms(1) by (auto simp: job_asserts_def)
  obtain as k where as: "ask_all ops ?dirs (contents jb) = done_with as"
    "list_all2 (\<lambda>c. left_in k ?dirs (seen_as (view c))) (contents jb) as"
    using ask_all_ready [OF assms(3,4)] by blast
  have "list_all2 (\<lambda>v. left_in k ?dirs (seen_as v)) (map view (contents jb)) as"
    using as(2) by (simp add: list_all2_map1)
  then obtain as' where as': "poll_until ops as = done_with as'"
    "list_all2 (\<lambda>v (c, d, failed). failed = S_SUCCESS \<and> ready c \<and> view c = v \<and> ct_attrs ops c = map v ?dirs)
       (map view (contents jb)) as'"
    using poll_until_ends by blast
  have rs: "map2 (\<lambda>s (c, has_done, failed). (c_center s, ct_attrs ops c, failed)) ?ss as' = ?rs"
  proof (rule nth_equalityI)
    have len': "length as' = length (contents jb)" using list_all2_lengthD [OF as'(2)] by simp
    then show "length (map2 (\<lambda>s (c, has_done, failed). (c_center s, ct_attrs ops c, failed)) ?ss as') = length ?rs" by simp
    fix i assume "i < length (map2 (\<lambda>s (c, has_done, failed). (c_center s, ct_attrs ops c, failed)) ?ss as')"
    then have i: "i < length as'" "i < length ?ss" by simp_all
    then show "map2 (\<lambda>s (c, has_done, failed). (c_center s, ct_attrs ops c, failed)) ?ss as' ! i = ?rs ! i"
      using list_all2_nthD2 [OF as'(2) i(1)] len len' by (simp split: prod.splits)
  qed
  have msg: "\<forall>k < 0 + length (dir_q jb). \<forall>r \<in> set ?rs. has_message (f_code (answer_attr k r))"
    by (auto simp: answer_attr_def view_code set_zip)
  obtain t' vs' where t': "report_dirs ?s ?rs 0 (dir_q jb) (cmp_task jb) = Inr t'" "task_diffs t' vs'" "length vs' = length vs"
    "\<forall>i < length vs. i \<notin> snd ` set (dir_q jb) \<longrightarrow> vs' ! i = vs ! i"
    "\<forall>k < length (dir_q jb). only_servers (vs ! snd (dir_q jb ! k)) (vs' ! snd (dir_q jb ! k)) \<and>
       servers_told ?s ?rs (0 + k) (vs' ! snd (dir_q jb ! k))"
    using report_dirs_result [OF assms(2) len(2) assms(5,6) msg] by blast
  let ?jb = "jb\<lparr>cmp_task := t', dir_q := [], contents := map fst as'\<rparr>"
  have "exe_sql_job_for_single_item_dir1 ops jb = done_with (S_SUCCESS, ?jb)"
    using False assms(1) as(1) as'(1) t'(1) rs by (simp add: exe_sql_job_for_single_item_dir1_def)
  then show ?thesis using t'(2-5) by (intro exI [of _ ?jb] exI [of _ vs']) simp
qed

lemma tree_task_reported:
  assumes "task_diffs t []" and "0 \<le> t_std_idx t" and "t_std_idx t < int (length (t_server_info_arr t))"
    and "ws_stat sys path = Some st" and "st_kind st = Directory" and "path = c_str (c_path_to_compare (std_server t))"
    and "chdir (c_str (c_base_dir (std_server t))) = Some sys'"
    and "ws_readdir sys' path = Some (entries_of l)" and "lists sys' path l"
    and "dirs_among (items_in 0 path l) \<le> dir_batch_size"
    and "\<And>i s. ready (ct_new ops i s)"
    and "\<And>i s e. e \<in> set (queue_of 0 (items_in 0 path l)) \<Longrightarrow> s \<in> set (t_server_info_arr t) \<Longrightarrow> fine (ct_new ops i s) (fst e)"
  shows "\<exists>t' vs. exe_sql_job sys chdir ops [] t = done_with (S_SUCCESS, [], t') \<and> task_diffs t' vs \<and>
    list_all2 tells_item (items_in 0 path l) vs \<and>
    (let q = queue_of 0 (items_in 0 path l) in \<forall>k < length q. servers_told (nat (t_std_idx t))
       (map2 (\<lambda>s c. (c_center s, map (view c) (map fst q), S_SUCCESS)) (t_server_info_arr t) (new_contents ops t))
       k (vs ! snd (q ! k)))"
proof -
  let ?jb = "\<lparr>cmp_task = t, dir_q = [], contents = new_contents ops t\<rparr>"
  let ?fs = "items_in 0 path l" let ?q = "queue_of 0 ?fs"
  have jb: "job_diffs ?jb []" using assms(1-3) by (simp add: job_diffs_def task_diffs_def job_asserts_def new_contents_def)
  obtain jb1 where w: "walk_entries sys' ops 0 path (entries_of l @ []) ?jb = walk_entries sys' ops 0 path [] jb1"
    and ext: "extends ?jb ?fs jb1"
    using walk_extends [OF assms(9) jb, of 0 ops "[]"] assms(10) by auto
  obtain ws where ws: "list_all2 tells_item ?fs ws" "job_diffs jb1 ws" and q: "dir_q jb1 = ?q"
    and same: "contents jb1 = new_contents ops t" "t_server_info_arr (cmp_task jb1) = t_server_info_arr t"
      "t_std_idx (cmp_task jb1) = t_std_idx t"
    using ext jb by (auto simp: extends_def)
  have walked: "exe_sql_job_for_dir sys' ops path 0 ?jb = done_with (S_SUCCESS, jb1)"
    using jb w assms(8) by (simp add: exe_sql_job_for_dir_def walk_end job_diffs_def)
  have len: "length ws = length ?fs" using list_all2_lengthD [OF ws(1)] by simp
  have in_range: "snd e < length ws \<and> json_ok (ws ! snd e)" if "e \<in> set ?q" for e
    using queue_of_range [OF that] list_all2_nthD2 [OF ws(1), of "snd e"] len by (auto simp: tells_item_def)
  have all_ready: "list_all ready (contents jb1)" "list_all (\<lambda>c. list_all (fine c) (map fst (dir_q jb1))) (contents jb1)"
    using assms(11,12) by (auto simp: same q new_contents_def list_all_iff set_zip)
  obtain jb2 vs where jb2: "exe_sql_job_for_single_item_dir1 ops jb1 = done_with (S_SUCCESS, jb2)" "dir_q jb2 = []"
    "task_diffs (cmp_task jb2) vs" "length vs = length ws" "\<forall>i < length ws. i \<notin> snd ` set ?q \<longrightarrow> vs ! i = ws ! i"
    "\<forall>k < length ?q. only_servers (ws ! snd (?q ! k)) (vs ! snd (?q ! k)) \<and>
       servers_told (nat (t_std_idx t))
         (map2 (\<lambda>s c. (c_center s, map (view c) (map fst ?q), S_SUCCESS)) (t_server_info_arr t) (new_contents ops t))
         k (vs ! snd (?q ! k))"
    using batch_reports [of jb1 ws] ws(2) all_ready queue_of_distinct [of 0 ?fs] in_range
    by (auto simp: job_diffs_def task_diffs_def same q)
  have items: "list_all2 tells_item ?fs vs"
  proof (rule list_all2_all_nthI)
    fix i assume i: "i < length ?fs"
    then have ti: "tells_item (?fs ! i) (ws ! i)" using list_all2_nthD [OF ws(1)] by blast
    show "tells_item (?fs ! i) (vs ! i)"
    proof (cases "i \<in> snd ` set ?q")
      case True
      then obtain k where "k < length ?q" "snd (?q ! k) = i" by (auto simp: in_set_conv_nth)
      then have "only_servers (ws ! i) (vs ! i)" using jb2(6) by blast
      then show ?thesis using ti by (simp add: only_servers_def tells_item_def)
    qed (use jb2(5) i len ti in simp)
  qed (use len jb2(4) in simp)
  have job1: "exe_sql_job1 sys chdir ops ?jb = done_with (S_SUCCESS, jb2)"
  proof (cases "dir_q jb1 = []")
    case True
    then have "jb2 = jb1" using jb2(1) by (simp add: exe_sql_job_for_single_item_dir1_def)
    then show ?thesis using True assms(2-7) walked by (simp add: exe_sql_job1_def Let_def log_check_err_return_def)
  next
    case False
    then show ?thesis using assms(2-7) walked jb2(1) by (simp add: exe_sql_job1_def Let_def log_check_err_return_def)
  qed
  have "exe_sql_job sys chdir ops [] t = done_with (S_SUCCESS, [], cmp_task jb2)"
    using job1 jb2(2) by (simp add: exe_sql_job_def)
  then show ?thesis using jb2(3,6) items by (intro exI [of _ "cmp_task jb2"] exI [of _ vs]) (simp add: Let_def)
qed

end

section \<open>The local reader keeps the contract\<close>

text \<open>
  The local reader of \<^verbatim>\<open>Dc_Content\<close> as a content object: with the system it sees, and the number of
  polls after which its worker thread gets to run. The vector handed over with a question is new.
\<close>

record 'f local_content =
  lc_os :: "'f os"
  lc_reader :: "'f local_reader"
  lc_wait :: nat

definition local_do :: "string list \<Rightarrow> 'f local_content \<Rightarrow> (dc_common_code \<times> 'f local_content) run" where
  "local_do dirs c =
     run_then (do_dir_list_attr dirs [] (lc_reader c)) (\<lambda>(ret, r). done_with (ret, c\<lparr>lc_reader := r\<rparr>))"

definition local_get :: "'f local_content \<Rightarrow> (dc_common_code \<times> 'f local_content) run" where
  "local_get c =
     run_then (case lc_wait c of Suc n \<Rightarrow> done_with (c\<lparr>lc_wait := n\<rparr>)
               | 0 \<Rightarrow> run_then (thd_worker (lc_os c) (lc_reader c)) (\<lambda>r. done_with (c\<lparr>lc_reader := r\<rparr>)))
       (\<lambda>c. case get_dir_list_attr (lc_reader c) of (ret, r) \<Rightarrow> done_with (ret, c\<lparr>lc_reader := r\<rparr>))"

definition local_ops :: "(server_info \<Rightarrow> 'f os) \<Rightarrow> (server_info \<Rightarrow> nat) \<Rightarrow> 'f local_content content_ops" where
  "local_ops os_of wait_of =
     \<lparr>ct_do = local_do, ct_get = local_get, ct_attrs = (\<lambda>c. dir_attr_list (lc_reader c)),
      ct_new = (\<lambda>std s. \<lparr>lc_os = os_of s, lc_reader = new_local_reader, lc_wait = wait_of s\<rparr>)\<rparr>"

definition local_ready :: "'f local_content \<Rightarrow> bool" where
  "local_ready c \<longleftrightarrow> holds (cmd_q (lc_reader c)) [] \<and> holds (ret_q (lc_reader c)) []"

text \<open>A path that exists and is no directory would abort the worker.\<close>

definition local_fine :: "'f os \<Rightarrow> string \<Rightarrow> bool" where
  "local_fine os d \<longleftrightarrow> \<not> (\<exists>st. os_stat os (c_str d) = Some st \<and> st_kind st \<noteq> Directory)"

definition local_busy :: "nat \<Rightarrow> string list \<Rightarrow> 'f local_content \<Rightarrow> bool" where
  "local_busy n dirs c \<longleftrightarrow>
     lc_wait c = n \<and> holds (cmd_q (lc_reader c)) [CMD_TYPE_DIR_LIST_ATTR] \<and> holds (ret_q (lc_reader c)) [] \<and>
     dir_list (lc_reader c) = dirs \<and> dir_attr_list (lc_reader c) = [] \<and> list_all (local_fine (lc_os c)) dirs"

definition local_view :: "'f os \<Rightarrow> string \<Rightarrow> dc_file_attr" where
  "local_view os d = (case dir_attr_of os d of Inl _ \<Rightarrow> new_attr | Inr a \<Rightarrow> a)"

lemma local_start:
  assumes "local_ready c" and "list_all (local_fine (lc_os c)) dirs"
  shows "\<exists>c'. local_do dirs c = done_with (S_SUCCESS, c') \<and> local_busy (lc_wait c) dirs c' \<and> lc_os c' = lc_os c"
proof -
  obtain q where "chan_write CMD_TYPE_DIR_LIST_ATTR (cmd_q (lc_reader c)) = Some q" "holds q [CMD_TYPE_DIR_LIST_ATTR]"
    using holds_write [of "cmd_q (lc_reader c)" "[]"] assms(1) by (auto simp: local_ready_def)
  then show ?thesis using assms by (simp add: local_do_def do_dir_list_attr_def send_cmd_def local_busy_def local_ready_def done_with_def)
qed

lemma local_wait:
  assumes "local_busy (Suc n) dirs c"
  shows "\<exists>c'. local_get c = done_with (E_DC_CONTENT_RETRY, c') \<and> local_busy n dirs c' \<and> lc_os c' = lc_os c"
  using assms holds_empty [of "ret_q (lc_reader c)"]
  by (simp add: local_get_def local_busy_def get_dir_list_attr_def get_ret_def)

lemma local_finish:
  assumes "local_busy 0 dirs c"
  shows "\<exists>c'. local_get c = done_with (S_SUCCESS, c') \<and> local_ready c' \<and> lc_os c' = lc_os c \<and>
    dir_attr_list (lc_reader c') = map (local_view (lc_os c)) dirs"
proof -
  let ?r = "lc_reader c" let ?os = "lc_os c"
  obtain q where q: "read_once (cmd_q ?r) = (Some CMD_TYPE_DIR_LIST_ATTR, q)" "holds q []"
    using holds_read [of "cmd_q ?r" CMD_TYPE_DIR_LIST_ATTR "[]"] assms by (auto simp: local_busy_def)
  obtain p where p: "chan_write S_SUCCESS (ret_q ?r) = Some p" "holds p [S_SUCCESS]"
    using holds_write [of "ret_q ?r" "[]" S_SUCCESS] assms by (auto simp: local_busy_def)
  obtain p' where p': "read_once p = (Some S_SUCCESS, p')" "holds p' []" using holds_read [OF p(2)] by blast
  have fine: "dir_attr_of ?os d \<noteq> Inl e" if "d \<in> set dirs" for d e
    using dir_attr_aborts [of ?os d] assms that by (auto simp: local_busy_def local_fine_def list_all_iff)
  then have "map (\<lambda>d. projr (dir_attr_of ?os d)) dirs = map (local_view ?os) dirs"
    by (auto simp: local_view_def split: sum.split)
  then have "thd_worker_dir_list_attr ?os (?r\<lparr>cmd_q := q\<rparr>) = Inr (S_SUCCESS, ?r\<lparr>cmd_q := q, dir_attr_list := map (local_view ?os) dirs\<rparr>)"
    using assms fine by (auto simp: thd_worker_dir_list_attr_def dir_attr_loop_all local_busy_def)
  then have "thd_worker ?os ?r = done_with (?r\<lparr>cmd_q := q, dir_attr_list := map (local_view ?os) dirs, ret_q := p\<rparr>)"
    using q(1) p(1) by (simp add: thd_worker_def thd_worker_cmd_def done_with_def)
  then show ?thesis using assms q(2) p' 
    by (simp add: local_get_def local_busy_def local_ready_def get_dir_list_attr_def get_ret_def log_check_err_return_def)
qed

lemma local_view_code: "has_message (f_code (local_view os d))"
proof -
  have "f_code (local_view os d) \<in> {S_SUCCESS, E_OS_ENV_STAT, E_OS_ENV_GETPWUID, E_OS_ENV_LOCALTIME}"
    by (auto simp: local_view_def dir_attr_of_def new_attr_def Let_def split: sum.split option.splits if_splits prod.splits)
  then show ?thesis
    by (auto simp: has_message_def dc_common_code_msg_def error_code_msg_def code_num_def dc_codes_def)
qed

interpretation local_reader: dir_content "local_ops os_of wait_of" local_ready local_busy
  "\<lambda>c. local_fine (lc_os c)" "\<lambda>c. local_view (lc_os c)"
proof unfold_locales
  fix c :: "'a local_content" and dirs
  assume "local_ready c" "list_all (local_fine (lc_os c)) dirs"
  then show "\<exists>c' n. ct_do (local_ops os_of wait_of) dirs c = done_with (S_SUCCESS, c') \<and> local_busy n dirs c' \<and>
      local_view (lc_os c') = local_view (lc_os c)"
    using local_start [of c dirs] by (auto simp: local_ops_def)
next
  fix n dirs and c :: "'a local_content"
  assume "local_busy (Suc n) dirs c"
  then show "\<exists>c'. ct_get (local_ops os_of wait_of) c = done_with (E_DC_CONTENT_RETRY, c') \<and> local_busy n dirs c' \<and>
      local_view (lc_os c') = local_view (lc_os c)"
    using local_wait [of n dirs c] by (auto simp: local_ops_def)
next
  fix dirs and c :: "'a local_content"
  assume "local_busy 0 dirs c"
  then show "\<exists>c'. ct_get (local_ops os_of wait_of) c = done_with (S_SUCCESS, c') \<and> local_ready c' \<and>
      local_view (lc_os c') = local_view (lc_os c) \<and>
      ct_attrs (local_ops os_of wait_of) c' = map (local_view (lc_os c)) dirs"
    using local_finish [of dirs c] by (auto simp: local_ops_def)
qed (rule local_view_code)

text \<open>What the readers of the servers of a task see of a list of directories.\<close>

definition answers_of :: "(server_info \<Rightarrow> 'f os) \<Rightarrow> api_task \<Rightarrow> string list \<Rightarrow> answer list" where
  "answers_of os_of t dirs = map (\<lambda>s. (c_center s, map (local_view (os_of s)) dirs, S_SUCCESS)) (t_server_info_arr t)"


definition plain_os :: "string os" where
  "plain_os = \<lparr>os_stat = (\<lambda>_. Some (fs_object Directory)), os_getpwuid = (\<lambda>_. (Some ''root'', 0)), os_time = (\<lambda>_. Some ''now''),
     os_memalign = True, os_open = (\<lambda>_. None), os_read = (\<lambda>_ f. (None, f)), os_sha1 = id, os_md5 = id\<rparr>"


end
