(* ===== verification/Dc_Diff.thy ===== *)
theory Dc_Diff
  imports Dc_Task
begin

text \<open>
  \<^verbatim>\<open>file_compare/diff/dc_diff.h\<close>, \<^verbatim>\<open>dc_diff.cc\<close>, \<^verbatim>\<open>dc_diff_content\<close> and
  \<^verbatim>\<open>dc_diff_failed_content\<close>: the rows with one primary key that the servers deliver, grouped
  by their content, and the thread that writes the differences to a file. A column is its bytes, or
  \<open>None\<close> for the null pointer; the columns of a row whose text is that of an earlier row point into the
  memory of that row. Comparing a column with itself gives 0 here as in the code, which tests for it
  first. Memory is available.
\<close>

section \<open>Rows\<close>

record single_row =
  r_length :: "nat list"
  r_cols :: "string option list"

text \<open>The bytes up to a count; a string may be left only by a difference or a NUL.\<close>

fun strncmp :: "nat \<Rightarrow> string \<Rightarrow> string \<Rightarrow> cpp_error + int" where
  "strncmp 0 a b = Inr 0"
| "strncmp (Suc n) (x # a) (y # b) =
     (if x \<noteq> y then Inr (int (of_char x) - int (of_char y)) else if x = NUL then Inr 0 else strncmp n a b)"
| "strncmp (Suc n) _ _ = Inl InvalidRead"

text \<open>The lengths are passed as \<^verbatim>\<open>uint32_t\<close>.\<close>

definition dc_diff_str_cmp :: "string \<Rightarrow> nat \<Rightarrow> string \<Rightarrow> nat \<Rightarrow> cpp_error + int" where
  "dc_diff_str_cmp a alen b blen =
     (let alen = alen mod 2 ^ 32; blen = blen mod 2 ^ 32 in
      ok_then (strncmp (min alen blen) a b) (\<lambda>r.
        Inr (if r = 0 then (if alen < blen then -1 else if alen > blen then 1 else 0) else r)))"

text \<open>\<^verbatim>\<open>memcpy\<close> of \<open>len\<close> bytes to the offset \<open>addr\<close> of a buffer of \<open>mem\<close> bytes.\<close>

definition copy_col :: "nat \<Rightarrow> nat \<Rightarrow> nat \<Rightarrow> string \<Rightarrow> cpp_error + string" where
  "copy_col mem addr len s =
     (if length s < len then Inl InvalidRead else if mem < addr + len then Inl InvalidWrite else Inr (take len s))"

fun copy_cols :: "nat \<Rightarrow> nat \<Rightarrow> (nat \<times> string option) list \<Rightarrow> cpp_error + string option list" where
  "copy_cols mem addr [] = Inr []"
| "copy_cols mem addr ((len, None) # cs) =
     ok_then (copy_cols mem (addr + len) cs) (\<lambda>r. Inr (None # r))"
| "copy_cols mem addr ((len, Some s) # cs) =
     ok_then (copy_col mem addr len s) (\<lambda>c. ok_then (copy_cols mem (addr + len) cs) (\<lambda>r. Inr (Some c # r)))"

text \<open>The bytes for the lengths and the pointers.\<close>

definition head_bytes :: "nat list \<Rightarrow> nat" where
  "head_bytes lens = 16 * length lens"

definition build :: "nat list \<Rightarrow> string option list \<Rightarrow> cpp_error + single_row" where
  "build lens cols =
     (if lens = [] then Inl AssertFailed
      else
        (let mem_bytes = (head_bytes lens + sum_list lens) mod 2 ^ 32 in
         if mem_bytes < head_bytes lens then Inl InvalidWrite
         else
           ok_then (copy_cols mem_bytes (head_bytes lens) (zip lens cols)) (\<lambda>cs.
             Inr \<lparr>r_length = lens, r_cols = cs\<rparr>)))"

text \<open>For each column, whether its text is that of the other row's.\<close>

fun cols_same :: "(nat \<times> string option) list \<Rightarrow> (nat \<times> string option) list \<Rightarrow> cpp_error + bool list" where
  "cols_same ((len, col) # cs) ((blen, base_col) # bs) =
     ok_then
       (case (col, base_col) of
          (Some s, Some b) \<Rightarrow> ok_then (dc_diff_str_cmp s len b blen) (\<lambda>r. Inr (r = 0))
        | _ \<Rightarrow> Inr False)
       (\<lambda>same. ok_then (cols_same cs bs) (\<lambda>r. Inr (same # r)))"
| "cols_same _ _ = Inr []"

text \<open>The second value is what is left of \<open>mem_bytes\<close>, an \<^verbatim>\<open>int\<close>.\<close>

fun copy_changed :: "nat \<Rightarrow> nat \<Rightarrow> int \<Rightarrow> (bool \<times> string option \<times> nat \<times> string option) list \<Rightarrow>
    cpp_error + string option list \<times> int" where
  "copy_changed mem addr left [] = Inr ([], left)"
| "copy_changed mem addr left ((same, base_col, len, col) # cs) =
     (if same then ok_then (copy_changed mem addr left cs) (\<lambda>(r, left). Inr (base_col # r, left))
      else
        (case col of
           None \<Rightarrow> ok_then (copy_changed mem addr left cs) (\<lambda>(r, left). Inr (None # r, left))
         | Some s \<Rightarrow>
             ok_then (copy_col mem addr len s) (\<lambda>c.
               ok_then (copy_changed mem (addr + len) (to_int32 (left - int len)) cs) (\<lambda>(r, left).
                 Inr (Some c # r, left)))))"

text \<open>A negative \<open>mem_bytes\<close> is a size no memory can be had for.\<close>

definition build_from :: "single_row \<Rightarrow> nat list \<Rightarrow> string option list \<Rightarrow> cpp_error + single_row" where
  "build_from row lens cols =
     (if r_length row = [] \<or> lens = [] \<or> length lens \<noteq> length (r_length row) then Inl AssertFailed
      else
        ok_then (cols_same (zip lens cols) (zip (r_length row) (r_cols row))) (\<lambda>same.
          let mem_bytes = to_int32 (int (head_bytes lens + sum_list (map2 (\<lambda>same len. if same then 0 else len) same lens))) in
          if mem_bytes < 0 then Inl AssertFailed
          else if nat mem_bytes < head_bytes lens then Inl InvalidWrite
          else
            ok_then (copy_changed (nat mem_bytes) (head_bytes lens) (to_int32 (mem_bytes - int (head_bytes lens)))
              (zip same (zip (r_cols row) (zip lens cols)))) (\<lambda>(cs, left).
              if left \<noteq> 0 then Inl AssertFailed else Inr \<lparr>r_length = lens, r_cols = cs\<rparr>)))"

fun same_cols :: "(nat \<times> string option \<times> string option) list \<Rightarrow> cpp_error + bool" where
  "same_cols [] = Inr True"
| "same_cols ((len, None, None) # cs) = same_cols cs"
| "same_cols ((len, Some a, Some b) # cs) =
     ok_then (dc_diff_str_cmp a len b len) (\<lambda>r. if r \<noteq> 0 then Inr False else same_cols cs)"
| "same_cols ((len, _, _) # cs) = Inr False"

definition is_same :: "single_row \<Rightarrow> nat list \<Rightarrow> string option list \<Rightarrow> cpp_error + bool" where
  "is_same row lens cols =
     (if lens = [] \<or> length (r_length row) \<noteq> length lens then Inl AssertFailed
      else if r_length row \<noteq> lens then Inr False
      else same_cols (zip lens (zip (r_cols row) cols)))"

fun row_text :: "(nat \<times> string option) list \<Rightarrow> cpp_error + string list" where
  "row_text [] = Inr []"
| "row_text ((len, None) # cs) = ok_then (row_text cs) (\<lambda>r. Inr (''NULL'' # r))"
| "row_text ((len, Some s) # cs) =
     (if length s < len then Inl InvalidRead else ok_then (row_text cs) (\<lambda>r. Inr (take len s # r)))"

fun bar_between :: "string list \<Rightarrow> string" where
  "bar_between [] = []"
| "bar_between [s] = s"
| "bar_between (s # ss) = s @ '' | '' @ bar_between ss"

definition row_to_string :: "single_row \<Rightarrow> cpp_error + string" where
  "row_to_string row = ok_then (row_text (zip (r_length row) (r_cols row))) (\<lambda>ss. Inr (bar_between ss))"

section \<open>The rows of one key\<close>

record diff_row =
  r_rows :: "single_row list"
  r_idxs :: "int list"
  r_task :: api_task
  r_exit_tag :: bool

definition new_diff_row :: "nat \<Rightarrow> api_task \<Rightarrow> diff_row" where
  "new_diff_row sn t = \<lparr>r_rows = [], r_idxs = replicate sn (-1), r_task = t, r_exit_tag = False\<rparr>"

fun find_same_row :: "nat \<Rightarrow> single_row list \<Rightarrow> nat list \<Rightarrow> string option list \<Rightarrow> cpp_error + int" where
  "find_same_row i [] lens cols = Inr (-1)"
| "find_same_row i (r # rs) lens cols =
     ok_then (is_same r lens cols) (\<lambda>same. if same then Inr (int i) else find_same_row (i + 1) rs lens cols)"

definition all_rows_are_same :: "diff_row \<Rightarrow> bool" where
  "all_rows_are_same d \<longleftrightarrow> length (r_rows d) = 1"

text \<open>A new row, built upon the row of the standard server or, before that one is there, the first.\<close>

definition new_row :: "nat list \<Rightarrow> string option list \<Rightarrow> diff_row \<Rightarrow> cpp_error + single_row" where
  "new_row lens cols d =
     (if r_rows d = [] then build lens cols
      else if \<not> (0 \<le> t_std_idx (r_task d) \<and> t_std_idx (r_task d) < int (length (t_server_info_arr (r_task d))) \<and>
        length (r_idxs d) = length (t_server_info_arr (r_task d))) then Inl AssertFailed
      else
        (let std_row_idx = r_idxs d ! nat (t_std_idx (r_task d)) in
         if std_row_idx = -1 then build_from (r_rows d ! 0) lens cols
         else if \<not> nat std_row_idx < length (r_rows d) then Inl AssertFailed
         else build_from (r_rows d ! nat std_row_idx) lens cols))"

definition add_row :: "int \<Rightarrow> nat list \<Rightarrow> string option list \<Rightarrow> diff_row \<Rightarrow> cpp_error + dc_common_code \<times> diff_row" where
  "add_row idx lens cols d =
     (if \<not> (0 \<le> idx \<and> idx < int (length (t_server_info_arr (r_task d))) \<and> idx < int (length (r_idxs d))) then Inl AssertFailed
      else
        ok_then (find_same_row 0 (r_rows d) lens cols) (\<lambda>same_row_index.
          if same_row_index \<noteq> -1 then Inr (S_SUCCESS, d\<lparr>r_idxs := (r_idxs d)[nat idx := same_row_index]\<rparr>)
          else
            ok_then (new_row lens cols d) (\<lambda>row.
              Inr (S_SUCCESS, d\<lparr>r_rows := r_rows d @ [row], r_idxs := (r_idxs d)[nat idx := int (length (r_rows d))]\<rparr>))))"

section \<open>Lemmas on columns\<close>

lemma c_str_step: "c_str (x # s) = (if x = NUL then [] else x # c_str s)"
  by (simp add: c_str_def)

lemma strncmp_result:
  "length a = n \<Longrightarrow> length b = n \<Longrightarrow> \<exists>r. strncmp n a b = Inr r \<and> (r = 0 \<longleftrightarrow> c_str a = c_str b)"
proof (induction n a b rule: strncmp.induct)
  case (2 n x a y b)
  have "int (of_char x) - int (of_char y) = 0 \<longleftrightarrow> x = y"
    using of_char_eq_iff [where 'a = nat, of x y] by auto
  then show ?case using 2 by (auto simp: c_str_step)
qed (auto simp: c_str_def)

lemma str_cmp_result:
  assumes "length a = alen" and "length b = blen" and "alen < 2 ^ 32" and "blen < 2 ^ 32"
  shows "\<exists>r. dc_diff_str_cmp a alen b blen = Inr r \<and> (r = 0 \<longrightarrow> alen = blen) \<and>
    (alen = blen \<longrightarrow> (r = 0 \<longleftrightarrow> c_str a = c_str b))"
proof (cases "alen = blen")
  case True
  then show ?thesis using strncmp_result [of a alen b] assms by (auto simp: dc_diff_str_cmp_def)
next
  case False
  have "\<exists>r. strncmp n a b = Inr r" if "n \<le> length a" "n \<le> length b" for n and a b :: string
    using that by (induction n a b rule: strncmp.induct) auto
  then obtain r where "strncmp (min alen blen) a b = Inr r" using assms(1,2) by (meson min.cobounded1 min.cobounded2)
  then show ?thesis using False assms(3,4) by (auto simp: dc_diff_str_cmp_def)
qed

text \<open>A row as a reader delivers it: a length for each column, which is 0 for a null column.\<close>

definition wf_cell :: "nat \<Rightarrow> string option \<Rightarrow> bool" where
  "wf_cell len col \<longleftrightarrow> (case col of None \<Rightarrow> len = 0 | Some s \<Rightarrow> length s = len)"

lemma wf_cell_simps [simp]: "wf_cell len None \<longleftrightarrow> len = 0" "wf_cell len (Some s) \<longleftrightarrow> length s = len"
  by (simp_all add: wf_cell_def)

definition wf_cols :: "nat \<Rightarrow> nat list \<Rightarrow> string option list \<Rightarrow> bool" where
  "wf_cols n lens cols \<longleftrightarrow>
     0 < n \<and> length lens = n \<and> list_all2 wf_cell lens cols \<and> head_bytes lens + sum_list lens < 2 ^ 31"

text \<open>What the comparison sees of a row.\<close>

type_synonym row_key = "nat list \<times> string option list"

definition row_key :: "nat list \<Rightarrow> string option list \<Rightarrow> row_key" where
  "row_key lens cols = (lens, map (map_option c_str) cols)"

abbreviation key_of :: "single_row \<Rightarrow> row_key" where
  "key_of row \<equiv> row_key (r_length row) (r_cols row)"

lemma same_cols_result:
  "list_all2 wf_cell lens as \<Longrightarrow> list_all2 wf_cell lens bs \<Longrightarrow> \<forall>len \<in> set lens. len < 2 ^ 32 \<Longrightarrow>
   same_cols (zip lens (zip as bs)) = Inr (map (map_option c_str) as = map (map_option c_str) bs)"
proof (induction lens as arbitrary: bs rule: list_all2_induct)
  case (Cons len lens a as)
  then obtain b bs' where b: "bs = b # bs'" "wf_cell len b" "list_all2 wf_cell lens bs'" by (auto simp: list_all2_Cons1)
  with Cons have rest: "same_cols (zip lens (zip as bs')) = Inr (map (map_option c_str) as = map (map_option c_str) bs')" by simp
  show ?case
  proof (cases a)
    case (Some s)
    note a = this
    show ?thesis
    proof (cases b)
      case (Some t)
      obtain r where "dc_diff_str_cmp s len t len = Inr r" "r = 0 \<longleftrightarrow> c_str s = c_str t"
        using str_cmp_result [of s len t len] Cons a b Some by auto
      then show ?thesis using a b Some rest by simp
    qed (use a b in simp)
  qed (use b rest in \<open>cases b; simp\<close>)
qed simp

lemma wf_cols_small:
  assumes "wf_cols n lens cols"
  shows "\<forall>len \<in> set lens. len < 2 ^ 32"
proof
  fix len assume "len \<in> set lens"
  then have "len \<le> sum_list lens" by (rule member_le_sum_list) simp
  then show "len < 2 ^ 32" using assms by (simp add: wf_cols_def)
qed

lemma is_same_result:
  assumes "wf_cols n (r_length row) (r_cols row)" and "wf_cols n lens cols"
  shows "is_same row lens cols = Inr (key_of row = row_key lens cols)"
proof (cases "r_length row = lens")
  case True
  then show ?thesis using assms same_cols_result [of lens "r_cols row" cols] wf_cols_small [OF assms(2)]
    by (auto simp: is_same_def row_key_def wf_cols_def)
qed (use assms in \<open>auto simp: is_same_def row_key_def wf_cols_def\<close>)

lemma copy_cols_result:
  "list_all2 wf_cell lens cols \<Longrightarrow> addr + sum_list lens \<le> mem \<Longrightarrow> copy_cols mem addr (zip lens cols) = Inr cols"
proof (induction lens cols arbitrary: addr rule: list_all2_induct)
  case (Cons len lens c cols)
  then show ?case by (cases c) (auto simp: copy_col_def add.assoc)
qed simp

lemma build_result:
  assumes "wf_cols n lens cols"
  shows "build lens cols = Inr \<lparr>r_length = lens, r_cols = cols\<rparr>"
  using assms copy_cols_result [of lens cols "head_bytes lens" "head_bytes lens + sum_list lens"]
  by (auto simp: build_def wf_cols_def)

text \<open>Which columns may be shared with another row.\<close>

fun may_share :: "bool list \<Rightarrow> nat list \<Rightarrow> string option list \<Rightarrow> nat list \<Rightarrow> string option list \<Rightarrow> bool" where
  "may_share (sm # same) (blen # blens) (b # bcols) (len # lens) (c # cols) \<longleftrightarrow>
     (sm \<longrightarrow> len = blen \<and> (\<exists>s t. c = Some s \<and> b = Some t \<and> c_str s = c_str t)) \<and> may_share same blens bcols lens cols"
| "may_share [] [] [] [] [] \<longleftrightarrow> True"
| "may_share _ _ _ _ _ \<longleftrightarrow> False"

lemma cols_same_result:
  "list_all2 wf_cell lens cols \<Longrightarrow> list_all2 wf_cell blens bcols \<Longrightarrow> length blens = length lens \<Longrightarrow>
   \<forall>len \<in> set lens. len < 2 ^ 32 \<Longrightarrow> \<forall>len \<in> set blens. len < 2 ^ 32 \<Longrightarrow>
   \<exists>same. cols_same (zip lens cols) (zip blens bcols) = Inr same \<and> may_share same blens bcols lens cols"
proof (induction lens cols arbitrary: blens bcols rule: list_all2_induct)
  case (Cons len lens c cols)
  obtain blen bl b bc where b: "blens = blen # bl" "bcols = b # bc" "wf_cell blen b" "list_all2 wf_cell bl bc" "length bl = length lens"
    using Cons.prems by (cases blens; cases bcols) auto
  obtain same where same: "cols_same (zip lens cols) (zip bl bc) = Inr same" "may_share same bl bc lens cols"
    using Cons.IH [of bl bc] Cons.prems b by auto
  have "\<exists>sm. (case (c, b) of (Some s, Some t) \<Rightarrow> ok_then (dc_diff_str_cmp s len t blen) (\<lambda>r. Inr (r = 0)) | _ \<Rightarrow> Inr False) =
      (Inr sm :: cpp_error + bool) \<and> (sm \<longrightarrow> len = blen \<and> (\<exists>s t. c = Some s \<and> b = Some t \<and> c_str s = c_str t))"
  proof (cases "c = None \<or> b = None")
    case False
    then obtain s t where st: "c = Some s" "b = Some t" by auto
    then obtain r where "dc_diff_str_cmp s len t blen = Inr r" "r = 0 \<longrightarrow> len = blen" "len = blen \<longrightarrow> (r = 0 \<longleftrightarrow> c_str s = c_str t)"
      using str_cmp_result [of s len t blen] Cons b by auto
    then show ?thesis using st by auto
  qed (cases c; cases b; auto)
  then obtain sm where "(case (c, b) of (Some s, Some t) \<Rightarrow> ok_then (dc_diff_str_cmp s len t blen) (\<lambda>r. Inr (r = 0)) | _ \<Rightarrow> Inr False) =
      (Inr sm :: cpp_error + bool)" "sm \<longrightarrow> len = blen \<and> (\<exists>s t. c = Some s \<and> b = Some t \<and> c_str s = c_str t)" by blast
  then show ?case using b same by (intro exI [of _ "sm # same"]) auto
qed simp

abbreviation new_bytes :: "bool list \<Rightarrow> nat list \<Rightarrow> nat" where
  "new_bytes same lens \<equiv> sum_list (map2 (\<lambda>same len. if same then 0 else len) same lens)"

lemma copy_changed_result:
  "may_share same blens bcols lens cols \<Longrightarrow> list_all2 wf_cell lens cols \<Longrightarrow> list_all2 wf_cell blens bcols \<Longrightarrow>
   addr + new_bytes same lens \<le> mem \<Longrightarrow> new_bytes same lens < 2 ^ 31 \<Longrightarrow>
   \<exists>cs. copy_changed mem addr (int (new_bytes same lens)) (zip same (zip bcols (zip lens cols))) = Inr (cs, 0) \<and>
     list_all2 wf_cell lens cs \<and> map (map_option c_str) cs = map (map_option c_str) cols"
proof (induction same blens bcols lens cols arbitrary: addr rule: may_share.induct)
  case (1 sm same blen blens b bcols len lens c cols)
  show ?case
  proof (cases "sm \<or> c = None")
    case True
    then have "new_bytes (sm # same) (len # lens) = new_bytes same lens" using 1 by auto
    moreover obtain cs where "copy_changed mem addr (int (new_bytes same lens)) (zip same (zip bcols (zip lens cols))) = Inr (cs, 0)"
      "list_all2 wf_cell lens cs" "map (map_option c_str) cs = map (map_option c_str) cols"
      using 1 True calculation by auto
    ultimately show ?thesis using 1 True
      by (intro exI [of _ "(if sm then b else None) # cs"]) auto
  next
    case False
    then obtain s where s: "c = Some s" "length s = len" using 1 by auto
    have more: "new_bytes (sm # same) (len # lens) = len + new_bytes same lens" using False by simp
    obtain cs where "copy_changed mem (addr + len) (int (new_bytes same lens)) (zip same (zip bcols (zip lens cols))) = Inr (cs, 0)"
      "list_all2 wf_cell lens cs" "map (map_option c_str) cs = map (map_option c_str) cols"
      using 1(1) [of "addr + len"] 1(2-) more by auto
    moreover have "to_int32 (int (new_bytes (sm # same) (len # lens)) - int len) = int (new_bytes same lens)"
      using 1 more by (simp add: to_int32_id)
    moreover have "copy_col mem addr len s = Inr s" using 1 more s by (simp add: copy_col_def)
    ultimately show ?thesis using False s more
      by (intro exI [of _ "Some s # cs"]) simp
  qed
qed simp_all

lemma new_bytes_le: "new_bytes same lens \<le> sum_list lens"
  by (induction same lens rule: list_induct2') auto

lemma build_from_result:
  assumes "wf_cols n (r_length row) (r_cols row)" and "wf_cols n lens cols"
  shows "\<exists>cs. build_from row lens cols = Inr \<lparr>r_length = lens, r_cols = cs\<rparr> \<and> wf_cols n lens cs \<and> row_key lens cs = row_key lens cols"
proof -
  obtain same where same: "cols_same (zip lens cols) (zip (r_length row) (r_cols row)) = Inr same"
    "may_share same (r_length row) (r_cols row) lens cols"
    using cols_same_result [of lens cols "r_length row" "r_cols row"] assms wf_cols_small [OF assms(1)] wf_cols_small [OF assms(2)]
    by (auto simp: wf_cols_def)
  let ?m = "head_bytes lens + new_bytes same lens"
  have small: "?m < 2 ^ 31" using assms(2) new_bytes_le [of same lens] by (simp add: wf_cols_def)
  then have mem: "to_int32 (int ?m) = int ?m" "to_int32 (int (new_bytes same lens)) = int (new_bytes same lens)"
    by (simp_all add: to_int32_id)
  obtain cs where cs: "copy_changed ?m (head_bytes lens) (int (new_bytes same lens)) (zip same (zip (r_cols row) (zip lens cols))) = Inr (cs, 0)"
     "list_all2 wf_cell lens cs" "map (map_option c_str) cs = map (map_option c_str) cols"
    using copy_changed_result [OF same(2), of "head_bytes lens" ?m] assms small by (auto simp: wf_cols_def)
  have rest: "to_int32 (int ?m - int (head_bytes lens)) = int (new_bytes same lens)" using mem(2) by simp
  have "build_from row lens cols = Inr \<lparr>r_length = lens, r_cols = cs\<rparr>"
    using assms same(1) cs(1) mem rest by (auto simp: build_from_def wf_cols_def simp del: of_nat_add)
  then show ?thesis using assms(2) cs(2,3) by (auto simp: wf_cols_def row_key_def)
qed

section \<open>Rows are grouped by what the comparison sees\<close>

type_synonym addition = "int \<times> nat list \<times> string option list"

fun add_rows :: "addition list \<Rightarrow> diff_row \<Rightarrow> cpp_error + dc_common_code \<times> diff_row" where
  "add_rows [] d = Inr (S_SUCCESS, d)"
| "add_rows ((idx, lens, cols) # as) d = ok_then (add_row idx lens cols d) (\<lambda>(_, d). add_rows as d)"

definition addition_key :: "addition \<Rightarrow> row_key" where
  "addition_key = (\<lambda>(idx, lens, cols). row_key lens cols)"

text \<open>The last row a server delivered.\<close>

definition last_key :: "addition list \<Rightarrow> nat \<Rightarrow> row_key option" where
  "last_key as i = fold (\<lambda>a r. if fst a = int i then Some (addition_key a) else r) as None"

definition wf_additions :: "nat \<Rightarrow> nat \<Rightarrow> addition list \<Rightarrow> bool" where
  "wf_additions sn n = list_all (\<lambda>(idx, lens, cols). 0 \<le> idx \<and> idx < int sn \<and> wf_cols n lens cols)"

definition task_of :: "nat \<Rightarrow> api_task \<Rightarrow> bool" where
  "task_of sn t \<longleftrightarrow> length (t_server_info_arr t) = sn \<and> 0 \<le> t_std_idx t \<and> t_std_idx t < int sn"

definition points_to :: "single_row list \<Rightarrow> row_key option \<Rightarrow> int \<Rightarrow> bool" where
  "points_to rows k i \<longleftrightarrow>
     (case k of None \<Rightarrow> i = -1 | Some k \<Rightarrow> \<exists>j < length rows. i = int j \<and> key_of (rows ! j) = k)"

lemma points_to_simps:
  "points_to rows None i \<longleftrightarrow> i = -1" "points_to rows (Some k) i \<longleftrightarrow> (\<exists>j < length rows. i = int j \<and> key_of (rows ! j) = k)"
  by (simp_all add: points_to_def)

lemma points_to_range: "points_to rows k i \<Longrightarrow> i = -1 \<or> 0 \<le> i \<and> nat i < length rows"
  by (cases k) (auto simp: points_to_simps)

lemma points_to_more: "points_to rows k i \<Longrightarrow> points_to (rows @ [row]) k i"
  by (cases k) (auto simp: points_to_simps nth_append)

text \<open>The state after the rows \<open>as\<close>.\<close>

definition grouped :: "nat \<Rightarrow> nat \<Rightarrow> addition list \<Rightarrow> diff_row \<Rightarrow> bool" where
  "grouped sn n as d \<longleftrightarrow>
     task_of sn (r_task d) \<and> length (r_idxs d) = sn \<and>
     (\<forall>row \<in> set (r_rows d). wf_cols n (r_length row) (r_cols row)) \<and> distinct (map key_of (r_rows d)) \<and>
     set (map key_of (r_rows d)) = set (map addition_key as) \<and>
     (\<forall>i < sn. points_to (r_rows d) (last_key as i) (r_idxs d ! i))"

lemma find_same_row_result:
  assumes "\<forall>row \<in> set rows. wf_cols n (r_length row) (r_cols row)" and "wf_cols n lens cols"
  shows "\<exists>r. find_same_row i rows lens cols = Inr r \<and>
    (if row_key lens cols \<in> set (map key_of rows)
     then \<exists>j < length rows. r = int (i + j) \<and> key_of (rows ! j) = row_key lens cols else r = -1)"
  using assms
proof (induction rows arbitrary: i)
  case (Cons row rows)
  have same: "is_same row lens cols = Inr (key_of row = row_key lens cols)"
    using is_same_result [of n row lens cols] Cons.prems by simp
  show ?case
  proof (cases "key_of row = row_key lens cols")
    case False
    obtain r where r: "find_same_row (i + 1) rows lens cols = Inr r"
      "if row_key lens cols \<in> set (map key_of rows)
       then \<exists>j < length rows. r = int (i + 1 + j) \<and> key_of (rows ! j) = row_key lens cols else r = -1"
      using Cons.IH [of "i + 1"] Cons.prems by auto
    show ?thesis
    proof (cases "row_key lens cols \<in> set (map key_of rows)")
      case True
      then obtain j where "j < length rows" "r = int (i + 1 + j)" "key_of (rows ! j) = row_key lens cols" using r(2) by auto
      then show ?thesis using same r(1) True False by (intro exI [of _ r]) (auto intro!: exI [of _ "Suc j"])
    qed (use same r False in auto)
  qed (use same in \<open>auto intro!: exI [of _ 0]\<close>)
qed simp

lemma last_key_snoc: "last_key (as @ [a]) i = (if fst a = int i then Some (addition_key a) else last_key as i)"
  by (simp add: last_key_def)

lemma new_row_result:
  assumes "grouped sn n as d" and "wf_cols n lens cols"
  shows "\<exists>cs. new_row lens cols d = Inr \<lparr>r_length = lens, r_cols = cs\<rparr> \<and> wf_cols n lens cs \<and> row_key lens cs = row_key lens cols"
proof (cases "r_rows d = []")
  case True
  then show ?thesis using build_result [OF assms(2)] assms(2) by (auto simp: new_row_def)
next
  case False
  let ?s = "nat (t_std_idx (r_task d))"
  have ok: "0 \<le> t_std_idx (r_task d)" "t_std_idx (r_task d) < int (length (t_server_info_arr (r_task d)))"
    "length (r_idxs d) = length (t_server_info_arr (r_task d))" "?s < sn"
    using assms(1) by (auto simp: grouped_def task_of_def)
  have "r_idxs d ! ?s = -1 \<or> (0 \<le> r_idxs d ! ?s \<and> nat (r_idxs d ! ?s) < length (r_rows d))"
    using assms(1) ok(4) points_to_range [of "r_rows d" "last_key as ?s" "r_idxs d ! ?s"] by (simp add: grouped_def)
  moreover define j where "j = (if r_idxs d ! ?s = -1 then 0 else nat (r_idxs d ! ?s))"
  ultimately have "j < length (r_rows d)" "new_row lens cols d = build_from (r_rows d ! j) lens cols"
    using False ok(1-3) by (auto simp: new_row_def Let_def)
  then have "r_rows d ! j \<in> set (r_rows d)" "new_row lens cols d = build_from (r_rows d ! j) lens cols" by simp_all
  then show ?thesis using build_from_result [of n "r_rows d ! j" lens cols] assms by (auto simp: grouped_def)
qed

lemma add_row_grouped:
  assumes "grouped sn n as d" and "wf_cols n lens cols" and "0 \<le> idx" and "idx < int sn"
  shows "\<exists>d'. add_row idx lens cols d = Inr (S_SUCCESS, d') \<and> grouped sn n (as @ [(idx, lens, cols)]) d'"
proof -
  let ?k = "row_key lens cols"
  note g = assms(1) [unfolded grouped_def]
  have pre: "idx < int (length (t_server_info_arr (r_task d)))" "idx < int (length (r_idxs d))"
    using g assms(4) by (auto simp: task_of_def)
  have key: "addition_key (idx, lens, cols) = ?k" by (simp add: addition_key_def)
  obtain r where r: "find_same_row 0 (r_rows d) lens cols = Inr r"
    "if ?k \<in> set (map key_of (r_rows d))
     then \<exists>j < length (r_rows d). r = int (0 + j) \<and> key_of (r_rows d ! j) = ?k else r = -1"
    using find_same_row_result [of "r_rows d" n lens cols 0] g assms(2) by blast
  show ?thesis
  proof (cases "?k \<in> set (map key_of (r_rows d))")
    case True
    then obtain j where j: "j < length (r_rows d)" "r = int j" "key_of (r_rows d ! j) = ?k" using r(2) by auto
    let ?d = "d\<lparr>r_idxs := (r_idxs d)[nat idx := int j]\<rparr>"
    have "add_row idx lens cols d = Inr (S_SUCCESS, ?d)" using pre r(1) j(2) assms(3) by (simp add: add_row_def)
    moreover have "points_to (r_rows d) (last_key (as @ [(idx, lens, cols)]) i) (r_idxs ?d ! i)" if "i < sn" for i
    proof (cases "int i = idx")
      case True
      then show ?thesis using g that j key by (auto simp: last_key_snoc points_to_simps)
    qed (use g that assms(3) in \<open>auto simp: last_key_snoc nth_list_update\<close>)
    then have "grouped sn n (as @ [(idx, lens, cols)]) ?d"
      using g True key by (auto simp: grouped_def)
    ultimately show ?thesis by blast
  next
    case False
    obtain cs where cs: "new_row lens cols d = Inr \<lparr>r_length = lens, r_cols = cs\<rparr>" "wf_cols n lens cs" "row_key lens cs = ?k"
      using new_row_result [OF assms(1,2)] by blast
    let ?rows = "r_rows d @ [\<lparr>r_length = lens, r_cols = cs\<rparr>]"
    let ?d = "d\<lparr>r_rows := ?rows, r_idxs := (r_idxs d)[nat idx := int (length (r_rows d))]\<rparr>"
    have "add_row idx lens cols d = Inr (S_SUCCESS, ?d)" using pre r False cs(1) assms(3) by (simp add: add_row_def)
    moreover have "points_to ?rows (last_key (as @ [(idx, lens, cols)]) i) (r_idxs ?d ! i)" if "i < sn" for i
    proof (cases "int i = idx")
      case True
      then show ?thesis using g that cs(3) key
        by (auto simp: last_key_snoc points_to_simps intro!: exI [of _ "length (r_rows d)"])
    qed (use g that assms(3) in \<open>auto simp: last_key_snoc nth_list_update intro: points_to_more\<close>)
    then have "grouped sn n (as @ [(idx, lens, cols)]) ?d"
      using g False cs(2,3) key by (auto simp: grouped_def)
    ultimately show ?thesis by blast
  qed
qed

lemma add_rows_grouped:
  "grouped sn n as d \<Longrightarrow> wf_additions sn n bs \<Longrightarrow> \<exists>d'. add_rows bs d = Inr (S_SUCCESS, d') \<and> grouped sn n (as @ bs) d'"
proof (induction bs arbitrary: as d)
  case (Cons b bs)
  obtain idx lens cols where b: "b = (idx, lens, cols)" by (cases b)
  obtain d1 where d1: "add_row idx lens cols d = Inr (S_SUCCESS, d1)" "grouped sn n (as @ [b]) d1"
    using add_row_grouped [OF Cons.prems(1), of lens cols idx] Cons.prems(2) by (auto simp: b wf_additions_def)
  obtain d' where "add_rows bs d1 = Inr (S_SUCCESS, d')" "grouped sn n ((as @ [b]) @ bs) d'"
    using Cons.IH [OF d1(2)] Cons.prems(2) by (auto simp: wf_additions_def)
  then show ?case using d1(1) by (simp add: b)
qed simp

lemma new_diff_row_grouped: "task_of sn t \<Longrightarrow> grouped sn n [] (new_diff_row sn t)"
  by (simp add: grouped_def new_diff_row_def last_key_def points_to_simps)

text \<open>
  C20. The rows of one key. Whatever rows the servers of a task deliver, in any order and number,
  as long as they have the same number of columns, null columns have length 0 and a row stays below two
  gigabytes: every addition succeeds; a server that delivered nothing has index -1; two servers have the
  same index exactly when their last rows look the same, which is the same lengths and in every column
  either no value on both sides or the same bytes up to the first NUL; and there are as many rows as
  different looks among all that was delivered.
\<close>

theorem rows_grouped_by_text:
  assumes "task_of sn t" and "wf_additions sn n as"
  shows "\<exists>d. add_rows as (new_diff_row sn t) = Inr (S_SUCCESS, d) \<and> length (r_rows d) = card (set (map addition_key as)) \<and>
    (\<forall>i < sn. r_idxs d ! i = -1 \<longleftrightarrow> last_key as i = None) \<and>
    (\<forall>i < sn. \<forall>j < sn. last_key as i \<noteq> None \<longrightarrow> last_key as j \<noteq> None \<longrightarrow>
       (r_idxs d ! i = r_idxs d ! j \<longleftrightarrow> last_key as i = last_key as j))"
proof -
  obtain d where d: "add_rows as (new_diff_row sn t) = Inr (S_SUCCESS, d)" "grouped sn n as d"
    using add_rows_grouped [OF new_diff_row_grouped [OF assms(1)] assms(2)] by auto
  note g = d(2) [unfolded grouped_def]
  have dist: "distinct (map key_of (r_rows d))" using g by blast
  have "length (r_rows d) = card (set (map addition_key as))"
    using g distinct_card [OF dist] by simp
  moreover have "r_idxs d ! i = -1 \<longleftrightarrow> last_key as i = None" if "i < sn" for i
    using g that by (cases "last_key as i") (force simp: points_to_simps)+
  moreover have "r_idxs d ! i = r_idxs d ! j \<longleftrightarrow> last_key as i = last_key as j"
    if ij: "i < sn" "j < sn" "last_key as i \<noteq> None" "last_key as j \<noteq> None" for i j
  proof -
    have "points_to (r_rows d) (last_key as i) (r_idxs d ! i)" "points_to (r_rows d) (last_key as j) (r_idxs d ! j)"
      using g ij by blast+
    then obtain a b where a: "a < length (r_rows d)" "r_idxs d ! i = int a" "last_key as i = Some (key_of (r_rows d ! a))"
      and b: "b < length (r_rows d)" "r_idxs d ! j = int b" "last_key as j = Some (key_of (r_rows d ! b))"
      using ij(3,4) by (auto simp: points_to_def)
    then show ?thesis using nth_eq_iff_index_eq [OF dist, of a b] by auto
  qed
  ultimately show ?thesis using d(1) by blast
qed

definition two_servers :: api_task where
  "two_servers = new_api_task\<lparr>t_server_info_arr :=
     (let s = \<lparr>c_center = [], c_host = [], c_user = [], c_password = [], c_port = 1, c_standard = True,
        c_excluded_file_regex = [], c_base_dir = [], c_path_to_compare = []\<rparr> in [s, s\<lparr>c_standard := False\<rparr>])\<rparr>"

text \<open>Two rows that differ after a NUL are one row here.\<close>

theorem rows_grouped_by_text_witness:
  "\<exists>d. add_rows [(0, [3, 0], [Some [CHR ''a'', NUL, CHR ''b''], None]), (1, [3, 0], [Some [CHR ''a'', NUL, CHR ''c''], None])]
      (new_diff_row 2 two_servers) = Inr (S_SUCCESS, d) \<and> all_rows_are_same d"
proof -
  let ?as = "[(0, [3, 0], [Some [CHR ''a'', NUL, CHR ''b''], None]), (1, [3, 0], [Some [CHR ''a'', NUL, CHR ''c''], None])]
      :: addition list"
  have t: "task_of 2 two_servers" by (simp add: task_of_def two_servers_def new_api_task_def Let_def)
  have w: "wf_additions 2 2 ?as" by (simp add: wf_additions_def wf_cols_def head_bytes_def)
  have one: "card (set (map addition_key ?as)) = 1" by (simp add: addition_key_def row_key_def c_str_def)
  show ?thesis using rows_grouped_by_text [OF t w] one unfolding all_rows_are_same_def by auto
qed

section \<open>Writing the differences\<close>

text \<open>
  The state of a \<^verbatim>\<open>dc_diff_hash_t\<close> and of its thread: the file once it is open, whether the thread is
  in its loop, the list and the flags. Waiting for the list for a millisecond is taking nothing from it.
\<close>

datatype writer_pc = Starting | Looping | Leaving | Ended

record diff_hash =
  h_task :: api_task
  h_file :: string
  h_pc :: writer_pc
  h_list :: "diff_row list"
  h_exit :: bool
  h_over :: bool

definition new_diff_hash :: "api_task \<Rightarrow> diff_hash" where
  "new_diff_hash t = \<lparr>h_task = t, h_file = [], h_pc = Starting, h_list = [], h_exit = False, h_over = False\<rparr>"

definition write_json_header :: "api_task \<Rightarrow> string \<Rightarrow> string" where
  "write_json_header t file = file @ ''{\"uuid\":\"'' @ t_task_uuid t @ ''\",'' @ ''\"rows\":[''"

definition write_json_tail :: "api_task \<Rightarrow> string \<Rightarrow> string" where
  "write_json_tail t file = file"

definition write_down :: "diff_row \<Rightarrow> string \<Rightarrow> string" where
  "write_down diff file = file"

definition send_diff :: "diff_row \<Rightarrow> diff_hash \<Rightarrow> diff_hash" where
  "send_diff diff h = h\<lparr>h_list := h_list h @ [diff]\<rparr>"

definition pop_diff :: "diff_hash \<Rightarrow> diff_row option \<times> diff_hash" where
  "pop_diff h = (case h_list h of [] \<Rightarrow> (None, h) | d # ds \<Rightarrow> (Some d, h\<lparr>h_list := ds\<rparr>))"

definition thd_write_down :: "diff_hash \<Rightarrow> diff_hash option" where
  "thd_write_down h =
     (case h_pc h of
        Starting \<Rightarrow> Some (h\<lparr>h_file := write_json_header (h_task h) [], h_pc := Looping\<rparr>)
      | Looping \<Rightarrow>
          if h_exit h then Some (h\<lparr>h_pc := Leaving\<rparr>)
          else
            (case pop_diff h of
               (None, h) \<Rightarrow> Some h
             | (Some diff, h) \<Rightarrow>
                 if r_exit_tag diff then Some (h\<lparr>h_pc := Leaving\<rparr>)
                 else Some (h\<lparr>h_file := write_down diff (h_file h)\<rparr>))
      | Leaving \<Rightarrow> Some (h\<lparr>h_file := write_json_tail (h_task h) (h_file h), h_pc := Ended, h_over := True\<rparr>)
      | Ended \<Rightarrow> None)"

text \<open>The row that ends the thread; \<^verbatim>\<open>gen_diff\<close> then waits for \<open>h_over\<close>.\<close>

definition exit_row :: "api_task \<Rightarrow> diff_row" where
  "exit_row t = new_diff_row 0 t\<lparr>r_exit_tag := True\<rparr>"

definition gen_diff_send :: "diff_hash \<Rightarrow> diff_hash" where
  "gen_diff_send h = send_diff (exit_row (h_task h)) h"

text \<open>The destructor sets \<open>h_exit\<close> and waits for the thread. The subclasses store nothing: \<^verbatim>\<open>do_add_to_hash\<close> only answers.\<close>

definition hash_add_row :: "int \<Rightarrow> diff_hash \<Rightarrow> cpp_error + dc_common_code \<times> diff_hash" where
  "hash_add_row idx h =
     (if \<not> (0 \<le> idx \<and> idx < int (length (t_server_info_arr (h_task h)))) then Inl AssertFailed else Inr (S_SUCCESS, h))"

text \<open>Of the other generators the one for failed tasks writes a file at once.\<close>

definition failed_gen_diff :: "api_task \<Rightarrow> string" where
  "failed_gen_diff t = write_json_tail t (write_json_header t [])"

definition content_add_row :: "int \<Rightarrow> api_task \<Rightarrow> cpp_error + dc_common_code" where
  "content_add_row idx t = (if idx < 0 \<or> int (length (t_server_info_arr t)) \<le> idx then Inl AssertFailed else Inr S_SUCCESS)"

inductive diff_step :: "diff_hash \<Rightarrow> diff_hash \<Rightarrow> bool" where
  writer: "thd_write_down h = Some h' \<Longrightarrow> diff_step h h'"
| send: "diff_step h (send_diff d h)"
| add: "hash_add_row idx h = Inr (ret, h') \<Longrightarrow> diff_step h h'"
| finish: "diff_step h (gen_diff_send h)"
| destroy: "diff_step h (h\<lparr>h_exit := True\<rparr>)"

inductive diff_reach :: "api_task \<Rightarrow> diff_hash \<Rightarrow> bool" for t where
  start: "diff_reach t (new_diff_hash t)"
| step: "diff_reach t h \<Longrightarrow> diff_step h h' \<Longrightarrow> diff_reach t h'"

lemmas writer_defs = thd_write_down_def pop_diff_def write_down_def write_json_tail_def

lemma diff_reach_file:
  "diff_reach t h \<Longrightarrow> h_task h = t \<and> h_over h = (h_pc h = Ended) \<and>
     h_file h = (if h_pc h = Starting then [] else write_json_header t [])"
proof (induction rule: diff_reach.induct)
  case (step h h')
  from step.hyps(2) step.IH show ?case
    by cases (auto simp: writer_defs send_diff_def gen_diff_send_def hash_add_row_def
        split: writer_pc.splits if_splits list.splits)
qed (simp add: new_diff_hash_def)

lemma writer_ends:
  "h_pc h = Looping \<Longrightarrow> \<not> h_exit h \<Longrightarrow> \<exists>d \<in> set (h_list h). r_exit_tag d \<Longrightarrow> \<exists>h'. diff_step\<^sup>*\<^sup>* h h' \<and> h_over h'"
proof (induction "h_list h" arbitrary: h)
  case (Cons d ds)
  let ?h = "h\<lparr>h_list := ds\<rparr>"
  show ?case
  proof (cases "r_exit_tag d")
    case True
    let ?h1 = "?h\<lparr>h_pc := Leaving\<rparr>"
    have "diff_step h ?h1" using Cons True by (intro diff_step.writer) (simp add: writer_defs Cons.hyps(2) [symmetric])
    moreover have "diff_step ?h1 (?h1\<lparr>h_pc := Ended, h_over := True\<rparr>)" by (intro diff_step.writer) (simp add: writer_defs)
    ultimately show ?thesis by (intro exI [of _ "?h1\<lparr>h_pc := Ended, h_over := True\<rparr>"]) auto
  next
    case False
    then have "diff_step h ?h" using Cons.prems by (intro diff_step.writer) (simp add: writer_defs Cons.hyps(2) [symmetric])
    moreover have "\<exists>h'. diff_step\<^sup>*\<^sup>* ?h h' \<and> h_over h'"
      using Cons.hyps(1) [of ?h] Cons.prems False by (simp add: Cons.hyps(2) [symmetric])
    ultimately show ?thesis by (meson converse_rtranclp_into_rtranclp)
  qed
qed simp

text \<open>
  The file of differences. In every state of the threads the file is empty before the thread
  has opened it and afterwards exactly the header, an object and an array that are opened and never
  closed, whatever rows were sent; and when \<^verbatim>\<open>gen_diff\<close> has sent its last row to a thread in its loop
  the thread can come to the end that \<^verbatim>\<open>gen_diff\<close> waits for. The file of a failed task is the same.
\<close>

theorem diff_file_is_header:
  assumes "diff_reach t h"
  shows "h_file h = (if h_pc h = Starting then [] else ''{\"uuid\":\"'' @ t_task_uuid t @ ''\",\"rows\":['') \<and>
    (h_pc h = Looping \<longrightarrow> \<not> h_exit h \<longrightarrow> (\<exists>h'. diff_step\<^sup>*\<^sup>* (gen_diff_send h) h' \<and> h_over h')) \<and>
    failed_gen_diff t = ''{\"uuid\":\"'' @ t_task_uuid t @ ''\",\"rows\":[''"
  using diff_reach_file [OF assms] writer_ends [of "gen_diff_send h"]
  by (auto simp: write_json_header_def write_json_tail_def failed_gen_diff_def gen_diff_send_def send_diff_def exit_row_def)

theorem diff_file_is_header_witness:
  "\<exists>h. diff_reach two_servers h \<and> h_over h \<and> h_file h = ''{\"uuid\":\"\",\"rows\":[''"
proof -
  let ?h = "new_diff_hash two_servers"
  obtain h1 where h1: "thd_write_down ?h = Some h1" "h_pc h1 = Looping" "\<not> h_exit h1"
    by (auto simp: writer_defs new_diff_hash_def)
  then have "diff_step ?h h1" by (blast intro: diff_step.writer)
  then have r1: "diff_reach two_servers h1" using diff_reach.intros by blast
  then obtain h' where h': "diff_step\<^sup>*\<^sup>* (gen_diff_send h1) h'" "h_over h'"
    using diff_file_is_header [OF r1] h1 by blast
  have "diff_reach two_servers (gen_diff_send h1)" using r1 diff_step.finish by (rule diff_reach.step)
  with h'(1) have r': "diff_reach two_servers h'"
    by (induction rule: rtranclp_induct) (auto intro: diff_reach.step)
  then have "h_pc h' = Ended" using diff_reach_file h'(2) by blast
  then show ?thesis using r' h'(2) diff_file_is_header [OF r'] by (auto simp: two_servers_def new_api_task_def)
qed

end
