(* ===== verification/Db_Json.thy ===== *)
theory Db_Json
  imports Http_Resp Dc_Json
begin

text \<open>
  The part of \<^verbatim>\<open>core/HttpMsg.cc\<close> that turns the results of MySQL and Redis tasks into JSON, and
  \<^verbatim>\<open>util/MysqlUtil.cc\<close>. The results are those of the client library: a cursor is the list of its
  result sets, a cell answers to exactly one of the tests on its type. How a floating-point number
  becomes a JSON value or a text is an argument.
\<close>

section \<open>MySQL\<close>

record mysql_field =
  get_db :: string
  get_table :: string
  get_name :: string
  get_type :: string

datatype 'd mysql_cell =
    CellNull | CellString string | CellTime string | CellDate string | CellDatetime string
  | CellDouble 'd | CellFloat 'd | CellInt int | CellULong nat | CellOther

datatype 'd result_set =
    GetResult "mysql_field list" "'d mysql_cell list list"
  | StatusOk nat int nat string
  | NoResult

datatype mysql_packet = PacketError int string | PacketOk nat int nat string | PacketOther

record 'd floats =
  fl_json :: "'d \<Rightarrow> json"
  fl_str :: "'d \<Rightarrow> string"

definition mysql_fields :: "mysql_field list \<Rightarrow> string list" where
  "mysql_fields fds = foldl (\<lambda>names f. names @ [get_name f]) (replicate (length fds) []) fds"

definition mysql_data_type :: "mysql_field list \<Rightarrow> string list" where
  "mysql_data_type fds = foldl (\<lambda>types f. types @ [get_type f]) (replicate (length fds) []) fds"

fun mysql_to_string :: "'d floats \<Rightarrow> 'd mysql_cell \<Rightarrow> string" where
  "mysql_to_string fl CellNull = []"
| "mysql_to_string fl (CellInt i) = show_int i"
| "mysql_to_string fl (CellString s) = s"
| "mysql_to_string fl (CellFloat d) = fl_str fl d"
| "mysql_to_string fl (CellDouble d) = fl_str fl d"
| "mysql_to_string fl (CellULong n) = show_nat n"
| "mysql_to_string fl (CellDate s) = s"
| "mysql_to_string fl (CellTime s) = s"
| "mysql_to_string fl (CellDatetime s) = s"
| "mysql_to_string fl CellOther = []"

text \<open>What is pushed to the row for a cell, if anything.\<close>

fun cell_json :: "'d floats \<Rightarrow> 'd mysql_cell \<Rightarrow> json option" where
  "cell_json fl (CellString s) = Some (JStr s)"
| "cell_json fl (CellTime s) = Some (JStr (mysql_to_string fl (CellTime s)))"
| "cell_json fl (CellDatetime s) = Some (JStr (mysql_to_string fl (CellDatetime s)))"
| "cell_json fl CellNull = Some (JStr ''NULL'')"
| "cell_json fl (CellDouble d) = Some (fl_json fl d)"
| "cell_json fl (CellFloat d) = Some (fl_json fl d)"
| "cell_json fl (CellInt i) = Some (JInt i)"
| "cell_json fl (CellULong n) = Some (JInt (int n))"
| "cell_json fl _ = None"

fun row_loop :: "'d floats \<Rightarrow> 'd mysql_cell list \<Rightarrow> json \<Rightarrow> cpp_error + json" where
  "row_loop fl [] row = Inr row"
| "row_loop fl (c # cs) row =
     (case cell_json fl c of None \<Rightarrow> row_loop fl cs row | Some v \<Rightarrow> ok_then (json_push v row) (row_loop fl cs))"

fun rows_loop :: "'d floats \<Rightarrow> 'd mysql_cell list list \<Rightarrow> json \<Rightarrow> cpp_error + json" where
  "rows_loop fl [] rs = Inr rs"
| "rows_loop fl (cells # rows) rs =
     ok_then (row_loop fl cells JNull) (\<lambda>row. ok_then (json_push_at ''rows'' row rs) (rows_loop fl rows))"

definition fields_json :: "mysql_field list \<Rightarrow> nat \<Rightarrow> (string \<times> json) list" where
  "fields_json fds rows_count =
     [(''field_count'', JInt (int (length fds))), (''rows_count'', JInt (int rows_count))] @
     (case fds of
        [] \<Rightarrow> []
      | f # _ \<Rightarrow> (if get_db f \<noteq> [] then [(''database'', JStr (get_db f))] else []) @ [(''table'', JStr (get_table f))]) @
     [(''fields_name'', JArr (map (\<lambda>f. JStr (get_name f)) fds)), (''fields_type'', JArr (map (\<lambda>f. JStr (get_type f)) fds))]"

definition status_json :: "nat \<Rightarrow> int \<Rightarrow> nat \<Rightarrow> string \<Rightarrow> (string \<times> json) list" where
  "status_json affected_rows warnings insert_id info =
     [(''status'', JStr ''OK''), (''affected_rows'', JInt (int affected_rows)), (''warnings'', JInt warnings),
      (''insert_id'', JInt (int insert_id)), (''info'', JStr info)]"

text \<open>The loop ends at a status that is neither a result nor \<^verbatim>\<open>OK\<close>.\<close>

fun result_sets :: "'d floats \<Rightarrow> 'd result_set list \<Rightarrow> json \<Rightarrow> cpp_error + json" where
  "result_sets fl [] j = Inr j"
| "result_sets fl (NoResult # rs) j = Inr j"
| "result_sets fl (GetResult fds rows # rs) j =
     ok_then (json_sets (fields_json fds (length rows)) JNull) (\<lambda>v.
       ok_then (rows_loop fl rows v) (\<lambda>v. ok_then (json_push_at ''result_set'' v j) (result_sets fl rs)))"
| "result_sets fl (StatusOk a w i info # rs) j =
     ok_then (json_sets (status_json a w i info) JNull) (\<lambda>v. ok_then (json_push_at ''result_set'' v j) (result_sets fl rs))"

fun packet_json :: "mysql_packet \<Rightarrow> (string \<times> json) list" where
  "packet_json (PacketError code msg) = [(''errcode'', JInt code), (''errmsg'', JStr msg)]"
| "packet_json (PacketOk a w i info) = status_json a w i info"
| "packet_json PacketOther = []"

text \<open>\<open>failed\<close> is the error text of a task that did not succeed.\<close>

definition mysql_concat_json_res :: "'d floats \<Rightarrow> string option \<Rightarrow> 'd result_set list \<Rightarrow> mysql_packet \<Rightarrow> cpp_error + json" where
  "mysql_concat_json_res fl failed sets packet =
     (case failed of
        Some err \<Rightarrow> json_sets [(''error'', JStr err)] JNull
      | None \<Rightarrow> ok_then (result_sets fl sets JNull) (json_sets (packet_json packet)))"

definition mysql_callback :: "'z zlib \<Rightarrow> json json_lib \<Rightarrow> 'd floats \<Rightarrow> string option \<Rightarrow> 'd result_set list \<Rightarrow> mysql_packet \<Rightarrow>
    http_resp \<Rightarrow> http_resp run" where
  "mysql_callback lib jl fl failed sets packet resp =
     run_then (Some (mysql_concat_json_res fl failed sets packet)) (\<lambda>j. String_move lib (json_dump jl j) resp)"

section \<open>Redis\<close>

datatype task_state = StateSuccess | StateSysError | StateDnsError | StateSslError | StateTaskError | StateOther

datatype redis_value = RedisError | RedisString string | RedisOther

text \<open>\<open>strerr\<close> and \<open>gai_err\<close> are the texts of the two kinds of error numbers.\<close>

fun state_json :: "(int \<Rightarrow> string) \<Rightarrow> (int \<Rightarrow> string) \<Rightarrow> task_state \<Rightarrow> int \<Rightarrow> redis_value \<Rightarrow> (string \<times> json) list \<times> bool" where
  "state_json strerr gai_err StateSysError error val = ([(''errmsg'', JStr (''system error: '' @ strerr error))], False)"
| "state_json strerr gai_err StateDnsError error val = ([(''errmsg'', JStr (''DNS error: '' @ gai_err error))], False)"
| "state_json strerr gai_err StateSslError error val = ([(''errmsg'', JStr (''SSL error: '' @ show_int error))], False)"
| "state_json strerr gai_err StateTaskError error val = ([(''errmsg'', JStr (''Task error: '' @ show_int error))], False)"
| "state_json strerr gai_err StateSuccess error val =
     (if val = RedisError then ([(''errmsg'', JStr (''Error reply. Need a password?'' @ [CHR 0x0A]))], False) else ([], True))"
| "state_json strerr gai_err StateOther error val = ([], False)"

definition redis_json_res :: "(int \<Rightarrow> string) \<Rightarrow> (int \<Rightarrow> string) \<Rightarrow> task_state \<Rightarrow> int \<Rightarrow> redis_value \<Rightarrow> string \<Rightarrow> string list \<Rightarrow>
    cpp_error + json" where
  "redis_json_res strerr gai_err state error val cmd params =
     (case state_json strerr gai_err state error val of (kvs, success) \<Rightarrow>
        ok_then (json_sets kvs JNull) (\<lambda>js.
          if success \<and> cmd = ''SET'' then
            (if length params < 2 then Inl InvalidRead
             else json_sets [(''status'', JStr ''sucess''), (''cmd'', JStr ''SET''), (params ! 0, JStr (params ! 1))] js)
          else if success \<and> cmd = ''GET'' then
            ok_then (json_set ''cmd'' (JStr ''GET'') js) (\<lambda>js.
              case val of
                RedisString s \<Rightarrow>
                  if params = [] then Inl InvalidRead
                  else json_sets [(params ! 0, JStr s), (''status'', JStr ''sucess'')] js
              | _ \<Rightarrow> json_set ''errmsg'' (JStr ''value is not a string value'') js)
          else Inr js))"

definition redis_callback :: "'z zlib \<Rightarrow> json json_lib \<Rightarrow> (int \<Rightarrow> string) \<Rightarrow> (int \<Rightarrow> string) \<Rightarrow> task_state \<Rightarrow> int \<Rightarrow> redis_value \<Rightarrow>
    string \<Rightarrow> string list \<Rightarrow> http_resp \<Rightarrow> http_resp run" where
  "redis_callback lib jl strerr gai_err state error val cmd params resp =
     run_then (Some (redis_json_res strerr gai_err state error val cmd params)) (\<lambda>js. Json lib jl js resp)"

section \<open>What the values are\<close>

definition row_values :: "'d floats \<Rightarrow> 'd mysql_cell list \<Rightarrow> json list" where
  "row_values fl cells = List.map_filter (cell_json fl) cells"

definition row_json :: "'d floats \<Rightarrow> 'd mysql_cell list \<Rightarrow> json" where
  "row_json fl cells = (if row_values fl cells = [] then JNull else JArr (row_values fl cells))"

fun shown :: "'d mysql_cell \<Rightarrow> bool" where
  "shown (CellDate s) = False" | "shown CellOther = False" | "shown _ = True"

lemma row_loop_arr: "row_loop fl cells (JArr vs) = Inr (JArr (vs @ row_values fl cells))"
  by (induction cells arbitrary: vs) (auto simp: row_values_def List.map_filter_simps split: option.split)

lemma row_loop_null: "row_loop fl cells JNull = Inr (row_json fl cells)"
  by (induction cells) (auto simp: row_loop_arr row_json_def row_values_def List.map_filter_simps split: option.split)

lemma row_values_shown: "length (row_values fl cells) = length (filter shown cells)"
proof (induction cells)
  case (Cons c cells)
  then show ?case by (cases c) (auto simp: row_values_def List.map_filter_simps)
qed (simp add: row_values_def List.map_filter_simps)

lemma push_at_ok:
  assumes "json_ok j" and "json_find j k = None \<or> (\<exists>vs. json_find j k = Some (JArr vs))"
  shows "\<exists>j'. json_push_at k v j = Inr j' \<and> json_ok j' \<and>
    (\<forall>k'. json_find j' k' = (if k' = k then Some (JArr ((case json_find j k of Some (JArr vs) \<Rightarrow> vs | _ \<Rightarrow> []) @ [v])) else json_find j k'))"
proof -
  have index: "\<exists>j1. json_index k j = Inr ((case json_find j k of None \<Rightarrow> JNull | Some x \<Rightarrow> x), j1) \<and> json_ok j1 \<and>
      (\<forall>k'. k' \<noteq> k \<longrightarrow> json_find j1 k' = json_find j k')"
  proof (cases "j = JNull")
    case True
    then show ?thesis by (simp add: json_ok_def)
  next
    case False
    then obtain m where "j = JObj m" "str_map.sorted_map m" using assms(1) by (auto simp: json_ok_def)
    then show ?thesis using str_map.insert_sorted [of m k JNull] by (auto simp: json_ok_def str_map_get split: option.split)
  qed
  then obtain j1 where j1: "json_index k j = Inr ((case json_find j k of None \<Rightarrow> JNull | Some x \<Rightarrow> x), j1)" "json_ok j1"
    "\<forall>k'. k' \<noteq> k \<longrightarrow> json_find j1 k' = json_find j k'" by blast
  let ?vs = "(case json_find j k of Some (JArr vs) \<Rightarrow> vs | _ \<Rightarrow> []) @ [v]"
  obtain j' where "json_set k (JArr ?vs) j1 = Inr j'" "json_ok j'"
    "\<forall>k'. json_find j' k' = (if k' = k then Some (JArr ?vs) else json_find j1 k')" using json_set_ok [OF j1(2)] by metis
  then show ?thesis using j1 assms(2) by (intro exI [of _ j']) (auto simp: json_push_at_def)
qed

lemma rows_loop_result:
  "json_ok j \<Longrightarrow> (json_find j ''rows'' = None \<and> vs = []) \<or> json_find j ''rows'' = Some (JArr vs) \<Longrightarrow>
   \<exists>j'. rows_loop fl rows j = Inr j' \<and> json_ok j' \<and> (\<forall>k. k \<noteq> ''rows'' \<longrightarrow> json_find j' k = json_find j k) \<and>
     json_find j' ''rows'' = (if rows = [] then json_find j ''rows'' else Some (JArr (vs @ map (row_json fl) rows)))"
proof (induction rows arbitrary: j vs)
  case (Cons cells rows)
  obtain j1 where j1: "json_push_at ''rows'' (row_json fl cells) j = Inr j1" "json_ok j1"
    "\<forall>k'. json_find j1 k' = (if k' = ''rows''
       then Some (JArr ((case json_find j ''rows'' of Some (JArr vs) \<Rightarrow> vs | _ \<Rightarrow> []) @ [row_json fl cells])) else json_find j k')"
    using push_at_ok [OF Cons.prems(1), of "''rows''" "row_json fl cells"] Cons.prems(2) by blast
  have "json_find j1 ''rows'' = Some (JArr (vs @ [row_json fl cells]))" using j1(3) Cons.prems(2) by auto
  then obtain j' where "rows_loop fl rows j1 = Inr j'" "json_ok j'" "\<forall>k. k \<noteq> ''rows'' \<longrightarrow> json_find j' k = json_find j1 k"
    "json_find j' ''rows'' = Some (JArr (vs @ row_json fl cells # map (row_json fl) rows))"
    using Cons.IH [OF j1(2), of "vs @ [row_json fl cells]"] by (cases "rows = []") auto
  then show ?case using j1 by (intro exI [of _ j']) (simp add: row_loop_null)
qed auto

definition set_told :: "'d floats \<Rightarrow> 'd result_set \<Rightarrow> json \<Rightarrow> bool" where
  "set_told fl r v \<longleftrightarrow>
     (case r of
        GetResult fds rows \<Rightarrow>
          json_find v ''fields_name'' = Some (JArr (map (\<lambda>f. JStr (get_name f)) fds)) \<and>
          json_find v ''field_count'' = Some (JInt (int (length fds))) \<and>
          json_find v ''rows'' = (if rows = [] then None else Some (JArr (map (row_json fl) rows)))
      | StatusOk a w i info \<Rightarrow> json_find v ''status'' = Some (JStr ''OK'') \<and> json_find v ''affected_rows'' = Some (JInt (int a))
      | NoResult \<Rightarrow> False)"

lemma get_result_json:
  "\<exists>v v'. json_sets (fields_json fds n) JNull = Inr v \<and> rows_loop fl rows v = Inr v' \<and> set_told fl (GetResult fds rows) v'"
proof -
  obtain v where v: "json_sets (fields_json fds n) JNull = Inr v" "json_ok v"
    "\<forall>k. json_find v k = fold (\<lambda>(k', v) r. if k' = k then Some v else r) (fields_json fds n) None"
    using json_sets_ok [of JNull "fields_json fds n"] by (auto simp: json_ok_def)
  have f: "json_find v ''rows'' = None" "json_find v ''fields_name'' = Some (JArr (map (\<lambda>f. JStr (get_name f)) fds))"
    "json_find v ''field_count'' = Some (JInt (int (length fds)))"
    using v(3) by (simp_all add: fields_json_def split: list.split)
  obtain v' where "rows_loop fl rows v = Inr v'" "\<forall>k. k \<noteq> ''rows'' \<longrightarrow> json_find v' k = json_find v k"
    "json_find v' ''rows'' = (if rows = [] then json_find v ''rows'' else Some (JArr ([] @ map (row_json fl) rows)))"
    using rows_loop_result [OF v(2), of "[]" fl rows] f(1) by blast
  then show ?thesis using v(1) f by (intro exI [of _ v] exI [of _ v']) (simp add: set_told_def)
qed

lemma status_ok_json: "\<exists>v. json_sets (status_json a w i info) JNull = Inr v \<and> set_told fl (StatusOk a w i info) v"
proof -
  obtain v where "json_sets (status_json a w i info) JNull = Inr v"
    "\<forall>k. json_find v k = fold (\<lambda>(k', v) r. if k' = k then Some v else r) (status_json a w i info) None"
    using json_sets_ok [of JNull "status_json a w i info"] by (auto simp: json_ok_def)
  then show ?thesis by (intro exI [of _ v]) (simp add: set_told_def status_json_def)
qed

lemma result_sets_result:
  "json_ok j \<Longrightarrow> (json_find j ''result_set'' = None \<and> vs = []) \<or> json_find j ''result_set'' = Some (JArr vs) \<Longrightarrow>
   \<exists>j' ws. result_sets fl sets j = Inr j' \<and> json_ok j' \<and> list_all2 (set_told fl) (takeWhile (\<lambda>r. r \<noteq> NoResult) sets) ws \<and>
     json_find j' ''result_set'' = (if ws = [] then json_find j ''result_set'' else Some (JArr (vs @ ws)))"
proof (induction sets arbitrary: j vs)
  case (Cons r sets)
  show ?case
  proof (cases "r = NoResult")
    case True
    then show ?thesis using Cons.prems(1) by auto
  next
    case False
    have "\<exists>v. set_told fl r v \<and> result_sets fl (r # sets) j = ok_then (json_push_at ''result_set'' v j) (result_sets fl sets)"
    proof (cases r)
      case (GetResult fds rows)
      obtain v v' where "json_sets (fields_json fds (length rows)) JNull = Inr v" "rows_loop fl rows v = Inr v'"
        "set_told fl (GetResult fds rows) v'" using get_result_json by blast
      then show ?thesis using GetResult by auto
    next
      case (StatusOk a w i info)
      obtain v where "json_sets (status_json a w i info) JNull = Inr v" "set_told fl (StatusOk a w i info) v"
        using status_ok_json by blast
      then show ?thesis using StatusOk by auto
    qed (use False in simp)
    then obtain v where v: "set_told fl r v"
      "result_sets fl (r # sets) j = ok_then (json_push_at ''result_set'' v j) (result_sets fl sets)" by blast
    obtain j1 where j1: "json_push_at ''result_set'' v j = Inr j1" "json_ok j1"
      "\<forall>k'. json_find j1 k' = (if k' = ''result_set''
         then Some (JArr ((case json_find j ''result_set'' of Some (JArr vs) \<Rightarrow> vs | _ \<Rightarrow> []) @ [v])) else json_find j k')"
      using push_at_ok [OF Cons.prems(1), of "''result_set''" v] Cons.prems(2) by blast
    have "json_find j1 ''result_set'' = Some (JArr (vs @ [v]))" using j1(3) Cons.prems(2) by auto
    then obtain j' ws where "result_sets fl sets j1 = Inr j'" "json_ok j'"
      "list_all2 (set_told fl) (takeWhile (\<lambda>r. r \<noteq> NoResult) sets) ws"
      "json_find j' ''result_set'' = Some (JArr (vs @ v # ws))"
      using Cons.IH [OF j1(2), of "vs @ [v]"] by (auto split: if_splits)
    then show ?thesis using v j1(1) False by (intro exI [of _ j'] exI [of _ "v # ws"]) auto
  qed
qed auto

text \<open>
  C38. The JSON of a MySQL task that succeeded. It is always made; it has one element per result
  set up to the first that is neither a result nor a status, with the names of the fields, their number and the
  rows, the member for the rows being absent when there are none; a row has one value per cell, except
  that a date and a cell of any other type leave no value behind, so that the following ones move up
  against the names; and the members of the packet are as the server sent them.
\<close>

theorem mysql_json_tells_results:
  "\<exists>j ws. mysql_concat_json_res fl None sets packet = Inr j \<and>
    list_all2 (set_told fl) (takeWhile (\<lambda>r. r \<noteq> NoResult) sets) ws \<and>
    json_find j ''result_set'' = (if ws = [] then None else Some (JArr ws)) \<and>
    (case packet of
       PacketError code msg \<Rightarrow> json_find j ''errcode'' = Some (JInt code) \<and> json_find j ''errmsg'' = Some (JStr msg)
     | PacketOk a w i info \<Rightarrow> json_find j ''affected_rows'' = Some (JInt (int a)) \<and> json_find j ''insert_id'' = Some (JInt (int i))
     | PacketOther \<Rightarrow> True) \<and>
    (\<forall>cells :: 'd mysql_cell list. length (json_items (row_json fl cells)) = length (filter shown cells))"
proof -
  obtain j ws where j: "result_sets fl sets JNull = Inr j" "json_ok j"
    "list_all2 (set_told fl) (takeWhile (\<lambda>r. r \<noteq> NoResult) sets) ws"
    "json_find j ''result_set'' = (if ws = [] then None else Some (JArr ws))"
    using result_sets_result [of JNull "[]" fl sets] by (auto split: if_splits)
  obtain j' where j': "json_sets (packet_json packet) j = Inr j'"
    "\<forall>k. json_find j' k = fold (\<lambda>(k', v) r. if k' = k then Some v else r) (packet_json packet) (json_find j k)"
    using json_sets_ok [OF j(2)] by blast
  have "json_find j' ''result_set'' = json_find j ''result_set'' \<and> (case packet of
       PacketError code msg \<Rightarrow> json_find j' ''errcode'' = Some (JInt code) \<and> json_find j' ''errmsg'' = Some (JStr msg)
     | PacketOk a w i info \<Rightarrow> json_find j' ''affected_rows'' = Some (JInt (int a)) \<and> json_find j' ''insert_id'' = Some (JInt (int i))
     | PacketOther \<Rightarrow> True)"
    using j'(2) by (cases packet) (simp_all add: status_json_def)
  moreover have "length (json_items (row_json fl cells)) = length (filter shown cells)" for cells :: "'d mysql_cell list"
    using row_values_shown [of fl cells] by (auto simp: row_json_def)
  ultimately show ?thesis using j j'(1) by (intro exI [of _ j'] exI [of _ ws]) (simp add: mysql_concat_json_res_def)
qed

text \<open>
  The JSON of a Redis \<^verbatim>\<open>GET\<close> that gave a string: the value is under its key, except for the key
  \<^verbatim>\<open>status\<close>, whose value is lost. Of a \<^verbatim>\<open>SET\<close> the key may be one of the members of the answer.
\<close>

theorem redis_json_tells_value:
  "\<exists>j. redis_json_res strerr gai_err StateSuccess error (RedisString s) ''GET'' (k # params) = Inr j \<and>
     json_find j k = Some (JStr (if k = ''status'' then ''sucess'' else s)) \<and> json_find j ''status'' = Some (JStr ''sucess'')"
  and "\<exists>j. redis_json_res strerr gai_err StateSuccess error RedisOther ''SET'' [k, v] = Inr j \<and> json_find j k = Some (JStr v)"
proof -
  obtain j1 where j1: "json_set ''cmd'' (JStr ''GET'') JNull = Inr j1" "json_ok j1"
    using json_set_ok [of JNull "''cmd''" "JStr ''GET''"] by (auto simp: json_ok_def)
  let ?kvs = "[(k, JStr s), (''status'', JStr ''sucess'')]"
  obtain j where "json_sets ?kvs j1 = Inr j"
    "\<forall>k. json_find j k = fold (\<lambda>(k', v) r. if k' = k then Some v else r) ?kvs (json_find j1 k)"
    using json_sets_ok [OF j1(2)] by blast
  then show "\<exists>j. redis_json_res strerr gai_err StateSuccess error (RedisString s) ''GET'' (k # params) = Inr j \<and>
     json_find j k = Some (JStr (if k = ''status'' then ''sucess'' else s)) \<and> json_find j ''status'' = Some (JStr ''sucess'')"
    using j1(1) by (intro exI [of _ j]) (simp add: redis_json_res_def del: json_set.simps json_sets.simps(2) flip: json_sets.simps(2))
  let ?kvs = "[(''status'', JStr ''sucess''), (''cmd'', JStr ''SET''), (k, JStr v)]"
  obtain j where "json_sets ?kvs JNull = Inr j"
    "\<forall>k. json_find j k = fold (\<lambda>(k', v) r. if k' = k then Some v else r) ?kvs (json_find JNull k)"
    using json_sets_ok [of JNull ?kvs] by auto
  then show "\<exists>j. redis_json_res strerr gai_err StateSuccess error RedisOther ''SET'' [k, v] = Inr j \<and> json_find j k = Some (JStr v)"
    by (intro exI [of _ j]) (simp add: redis_json_res_def del: json_sets.simps(2))
qed

end
