(* ===== verification/Cjson_Parse.thy ===== *)
theory Cjson_Parse
  imports Cjson
begin

text \<open>
  The parser of \<^verbatim>\<open>file_compare/common/cJSON.cc\<close>. The buffer is the bytes the caller says it has; the
  functions carry the record of the source with the offset and the nesting depth and return it
  with the node they made, or with none when the source returns false. A read outside the buffer
  and a write outside the text allocated for a string are errors. The recursion is bounded by fuel
  (\<open>None\<close> when it ends), which \<open>parse_value_sound\<close> shows is never missing. Memory is never exhausted.
\<close>

section \<open>The buffer\<close>

record parse_buffer =
  pf_content :: string
  pf_offset :: nat
  pf_depth :: nat

definition can_read :: "parse_buffer \<Rightarrow> nat \<Rightarrow> bool" where
  "can_read b n \<longleftrightarrow> pf_offset b + n \<le> length (pf_content b)"

definition can_access_at_index :: "parse_buffer \<Rightarrow> nat \<Rightarrow> bool" where
  "can_access_at_index b i \<longleftrightarrow> pf_offset b + i < length (pf_content b)"

text \<open>The byte the source reads behind such a test, and the one it reads without a test.\<close>

definition byte_at :: "parse_buffer \<Rightarrow> nat \<Rightarrow> char" where
  "byte_at b i = pf_content b ! (pf_offset b + i)"

definition read_byte :: "parse_buffer \<Rightarrow> nat \<Rightarrow> cpp_error + char" where
  "read_byte b i = (if can_access_at_index b i then Inr (byte_at b i) else Inl InvalidRead)"

definition is_at :: "parse_buffer \<Rightarrow> char \<Rightarrow> bool" where
  "is_at b c \<longleftrightarrow> can_access_at_index b 0 \<and> byte_at b 0 = c"

definition at_number :: "parse_buffer \<Rightarrow> bool" where
  "at_number b \<longleftrightarrow> can_access_at_index b 0 \<and> (byte_at b 0 = CHR ''-'' \<or> isdigit (byte_at b 0))"

definition advance :: "parse_buffer \<Rightarrow> nat \<Rightarrow> parse_buffer" where
  "advance b n = b\<lparr>pf_offset := pf_offset b + n\<rparr>"

definition step_back :: "parse_buffer \<Rightarrow> parse_buffer" where
  "step_back b = b\<lparr>pf_offset := pf_offset b - 1\<rparr>"

function skip_blanks :: "string \<Rightarrow> nat \<Rightarrow> nat" where
  "skip_blanks s i = (if i < length s \<and> of_char (s ! i) \<le> (32 :: nat) then skip_blanks s (Suc i) else i)"
  by pat_completeness auto

termination
  by (relation "measure (\<lambda>(s, i). length s - i)") auto

declare skip_blanks.simps [simp del]

definition buffer_skip_whitespace :: "parse_buffer \<Rightarrow> parse_buffer" where
  "buffer_skip_whitespace b =
     (if \<not> can_access_at_index b 0 then b
      else
        (let o' = skip_blanks (pf_content b) (pf_offset b)
         in b\<lparr>pf_offset := (if o' = length (pf_content b) then o' - 1 else o')\<rparr>))"

text \<open>\<^verbatim>\<open>strncmp (buffer_at_offset, lit, strlen (lit)) == 0\<close> behind the test that so much can be read.\<close>

definition strncmp_at :: "parse_buffer \<Rightarrow> string \<Rightarrow> bool" where
  "strncmp_at b lit \<longleftrightarrow> can_read b (length lit) \<and> take (length lit) (drop (pf_offset b) (pf_content b)) = lit"

definition skip_utf8_bom :: "parse_buffer \<Rightarrow> parse_buffer option" where
  "skip_utf8_bom b =
     (if pf_offset b \<noteq> 0 then None
      else if can_access_at_index b 4 \<and> strncmp_at b [CHR 0xEF, CHR 0xBB, CHR 0xBF] then Some (advance b 3)
      else Some b)"

section \<open>Numbers\<close>

definition number_char :: "char \<Rightarrow> bool" where
  "number_char c \<longleftrightarrow> isdigit c \<or> c \<in> {CHR ''+'', CHR ''-'', CHR ''e'', CHR ''E'', CHR ''.''}"

text \<open>The characters copied into \<^verbatim>\<open>number_c_string\<close>, at most 63 of its 64.\<close>

definition number_c_string :: "parse_buffer \<Rightarrow> string" where
  "number_c_string b = takeWhile number_char (take 63 (drop (pf_offset b) (pf_content b)))"

type_synonym parsed = "cjson option \<times> parse_buffer"

definition parse_number :: "string option \<Rightarrow> parse_buffer \<Rightarrow> parsed" where
  "parse_number name b =
     (case strtod (number_c_string b) of
        (number, used) \<Rightarrow>
          if used = 0 then (None, b)
          else (map_option (\<lambda>i. CJson name cJSON_Number None i number []) (saturated number), advance b used))"

section \<open>Strings\<close>

definition hex_value :: "char \<Rightarrow> nat option" where
  "hex_value c =
     (let x = of_char c :: nat in
      if 48 \<le> x \<and> x \<le> 57 then Some (x - 48)
      else if 65 \<le> x \<and> x \<le> 70 then Some (10 + x - 65)
      else if 97 \<le> x \<and> x \<le> 102 then Some (10 + x - 97)
      else None)"

text \<open>Four digits; a character that is none makes the value 0.\<close>

fun hex4_loop :: "string \<Rightarrow> nat \<Rightarrow> nat \<Rightarrow> nat \<Rightarrow> cpp_error + nat" where
  "hex4_loop s i 0 h = Inr h"
| "hex4_loop s i (Suc k) h =
     (if length s \<le> i then Inl InvalidRead
      else case hex_value (s ! i) of
             None \<Rightarrow> Inr 0
           | Some d \<Rightarrow> hex4_loop s (Suc i) k (if 0 < k then (h + d) * 16 else h + d))"

definition parse_hex4 :: "string \<Rightarrow> nat \<Rightarrow> cpp_error + nat" where
  "parse_hex4 s i = hex4_loop s i 4 0"

text \<open>The bytes of a code point, from the last to the first: six bits each, the rest with the mark.\<close>

fun utf8_tail :: "nat \<Rightarrow> nat \<Rightarrow> nat \<Rightarrow> string \<Rightarrow> string" where
  "utf8_tail mark 0 cp acc = char_of (or cp mark mod 256) # acc"
| "utf8_tail mark (Suc k) cp acc = utf8_tail mark k (cp div 64) (char_of (and (or cp 0x80) 0xBF) # acc)"

definition utf8_bytes :: "nat \<Rightarrow> string option" where
  "utf8_bytes cp =
     (if cp < 0x80 then Some [char_of cp]
      else if cp < 0x800 then Some (utf8_tail 0xC0 1 cp [])
      else if cp < 0x10000 then Some (utf8_tail 0xE0 2 cp [])
      else if cp \<le> 0x10FFFF then Some (utf8_tail 0xF0 3 cp [])
      else None)"

definition is_high :: "nat \<Rightarrow> bool" where
  "is_high c \<longleftrightarrow> 0xD800 \<le> c \<and> c \<le> 0xDBFF"

definition is_low :: "nat \<Rightarrow> bool" where
  "is_low c \<longleftrightarrow> 0xDC00 \<le> c \<and> c \<le> 0xDFFF"

definition pair_code :: "nat \<Rightarrow> nat \<Rightarrow> nat" where
  "pair_code first_code second_code = 0x10000 + or (push_bit 10 (and first_code 0x3FF)) (and second_code 0x3FF)"

text \<open>
  \<open>i\<close> is where the backslash is, \<open>e\<close> the end of the literal. The result is the length of the
  sequence and the bytes; the length 0 says that it failed.
\<close>

definition utf16_literal_to_utf8 :: "string \<Rightarrow> nat \<Rightarrow> nat \<Rightarrow> cpp_error + nat \<times> string" where
  "utf16_literal_to_utf8 s i e =
     (if e - i < 6 then Inr (0, [])
      else case parse_hex4 s (i + 2) of
        Inl err \<Rightarrow> Inl err
      | Inr first_code \<Rightarrow>
          if is_low first_code then Inr (0, [])
          else if is_high first_code then
            (if e - (i + 6) < 6 then Inr (0, [])
             else if length s \<le> i + 7 then Inl InvalidRead
             else if s ! (i + 6) \<noteq> CHR 0x5C \<or> s ! (i + 7) \<noteq> CHR ''u'' then Inr (0, [])
             else case parse_hex4 s (i + 8) of
                Inl err \<Rightarrow> Inl err
              | Inr second_code \<Rightarrow>
                  if \<not> is_low second_code then Inr (0, [])
                  else case utf8_bytes (pair_code first_code second_code) of
                         None \<Rightarrow> Inr (0, []) | Some bs \<Rightarrow> Inr (12, bs))
          else case utf8_bytes first_code of None \<Rightarrow> Inr (0, []) | Some bs \<Rightarrow> Inr (6, bs))"

text \<open>The end of the literal and the number of escapes, if it has an end.\<close>

function scan_string :: "string \<Rightarrow> nat \<Rightarrow> nat \<Rightarrow> (nat \<times> nat) option" where
  "scan_string s i skipped =
     (if length s \<le> i then None
      else if s ! i = CHR 0x22 then Some (i, skipped)
      else if s ! i = CHR 0x5C then
        (if length s \<le> i + 1 then None else scan_string s (i + 2) (skipped + 1))
      else scan_string s (i + 1) skipped)"
  by pat_completeness auto

termination
  by (relation "measure (\<lambda>(s, i, _). length s - i)") auto

declare scan_string.simps [simp del]

definition short_escape :: "char \<Rightarrow> char option" where
  "short_escape c =
     (if c = CHR ''b'' then Some (CHR 0x08)
      else if c = CHR ''f'' then Some (CHR 0x0C)
      else if c = CHR ''n'' then Some (CHR 0x0A)
      else if c = CHR ''r'' then Some (CHR 0x0D)
      else if c = CHR ''t'' then Some (CHR 0x09)
      else if c = CHR 0x22 \<or> c = CHR 0x5C \<or> c = CHR ''/'' then Some c
      else None)"

text \<open>
  The loop over the literal: \<open>room\<close> bytes were allocated, \<open>out\<close> is what was written. The result
  is the text, or the position where it failed.
\<close>

definition put_out :: "nat \<Rightarrow> string \<Rightarrow> string \<Rightarrow> cpp_error + string" where
  "put_out room out bs = (if room < length out + length bs then Inl InvalidWrite else Inr (out @ bs))"

function unescape :: "string \<Rightarrow> nat \<Rightarrow> nat \<Rightarrow> nat \<Rightarrow> string \<Rightarrow> cpp_error + nat + string" where
  "unescape s e room i out =
     (if i < e then
        (if length s \<le> i then Inl InvalidRead
         else if s ! i \<noteq> CHR 0x5C then
           (case put_out room out [s ! i] of Inl err \<Rightarrow> Inl err | Inr out' \<Rightarrow> unescape s e room (i + 1) out')
         else if length s \<le> i + 1 then Inl InvalidRead
         else if s ! (i + 1) = CHR ''u'' then
           (case utf16_literal_to_utf8 s i e of
              Inl err \<Rightarrow> Inl err
            | Inr (n, bs) \<Rightarrow>
                if n = 0 then Inr (Inl i)
                else (case put_out room out bs of Inl err \<Rightarrow> Inl err | Inr out' \<Rightarrow> unescape s e room (i + n) out'))
         else
           (case short_escape (s ! (i + 1)) of
              None \<Rightarrow> Inr (Inl i)
            | Some c \<Rightarrow>
                (case put_out room out [c] of Inl err \<Rightarrow> Inl err | Inr out' \<Rightarrow> unescape s e room (i + 2) out')))
      else
        (case put_out room out [NUL] of Inl err \<Rightarrow> Inl err | Inr _ \<Rightarrow> Inr (Inr out)))"
  by pat_completeness auto

termination
  by (relation "measure (\<lambda>(s, e, room, i, out). e - i)") auto

declare unescape.simps [simp del]

text \<open>A string ends for its readers at its first NUL. The failure leaves the offset where it was found.\<close>

definition parse_string :: "parse_buffer \<Rightarrow> cpp_error + string option \<times> parse_buffer" where
  "parse_string b =
     (case read_byte b 0 of
        Inl err \<Rightarrow> Inl err
      | Inr c \<Rightarrow>
          let fail = Inr (None, advance b 1) in
          if c \<noteq> CHR 0x22 then fail
          else case scan_string (pf_content b) (pf_offset b + 1) 0 of
                 None \<Rightarrow> fail
               | Some (e, skipped) \<Rightarrow>
                   (case unescape (pf_content b) e (e - pf_offset b - skipped + 1) (pf_offset b + 1) [] of
                      Inl err \<Rightarrow> Inl err
                    | Inr (Inl i) \<Rightarrow> Inr (None, b\<lparr>pf_offset := i\<rparr>)
                    | Inr (Inr out) \<Rightarrow> Inr (Some (c_str out), b\<lparr>pf_offset := e + 1\<rparr>)))"

section \<open>Values\<close>

definition CJSON_NESTING_LIMIT :: nat where
  "CJSON_NESTING_LIMIT = 1000"

definition lift_error :: "cpp_error + 'a \<Rightarrow> 'a run" where
  "lift_error r = Some r"

definition finish :: "cj_type \<Rightarrow> string option \<Rightarrow> cjson list \<Rightarrow> parse_buffer \<Rightarrow> parsed run" where
  "finish ty name cs b =
     done_with (Some (CJson name ty None 0 (Finite 0) cs), b\<lparr>pf_offset := pf_offset b + 1, pf_depth := pf_depth b - 1\<rparr>)"

text \<open>
  The loops over the elements of an array and the members of an object, with the parser of a
  value as \<open>value\<close>; \<open>name\<close> is the name the node was given before its value is parsed.
\<close>

type_synonym value_parser = "string option \<Rightarrow> parse_buffer \<Rightarrow> parsed run"

primrec parse_elements :: "nat \<Rightarrow> value_parser \<Rightarrow> string option \<Rightarrow> cjson list \<Rightarrow> parse_buffer \<Rightarrow> parsed run" where
  "parse_elements 0 parse name cs b = None"
| "parse_elements (Suc k) parse name cs b =
     run_then (parse None (buffer_skip_whitespace (advance b 1))) (\<lambda>(r, b1).
       case r of
         None \<Rightarrow> done_with (None, b1)
       | Some c \<Rightarrow>
           (let b2 = buffer_skip_whitespace b1; cs' = cs @ [c] in
            if is_at b2 (CHR '','') then parse_elements k parse name cs' b2
            else if \<not> is_at b2 (CHR '']'') then done_with (None, b2)
            else finish cJSON_Array name cs' b2))"

definition parse_array :: "nat \<Rightarrow> value_parser \<Rightarrow> string option \<Rightarrow> parse_buffer \<Rightarrow> parsed run" where
  "parse_array k parse name b =
     (if CJSON_NESTING_LIMIT \<le> pf_depth b then done_with (None, b)
      else
        (let b1 = b\<lparr>pf_depth := pf_depth b + 1\<rparr> in
         run_then (lift_error (read_byte b1 0)) (\<lambda>c.
           if c \<noteq> CHR ''['' then done_with (None, b1)
           else
             (let b2 = buffer_skip_whitespace (advance b1 1) in
              if is_at b2 (CHR '']'') then finish cJSON_Array name [] b2
              else if \<not> can_access_at_index b2 0 then done_with (None, step_back b2)
              else parse_elements k parse name [] (step_back b2)))))"

primrec parse_members :: "nat \<Rightarrow> value_parser \<Rightarrow> string option \<Rightarrow> cjson list \<Rightarrow> parse_buffer \<Rightarrow> parsed run" where
  "parse_members 0 parse name cs b = None"
| "parse_members (Suc k) parse name cs b =
     run_then (lift_error (parse_string (buffer_skip_whitespace (advance b 1)))) (\<lambda>(key, b1).
       case key of
         None \<Rightarrow> done_with (None, b1)
       | Some key \<Rightarrow>
           (let b2 = buffer_skip_whitespace b1 in
            if \<not> is_at b2 (CHR '':'') then done_with (None, b2)
            else
              run_then (parse (Some key) (buffer_skip_whitespace (advance b2 1))) (\<lambda>(r, b3).
                case r of
                  None \<Rightarrow> done_with (None, b3)
                | Some c \<Rightarrow>
                    (let b4 = buffer_skip_whitespace b3; cs' = cs @ [c] in
                     if is_at b4 (CHR '','') then parse_members k parse name cs' b4
                     else if \<not> is_at b4 (CHR 0x7D) then done_with (None, b4)
                     else finish cJSON_Object name cs' b4))))"

definition parse_object :: "nat \<Rightarrow> value_parser \<Rightarrow> string option \<Rightarrow> parse_buffer \<Rightarrow> parsed run" where
  "parse_object k parse name b =
     (if CJSON_NESTING_LIMIT \<le> pf_depth b then done_with (None, b)
      else
        (let b1 = b\<lparr>pf_depth := pf_depth b + 1\<rparr> in
         if \<not> is_at b1 (CHR 0x7B) then done_with (None, b1)
         else
           (let b2 = buffer_skip_whitespace (advance b1 1) in
            if is_at b2 (CHR 0x7D) then finish cJSON_Object name [] b2
            else if \<not> can_access_at_index b2 0 then done_with (None, step_back b2)
            else parse_members k parse name [] (step_back b2))))"

primrec parse_value :: "nat \<Rightarrow> value_parser" where
  "parse_value 0 name b = None"
| "parse_value (Suc k) name b =
     (if strncmp_at b ''null'' then done_with (Some (CJson name cJSON_NULL None 0 (Finite 0) []), advance b 4)
      else if strncmp_at b ''false'' then done_with (Some (CJson name cJSON_False None 0 (Finite 0) []), advance b 5)
      else if strncmp_at b ''true'' then done_with (Some (CJson name cJSON_True None 1 (Finite 0) []), advance b 4)
      else if is_at b (CHR 0x22) then
        run_then (lift_error (parse_string b))
          (\<lambda>(r, b'). done_with (map_option (\<lambda>s. CJson name cJSON_String (Some s) 0 (Finite 0) []) r, b'))
      else if at_number b then done_with (parse_number name b)
      else if is_at b (CHR ''['') then parse_array k (parse_value k) name b
      else if is_at b (CHR 0x7B) then parse_object k (parse_value k) name b
      else done_with (None, b))"

section \<open>The entry points\<close>

text \<open>
  The bytes \<open>bytes\<close> from \<^verbatim>\<open>value\<close> on. The result is the tree with the position the parse ended at, or
  the position of the error.
\<close>

definition cJSON_ParseWithLengthOpts :: "string \<Rightarrow> bool \<Rightarrow> ((nat + cjson \<times> nat)) run" where
  "cJSON_ParseWithLengthOpts bytes require_null_terminated =
     (if bytes = [] then done_with (Inl 0)
      else
        (let b0 = \<lparr>pf_content = bytes, pf_offset = 0, pf_depth = 0\<rparr>;
             fails = (\<lambda>b. done_with (Inl (if pf_offset b < length bytes then pf_offset b else length bytes - 1)))
         in case skip_utf8_bom b0 of
              None \<Rightarrow> fails b0
            | Some b1 \<Rightarrow>
                run_then (parse_value (Suc (length bytes)) None (buffer_skip_whitespace b1)) (\<lambda>(r, b2).
                  case r of
                    None \<Rightarrow> fails b2
                  | Some item \<Rightarrow>
                      if require_null_terminated then
                        (let b3 = buffer_skip_whitespace b2
                         in if \<not> is_at b3 NUL then fails b3 else done_with (Inr (item, pf_offset b3)))
                      else done_with (Inr (item, pf_offset b2)))))"

definition cJSON_ParseWithOpts :: "string \<Rightarrow> bool \<Rightarrow> (nat + cjson \<times> nat) run" where
  "cJSON_ParseWithOpts value require_null_terminated =
     cJSON_ParseWithLengthOpts (c_str value @ [NUL]) require_null_terminated"

definition parsed_tree :: "(nat + cjson \<times> nat) run \<Rightarrow> cjson option run" where
  "parsed_tree r = run_then r (\<lambda>x. done_with (case x of Inl _ \<Rightarrow> None | Inr (item, _) \<Rightarrow> Some item))"

definition cJSON_Parse :: "string \<Rightarrow> cjson option run" where
  "cJSON_Parse value = parsed_tree (cJSON_ParseWithOpts value False)"

text \<open>\<open>bytes\<close> are those from \<^verbatim>\<open>value\<close> up to \<^verbatim>\<open>buffer_length\<close>.\<close>

definition cJSON_ParseWithLength :: "string \<Rightarrow> cjson option run" where
  "cJSON_ParseWithLength bytes = parsed_tree (cJSON_ParseWithLengthOpts bytes False)"

section \<open>The literal is unescaped within its memory\<close>

lemma scan_string_bounds:
  "scan_string s i skipped = Some (e, k) \<Longrightarrow>
     i \<le> e \<and> e < length s \<and> s ! e = CHR 0x22 \<and> skipped \<le> k \<and> 2 * k + i \<le> e + 2 * skipped"
proof (induction s i skipped rule: scan_string.induct)
  case (1 s i skipped)
  show ?case
    using "1.prems" "1.IH" by (auto simp: scan_string.simps [of s i skipped] split: if_splits)
qed

lemma scan_string_shift:
  "scan_string s i (skipped + a) = map_option (\<lambda>(e, k). (e, k + a)) (scan_string s i skipped)"
proof (induction s i skipped rule: scan_string.induct)
  case (1 s i skipped)
  then show ?case
    by (simp add: scan_string.simps [of s i skipped] scan_string.simps [of s i "skipped + a"])
qed

lemma scan_string_0: "scan_string s i (Suc 0) = Some (e, k) \<longleftrightarrow> (\<exists>j. scan_string s i 0 = Some (e, j) \<and> k = Suc j)"
  using scan_string_shift [of s i 0 "Suc 0"] by auto

text \<open>
  How many bytes the literal from \<open>p\<close> on may still give: the escapes that the scan saw do not
  count. The second loop can be one byte into an escape of the scan, when a malformed \<^verbatim>\<open>\u\<close> made it
  skip a backslash.
\<close>

definition weight_at :: "string \<Rightarrow> nat \<Rightarrow> nat \<Rightarrow> nat \<Rightarrow> bool" where
  "weight_at s e p w \<longleftrightarrow>
     (\<exists>k. (scan_string s p 0 = Some (e, k) \<or> p < e \<and> scan_string s (Suc p) 0 = Some (e, k)) \<and> w = e - p - k)"

lemma weight_step:
  assumes "weight_at s e p w" "p < e"
  shows "\<exists>w'. weight_at s e (Suc p) w' \<and> w' + (if s ! p = CHR 0x5C then 0 else 1) \<le> w"
proof -
  obtain k where w: "w = e - p - k" and c: "scan_string s p 0 = Some (e, k) \<or> scan_string s (Suc p) 0 = Some (e, k)"
    using assms(1) by (auto simp: weight_at_def)
  show ?thesis
  proof (cases "scan_string s (Suc p) 0 = Some (e, k)")
    case True
    then show ?thesis
      using scan_string_bounds [OF True] w assms(2) by (intro exI [of _ "e - Suc p - k"]) (auto simp: weight_at_def)
  next
    case False
    then have a: "scan_string s p 0 = Some (e, k)" using c by simp
    then have "s ! p = CHR 0x5C" "scan_string s (Suc (Suc p)) (Suc 0) = Some (e, k)"
      using False assms(2) by (auto simp: scan_string.simps [of s p] split: if_splits)
    then obtain j where j: "scan_string s (Suc (Suc p)) 0 = Some (e, j)" "k = Suc j"
      by (auto simp: scan_string_0)
    then show ?thesis
      using scan_string_bounds [OF j(1)] w \<open>s ! p = CHR 0x5C\<close>
      by (intro exI [of _ "e - Suc p - j"]) (auto simp: weight_at_def)
  qed
qed

lemma weight_two:
  assumes "weight_at s e p w" "p < e"
  shows "1 \<le> w" "Suc p < e \<Longrightarrow> \<exists>w'. weight_at s e (p + 2) w' \<and> w' + 1 \<le> w"
proof -
  obtain k where w: "w = e - p - k" and c: "scan_string s p 0 = Some (e, k) \<or> scan_string s (Suc p) 0 = Some (e, k)"
    using assms(1) by (auto simp: weight_at_def)
  then show "1 \<le> w" using assms(2) scan_string_bounds [of s p 0 e k] scan_string_bounds [of s "Suc p" 0 e k] by auto
  assume e: "Suc p < e"
  obtain w1 where w1: "weight_at s e (Suc p) w1" "w1 + (if s ! p = CHR 0x5C then 0 else 1) \<le> w"
    using weight_step [OF assms] by blast
  obtain w2 where w2: "weight_at s e (p + 2) w2" "w2 + (if s ! Suc p = CHR 0x5C then 0 else 1) \<le> w1"
    using weight_step [OF w1(1) e] by auto
  show "\<exists>w'. weight_at s e (p + 2) w' \<and> w' + 1 \<le> w"
  proof (cases "scan_string s (Suc p) 0 = Some (e, k)")
    case True
    have "weight_at s e (Suc p) (e - Suc p - k)" using True by (auto simp: weight_at_def)
    then obtain w3 where "weight_at s e (p + 2) w3" "w3 + (if s ! Suc p = CHR 0x5C then 0 else 1) \<le> e - Suc p - k"
      using weight_step [of s e "Suc p"] e by auto
    then show ?thesis using w assms(2) scan_string_bounds [OF True] by (intro exI [of _ w3]) auto
  next
    case False
    then have a: "scan_string s p 0 = Some (e, k)" using c by simp
    then have "s ! p = CHR 0x5C" "scan_string s (Suc (Suc p)) (Suc 0) = Some (e, k)"
      using False assms(2) by (auto simp: scan_string.simps [of s p] split: if_splits)
    then obtain j where j: "scan_string s (Suc (Suc p)) 0 = Some (e, j)" "k = Suc j"
      by (auto simp: scan_string_0)
    then show ?thesis
      using scan_string_bounds [OF j(1)] w by (intro exI [of _ "e - p - 2 - j"]) (auto simp: weight_at_def)
  qed
qed

lemma weight_steps:
  "weight_at s e p w \<Longrightarrow> p + m \<le> e \<Longrightarrow> e \<le> length s \<Longrightarrow>
     \<exists>w'. weight_at s e (p + m) w' \<and> w' + length (filter (\<lambda>c. c \<noteq> CHR 0x5C) (take m (drop p s))) \<le> w"
proof (induction m arbitrary: p w)
  case 0
  then show ?case by auto
next
  case (Suc m)
  obtain w1 where w1: "weight_at s e (Suc p) w1" "w1 + (if s ! p = CHR 0x5C then 0 else 1) \<le> w"
    using weight_step [OF Suc.prems(1)] Suc.prems(2) by auto
  obtain w2 where "weight_at s e (Suc p + m) w2" "w2 + length (filter (\<lambda>c. c \<noteq> CHR 0x5C) (take m (drop (Suc p) s))) \<le> w1"
    using Suc.IH [OF w1(1)] Suc.prems by auto
  moreover have "drop p s = s ! p # drop (Suc p) s" using Suc.prems by (simp add: Cons_nth_drop_Suc)
  ultimately show ?case using w1 by (intro exI [of _ w2]) (auto split: if_splits)
qed

lemma hex4_loop_ok: "i + k \<le> length s \<Longrightarrow> \<exists>x. hex4_loop s i k h = Inr x"
  by (induction k arbitrary: i h) (auto split: option.splits)

lemma hex_value_no_escape: "hex_value c = Some d \<Longrightarrow> c \<noteq> CHR 0x5C \<and> d < 16"
  by (auto simp: hex_value_def Let_def split: if_splits)

lemma hex4_loop_digits:
  "hex4_loop s i k h = Inr x \<Longrightarrow> x \<noteq> 0 \<Longrightarrow> i + k \<le> length s \<Longrightarrow>
     filter (\<lambda>c. c \<noteq> CHR 0x5C) (take k (drop i s)) = take k (drop i s)"
proof (induction k arbitrary: i h)
  case 0
  then show ?case by simp
next
  case (Suc k)
  then obtain d where d: "hex_value (s ! i) = Some d" by (auto split: option.splits)
  have "drop i s = s ! i # drop (Suc i) s" using Suc.prems by (simp add: Cons_nth_drop_Suc)
  then show ?case using Suc d hex_value_no_escape [OF d] by auto
qed

lemma parse_hex4_ok: "i + 4 \<le> length s \<Longrightarrow> \<exists>x. parse_hex4 s i = Inr x"
  unfolding parse_hex4_def by (rule hex4_loop_ok)

lemma utf8_tail_length: "length (utf8_tail mark k cp acc) = Suc k + length acc"
  by (induction k arbitrary: cp acc) auto

lemma utf8_bytes_length:
  "utf8_bytes cp = Some bs \<Longrightarrow> length bs \<le> 4 \<and> (cp < 0x10000 \<longrightarrow> length bs \<le> 3) \<and> (cp = 0 \<longrightarrow> length bs = 1)"
  by (auto simp: utf8_bytes_def utf8_tail_length split: if_splits)

lemma take_drop_add: "take (a + b) (drop i s) = take a (drop i s) @ take b (drop (i + a) s)"
  by (simp add: take_add add.commute)

text \<open>A sequence of 6 or 12 characters gives no more bytes than the scan counted for it.\<close>

lemma unicode_weight:
  assumes w: "weight_at s e i w" and e: "i + n \<le> e" "e < length s" and u: "s ! Suc i = CHR ''u''"
    and n: "n = 6 \<or> n = 12"
    and bytes: "length bs = 1 \<or> length bs \<le> 4 \<and> parse_hex4 s (i + 2) = Inr x \<and> x \<noteq> 0"
  shows "\<exists>w'. weight_at s e (i + n) w' \<and> w' + length bs \<le> w"
proof -
  let ?k = "\<lambda>m j. length (filter (\<lambda>c. c \<noteq> CHR 0x5C) (take m (drop j s)))"
  have split: "?k n i = ?k 2 i + ?k 4 (i + 2) + ?k (n - 6) (i + 6)"
  proof -
    have "take n (drop i s) = take 2 (drop i s) @ take 4 (drop (i + 2) s) @ take (n - 6) (drop (i + 6) s)"
      using n take_drop_add [of 2 "n - 2" i s] take_drop_add [of 4 "n - 6" "i + 2" s] by (auto simp: add.commute)
    then show ?thesis by simp
  qed
  have "take 2 (drop i s) = [s ! i, s ! Suc i]"
    using e n by (auto simp: take_Suc_conv_app_nth numeral_2_eq_2)
  then have one: "1 \<le> ?k 2 i" using u by auto
  have "length bs \<le> ?k n i"
  proof (cases "length bs = 1")
    case True
    then show ?thesis using one split by simp
  next
    case False
    then have "?k 4 (i + 2) = 4"
      using bytes hex4_loop_digits [of s "i + 2" 4 0 x] e n by (auto simp: parse_hex4_def)
    then show ?thesis using bytes False one split by simp
  qed
  then show ?thesis using weight_steps [OF w, of n] e by fastforce
qed

lemma utf16_safe:
  assumes w: "weight_at s e i w" and e: "i < e" "e < length s" and u: "s ! Suc i = CHR ''u''"
  shows "\<exists>n bs. utf16_literal_to_utf8 s i e = Inr (n, bs) \<and>
    (n \<noteq> 0 \<longrightarrow> i + n \<le> e \<and> (\<exists>w'. weight_at s e (i + n) w' \<and> w' + length bs \<le> w))"
proof (cases "e - i < 6")
  case True
  then show ?thesis by (simp add: utf16_literal_to_utf8_def)
next
  case False
  then have "i + 2 + 4 \<le> length s" using e by linarith
  from parse_hex4_ok [OF this] obtain x where x: "parse_hex4 s (i + 2) = Inr x" by blast
  note def = utf16_literal_to_utf8_def [of s i e]
  have single: ?thesis if "utf8_bytes x = Some bs" "utf16_literal_to_utf8 s i e = Inr (6, bs)" for bs
    using that utf8_bytes_length [OF that(1)] unicode_weight [OF w _ e(2) u, of 6 bs x] False x by auto
  have pair: ?thesis if "utf8_bytes y = Some bs" "utf16_literal_to_utf8 s i e = Inr (12, bs)" "is_high x" "\<not> e - (i + 6) < 6" for y bs
    using that utf8_bytes_length [OF that(1)] unicode_weight [OF w _ e(2) u, of 12 bs x] x
    by (auto simp: is_high_def)
  show ?thesis
  proof (cases "is_low x \<or> \<not> is_high x")
    case True
    then show ?thesis using single False x by (auto simp: def split: option.splits)
  next
    case high: False
    show ?thesis
    proof (cases "e - (i + 6) < 6")
      case True
      then show ?thesis using high False x by (simp add: def)
    next
      case far: False
      then have "i + 8 + 4 \<le> length s" using e by linarith
      from parse_hex4_ok [OF this] obtain z where z: "parse_hex4 s (i + 8) = Inr z" by blast
      have "\<not> length s \<le> i + 7" using far e by simp
      then show ?thesis using pair high False far x z by (auto simp: def split: option.splits)
    qed
  qed
qed

definition within_room :: "string \<Rightarrow> nat \<Rightarrow> nat \<Rightarrow> nat \<Rightarrow> string \<Rightarrow> bool" where
  "within_room s e room i out \<longleftrightarrow>
     (i \<le> e \<and> (\<exists>w. weight_at s e i w \<and> length out + w < room)) \<or> (i = Suc e \<and> length out < room)"

lemma weight_end: "s ! e = CHR 0x22 \<Longrightarrow> e < length s \<Longrightarrow> weight_at s e e 0"
  by (simp add: weight_at_def scan_string.simps [of s e])

lemma within_room_after:
  assumes "length out + w < room" "w' + length bs \<le> w" "weight_at s e j w'" "j \<le> e"
  shows "within_room s e room j (out @ bs)" "put_out room out bs = Inr (out @ bs)"
  using assms by (auto simp: within_room_def put_out_def intro!: exI [of _ w'])

lemma room_char:
  assumes "within_room s e room i out" "i < e" "s ! i \<noteq> CHR 0x5C"
  shows "within_room s e room (i + 1) (out @ [c])" "put_out room out [c] = Inr (out @ [c])"
proof -
  obtain w where w: "weight_at s e i w" "length out + w < room" using assms by (auto simp: within_room_def)
  obtain w' where "weight_at s e (Suc i) w'" "w' + 1 \<le> w" using weight_step [OF w(1) assms(2)] assms(3) by auto
  then show "within_room s e room (i + 1) (out @ [c])" "put_out room out [c] = Inr (out @ [c])"
    using within_room_after [OF w(2), of w' "[c]"] assms(2) by auto
qed

lemma room_escape:
  assumes "within_room s e room i out" "i < e"
  shows "within_room s e room (i + 2) (out @ [c])" "put_out room out [c] = Inr (out @ [c])"
proof -
  obtain w where w: "weight_at s e i w" "length out + w < room" using assms by (auto simp: within_room_def)
  note w1 = weight_two(1) [OF w(1) assms(2)]
  show "put_out room out [c] = Inr (out @ [c])" using w w1 by (simp add: put_out_def)
  show "within_room s e room (i + 2) (out @ [c])"
  proof (cases "Suc i < e")
    case True
    obtain w' where "weight_at s e (i + 2) w'" "w' + 1 \<le> w" using weight_two(2) [OF w(1) assms(2) True] by auto
    then show ?thesis using within_room_after(1) [OF w(2), of w' "[c]"] True by auto
  next
    case False
    then show ?thesis using w w1 assms(2) by (simp add: within_room_def)
  qed
qed

lemma unescape_safe:
  "within_room s e room i out \<Longrightarrow> e < length s \<Longrightarrow> \<exists>r. unescape s e room i out = Inr r"
proof (induction s e room i out rule: unescape.induct)
  case (1 s e room i out)
  note IH = "1.IH" and inv = "1.prems"
  show ?case
  proof (cases "i < e")
    case False
    then show ?thesis using inv by (auto simp: unescape.simps [of s e room i] within_room_def put_out_def)
  next
    case i: True
    then have len: "\<not> length s \<le> i" "\<not> length s \<le> i + 1" using inv(2) by auto
    consider (plain) "s ! i \<noteq> CHR 0x5C" | (unicode) "s ! i = CHR 0x5C" "s ! (i + 1) = CHR ''u''"
      | (short) "s ! i = CHR 0x5C" "s ! (i + 1) \<noteq> CHR ''u''" by blast
    then show ?thesis
    proof cases
      case plain
      then show ?thesis using IH(1) [OF i len(1) plain] room_char [OF inv(1) i plain, of "s ! i"] i len inv(2)
        by (simp add: unescape.simps [of s e room i])
    next
      case unicode
      obtain w where w: "weight_at s e i w" "length out + w < room" using inv(1) i by (auto simp: within_room_def)
      obtain n bs where u: "utf16_literal_to_utf8 s i e = Inr (n, bs)"
        "n \<noteq> 0 \<longrightarrow> i + n \<le> e \<and> (\<exists>w'. weight_at s e (i + n) w' \<and> w' + length bs \<le> w)"
        using utf16_safe [OF w(1) i inv(2)] unicode(2) by auto
      show ?thesis
      proof (cases "n = 0")
        case True
        then show ?thesis using u(1) unicode i len by (simp add: unescape.simps [of s e room i])
      next
        case False
        then obtain w' where w': "weight_at s e (i + n) w'" "w' + length bs \<le> w" "i + n \<le> e" using u(2) by auto
        note r = within_room_after [OF w(2) w'(2,1,3)]
        have "\<exists>r. unescape s e room (i + n) (out @ bs) = Inr r"
          using IH(2) [OF i len(1) _ len(2) unicode(2) u(1) refl False r(2) r(1) inv(2)] unicode(1) by simp
        then show ?thesis using u(1) unicode i len False r(2) by (simp add: unescape.simps [of s e room i])
      qed
    next
      case short
      show ?thesis
      proof (cases "short_escape (s ! (i + 1))")
        case None
        then show ?thesis using short i len by (simp add: unescape.simps [of s e room i])
      next
        case (Some c)
        note r = room_escape [OF inv(1) i, of c]
        have "\<exists>r. unescape s e room (i + 2) (out @ [c]) = Inr r"
          using IH(3) [OF i len(1) _ len(2) short(2) Some r(2) r(1) inv(2)] short(1) by simp
        then show ?thesis using Some short i len r(2) by (simp add: unescape.simps [of s e room i])
      qed
    qed
  qed
qed

lemma parse_string_safe:
  assumes "can_access_at_index b 0"
  shows "\<exists>r b'. parse_string b = Inr (r, b') \<and> pf_content b' = pf_content b \<and> pf_depth b' = pf_depth b \<and>
    (r \<noteq> None \<longrightarrow> pf_offset b < pf_offset b' \<and> pf_offset b' \<le> length (pf_content b))"
proof (cases "byte_at b 0 = CHR 0x22 \<and> scan_string (pf_content b) (pf_offset b + 1) 0 \<noteq> None")
  case False
  then show ?thesis using assms
    by (cases "scan_string (pf_content b) (pf_offset b + 1) 0") (auto simp: parse_string_def read_byte_def advance_def Let_def)
next
  case True
  then obtain e k where sc: "scan_string (pf_content b) (pf_offset b + 1) 0 = Some (e, k)" by auto
  note sb = scan_string_bounds [OF sc]
  have "weight_at (pf_content b) e (pf_offset b + 1) (e - (pf_offset b + 1) - k)"
    unfolding weight_at_def using sc by blast
  then have "within_room (pf_content b) e (e - pf_offset b - k + 1) (pf_offset b + 1) []"
    using sb unfolding within_room_def by (intro disjI1 conjI exI [of _ "e - (pf_offset b + 1) - k"]) auto
  then obtain r where "unescape (pf_content b) e (e - pf_offset b - k + 1) (pf_offset b + 1) [] = Inr r"
    using unescape_safe sb by blast
  then show ?thesis using True sc sb assms by (cases r) (auto simp: parse_string_def read_byte_def Let_def)
qed

section \<open>No read outside the buffer, and an end\<close>

definition nul_ended :: "string \<Rightarrow> bool" where
  "nul_ended s \<longleftrightarrow> s \<noteq> [] \<and> last s = NUL"

text \<open>
  What a parser that was started at \<open>b\<close> comes to: it ends; only a buffer without a NUL at its end
  can make it read outside; a node it returns is well formed and was read from bytes after \<open>b\<close>.
\<close>

definition sound_run :: "string option \<Rightarrow> parse_buffer \<Rightarrow> parsed run \<Rightarrow> bool" where
  "sound_run name b r \<longleftrightarrow>
     (case r of
        None \<Rightarrow> False
      | Some (Inl err) \<Rightarrow> err = InvalidRead \<and> \<not> nul_ended (pf_content b)
      | Some (Inr (None, b')) \<Rightarrow> pf_content b' = pf_content b
      | Some (Inr (Some c, b')) \<Rightarrow>
          pf_content b' = pf_content b \<and> pf_offset b < pf_offset b' \<and> pf_offset b' \<le> length (pf_content b) \<and>
          pf_depth b' = pf_depth b \<and> cj_name c = name \<and> node_ok c \<and> nesting c + pf_depth b \<le> CJSON_NESTING_LIMIT)"

lemma sound_fail [simp]: "sound_run name b (done_with (None, b')) \<longleftrightarrow> pf_content b' = pf_content b"
  by (simp add: sound_run_def done_with_def)

lemma sound_node [simp]:
  "sound_run name b (done_with (Some c, b')) \<longleftrightarrow>
     pf_content b' = pf_content b \<and> pf_offset b < pf_offset b' \<and> pf_offset b' \<le> length (pf_content b) \<and>
     pf_depth b' = pf_depth b \<and> cj_name c = name \<and> node_ok c \<and> nesting c + pf_depth b \<le> CJSON_NESTING_LIMIT"
  by (simp add: sound_run_def done_with_def)

lemma sound_cases:
  assumes "sound_run name b r"
  obtains (fault) "r = Some (Inl InvalidRead)" "\<not> nul_ended (pf_content b)"
  | (fail) b' where "r = Some (Inr (None, b'))" "pf_content b' = pf_content b"
  | (node) c b' where "r = Some (Inr (Some c, b'))" "pf_content b' = pf_content b" "pf_offset b < pf_offset b'"
      "pf_offset b' \<le> length (pf_content b)" "pf_depth b' = pf_depth b" "cj_name c = name" "node_ok c"
      "nesting c + pf_depth b \<le> CJSON_NESTING_LIMIT"
proof (cases r)
  case None
  then show ?thesis using assms by (simp add: sound_run_def)
next
  case (Some q)
  then show ?thesis
  proof (cases q)
    case (Inl err)
    then show ?thesis using assms Some fault by (simp add: sound_run_def)
  next
    case (Inr xb)
    then show ?thesis using assms Some fail node
      by (cases xb; cases "fst xb") (simp_all add: sound_run_def)
  qed
qed

lemma advance_simps [simp]:
  "pf_content (advance b n) = pf_content b" "pf_offset (advance b n) = pf_offset b + n" "pf_depth (advance b n) = pf_depth b"
  by (simp_all add: advance_def)

lemma step_back_simps [simp]:
  "pf_content (step_back b) = pf_content b" "pf_offset (step_back b) = pf_offset b - 1" "pf_depth (step_back b) = pf_depth b"
  by (simp_all add: step_back_def)

lemma skip_blanks_bounds: "i \<le> skip_blanks s i \<and> (i \<le> length s \<longrightarrow> skip_blanks s i \<le> length s)"
proof (induction s i rule: skip_blanks.induct)
  case (1 s i)
  then show ?case by (subst (1 2) skip_blanks.simps) auto
qed

lemma skip_simps [simp]:
  "pf_content (buffer_skip_whitespace b) = pf_content b" "pf_depth (buffer_skip_whitespace b) = pf_depth b"
  by (simp_all add: buffer_skip_whitespace_def Let_def)

lemma skip_accessible:
  "can_access_at_index b 0 \<Longrightarrow> can_access_at_index (buffer_skip_whitespace b) 0 \<and> pf_offset b \<le> pf_offset (buffer_skip_whitespace b)"
  using skip_blanks_bounds [of "pf_offset b" "pf_content b"]
  by (auto simp: buffer_skip_whitespace_def can_access_at_index_def Let_def)

lemma skip_at_end: "\<not> can_access_at_index b 0 \<Longrightarrow> buffer_skip_whitespace b = b"
  by (simp add: buffer_skip_whitespace_def)

lemma skip_offset:
  "pf_offset b \<le> pf_offset (buffer_skip_whitespace b)"
  "pf_offset b \<le> length (pf_content b) \<Longrightarrow> pf_offset (buffer_skip_whitespace b) \<le> length (pf_content b)"
  using skip_accessible [of b] skip_at_end [of b]
  by (cases "can_access_at_index b 0"; simp add: can_access_at_index_def)+

lemma is_at_access: "is_at b c \<Longrightarrow> pf_offset b < length (pf_content b)"
  by (simp add: is_at_def can_access_at_index_def)

lemma nul_ended_next:
  assumes "is_at b c" "c \<noteq> NUL" "nul_ended (pf_content b)"
  shows "can_access_at_index (advance b 1) 0"
proof (rule ccontr)
  assume "\<not> can_access_at_index (advance b 1) 0"
  then have "pf_offset b = length (pf_content b) - 1"
    using is_at_access [OF assms(1)] by (simp add: can_access_at_index_def)
  then show False using assms by (auto simp: is_at_def byte_at_def nul_ended_def last_conv_nth)
qed

lemma parse_string_text: "parse_string b = Inr (Some t, b') \<Longrightarrow> text_ok (Some t)"
  by (auto simp: parse_string_def text_ok_def c_str_no_NUL Let_def split: sum.splits option.splits if_splits)

lemma parse_string_cases:
  assumes "nul_ended (pf_content b) \<longrightarrow> can_access_at_index b 0"
  obtains (fault) "parse_string b = Inl InvalidRead" "\<not> nul_ended (pf_content b)"
  | (fail) b' where "parse_string b = Inr (None, b')" "pf_content b' = pf_content b"
  | (key) t b' where "parse_string b = Inr (Some t, b')" "text_ok (Some t)" "pf_content b' = pf_content b"
      "pf_depth b' = pf_depth b" "pf_offset b < pf_offset b'" "pf_offset b' \<le> length (pf_content b)"
proof (cases "can_access_at_index b 0")
  case False
  then show ?thesis using assms fault by (auto simp: parse_string_def read_byte_def)
next
  case True
  then obtain r b' where p: "parse_string b = Inr (r, b')" "pf_content b' = pf_content b" "pf_depth b' = pf_depth b"
    "r \<noteq> None \<longrightarrow> pf_offset b < pf_offset b' \<and> pf_offset b' \<le> length (pf_content b)"
    using parse_string_safe by blast
  then show ?thesis using fail key parse_string_text by (cases r) auto
qed

lemma sound_run_weaken:
  "sound_run name b r \<Longrightarrow> pf_content b0 = pf_content b \<Longrightarrow> pf_offset b0 \<le> pf_offset b \<Longrightarrow> pf_depth b0 = pf_depth b \<Longrightarrow>
     sound_run name b0 r"
  by (erule sound_cases) (auto simp: sound_run_def)

abbreviation fits_at :: "nat \<Rightarrow> cjson \<Rightarrow> bool" where
  "fits_at d c \<equiv> nesting c + d \<le> CJSON_NESTING_LIMIT"

lemma finish_sound:
  assumes "pf_content b' = pf_content b" "pf_offset b \<le> pf_offset b'" "is_at b' x" "pf_depth b' = Suc (pf_depth b)"
    and "pf_depth b < CJSON_NESTING_LIMIT"
    and "ty = cJSON_Array \<and> list_all (\<lambda>c. cj_name c = None \<and> node_ok c \<and> fits_at (Suc (pf_depth b)) c) cs \<or>
         ty = cJSON_Object \<and> list_all (\<lambda>c. text_ok (cj_name c) \<and> node_ok c \<and> fits_at (Suc (pf_depth b)) c) cs"
  shows "sound_run name b (finish ty name cs b')"
proof -
  have "foldr max (map nesting cs) 0 \<le> CJSON_NESTING_LIMIT - Suc (pf_depth b)"
    using assms(5,6) unfolding foldr_max_le by (auto simp: list_all_iff)
  then show ?thesis
    using assms is_at_access [OF assms(3)] by (auto simp: finish_def list_all_iff)
qed

lemma elements_sound:
  assumes pv: "\<And>b'. pf_content b' = pf_content b0 \<Longrightarrow> pf_offset b0 < pf_offset b' \<Longrightarrow> pf_depth b' = Suc (pf_depth b0) \<Longrightarrow>
      sound_run None b' (pv None b')"
    and d: "pf_depth b0 < CJSON_NESTING_LIMIT"
  shows "pf_content b = pf_content b0 \<Longrightarrow> pf_offset b0 \<le> pf_offset b \<Longrightarrow> pf_offset b < length (pf_content b) \<Longrightarrow>
    pf_depth b = Suc (pf_depth b0) \<Longrightarrow> length (pf_content b) - pf_offset b \<le> n \<Longrightarrow>
    list_all (\<lambda>c. cj_name c = None \<and> node_ok c \<and> fits_at (Suc (pf_depth b0)) c) cs \<Longrightarrow>
    sound_run name b0 (parse_elements n pv name cs b)"
proof (induction n arbitrary: cs b)
  case 0
  then show ?case by simp
next
  case (Suc n)
  let ?b1 = "buffer_skip_whitespace (advance b 1)"
  have o1: "pf_offset b < pf_offset ?b1" using skip_offset(1) [of "advance b 1"] by simp
  have "sound_run None ?b1 (pv None ?b1)" using pv [of ?b1] o1 Suc.prems by simp
  then show ?case
  proof (cases rule: sound_cases)
    case fault
    then show ?thesis using Suc.prems by (simp add: sound_run_def)
  next
    case (fail b')
    then show ?thesis using Suc.prems by simp
  next
    case (node c b')
    let ?b2 = "buffer_skip_whitespace b'"
    note o2 = skip_offset(1) [of b']
    have ok: "list_all (\<lambda>c. cj_name c = None \<and> node_ok c \<and> fits_at (Suc (pf_depth b0)) c) (cs @ [c])"
      using node Suc.prems by simp
    consider (comma) "is_at ?b2 (CHR '','')" | (close) "\<not> is_at ?b2 (CHR '','')" "is_at ?b2 (CHR '']'')"
      | (other) "\<not> is_at ?b2 (CHR '','')" "\<not> is_at ?b2 (CHR '']'')" by blast
    then show ?thesis
    proof cases
      case comma
      then have "sound_run name b0 (parse_elements n pv name (cs @ [c]) ?b2)"
        using Suc.IH [of ?b2 "cs @ [c]"] ok node o1 o2 is_at_access [OF comma] Suc.prems by simp
      then show ?thesis using node(1) comma by (simp add: Let_def)
    next
      case close
      have "sound_run name b0 (finish cJSON_Array name (cs @ [c]) ?b2)"
        by (rule finish_sound [OF _ _ close(2)]) (use ok node o1 o2 d Suc.prems in auto)
      then show ?thesis using node(1) close by (simp add: Let_def)
    next
      case other
      then show ?thesis using node Suc.prems by (simp add: Let_def)
    qed
  qed
qed

lemma members_sound:
  assumes pv: "\<And>t b'. pf_content b' = pf_content b0 \<Longrightarrow> pf_offset b0 < pf_offset b' \<Longrightarrow> pf_depth b' = Suc (pf_depth b0) \<Longrightarrow>
      sound_run (Some t) b' (pv (Some t) b')"
    and d: "pf_depth b0 < CJSON_NESTING_LIMIT"
  shows "pf_content b = pf_content b0 \<Longrightarrow> pf_offset b0 \<le> pf_offset b \<Longrightarrow> pf_offset b < length (pf_content b) \<Longrightarrow>
    pf_depth b = Suc (pf_depth b0) \<Longrightarrow> length (pf_content b) - pf_offset b \<le> n \<Longrightarrow>
    (nul_ended (pf_content b) \<Longrightarrow> can_access_at_index (advance b 1) 0) \<Longrightarrow>
    list_all (\<lambda>c. text_ok (cj_name c) \<and> node_ok c \<and> fits_at (Suc (pf_depth b0)) c) cs \<Longrightarrow>
    sound_run name b0 (parse_members n pv name cs b)"
proof (induction n arbitrary: cs b)
  case 0
  then show ?case by simp
next
  case (Suc n)
  let ?b1 = "buffer_skip_whitespace (advance b 1)"
  have o1: "pf_offset b < pf_offset ?b1" using skip_offset(1) [of "advance b 1"] by simp
  have acc: "nul_ended (pf_content ?b1) \<longrightarrow> can_access_at_index ?b1 0"
    using Suc.prems(6) skip_accessible [of "advance b 1"] by simp
  show ?case
  proof (cases rule: parse_string_cases [OF acc])
    case 1
    then show ?thesis using 1 Suc.prems by (simp add: sound_run_def lift_error_def)
  next
    case (2 b')
    then show ?thesis using 2 Suc.prems by (simp add: lift_error_def)
  next
    case (3 t b')
    let ?b2 = "buffer_skip_whitespace b'"
    let ?b3 = "buffer_skip_whitespace (advance ?b2 1)"
    note o2 = skip_offset(1) [of b'] skip_offset(1) [of "advance ?b2 1"]
    show ?thesis
    proof (cases "is_at ?b2 (CHR '':'')")
      case False
      then show ?thesis using 3 Suc.prems by (simp add: lift_error_def Let_def)
    next
      case colon: True
      have run: "sound_run name b0 (parse_members (Suc n) pv name cs b) \<longleftrightarrow> sound_run name b0
        (run_then (pv (Some t) ?b3) (\<lambda>(r, b3). case r of None \<Rightarrow> done_with (None, b3)
           | Some c \<Rightarrow> (let b4 = buffer_skip_whitespace b3; cs' = cs @ [c] in
               if is_at b4 (CHR '','') then parse_members n pv name cs' b4
               else if \<not> is_at b4 (CHR 0x7D) then done_with (None, b4) else finish cJSON_Object name cs' b4)))"
        (is "_ \<longleftrightarrow> sound_run name b0 ?rest")
        using 3 colon by (simp add: lift_error_def Let_def)
      have "sound_run (Some t) ?b3 (pv (Some t) ?b3)" using pv [of ?b3 t] o1 o2 3 Suc.prems by simp
      then show ?thesis unfolding run
      proof (cases rule: sound_cases)
        case fault
        then show "sound_run name b0 ?rest" using Suc.prems 3 by (simp add: sound_run_def)
      next
        case (fail b'')
        then show "sound_run name b0 ?rest" using Suc.prems 3 by simp
      next
        case (node c b'')
        let ?b4 = "buffer_skip_whitespace b''"
        note o4 = skip_offset(1) [of b'']
        have ok: "list_all (\<lambda>c. text_ok (cj_name c) \<and> node_ok c \<and> fits_at (Suc (pf_depth b0)) c) (cs @ [c])"
          using node Suc.prems 3 by simp
        have off: "pf_offset b < pf_offset ?b4" "pf_content ?b4 = pf_content b0" "pf_depth ?b4 = Suc (pf_depth b0)"
          using node o1 o2 o4 3 Suc.prems by simp_all
        consider (comma) "is_at ?b4 (CHR '','')" | (close) "\<not> is_at ?b4 (CHR '','')" "is_at ?b4 (CHR 0x7D)"
          | (other) "\<not> is_at ?b4 (CHR '','')" "\<not> is_at ?b4 (CHR 0x7D)" by blast
        then show "sound_run name b0 ?rest"
        proof cases
          case comma
          have "sound_run name b0 (parse_members n pv name (cs @ [c]) ?b4)"
            using Suc.IH [of ?b4 "cs @ [c]"] ok off is_at_access [OF comma] nul_ended_next [OF comma] Suc.prems by simp
          then show "sound_run name b0 ?rest" using node(1) comma by (simp add: Let_def)
        next
          case close
          have "sound_run name b0 (finish cJSON_Object name (cs @ [c]) ?b4)"
            by (rule finish_sound [OF _ _ close(2)]) (use ok off d Suc.prems in auto)
          then show "sound_run name b0 ?rest" using node(1) close by (simp add: Let_def)
        next
          case other
          then show "sound_run name b0 ?rest" using node off by (simp add: Let_def)
        qed
      qed
    qed
  qed
qed

lemma to_double_not_nan: "to_double v \<noteq> Not_a_number"
  by (auto simp: to_double_def round_pos_def Let_def)

lemma saturated_Some: "d \<noteq> Not_a_number \<Longrightarrow> \<exists>i. saturated d = Some i"
proof (cases d)
  case (Infinite s)
  then show ?thesis by (cases s) (auto simp: saturated_def)
qed (auto simp: saturated_def)

lemma strtod_result: "strtod s = (d, n) \<Longrightarrow> d \<noteq> Not_a_number \<and> dbl_ok d \<and> n \<le> length s"
  using to_double_ok [of 0]
  by (auto simp: strtod_def to_double_not_nan to_double_ok Let_def to_double_def [of 0] split: prod.splits if_splits)

lemma number_c_string_length: "length (number_c_string b) \<le> length (pf_content b) - pf_offset b"
  unfolding number_c_string_def by (rule order_trans [OF length_takeWhile_le]) simp

lemma parse_number_sound:
  assumes "can_access_at_index b 0" "pf_depth b \<le> CJSON_NESTING_LIMIT"
  shows "sound_run name b (done_with (parse_number name b))"
proof -
  obtain d n where st: "strtod (number_c_string b) = (d, n)" by (cases "strtod (number_c_string b)")
  note r = strtod_result [OF st]
  obtain i where "saturated d = Some i" using saturated_Some r by blast
  then show ?thesis
    using assms r number_c_string_length [of b]
    by (auto simp: parse_number_def st can_access_at_index_def)
qed

lemma parse_array_sound:
  assumes pv: "\<And>b'. pf_depth b < CJSON_NESTING_LIMIT \<Longrightarrow> pf_content b' = pf_content b \<Longrightarrow> pf_offset b < pf_offset b' \<Longrightarrow> pf_depth b' = Suc (pf_depth b) \<Longrightarrow>
      sound_run None b' (pv None b')"
    and b: "is_at b (CHR ''['')" "length (pf_content b) - pf_offset b \<le> k"
  shows "sound_run name b (parse_array k pv name b)"
proof (cases "CJSON_NESTING_LIMIT \<le> pf_depth b")
  case True
  then show ?thesis by (simp add: parse_array_def)
next
  case False
  let ?b1 = "b\<lparr>pf_depth := pf_depth b + 1\<rparr>"
  let ?b2 = "buffer_skip_whitespace (advance ?b1 1)"
  have o2: "pf_offset b < pf_offset ?b2" using skip_offset(1) [of "advance ?b1 1"] by simp
  have r: "read_byte ?b1 0 = Inr (CHR ''['')"
    using b by (simp add: read_byte_def is_at_def can_access_at_index_def byte_at_def)
  consider (empty) "is_at ?b2 (CHR '']'')" | (stop) "\<not> is_at ?b2 (CHR '']'')" "\<not> can_access_at_index ?b2 0"
    | (some) "\<not> is_at ?b2 (CHR '']'')" "can_access_at_index ?b2 0" by blast
  then show ?thesis
  proof cases
    case empty
    have "sound_run name b (finish cJSON_Array name [] ?b2)"
      by (rule finish_sound [OF _ _ empty]) (use o2 False in auto)
    then show ?thesis using False r empty by (simp add: parse_array_def lift_error_def Let_def)
  next
    case stop
    then show ?thesis using False r by (simp add: parse_array_def lift_error_def Let_def)
  next
    case some
    have "sound_run name b (parse_elements k pv name [] (step_back ?b2))"
      by (rule elements_sound) (use pv o2 some b False in \<open>auto simp: can_access_at_index_def\<close>)
    then show ?thesis using False r some by (simp add: parse_array_def lift_error_def Let_def)
  qed
qed

lemma parse_object_sound:
  assumes pv: "\<And>t b'. pf_depth b < CJSON_NESTING_LIMIT \<Longrightarrow> pf_content b' = pf_content b \<Longrightarrow> pf_offset b < pf_offset b' \<Longrightarrow> pf_depth b' = Suc (pf_depth b) \<Longrightarrow>
      sound_run (Some t) b' (pv (Some t) b')"
    and b: "is_at b (CHR 0x7B)" "length (pf_content b) - pf_offset b \<le> k"
  shows "sound_run name b (parse_object k pv name b)"
proof (cases "CJSON_NESTING_LIMIT \<le> pf_depth b")
  case True
  then show ?thesis by (simp add: parse_object_def)
next
  case False
  let ?b1 = "b\<lparr>pf_depth := pf_depth b + 1\<rparr>"
  let ?b2 = "buffer_skip_whitespace (advance ?b1 1)"
  have o2: "pf_offset b < pf_offset ?b2" using skip_offset(1) [of "advance ?b1 1"] by simp
  have r: "is_at ?b1 (CHR 0x7B)"
    using b by (simp add: is_at_def can_access_at_index_def byte_at_def)
  consider (empty) "is_at ?b2 (CHR 0x7D)" | (stop) "\<not> is_at ?b2 (CHR 0x7D)" "\<not> can_access_at_index ?b2 0"
    | (some) "\<not> is_at ?b2 (CHR 0x7D)" "can_access_at_index ?b2 0" by blast
  then show ?thesis
  proof cases
    case empty
    have "sound_run name b (finish cJSON_Object name [] ?b2)"
      by (rule finish_sound [OF _ _ empty]) (use o2 False in auto)
    then show ?thesis using False r empty by (simp add: parse_object_def Let_def)
  next
    case stop
    then show ?thesis using False r by (simp add: parse_object_def Let_def)
  next
    case some
    have "sound_run name b (parse_members k pv name [] (step_back ?b2))"
      by (rule members_sound) (use pv o2 some b False in \<open>auto simp: can_access_at_index_def\<close>)
    then show ?thesis using False r some by (simp add: parse_object_def Let_def)
  qed
qed

lemma strncmp_at_fits: "strncmp_at b lit \<Longrightarrow> pf_offset b + length lit \<le> length (pf_content b)"
  by (simp add: strncmp_at_def can_read_def)

lemma parse_value_sound:
  "length (pf_content b) - pf_offset b < k \<Longrightarrow> pf_depth b \<le> CJSON_NESTING_LIMIT \<Longrightarrow> sound_run name b (parse_value k name b)"
proof (induction k arbitrary: name b)
  case 0
  then show ?case by simp
next
  case (Suc k)
  have IH: "sound_run t b' (parse_value k t b')"
    if "pf_content b' = pf_content b" "pf_offset b < pf_offset b'" "pf_depth b' = Suc (pf_depth b)"
      "pf_depth b < CJSON_NESTING_LIMIT" "pf_offset b < length (pf_content b)" for t b'
    using Suc.IH [of b' t] that Suc.prems by simp
  show ?case
  proof (cases "strncmp_at b ''null'' \<or> strncmp_at b ''false'' \<or> strncmp_at b ''true''")
    case True
    then show ?thesis using Suc.prems(2)
      by (auto dest: strncmp_at_fits)
  next
    case words: False
    consider (quote) "is_at b (CHR 0x22)"
      | (number) "at_number b" "\<not> is_at b (CHR 0x22)"
      | (rest) "\<not> is_at b (CHR 0x22)" "\<not> at_number b"
      by blast
    then show ?thesis
    proof cases
      case quote
      then have "nul_ended (pf_content b) \<longrightarrow> can_access_at_index b 0" by (simp add: is_at_def)
      then show ?thesis
      proof (cases rule: parse_string_cases)
        case fault
        then show ?thesis using words quote by (simp add: lift_error_def sound_run_def)
      next
        case (fail b')
        then show ?thesis using words quote by (simp add: lift_error_def)
      next
        case (key t b')
        then show ?thesis using words quote Suc.prems by (simp add: lift_error_def)
      qed
    next
      case number
      then show ?thesis using words parse_number_sound [of b name] Suc.prems by (simp add: at_number_def)
    next
      case rest
      consider (array) "is_at b (CHR ''['')" | (object) "\<not> is_at b (CHR ''['')" "is_at b (CHR 0x7B)"
        | (other) "\<not> is_at b (CHR ''['')" "\<not> is_at b (CHR 0x7B)" by blast
      then show ?thesis
      proof cases
        case array
        have "sound_run name b (parse_array k (parse_value k) name b)"
          by (rule parse_array_sound) (use IH array is_at_access [OF array] Suc.prems in auto)
        then show ?thesis using words rest array by simp
      next
        case object
        have "sound_run name b (parse_object k (parse_value k) name b)"
          by (rule parse_object_sound) (use IH object is_at_access [OF object(2)] Suc.prems in auto)
        then show ?thesis using words rest object by simp
      next
        case other
        then show ?thesis using words rest other by simp
      qed
    qed
  qed
qed

lemma parse_start:
  "bytes \<noteq> [] \<Longrightarrow> \<exists>b. skip_utf8_bom \<lparr>pf_content = bytes, pf_offset = 0, pf_depth = 0\<rparr> = Some b \<and> pf_content b = bytes \<and> pf_depth b = 0"
  by (auto simp: skip_utf8_bom_def)

lemma parse_opts_outcome:
  "case cJSON_ParseWithLengthOpts bytes req of
     None \<Rightarrow> False
   | Some (Inl err) \<Rightarrow> err = InvalidRead \<and> bytes \<noteq> [] \<and> \<not> nul_ended bytes
   | Some (Inr (Inl p)) \<Rightarrow> p \<le> length bytes
   | Some (Inr (Inr (item, p))) \<Rightarrow> p \<le> length bytes \<and> cj_name item = None \<and> node_ok item \<and> nesting item \<le> CJSON_NESTING_LIMIT"
proof (cases "bytes = []")
  case True
  then show ?thesis by (simp add: cJSON_ParseWithLengthOpts_def done_with_def)
next
  case False
  then obtain b where b: "skip_utf8_bom \<lparr>pf_content = bytes, pf_offset = 0, pf_depth = 0\<rparr> = Some b" "pf_content b = bytes" "pf_depth b = 0"
    using parse_start by blast
  let ?b = "buffer_skip_whitespace b"
  have "sound_run None ?b (parse_value (Suc (length bytes)) None ?b)"
    by (rule parse_value_sound) (use b in auto)
  then show ?thesis
  proof (cases rule: sound_cases)
    case fault
    then show ?thesis using False b by (simp add: cJSON_ParseWithLengthOpts_def Let_def)
  next
    case (fail b')
    then show ?thesis using False b by (simp add: cJSON_ParseWithLengthOpts_def Let_def done_with_def)
  next
    case (node c b')
    then show ?thesis using False b is_at_access [of "buffer_skip_whitespace b'" NUL]
      by (simp add: cJSON_ParseWithLengthOpts_def Let_def done_with_def) linarith
  qed
qed

lemma nul_ended_c_str: "nul_ended (c_str value @ [NUL])"
  by (simp add: nul_ended_def)

lemma parse_safe:
  "case cJSON_Parse s of
     None \<Rightarrow> False
   | Some (Inl err) \<Rightarrow> False
   | Some (Inr None) \<Rightarrow> True
   | Some (Inr (Some item)) \<Rightarrow> cj_name item = None \<and> node_ok item \<and> nesting item \<le> CJSON_NESTING_LIMIT"
  using parse_opts_outcome [of "c_str s @ [NUL]" False] nul_ended_c_str [of s]
  by (auto simp: cJSON_Parse_def parsed_tree_def cJSON_ParseWithOpts_def done_with_def split: option.splits sum.splits)

text \<open>
  C16. Reading the text of a task: on every text \<^verbatim>\<open>cJSON_Parse\<close> returns, reads no byte behind the
  NUL of the text and writes none behind the memory it allocated for a string; a tree it returns is
  well formed and no deeper than the limit.
\<close>

theorem cjson_parse_safe:
  "case cJSON_Parse s of
     None \<Rightarrow> False
   | Some (Inl err) \<Rightarrow> False
   | Some (Inr None) \<Rightarrow> True
   | Some (Inr (Some item)) \<Rightarrow> cj_name item = None \<and> node_ok item \<and> nesting item \<le> CJSON_NESTING_LIMIT"
  by (rule parse_safe)

text \<open>
  The entry point that is given a length and a text without a NUL reads one byte too far when
  an object ends behind a comma: the name of the next member is looked at without a test.
\<close>

theorem parse_with_length_reads_outside:
  "cJSON_ParseWithLength ''{\"1\":null,'' = Some (Inl InvalidRead)"
  by code_simp

section \<open>The bytes of an escaped character\<close>

text \<open>UTF-8 as its definition has it.\<close>

fun utf8_reference :: "nat \<Rightarrow> nat list" where
  "utf8_reference cp =
     (if cp < 0x80 then [cp]
      else if cp < 0x800 then [0xC0 + cp div 64, 0x80 + cp mod 64]
      else if cp < 0x10000 then [0xE0 + cp div 4096, 0x80 + cp div 64 mod 64, 0x80 + cp mod 64]
      else [0xF0 + cp div 262144, 0x80 + cp div 4096 mod 64, 0x80 + cp div 64 mod 64, 0x80 + cp mod 64])"

lemma bit_191: "bit (191 :: nat) n \<longleftrightarrow> n < 8 \<and> n \<noteq> 6"
proof (cases "n < 8")
  case True
  then consider "n = 0" | "n = 1" | "n = 2" | "n = 3" | "n = 4" | "n = 5" | "n = 6" | "n = 7" by linarith
  then show ?thesis by cases (simp_all add: bit_iff_odd)
next
  case False
  have "191 < (2 :: nat) ^ 8" by simp
  also have "\<dots> \<le> 2 ^ n" using False by (intro power_increasing) simp_all
  finally show ?thesis using False by (simp add: bit_iff_odd)
qed

lemma bit_128: "bit (128 :: nat) n \<longleftrightarrow> n = 7"
  using bit_exp_iff [of 7 n, where 'a = nat] by simp

lemma continuation_byte: "and (or cp 0x80) 0xBF = 0x80 + cp mod (64 :: nat)"
proof -
  have m: "cp mod 64 = take_bit 6 cp" by (simp add: take_bit_eq_mod)
  have "0x80 + cp mod 64 = or 0x80 (cp mod 64)"
    by (rule disjunctive_add) (auto simp: m bit_128 bit_take_bit_iff)
  moreover have "and (or cp 0x80) 0xBF = or 0x80 (cp mod 64)"
    by (rule bit_eqI) (auto simp: m bit_and_iff bit_or_iff bit_191 bit_128 bit_take_bit_iff)
  ultimately show ?thesis by simp
qed

lemma lead_byte:
  "cp < 2 ^ 5 \<Longrightarrow> or cp 0xC0 mod 256 = 0xC0 + (cp :: nat)"
  "cp < 2 ^ 4 \<Longrightarrow> or cp 0xE0 mod 256 = 0xE0 + (cp :: nat)"
  "cp < 2 ^ 3 \<Longrightarrow> or cp 0xF0 mod 256 = 0xF0 + (cp :: nat)"
proof -
  have gen: "or cp (m * 2 ^ k) mod 256 = m * 2 ^ k + cp" if "cp < 2 ^ k" "m * 2 ^ k + 2 ^ k \<le> 256" for k m
  proof -
    have "push_bit k m + take_bit k cp = or (push_bit k m) (take_bit k cp)"
      by (rule disjunctive_add) (auto simp: bit_push_bit_iff bit_take_bit_iff)
    moreover have "take_bit k cp = cp" using that by (simp add: take_bit_nat_eq_self)
    ultimately have "or cp (m * 2 ^ k) = m * 2 ^ k + cp" by (simp add: push_bit_eq_mult or.commute)
    then show ?thesis using that by simp
  qed
  show "cp < 2 ^ 5 \<Longrightarrow> or cp 0xC0 mod 256 = 0xC0 + cp" using gen [of 5 6] by simp
  show "cp < 2 ^ 4 \<Longrightarrow> or cp 0xE0 mod 256 = 0xE0 + cp" using gen [of 4 14] by simp
  show "cp < 2 ^ 3 \<Longrightarrow> or cp 0xF0 mod 256 = 0xF0 + cp" using gen [of 3 30] by simp
qed

lemma utf8_bytes_reference:
  assumes "cp \<le> 0x10FFFF"
  shows "utf8_bytes cp = Some (map char_of (utf8_reference cp))"
proof -
  have d: "cp div 64 div 64 = cp div 4096" "cp div 64 div 64 div 64 = cp div 262144" "cp div 4096 div 64 = cp div 262144"
    by (simp_all add: div_mult2_eq [symmetric])
  consider "cp < 0x80" | "\<not> cp < 0x80" "cp < 0x800" | "\<not> cp < 0x800" "cp < 0x10000" | "\<not> cp < 0x10000" by linarith
  then show ?thesis
  proof cases
    case 1
    then show ?thesis by (simp add: utf8_bytes_def)
  next
    case 2
    then have "cp div 64 < 2 ^ 5" by auto
    then show ?thesis using 2 by (simp add: utf8_bytes_def continuation_byte lead_byte)
  next
    case 3
    then have "cp div 4096 < 2 ^ 4" by auto
    then show ?thesis using 3 by (simp add: utf8_bytes_def numeral_2_eq_2 continuation_byte lead_byte d)
  next
    case 4
    then have "cp div 262144 < 2 ^ 3" using assms by auto
    then show ?thesis using assms 4 by (simp add: utf8_bytes_def numeral_3_eq_3 continuation_byte lead_byte d)
  qed
qed

lemma surrogates:
  assumes "is_high h" "is_low l"
  shows "pair_code h l = 0x10000 + (h - 0xD800) * 0x400 + (l - 0xDC00)"
proof -
  have m: "and x 0x3FF = take_bit 10 x" for x :: nat
    using take_bit_eq_mask [of 10 x] by (simp add: mask_eq_exp_minus_1)
  have sub: "take_bit 10 x = x - c" if "c \<le> x" "x < c + 1024" "c mod 1024 = 0" for x c :: nat
  proof -
    have "x mod 1024 = (x - c) mod 1024" using that by (metis add_0 le_add_diff_inverse mod_add_left_eq)
    then show ?thesis using that by (simp add: take_bit_eq_mod)
  qed
  have h: "take_bit 10 h = h - 0xD800" and l: "take_bit 10 l = l - 0xDC00"
    using assms sub [of "0xD800" h] sub [of "0xDC00" l] by (simp_all add: is_high_def is_low_def)
  have "push_bit 10 (take_bit 10 h) + take_bit 10 l = or (push_bit 10 (take_bit 10 h)) (take_bit 10 l)"
    by (rule disjunctive_add) (auto simp: bit_push_bit_iff bit_take_bit_iff)
  then show ?thesis unfolding pair_code_def m using h l by (simp add: push_bit_eq_mult)
qed

lemma hex4_loop_bound:
  "hex4_loop s i k h = Inr x \<Longrightarrow> h mod 16 = 0 \<Longrightarrow> 0 < k \<Longrightarrow> x < (h + 16) * 16 ^ (k - 1)"
proof (induction k arbitrary: i h)
  case 0
  then show ?case by simp
next
  case (Suc k)
  show ?case
  proof (cases "hex_value (s ! i)")
    case None
    then show ?thesis using Suc.prems by (auto split: if_splits)
  next
    case (Some d)
    then have d: "d < 16" using hex_value_no_escape by blast
    show ?thesis
    proof (cases "k = 0")
      case True
      then show ?thesis using Suc.prems Some d by (auto split: if_splits)
    next
      case False
      then have "x < ((h + d) * 16 + 16) * 16 ^ (k - 1)" using Suc.IH [of "Suc i" "(h + d) * 16"] Suc.prems Some by (auto split: if_splits)
      also have "\<dots> = (h + d + 1) * 16 ^ k" using False by (cases k) (simp_all add: algebra_simps)
      also have "\<dots> \<le> (h + 16) * 16 ^ k" using d by (intro mult_le_mono1) simp
      finally show ?thesis by simp
    qed
  qed
qed

lemma parse_hex4_bound: "parse_hex4 s i = Inr x \<Longrightarrow> x < 0x10000"
  using hex4_loop_bound [of s i 4 0 x] by (simp add: parse_hex4_def)

lemma hex4_numeral:
  "hex4_loop s i (numeral v) h =
     (if length s \<le> i then Inl InvalidRead
      else case hex_value (s ! i) of
             None \<Rightarrow> Inr 0
           | Some d \<Rightarrow> hex4_loop s (Suc i) (pred_numeral v) (if 0 < pred_numeral v then (h + d) * 16 else h + d))"
  by (simp add: numeral_eq_Suc)



text \<open>
  A \<^verbatim>\<open>\u\<close> that is not followed by four hexadecimal digits is not rejected: it is taken for the code
  point 0, and the NUL it gives ends the string for everyone who reads it.
\<close>

theorem bad_escape_cuts:
  "cJSON_Parse ([CHR 0x22] @ ''ab'' @ [CHR 0x5C] @ ''uzzzzcd'' @ [CHR 0x22]) =
     done_with (Some (CJson None cJSON_String (Some ''ab'') 0 (Finite 0) []))"
proof -
  let ?t = "[CHR 0x22] @ ''ab'' @ [CHR 0x5C] @ ''uzzzzcd'' @ [CHR 0x22]"
  have sc: "scan_string (?t @ [NUL]) 1 0 = Some (11, 1)"
    by (simp add: scan_string.simps)
  have u: "unescape (?t @ [NUL]) 11 11 1 [] = Inr (Inr (''ab'' @ NUL # ''cd''))"
    by (simp add: unescape.simps put_out_def utf16_literal_to_utf8_def parse_hex4_def hex4_numeral hex_value_def
      is_low_def is_high_def utf8_bytes_def char_of_def)
  have p: "parse_string \<lparr>pf_content = ?t @ [NUL], pf_offset = 0, pf_depth = 0\<rparr> =
     Inr (Some ''ab'', \<lparr>pf_content = ?t @ [NUL], pf_offset = 12, pf_depth = 0\<rparr>)"
    using sc u by (simp add: parse_string_def read_byte_def can_access_at_index_def byte_at_def Let_def c_str_def)
  show ?thesis 
    using p by (simp add: cJSON_Parse_def cJSON_ParseWithOpts_def cJSON_ParseWithLengthOpts_def Let_def skip_utf8_bom_def
       parsed_tree_def buffer_skip_whitespace_def skip_blanks.simps can_access_at_index_def can_read_def strncmp_at_def
       is_at_def byte_at_def lift_error_def c_str_def)
qed

end
