(* ===== verification/Cjson_Print.thy ===== *)
theory Cjson_Print
  imports Cjson
begin

text \<open>
  The printer of \<^verbatim>\<open>file_compare/common/cJSON.cc\<close>. The memory of the print buffer is a list of bytes of
  which some were never written (\<open>None\<close>); a write outside it, a read outside it or of a byte that
  was not written is an error. Whether the allocation functions have memory for a size is part of
  the hooks. A function returns the buffer with whether it succeeded. \<open>json_text\<close> is the text a
  tree stands for, which the buffer is shown to hold.
\<close>

section \<open>The buffer\<close>

record print_hooks =
  h_allocate :: "nat \<Rightarrow> bool"
  h_reallocate :: "(nat \<Rightarrow> bool) option"

record printbuffer =
  pr_buffer :: "char option list option"
  pr_length :: nat
  pr_offset :: nat
  pr_depth :: nat
  pr_noalloc :: bool
  pr_format :: bool
  pr_hooks :: print_hooks

type_synonym printing = "cpp_error + bool \<times> printbuffer"

definition int_max :: nat where
  "int_max = 2147483647"

text \<open>What \<^verbatim>\<open>ensure\<close> makes of the buffer when it has to grow to hold \<open>needed\<close> bytes.\<close>

definition grown :: "char option list \<Rightarrow> nat \<Rightarrow> char option list" where
  "grown mem n = take n (mem @ replicate n None)"

definition grow :: "printbuffer \<Rightarrow> char option list \<Rightarrow> nat \<Rightarrow> printing" where
  "grow p mem needed =
     (if int_max div 2 < needed \<and> \<not> needed \<le> int_max then Inr (False, p)
      else
        (let newsize = (if int_max div 2 < needed then int_max else needed * 2);
             gone = p\<lparr>pr_length := 0, pr_buffer := None\<rparr>
         in case h_reallocate (pr_hooks p) of
              Some has_memory \<Rightarrow>
                if has_memory newsize then Inr (True, p\<lparr>pr_length := newsize, pr_buffer := Some (grown mem newsize)\<rparr>)
                else Inr (False, gone)
            | None \<Rightarrow>
                if \<not> h_allocate (pr_hooks p) newsize then Inr (False, gone)
                else if length mem < pr_offset p + 1 then Inl InvalidRead
                else Inr (True, p\<lparr>pr_length := newsize, pr_buffer := Some (grown (take (pr_offset p + 1) mem) newsize)\<rparr>)))"

definition ensure :: "printbuffer \<Rightarrow> nat \<Rightarrow> printing" where
  "ensure p needed =
     (case pr_buffer p of
        None \<Rightarrow> Inr (False, p)
      | Some mem \<Rightarrow>
          if 0 < pr_length p \<and> pr_length p \<le> pr_offset p then Inr (False, p)
          else if int_max < needed then Inr (False, p)
          else if needed + pr_offset p + 1 \<le> pr_length p then Inr (True, p)
          else if pr_noalloc p then Inr (False, p)
          else grow p mem (needed + pr_offset p + 1))"

text \<open>Bytes written at \<open>i\<close> behind the offset.\<close>

definition poke :: "printbuffer \<Rightarrow> nat \<Rightarrow> string \<Rightarrow> printing" where
  "poke p i bs =
     (case pr_buffer p of
        None \<Rightarrow> Inl InvalidWrite
      | Some mem \<Rightarrow>
          let pos = pr_offset p + i in
          if length mem < pos + length bs then Inl InvalidWrite
          else Inr (True, p\<lparr>pr_buffer := Some (take pos mem @ map Some bs @ drop (pos + length bs) mem)\<rparr>))"

definition forward :: "printbuffer \<Rightarrow> nat \<Rightarrow> printbuffer" where
  "forward p n = p\<lparr>pr_offset := pr_offset p + n\<rparr>"

fun strlen_at :: "char option list \<Rightarrow> nat option" where
  "strlen_at [] = None"
| "strlen_at (None # _) = None"
| "strlen_at (Some c # rest) = (if c = NUL then Some 0 else map_option Suc (strlen_at rest))"

definition update_offset :: "printbuffer \<Rightarrow> printing" where
  "update_offset p =
     (case pr_buffer p of
        None \<Rightarrow> Inr (True, p)
      | Some mem \<Rightarrow>
          (case strlen_at (drop (pr_offset p) mem) of
             None \<Rightarrow> Inl InvalidRead
           | Some n \<Rightarrow> Inr (True, forward p n)))"

text \<open>The next step, unless the last one failed.\<close>

definition pr_then :: "printing \<Rightarrow> (printbuffer \<Rightarrow> printing) \<Rightarrow> printing" where
  "pr_then r f = (case r of Inl err \<Rightarrow> Inl err | Inr (ok, p) \<Rightarrow> if ok then f p else Inr (False, p))"

text \<open>Bytes behind \<^verbatim>\<open>ensure\<close>, with the offset left where it is and with the offset behind them.\<close>

definition ensure_poke :: "printbuffer \<Rightarrow> nat \<Rightarrow> string \<Rightarrow> printing" where
  "ensure_poke p needed bs = pr_then (ensure p needed) (\<lambda>p. poke p 0 bs)"

definition ensure_put :: "printbuffer \<Rightarrow> nat \<Rightarrow> string \<Rightarrow> nat \<Rightarrow> printing" where
  "ensure_put p needed bs n = pr_then (ensure_poke p needed bs) (\<lambda>p. Inr (True, forward p n))"

section \<open>Numbers\<close>

definition number_text :: "int \<Rightarrow> c_double \<Rightarrow> string" where
  "number_text i d =
     (if isnan d \<or> isinf d then ''null''
      else if dbl_eq d (Finite (of_int i)) then show_int i
      else
        (case d of
           Finite q \<Rightarrow>
             (let t = printf_g 15 q in
              case strtod t of (test, used) \<Rightarrow>
                if used = 0 \<or> \<not> compare_double test d then printf_g 17 q else t)
         | _ \<Rightarrow> []))"

text \<open>The text is printed into \<^verbatim>\<open>number_buffer[26]\<close> first.\<close>

definition print_number :: "int \<Rightarrow> c_double \<Rightarrow> printbuffer \<Rightarrow> printing" where
  "print_number i d p =
     (let t = number_text i d in
      if 26 < length t + 1 then Inl InvalidWrite
      else ensure_put p (length t + 1) (t @ [NUL]) (length t))"

section \<open>Strings\<close>

definition hex_char :: "nat \<Rightarrow> char" where
  "hex_char n = (if n < 10 then char_of (48 + n) else char_of (87 + n))"

definition hex4 :: "nat \<Rightarrow> string" where
  "hex4 n = [hex_char (n div 4096 mod 16), hex_char (n div 256 mod 16), hex_char (n div 16 mod 16), hex_char (n mod 16)]"

definition short_name :: "char \<Rightarrow> char option" where
  "short_name c =
     (if c = CHR 0x5C \<or> c = CHR 0x22 then Some c
      else if c = CHR 0x08 then Some (CHR ''b'')
      else if c = CHR 0x0C then Some (CHR ''f'')
      else if c = CHR 0x0A then Some (CHR ''n'')
      else if c = CHR 0x0D then Some (CHR ''r'')
      else if c = CHR 0x09 then Some (CHR ''t'')
      else None)"

text \<open>The bytes an escape adds.\<close>

definition escape_extra :: "char \<Rightarrow> nat" where
  "escape_extra c = (if short_name c \<noteq> None then 1 else if of_char c < (32 :: nat) then 5 else 0)"

text \<open>\<^verbatim>\<open>sprintf\<close> ends what it prints with a NUL, which the next byte overwrites.\<close>

fun put_escaped :: "printbuffer \<Rightarrow> nat \<Rightarrow> string \<Rightarrow> printing" where
  "put_escaped p i [] = Inr (True, p)"
| "put_escaped p i (c # cs) =
     (if 31 < (of_char c :: nat) \<and> c \<noteq> CHR 0x22 \<and> c \<noteq> CHR 0x5C then
        pr_then (poke p i [c]) (\<lambda>p. put_escaped p (i + 1) cs)
      else
        (case short_name c of
           Some n \<Rightarrow> pr_then (poke p i [CHR 0x5C, n]) (\<lambda>p. put_escaped p (i + 2) cs)
         | None \<Rightarrow>
             pr_then (poke p i ([CHR 0x5C, CHR ''u''] @ hex4 (of_char c) @ [NUL])) (\<lambda>p. put_escaped p (i + 6) cs)))"

definition print_string_ptr :: "string option \<Rightarrow> printbuffer \<Rightarrow> printing" where
  "print_string_ptr input p =
     (case input of
        None \<Rightarrow> ensure_poke p 3 [CHR 0x22, CHR 0x22, NUL]
      | Some s \<Rightarrow>
          (let s = c_str s;
               escape_characters = sum_list (map escape_extra s);
               output_length = length s + escape_characters
           in pr_then (ensure p (output_length + 3)) (\<lambda>p.
                if escape_characters = 0 then poke p 0 ([CHR 0x22] @ s @ [CHR 0x22, NUL])
                else
                  pr_then (poke p 0 [CHR 0x22]) (\<lambda>p.
                  pr_then (put_escaped p 1 s) (\<lambda>p. poke p (output_length + 1) [CHR 0x22, NUL])))))"

section \<open>Values\<close>

definition deeper :: "printbuffer \<Rightarrow> printbuffer" where
  "deeper p = p\<lparr>pr_depth := pr_depth p + 1\<rparr>"

definition shallower :: "printing \<Rightarrow> printing" where
  "shallower r = pr_then r (\<lambda>p. Inr (True, p\<lparr>pr_depth := pr_depth p - 1\<rparr>))"

definition put_comma :: "printbuffer \<Rightarrow> printing" where
  "put_comma p =
     (let n = (if pr_format p then 2 else 1)
      in ensure_put p (n + 1) ([CHR '',''] @ (if pr_format p then [CHR '' ''] else []) @ [NUL]) n)"

definition put_indent :: "printbuffer \<Rightarrow> printing" where
  "put_indent p =
     (if pr_format p then ensure_put p (pr_depth p) (replicate (pr_depth p) (CHR 0x09)) (pr_depth p) else Inr (True, p))"

definition put_colon :: "printbuffer \<Rightarrow> printing" where
  "put_colon p =
     (let n = (if pr_format p then 2 else 1)
      in ensure_put p n ([CHR '':''] @ (if pr_format p then [CHR 0x09] else [])) n)"

definition end_member :: "bool \<Rightarrow> printbuffer \<Rightarrow> printing" where
  "end_member is_last p =
     (let n = (if pr_format p then 1 else 0) + (if is_last then 0 else 1)
      in ensure_put p (n + 1) ((if is_last then [] else [CHR '','']) @ (if pr_format p then [CHR 0x0A] else []) @ [NUL]) n)"

definition open_object :: "printbuffer \<Rightarrow> printing" where
  "open_object p =
     (let n = (if pr_format p then 2 else 1)
      in pr_then (ensure_put p (n + 1) ([CHR 0x7B] @ (if pr_format p then [CHR 0x0A] else [])) n) (\<lambda>p. Inr (True, deeper p)))"

definition close_object :: "printbuffer \<Rightarrow> printing" where
  "close_object p =
     ensure_poke p (if pr_format p then pr_depth p + 1 else 2)
       ((if pr_format p then replicate (pr_depth p - 1) (CHR 0x09) else []) @ [CHR 0x7D, NUL])"

fun print_value :: "cjson \<Rightarrow> printbuffer \<Rightarrow> printing"
and print_elements :: "cjson list \<Rightarrow> printbuffer \<Rightarrow> printing"
and print_members :: "cjson list \<Rightarrow> printbuffer \<Rightarrow> printing" where
  "print_value (CJson name ty s i d cs) p =
     (case ty of
        cJSON_NULL \<Rightarrow> ensure_poke p 5 (''null'' @ [NUL])
      | cJSON_False \<Rightarrow> ensure_poke p 6 (''false'' @ [NUL])
      | cJSON_True \<Rightarrow> ensure_poke p 5 (''true'' @ [NUL])
      | cJSON_Number \<Rightarrow> print_number i d p
      | cJSON_Raw \<Rightarrow>
          (case s of
             None \<Rightarrow> Inr (False, p)
           | Some raw \<Rightarrow> ensure_poke p (length (c_str raw) + 1) (c_str raw @ [NUL]))
      | cJSON_String \<Rightarrow> print_string_ptr s p
      | cJSON_Array \<Rightarrow>
          pr_then (ensure_put p 1 [CHR ''[''] 1) (\<lambda>p.
          pr_then (print_elements cs (deeper p)) (\<lambda>p.
          shallower (ensure_poke p 2 [CHR '']'', NUL])))
      | cJSON_Object \<Rightarrow>
          pr_then (open_object p) (\<lambda>p.
          pr_then (print_members cs p) (\<lambda>p. shallower (close_object p)))
      | cJSON_Invalid \<Rightarrow> Inr (False, p))"
| "print_elements [] p = Inr (True, p)"
| "print_elements (c # cs) p =
     pr_then (print_value c p) (\<lambda>p.
     pr_then (update_offset p) (\<lambda>p.
     pr_then (if cs \<noteq> [] then put_comma p else Inr (True, p)) (\<lambda>p.
     print_elements cs p)))"
| "print_members [] p = Inr (True, p)"
| "print_members (c # cs) p =
     pr_then (put_indent p) (\<lambda>p.
     pr_then (print_string_ptr (cj_name c) p) (\<lambda>p.
     pr_then (update_offset p) (\<lambda>p.
     pr_then (put_colon p) (\<lambda>p.
     pr_then (print_value c p) (\<lambda>p.
     pr_then (update_offset p) (\<lambda>p.
     pr_then (end_member (cs = []) p) (\<lambda>p.
     print_members cs p)))))))"

section \<open>The entry points\<close>

text \<open>The string that starts at the beginning of a memory block.\<close>

definition mem_text :: "char option list \<Rightarrow> string" where
  "mem_text mem = map the (takeWhile (\<lambda>x. x \<noteq> Some NUL) mem)"

definition print_tree :: "cjson option \<Rightarrow> bool \<Rightarrow> print_hooks \<Rightarrow> cpp_error + string option" where
  "print_tree item format hooks =
     (if \<not> h_allocate hooks 256 then Inr None
      else
        (case item of
           None \<Rightarrow> Inr None
         | Some n \<Rightarrow>
             (case pr_then (print_value n \<lparr>pr_buffer = Some (replicate 256 None), pr_length = 256, pr_offset = 0,
                              pr_depth = 0, pr_noalloc = False, pr_format = format, pr_hooks = hooks\<rparr>) update_offset of
                Inl err \<Rightarrow> Inl err
              | Inr (ok, p) \<Rightarrow>
                  (case pr_buffer p of
                     None \<Rightarrow> Inr None
                   | Some mem \<Rightarrow>
                       if \<not> ok then Inr None
                       else
                         (case h_reallocate hooks of
                            Some has_memory \<Rightarrow>
                              if has_memory (pr_offset p + 1) then Inr (Some (mem_text (grown mem (pr_offset p + 1)))) else Inr None
                          | None \<Rightarrow>
                              if \<not> h_allocate hooks (pr_offset p + 1) then Inr None
                              else if length mem < min (pr_length p) (pr_offset p + 1) then Inl InvalidRead
                              else Inr (Some (mem_text (take (pr_offset p) (grown (take (min (pr_length p) (pr_offset p + 1)) mem)
                                                                                 (pr_offset p + 1)) @ [Some NUL]))))))))"

definition cJSON_Print :: "cjson option \<Rightarrow> print_hooks \<Rightarrow> cpp_error + string option" where
  "cJSON_Print item hooks = print_tree item True hooks"

definition cJSON_PrintUnformatted :: "cjson option \<Rightarrow> print_hooks \<Rightarrow> cpp_error + string option" where
  "cJSON_PrintUnformatted item hooks = print_tree item False hooks"

definition cJSON_PrintBuffered :: "cjson option \<Rightarrow> int \<Rightarrow> bool \<Rightarrow> print_hooks \<Rightarrow> cpp_error + string option" where
  "cJSON_PrintBuffered item prebuffer fmt hooks =
     (if prebuffer < 0 then Inr None
      else if \<not> h_allocate hooks (nat prebuffer) then Inr None
      else
        (case item of
           None \<Rightarrow> Inr None
         | Some n \<Rightarrow>
             (case print_value n \<lparr>pr_buffer = Some (replicate (nat prebuffer) None), pr_length = nat prebuffer, pr_offset = 0,
                     pr_depth = 0, pr_noalloc = False, pr_format = fmt, pr_hooks = hooks\<rparr> of
                Inl err \<Rightarrow> Inl err
              | Inr (ok, p) \<Rightarrow> if ok then Inr (map_option mem_text (pr_buffer p)) else Inr None)))"

text \<open>The caller's buffer: \<open>len\<close> bytes, the ones behind them are not his to give.\<close>

definition cJSON_PrintPreallocated ::
    "cjson option \<Rightarrow> char option list option \<Rightarrow> int \<Rightarrow> bool \<Rightarrow> print_hooks \<Rightarrow> cpp_error + bool \<times> char option list option" where
  "cJSON_PrintPreallocated item mem len format hooks =
     (if len < 0 \<or> mem = None then Inr (False, mem)
      else
        (case item of
           None \<Rightarrow> Inr (False, mem)
         | Some n \<Rightarrow>
             (case print_value n \<lparr>pr_buffer = mem, pr_length = nat len, pr_offset = 0,
                     pr_depth = 0, pr_noalloc = True, pr_format = format, pr_hooks = hooks\<rparr> of
                Inl err \<Rightarrow> Inl err
              | Inr (ok, p) \<Rightarrow> Inr (ok, pr_buffer p))))"

section \<open>The text of a tree\<close>

definition escape_text :: "char \<Rightarrow> string" where
  "escape_text c =
     (if 31 < (of_char c :: nat) \<and> c \<noteq> CHR 0x22 \<and> c \<noteq> CHR 0x5C then [c]
      else (case short_name c of Some n \<Rightarrow> [CHR 0x5C, n] | None \<Rightarrow> [CHR 0x5C, CHR ''u''] @ hex4 (of_char c)))"

definition quoted :: "string option \<Rightarrow> string" where
  "quoted s = [CHR 0x22] @ (case s of None \<Rightarrow> [] | Some t \<Rightarrow> concat (map escape_text (c_str t))) @ [CHR 0x22]"

fun json_text :: "bool \<Rightarrow> nat \<Rightarrow> cjson \<Rightarrow> string"
and elements_text :: "bool \<Rightarrow> nat \<Rightarrow> cjson list \<Rightarrow> string"
and members_text :: "bool \<Rightarrow> nat \<Rightarrow> cjson list \<Rightarrow> string" where
  "json_text fmt d (CJson name ty s i x cs) =
     (case ty of
        cJSON_NULL \<Rightarrow> ''null''
      | cJSON_False \<Rightarrow> ''false''
      | cJSON_True \<Rightarrow> ''true''
      | cJSON_Number \<Rightarrow> number_text i x
      | cJSON_Raw \<Rightarrow> (case s of None \<Rightarrow> [] | Some raw \<Rightarrow> c_str raw)
      | cJSON_String \<Rightarrow> quoted s
      | cJSON_Array \<Rightarrow> [CHR ''[''] @ elements_text fmt (Suc d) cs @ [CHR '']'']
      | cJSON_Object \<Rightarrow>
          [CHR 0x7B] @ (if fmt then [CHR 0x0A] else []) @ members_text fmt (Suc d) cs @
          (if fmt then replicate d (CHR 0x09) else []) @ [CHR 0x7D]
      | cJSON_Invalid \<Rightarrow> [])"
| "elements_text fmt d [] = []"
| "elements_text fmt d (c # cs) =
     json_text fmt d c @ (if cs = [] then [] else [CHR '',''] @ (if fmt then [CHR '' ''] else [])) @ elements_text fmt d cs"
| "members_text fmt d [] = []"
| "members_text fmt d (c # cs) =
     (if fmt then replicate d (CHR 0x09) else []) @ quoted (cj_name c) @ [CHR '':''] @ (if fmt then [CHR 0x09] else []) @
     json_text fmt d c @ (if cs = [] then [] else [CHR '','']) @ (if fmt then [CHR 0x0A] else []) @ members_text fmt d cs"

text \<open>What the printer can print: a type it knows, a raw text that is there, a number that is one.\<close>

fun printable :: "cjson \<Rightarrow> bool" where
  "printable (CJson name ty s i x cs) =
     (case ty of
        cJSON_Invalid \<Rightarrow> False
      | cJSON_Raw \<Rightarrow> s \<noteq> None
      | cJSON_Array \<Rightarrow> list_all printable cs
      | cJSON_Object \<Rightarrow> list_all printable cs
      | _ \<Rightarrow> True)"

fun numbers_ok :: "cjson \<Rightarrow> bool" where
  "numbers_ok (CJson name ty s i x cs) = (dbl_ok x \<and> INT_MIN \<le> i \<and> i \<le> INT_MAX \<and> list_all numbers_ok cs)"

section \<open>Steps of the printer\<close>

definition kept :: "printbuffer \<Rightarrow> printbuffer \<Rightarrow> bool" where
  "kept p p' \<longleftrightarrow> pr_noalloc p' = pr_noalloc p \<and> pr_format p' = pr_format p \<and> pr_hooks p' = pr_hooks p \<and>
     (pr_noalloc p \<longrightarrow> pr_length p' = pr_length p)"

text \<open>There is room for \<open>k\<close> bytes: in the caller's buffer, or in memory that can always be had.\<close>

definition room :: "printbuffer \<Rightarrow> nat \<Rightarrow> bool" where
  "room p k \<longleftrightarrow>
     (if pr_noalloc p then k \<le> pr_length p
      else k \<le> int_max \<and>
        (case h_reallocate (pr_hooks p) of Some ok \<Rightarrow> (\<forall>n. ok n) | None \<Rightarrow> (\<forall>n. h_allocate (pr_hooks p) n)))"

text \<open>
  The buffer holds \<open>pre\<close> and the offset is at its end; it holds \<open>t\<close> and a NUL behind it as well, and
  the offset is still in \<open>t\<close>.
\<close>

definition wf_buffer :: "printbuffer \<Rightarrow> char option list \<Rightarrow> bool" where
  "wf_buffer p mem \<longleftrightarrow>
     pr_buffer p = Some mem \<and> pr_length p \<le> length mem \<and> pr_length p \<le> int_max \<and> (pr_length p = 0 \<or> pr_offset p < pr_length p) \<and>
     (pr_length p = 0 \<longrightarrow> pr_noalloc p \<or> h_reallocate (pr_hooks p) \<noteq> None)"

definition at_end :: "nat \<Rightarrow> string \<Rightarrow> printbuffer \<Rightarrow> bool" where
  "at_end d pre p \<longleftrightarrow>
     pr_depth p = d \<and> pr_offset p = length pre \<and>
     (\<exists>mem. wf_buffer p mem \<and> take (length pre) mem = map Some pre)"

definition pending :: "nat \<Rightarrow> string \<Rightarrow> string \<Rightarrow> printbuffer \<Rightarrow> bool" where
  "pending d pre t p \<longleftrightarrow>
     pr_depth p = d \<and> length pre \<le> pr_offset p \<and> pr_offset p \<le> length (pre @ t) \<and> length (pre @ t) < pr_length p \<and>
     (\<exists>mem. wf_buffer p mem \<and> take (length (pre @ t) + 1) mem = map Some (pre @ t @ [NUL]))"

definition steps :: "printbuffer \<Rightarrow> nat \<Rightarrow> (printbuffer \<Rightarrow> bool) \<Rightarrow> printing \<Rightarrow> bool" where
  "steps p k Q r \<longleftrightarrow>
     (case r of
        Inl _ \<Rightarrow> False
      | Inr (ok, p') \<Rightarrow> if ok then Q p' \<and> kept p p' else \<not> room p k)"

lemma steps_simps [simp]:
  "steps p k Q (Inr (True, p')) \<longleftrightarrow> Q p' \<and> kept p p'"
  "steps p k Q (Inr (False, p')) \<longleftrightarrow> \<not> room p k"
  "\<not> steps p k Q (Inl e)"
  by (simp_all add: steps_def)

lemma kept_refl [simp]: "kept p p"
  by (simp add: kept_def)

lemma kept_trans: "kept p q \<Longrightarrow> kept q r \<Longrightarrow> kept p r"
  by (auto simp: kept_def)

lemma same_room: "kept p q \<Longrightarrow> k' \<le> k \<Longrightarrow> room p k \<Longrightarrow> room q k'"
  by (auto simp: kept_def room_def split: if_splits option.splits)

lemma steps_then:
  assumes "steps p k Q r" "\<And>q. Q q \<Longrightarrow> kept p q \<Longrightarrow> steps q k' R (f q)" "k' \<le> k"
  shows "steps p k R (pr_then r f)"
proof (cases r)
  case (Inl e)
  then show ?thesis using assms(1) by simp
next
  case (Inr x)
  obtain ok q where x: "r = Inr (ok, q)" using Inr by (cases x) auto
  show ?thesis
  proof (cases ok)
    case False
    then show ?thesis using assms(1) x by (simp add: pr_then_def)
  next
    case True
    then have q: "Q q" "kept p q" using assms(1) x by simp_all
    obtain r' where "f q = r'" "steps q k' R r'" using assms(2) [OF q] by blast
    then show ?thesis using True x kept_trans [OF q(2)] same_room [OF q(2) assms(3)]
      by (auto simp: pr_then_def steps_def split: sum.splits if_splits)
  qed
qed

lemma steps_weaken: "steps p k Q r \<Longrightarrow> (\<And>q. Q q \<Longrightarrow> R q) \<Longrightarrow> k \<le> k' \<Longrightarrow> steps p k' R r"
  using same_room [OF kept_refl] by (auto simp: steps_def split: sum.splits if_splits)

lemma steps_if: "(b \<Longrightarrow> steps p k Q r) \<Longrightarrow> (\<not> b \<Longrightarrow> steps p k Q s) \<Longrightarrow> steps p k Q (if b then r else s)"
  by simp
text \<open>Behind \<^verbatim>\<open>ensure\<close>: \<open>m\<close> bytes from the offset on are there, and \<open>u\<close> was written to the first of them.\<close>

definition filled :: "nat \<Rightarrow> string \<Rightarrow> string \<Rightarrow> nat \<Rightarrow> printbuffer \<Rightarrow> bool" where
  "filled d pre u m p \<longleftrightarrow>
     pr_depth p = d \<and> pr_offset p = length pre \<and> length pre + m \<le> pr_length p \<and>
     (\<exists>mem. wf_buffer p mem \<and> take (length (pre @ u)) mem = map Some (pre @ u))"

lemma grown_prefix: "k \<le> length mem \<Longrightarrow> k \<le> n \<Longrightarrow> take k (grown mem n) = take k mem"
  by (simp add: grown_def min_def)

lemma grown_length [simp]: "length (grown mem n) = n"
  by (simp add: grown_def)

lemma ensure_steps:
  assumes "at_end d pre p" "length pre + needed + 1 \<le> k"
  shows "steps p k (filled d pre [] (needed + 1)) (ensure p needed)"
proof -
  obtain mem where m: "wf_buffer p mem" "take (length pre) mem = map Some pre" and p: "pr_depth p = d" "pr_offset p = length pre"
    using assms(1) by (auto simp: at_end_def)
  have len: "length pre \<le> length mem" using arg_cong [OF m(2), of length] by simp
  have ok: "\<not> (0 < pr_length p \<and> pr_length p \<le> pr_offset p)" "pr_buffer p = Some mem" using m(1) by (auto simp: wf_buffer_def)
  have "steps p k (filled d pre [] (needed + 1)) (grow p mem (needed + pr_offset p + 1))"
    if no: "\<not> needed + pr_offset p + 1 \<le> pr_length p" "\<not> pr_noalloc p"
  proof (cases "int_max < needed + pr_offset p + 1")
    case True
    then show ?thesis using assms no p by (simp add: grow_def room_def int_max_def)
  next
    case False
    let ?n = "if int_max div 2 < needed + pr_offset p + 1 then int_max else (needed + pr_offset p + 1) * 2"
    have n: "needed + pr_offset p + 1 \<le> ?n" "?n \<le> int_max" using False by (auto simp: int_max_def)
    have fill: "filled d pre [] (needed + 1) (p\<lparr>pr_length := ?n, pr_buffer := Some (grown mem' ?n)\<rparr>)"
      if "take (length pre) mem' = take (length pre) mem" "length pre \<le> length mem'" for mem'
      using that m n p grown_prefix [of "length pre" mem' ?n] by (auto simp: filled_def wf_buffer_def)
    show ?thesis
    proof (cases "h_reallocate (pr_hooks p)")
      case None
      then have "pr_offset p < length mem" using m(1) no by (auto simp: wf_buffer_def)
      then show ?thesis using fill [of "take (pr_offset p + 1) mem"] None no False p
        by (auto simp: grow_def Let_def room_def kept_def)
    next
      case (Some ok)
      then show ?thesis using fill [of mem] no len False by (auto simp: grow_def Let_def room_def kept_def)
    qed
  qed
  moreover have "\<not> room p k" if "pr_noalloc p" "\<not> needed + pr_offset p + 1 \<le> pr_length p"
    using that assms p by (simp add: room_def)
  moreover have "\<not> room p k" if "int_max < needed"
    using that assms m(1) by (auto simp: room_def wf_buffer_def)
  moreover have "filled d pre [] (needed + 1) p" if "needed + pr_offset p + 1 \<le> pr_length p"
    using that m p by (auto simp: filled_def)
  ultimately show ?thesis using ok by (auto simp: ensure_def)
qed

lemma poke_steps:
  assumes "filled d pre u m p" "i = length u" "length (u @ v @ z) \<le> m"
  shows "steps p k (filled d pre (u @ v @ z) m) (poke p i (v @ z))" "steps p k (filled d pre (u @ v) m) (poke p i (v @ z))"
proof -
  obtain mem where m: "wf_buffer p mem" "take (length (pre @ u)) mem = map Some (pre @ u)"
    and p: "pr_depth p = d" "pr_offset p = length pre" "length pre + m \<le> pr_length p"
    using assms(1) by (auto simp: filled_def)
  have fits: "length pre + length u + length v + length z \<le> length mem" using m(1) p assms(3) by (auto simp: wf_buffer_def)
  have "steps p k (\<lambda>q. filled d pre (u @ v @ z) m q \<and> filled d pre (u @ v) m q) (poke p i (v @ z))"
    using m p fits assms by (auto simp: poke_def filled_def wf_buffer_def kept_def Let_def)
  then show "steps p k (filled d pre (u @ v @ z) m) (poke p i (v @ z))" "steps p k (filled d pre (u @ v) m) (poke p i (v @ z))"
    by (auto elim: steps_weaken)
qed

lemma filled_pending: "filled d pre (t @ [NUL]) m p \<Longrightarrow> length t < m \<Longrightarrow> pending d pre t p"
  by (auto simp: filled_def pending_def)

lemma ensure_poke_steps:
  assumes "at_end d pre p" "length t \<le> needed" "length pre + needed + 1 \<le> k"
  shows "steps p k (pending d pre t) (ensure_poke p needed (t @ [NUL]))"
  unfolding ensure_poke_def
proof (rule steps_then [OF ensure_steps [OF assms(1,3)] _ order_refl])
  fix q
  assume "filled d pre [] (needed + 1) q"
  then have "steps q k (filled d pre ([] @ t @ [NUL]) (needed + 1)) (poke q 0 (t @ [NUL]))"
    by (rule poke_steps(1)) (use assms(2) in simp_all)
  then show "steps q k (pending d pre t) (poke q 0 (t @ [NUL]))"
    by (rule steps_weaken) (use assms(2) filled_pending [of d pre t "needed + 1"] in simp_all)
qed

lemma forward_at_end:
  "filled d pre t m p \<Longrightarrow> length t < m \<Longrightarrow> at_end d (pre @ t) (forward p (length t)) \<and> kept p (forward p (length t))"
  by (auto simp: filled_def at_end_def forward_def wf_buffer_def kept_def)

lemma ensure_put_steps:
  assumes "at_end d pre p" "length (t @ z) \<le> needed + 1" "length t \<le> needed" "length pre + needed + 1 \<le> k" "n = length t"
  shows "steps p k (at_end d (pre @ t)) (ensure_put p needed (t @ z) n)"
  unfolding ensure_put_def ensure_poke_def
proof (rule steps_then [OF steps_then [OF ensure_steps [OF assms(1,4)] _ order_refl] _ order_refl])
  fix q
  assume "filled d pre [] (needed + 1) q"
  from poke_steps(2) [OF this, of 0 t z] show "steps q k (filled d pre t (needed + 1)) (poke q 0 (t @ z))"
    using assms(2) by simp
next
  fix q
  assume "filled d pre t (needed + 1) q"
  then show "steps q k (at_end d (pre @ t)) (Inr (True, forward q n))"
    using forward_at_end [of d pre t "needed + 1" q] assms(3,5) by simp
qed

lemma strlen_at_text: "NUL \<notin> set t \<Longrightarrow> strlen_at (map Some t @ Some NUL # rest) = Some (length t)"
  by (induction t) auto

lemma update_offset_steps:
  assumes "pending d pre t p" "NUL \<notin> set t"
  shows "steps p k (at_end d (pre @ t)) (update_offset p)"
proof -
  obtain mem where m: "wf_buffer p mem" "take (length (pre @ t) + 1) mem = map Some (pre @ t @ [NUL])"
    and p: "pr_depth p = d" "length pre \<le> pr_offset p" "pr_offset p \<le> length (pre @ t)" "length (pre @ t) < pr_length p"
    using assms(1) unfolding pending_def by blast
  let ?j = "pr_offset p - length pre"
  have "mem = map Some (pre @ t @ [NUL]) @ drop (length (pre @ t) + 1) mem"
    using m(2) by (metis append_take_drop_id)
  then have "drop (pr_offset p) mem = drop (pr_offset p) (map Some (pre @ t @ [NUL]) @ drop (length (pre @ t) + 1) mem)"
    by (rule arg_cong)
  also have "\<dots> = map Some (drop ?j t) @ Some NUL # drop (length (pre @ t) + 1) mem"
    using p by (simp add: drop_map)
  finally have "drop (pr_offset p) mem = map Some (drop ?j t) @ Some NUL # drop (length (pre @ t) + 1) mem" .
  moreover have "NUL \<notin> set (drop ?j t)" using assms(2) by (auto dest: in_set_dropD)
  ultimately have "strlen_at (drop (pr_offset p) mem) = Some (length t - ?j)" by (simp add: strlen_at_text)
  then have u: "update_offset p = Inr (True, forward p (length t - ?j))" using m(1) by (simp add: update_offset_def wf_buffer_def)
  have "take (length (pre @ t)) mem = map Some (pre @ t)"
    using arg_cong [OF m(2), of "take (length (pre @ t))"] by simp
  then show ?thesis using u m(1) p by (auto simp: at_end_def forward_def wf_buffer_def kept_def)
qed

section \<open>The printer prints the text of the tree\<close>

lemma short_name_printable: "31 < (of_char c :: nat) \<Longrightarrow> c \<noteq> CHR 0x22 \<Longrightarrow> c \<noteq> CHR 0x5C \<Longrightarrow> short_name c = None"
  by (auto simp: short_name_def)

lemma hex4_length [simp]: "length (hex4 n) = 4"
  by (simp add: hex4_def)

lemma escape_text_length: "length (escape_text c) = 1 + escape_extra c"
proof (cases "31 < (of_char c :: nat) \<and> c \<noteq> CHR 0x22 \<and> c \<noteq> CHR 0x5C")
  case True
  then show ?thesis by (simp add: escape_text_def escape_extra_def short_name_printable)
next
  case False
  then show ?thesis
    by (cases "short_name c") (auto simp: escape_text_def escape_extra_def hex4_def short_name_def split: if_splits)
qed

lemma escaped_length: "length (concat (map escape_text s)) = length s + sum_list (map escape_extra s)"
  by (induction s) (simp_all add: escape_text_length)

lemma escape_none: "escape_extra c = 0 \<Longrightarrow> escape_text c = [c]"
  by (auto simp: escape_text_def escape_extra_def short_name_def split: if_splits)

lemma escaped_none: "sum_list (map escape_extra s) = 0 \<Longrightarrow> concat (map escape_text s) = s"
  by (induction s) (simp_all add: escape_none)

lemma put_escaped_steps:
  "filled d pre u m p \<Longrightarrow> i = length u \<Longrightarrow> length (u @ concat (map escape_text cs)) < m \<Longrightarrow>
     steps p k (filled d pre (u @ concat (map escape_text cs)) m) (put_escaped p i cs)"
proof (induction cs arbitrary: p i u)
  case Nil
  then show ?case by simp
next
  case (Cons c cs)
  note [simp] = Cons.prems(2)
  have fit: "length (u @ escape_text c @ [NUL]) \<le> m" "length (u @ escape_text c) \<le> m"
    "length ((u @ escape_text c) @ concat (map escape_text cs)) < m"
    using Cons.prems(3) by simp_all
  have rest: "steps q k (filled d pre (u @ escape_text c @ concat (map escape_text cs)) m) (put_escaped q (length u + length (escape_text c)) cs)"
    if "filled d pre (u @ escape_text c) m q" for q
    using Cons.IH [OF that _ fit(3)] by simp
  have wr: "steps p k (filled d pre (u @ escape_text c) m) (poke p i (escape_text c @ z))"
    if "length z \<le> 1" for z
    by (rule poke_steps(2) [OF Cons.prems(1)]) (use fit that in simp_all)
  have step: "steps p k (filled d pre (u @ concat (map escape_text (c # cs))) m)
      (pr_then (poke p i (escape_text c @ z)) (\<lambda>q. put_escaped q (length u + length (escape_text c)) cs))"
    if "length z \<le> 1" for z
    by (rule steps_then [OF wr [OF that] _ order_refl]) (use rest in simp)
  show ?case
  proof (cases "31 < (of_char c :: nat) \<and> c \<noteq> CHR 0x22 \<and> c \<noteq> CHR 0x5C")
    case True
    then show ?thesis using step [of "[]"] by (simp add: escape_text_def [of c])
  next
    case False
    then show ?thesis using step [of "[]"] step [of "[NUL]"]
      by (cases "short_name c") (auto simp: escape_text_def [of c] short_name_def)
  qed
qed

lemma print_string_steps:
  assumes "at_end d pre p" "length pre + length (quoted s) + 2 \<le> k"
  shows "steps p k (pending d pre (quoted s)) (print_string_ptr s p)"
proof (cases s)
  case None
  then show ?thesis
    using ensure_poke_steps [OF assms(1), of "[CHR 0x22, CHR 0x22]" 3 k] assms(2)
    by (simp add: print_string_ptr_def quoted_def)
next
  case (Some t)
  let ?s = "c_str t" and ?e = "concat (map escape_text (c_str t))"
  let ?n = "length ?s + sum_list (map escape_extra ?s)"
  have q: "quoted s = [CHR 0x22] @ ?e @ [CHR 0x22]" "length ?e = ?n" using Some by (simp_all add: quoted_def escaped_length)
  note ens = ensure_steps [OF assms(1), of "?n + 3" k]
  show ?thesis
  proof (cases "sum_list (map escape_extra ?s) = 0")
    case True
    have "steps p k (pending d pre (quoted s)) (pr_then (ensure p (?n + 3)) (\<lambda>p. poke p 0 (quoted s @ [NUL])))"
    proof (rule steps_then [OF ens _ order_refl])
      show "length pre + (?n + 3) + 1 \<le> k" using assms(2) q by simp
      fix r
      assume "filled d pre [] (?n + 3 + 1) r"
      then have "steps r k (filled d pre ([] @ quoted s @ [NUL]) (?n + 3 + 1)) (poke r 0 (quoted s @ [NUL]))"
        by (rule poke_steps(1)) (use q in simp_all)
      then show "steps r k (pending d pre (quoted s)) (poke r 0 (quoted s @ [NUL]))"
        by (rule steps_weaken) (use q filled_pending [of d pre "quoted s" "?n + 3 + 1"] in simp_all)
    qed
    then show ?thesis
      by (simp add: print_string_ptr_def Let_def quoted_def Some True escaped_none [OF True] del: sum_list_eq_0_iff)
  next
    case False
    have "steps p k (pending d pre (quoted s))
      (pr_then (ensure p (?n + 3)) (\<lambda>p. pr_then (poke p 0 [CHR 0x22]) (\<lambda>p.
         pr_then (put_escaped p 1 ?s) (\<lambda>p. poke p (?n + 1) [CHR 0x22, NUL]))))"
    proof (rule steps_then [OF ens _ order_refl])
      show "length pre + (?n + 3) + 1 \<le> k" using assms(2) q by simp
      fix r
      assume r: "filled d pre [] (?n + 3 + 1) r"
      show "steps r k (pending d pre (quoted s)) (pr_then (poke r 0 [CHR 0x22]) (\<lambda>p.
         pr_then (put_escaped p 1 ?s) (\<lambda>p. poke p (?n + 1) [CHR 0x22, NUL])))"
      proof (rule steps_then [OF _ _ order_refl])
        show "steps r k (filled d pre [CHR 0x22] (?n + 3 + 1)) (poke r 0 [CHR 0x22])"
          using poke_steps(1) [OF r, of 0 "[CHR 0x22]" "[]"] by simp
        fix r'
        assume r': "filled d pre [CHR 0x22] (?n + 3 + 1) r'"
        show "steps r' k (pending d pre (quoted s)) (pr_then (put_escaped r' 1 ?s) (\<lambda>p. poke p (?n + 1) [CHR 0x22, NUL]))"
        proof (rule steps_then [OF put_escaped_steps [OF r'] _ order_refl])
          show "1 = length [CHR 0x22]" "length ([CHR 0x22] @ ?e) < ?n + 3 + 1" using q by simp_all
          fix r''
          assume "filled d pre ([CHR 0x22] @ ?e) (?n + 3 + 1) r''"
          then have "steps r'' k (filled d pre (([CHR 0x22] @ ?e) @ [CHR 0x22] @ [NUL]) (?n + 3 + 1)) (poke r'' (?n + 1) ([CHR 0x22] @ [NUL]))"
            by (rule poke_steps(1)) (use q in simp_all)
          then have "steps r'' k (pending d pre (quoted s)) (poke r'' (?n + 1) ([CHR 0x22] @ [NUL]))"
            by (rule steps_weaken) (use q filled_pending [of d pre "quoted s" "?n + 3 + 1"] in simp_all)
          then show "steps r'' k (pending d pre (quoted s)) (poke r'' (?n + 1) [CHR 0x22, NUL])" by simp
        qed
      qed
    qed
    then show ?thesis by (simp only: print_string_ptr_def Let_def Some option.case False if_False)
  qed
qed

lemma number_text_length:
  assumes "dbl_ok d" "INT_MIN \<le> i" "i \<le> INT_MAX"
  shows "length (number_text i d) \<le> 25"
proof (cases d)
  case (Finite q)
  then show ?thesis
    using printf_g_length [of q 15] printf_g_length [of q 17] show_int_length [OF assms(2,3)] assms(1)
    by (auto simp: number_text_def Let_def split: prod.splits)
qed (auto simp: number_text_def isinf_def isnan_def dbl_eq_def)

lemma number_text_no_NUL: "NUL \<notin> set (number_text i d)"
  using show_int_no_NUL printf_g_no_NUL
  by (auto simp: number_text_def Let_def split: c_double.splits prod.splits)

lemma print_number_steps:
  assumes "at_end d pre p" "dbl_ok x" "INT_MIN \<le> i" "i \<le> INT_MAX" "length pre + length (number_text i x) + 2 \<le> k"
  shows "steps p k (pending d pre (number_text i x)) (print_number i x p)"
proof -
  let ?t = "number_text i x"
  have "steps p k (pending d pre ?t) (ensure_put p (length ?t + 1) (?t @ [NUL]) (length ?t))"
    unfolding ensure_put_def
  proof (rule steps_then [OF _ _ order_refl])
    show "steps p k (filled d pre (?t @ [NUL]) (length ?t + 2)) (ensure_poke p (length ?t + 1) (?t @ [NUL]))"
      unfolding ensure_poke_def
    proof (rule steps_then [OF ensure_steps [OF assms(1)] _ order_refl])
      show "length pre + (length ?t + 1) + 1 \<le> k" using assms(5) by simp
      fix q
      assume "filled d pre [] (length ?t + 1 + 1) q"
      from poke_steps(1) [OF this, of 0 ?t "[NUL]"]
      show "steps q k (filled d pre (?t @ [NUL]) (length ?t + 2)) (poke q 0 (?t @ [NUL]))" by simp
    qed
    fix q
    assume "filled d pre (?t @ [NUL]) (length ?t + 2) q"
    then show "steps q k (pending d pre ?t) (Inr (True, forward q (length ?t)))"
      by (auto simp: filled_def pending_def forward_def wf_buffer_def kept_def)
  qed
  then show ?thesis using number_text_length [OF assms(2-4)] by (simp add: print_number_def Let_def)
qed

lemma hex_char_no_NUL: "n < 16 \<Longrightarrow> hex_char n \<noteq> NUL"
proof -
  assume "n < 16"
  then have "(of_char (hex_char n) :: nat) \<noteq> of_char NUL" by (auto simp: hex_char_def)
  then show ?thesis by metis
qed

lemma hex4_no_NUL: "NUL \<notin> set (hex4 n)"
proof -
  have "NUL \<noteq> hex_char (k mod 16)" for k using hex_char_no_NUL [of "k mod 16"] by auto
  then show ?thesis by (simp add: hex4_def)
qed

lemma escape_text_no_NUL: "NUL \<noteq> c \<Longrightarrow> NUL \<notin> set (escape_text c)"
  using hex4_no_NUL by (auto simp: escape_text_def short_name_def)

lemma quoted_no_NUL: "NUL \<notin> set (quoted s)"
proof (cases s)
  case (Some t)
  have "NUL \<noteq> x" if "x \<in> set (c_str t)" for x using that c_str_no_NUL by metis
  then show ?thesis using Some by (simp add: quoted_def escape_text_no_NUL)
qed (simp add: quoted_def)

lemma json_text_no_NUL:
  "NUL \<notin> set (json_text fmt d c)" "NUL \<notin> set (elements_text fmt d cs)" "NUL \<notin> set (members_text fmt d cs)"
proof (induction fmt d c and fmt d cs and fmt d cs rule: json_text_elements_text_members_text.induct)
  case (1 fmt d name ty s i x cs)
  then show ?case
    by (cases ty) (simp_all add: quoted_no_NUL number_text_no_NUL c_str_no_NUL split: option.splits)
qed (simp_all add: quoted_no_NUL)

text \<open>The small steps between the values.\<close>

lemma done_steps: "Q p \<Longrightarrow> steps p k Q (Inr (True, p))"
  by simp

lemma put_comma_steps:
  assumes "at_end d pre p" "pr_format p = fmt" "length pre + 4 \<le> k"
  shows "steps p k (at_end d (pre @ [CHR '',''] @ (if fmt then [CHR '' ''] else []))) (put_comma p)"
  using ensure_put_steps [OF assms(1), of "[CHR '','', CHR '' '']" "[NUL]" 3 k 2]
    ensure_put_steps [OF assms(1), of "[CHR '','']" "[NUL]" 2 k 1] assms(2,3)
  by (cases fmt) (simp_all add: put_comma_def numeral_2_eq_2 numeral_3_eq_3)

lemma put_indent_steps:
  assumes "at_end d pre p" "pr_format p = fmt" "fmt \<longrightarrow> length pre + d + 1 \<le> k"
  shows "steps p k (at_end d (pre @ (if fmt then replicate d (CHR 0x09) else []))) (put_indent p)"
proof (cases fmt)
  case True
  have "pr_depth p = d" using assms(1) by (simp add: at_end_def)
  then show ?thesis
    using ensure_put_steps [OF assms(1), of "replicate d (CHR 0x09)" "[]" d k d] assms True by (simp add: put_indent_def)
qed (use assms in \<open>simp add: put_indent_def\<close>)

lemma put_colon_steps:
  assumes "at_end d pre p" "pr_format p = fmt" "length pre + 3 \<le> k"
  shows "steps p k (at_end d (pre @ [CHR '':''] @ (if fmt then [CHR 0x09] else []))) (put_colon p)"
  using ensure_put_steps [OF assms(1), of "[CHR '':'', CHR 0x09]" "[]" 2 k 2]
    ensure_put_steps [OF assms(1), of "[CHR '':'']" "[]" 1 k 1] assms(2,3)
  by (cases fmt) (simp_all add: put_colon_def)

lemma end_member_steps:
  assumes "at_end d pre p" "pr_format p = fmt" "length pre + (if fmt then 1 else 0) + (if is_last then 0 else 1) + 2 \<le> k"
  shows "steps p k (at_end d (pre @ (if is_last then [] else [CHR '','']) @ (if fmt then [CHR 0x0A] else []))) (end_member is_last p)"
  using ensure_put_steps [OF assms(1), of "[CHR '','', CHR 0x0A]" "[NUL]" 3 k 2]
    ensure_put_steps [OF assms(1), of "[CHR '','']" "[NUL]" 2 k 1]
    ensure_put_steps [OF assms(1), of "[CHR 0x0A]" "[NUL]" 2 k 1]
    ensure_put_steps [OF assms(1), of "[]" "[NUL]" 1 k 0] assms(2,3)
  by (cases fmt; cases is_last) (simp_all add: end_member_def numeral_2_eq_2 numeral_3_eq_3)

lemma at_end_deeper: "at_end d pre p \<Longrightarrow> at_end (Suc d) pre (deeper p) \<and> kept p (deeper p)"
  by (auto simp: at_end_def deeper_def wf_buffer_def kept_def)

lemma shallower_steps:
  assumes "steps p k (pending (Suc d) pre t) r"
  shows "steps p k (pending d pre t) (shallower r)"
  unfolding shallower_def
proof (rule steps_then [OF assms _ order_refl])
  fix q
  assume "pending (Suc d) pre t q"
  then show "steps q k (pending d pre t) (Inr (True, q\<lparr>pr_depth := pr_depth q - 1\<rparr>))"
    by (auto simp: pending_def wf_buffer_def kept_def)
qed

lemma open_object_steps:
  assumes "at_end d pre p" "pr_format p = fmt" "length pre + 4 \<le> k"
  shows "steps p k (at_end (Suc d) (pre @ [CHR 0x7B] @ (if fmt then [CHR 0x0A] else []))) (open_object p)"
  unfolding open_object_def Let_def
proof (rule steps_then [OF _ _ order_refl])
  show "steps p k (at_end d (pre @ [CHR 0x7B] @ (if fmt then [CHR 0x0A] else [])))
    (ensure_put p ((if pr_format p then 2 else 1) + 1) ([CHR 0x7B] @ (if pr_format p then [CHR 0x0A] else [])) (if pr_format p then 2 else 1))"
    using ensure_put_steps [OF assms(1), of "[CHR 0x7B, CHR 0x0A]" "[]" 3 k 2]
      ensure_put_steps [OF assms(1), of "[CHR 0x7B]" "[]" 2 k 1] assms(2,3)
    by (cases fmt) (simp_all add: numeral_2_eq_2 numeral_3_eq_3)
qed (use at_end_deeper in auto)

lemma close_object_steps:
  assumes "at_end (Suc d) pre p" "pr_format p = fmt" "length pre + (if fmt then d else 0) + 3 \<le> k"
  shows "steps p k (pending d pre ((if fmt then replicate d (CHR 0x09) else []) @ [CHR 0x7D])) (shallower (close_object p))"
proof (rule shallower_steps)
  have "pr_depth p = Suc d" using assms(1) by (simp add: at_end_def)
  then show "steps p k (pending (Suc d) pre ((if fmt then replicate d (CHR 0x09) else []) @ [CHR 0x7D])) (close_object p)"
    using ensure_poke_steps [OF assms(1), of "replicate d (CHR 0x09) @ [CHR 0x7D]" "d + 2" k]
      ensure_poke_steps [OF assms(1), of "[CHR 0x7D]" 2 k] assms(2,3)
    by (cases fmt) (simp_all add: close_object_def numeral_2_eq_2)
qed

lemma pending_append: "pending d (pre @ a) b p \<Longrightarrow> pending d pre (a @ b) p"
  by (auto simp: pending_def)

lemma steps_same: "steps q k Q r \<Longrightarrow> kept p q \<Longrightarrow> steps p k Q r"
  using same_room [of p q k k] by (auto simp: steps_def dest: kept_trans split: sum.splits if_splits)

lemma same_format: "kept p q \<Longrightarrow> pr_format q = pr_format p"
  by (simp add: kept_def)

lemma array_steps:
  assumes p: "at_end d pre p" and fit: "length pre + length t + 4 \<le> k"
    and elems: "\<And>q. at_end (Suc d) (pre @ [CHR ''['']) q \<Longrightarrow> kept p q \<Longrightarrow> steps q k (at_end (Suc d) ((pre @ [CHR ''['']) @ t)) (elems q)"
  shows "steps p k (pending d pre ([CHR ''[''] @ t @ [CHR '']'']))
    (pr_then (ensure_put p 1 [CHR ''[''] 1) (\<lambda>p. pr_then (elems (deeper p)) (\<lambda>p. shallower (ensure_poke p 2 [CHR '']'', NUL]))))"
proof (rule steps_then [OF _ _ order_refl])
  show "steps p k (at_end d (pre @ [CHR ''[''])) (ensure_put p 1 [CHR ''[''] 1)"
    using ensure_put_steps [OF p, of "[CHR ''['']" "[]" 1 k 1] fit by simp
  fix q
  assume q: "at_end d (pre @ [CHR ''['']) q" "kept p q"
  note dq = at_end_deeper [OF q(1)]
  show "steps q k (pending d pre ([CHR ''[''] @ t @ [CHR '']'']))
    (pr_then (elems (deeper q)) (\<lambda>p. shallower (ensure_poke p 2 [CHR '']'', NUL])))"
  proof (rule steps_then [OF steps_same [OF elems] _ order_refl])
    show "at_end (Suc d) (pre @ [CHR ''['']) (deeper q)" "kept q (deeper q)" "kept p (deeper q)"
      using dq kept_trans [OF q(2)] by auto
    fix r
    assume r: "at_end (Suc d) ((pre @ [CHR ''['']) @ t) r"
    have "steps r k (pending d ((pre @ [CHR ''['']) @ t) [CHR '']'']) (shallower (ensure_poke r 2 ([CHR '']''] @ [NUL])))"
      by (rule shallower_steps, rule ensure_poke_steps [OF r]) (use fit in simp_all)
    then show "steps r k (pending d pre ([CHR ''[''] @ t @ [CHR '']''])) (shallower (ensure_poke r 2 [CHR '']'', NUL]))"
      using pending_append [of d pre "[CHR ''[''] @ t" "[CHR '']'']"] by (auto elim: steps_weaken)
  qed
qed

lemma object_steps:
  assumes p: "at_end d pre p" "pr_format p = fmt"
    and o: "o' = [CHR 0x7B] @ (if fmt then [CHR 0x0A] else [])" and c: "c = (if fmt then replicate d (CHR 0x09) else []) @ [CHR 0x7D]"
    and fit: "length pre + length o' + length t + length c + 2 \<le> k"
    and members: "\<And>q. at_end (Suc d) (pre @ o') q \<Longrightarrow> kept p q \<Longrightarrow> steps q k (at_end (Suc d) ((pre @ o') @ t)) (members q)"
  shows "steps p k (pending d pre (o' @ t @ c))
    (pr_then (open_object p) (\<lambda>p. pr_then (members p) (\<lambda>p. shallower (close_object p))))"
proof (rule steps_then [OF open_object_steps [OF p, folded o] _ order_refl])
  show "length pre + 4 \<le> k" using fit o c by simp
  fix q
  assume q: "at_end (Suc d) (pre @ o') q" "kept p q"
  show "steps q k (pending d pre (o' @ t @ c)) (pr_then (members q) (\<lambda>p. shallower (close_object p)))"
  proof (rule steps_then [OF members [OF q] _ order_refl])
    fix r
    assume r: "at_end (Suc d) ((pre @ o') @ t) r" "kept q r"
    have "steps r k (pending d ((pre @ o') @ t) c) (shallower (close_object r))"
      unfolding c by (rule close_object_steps [OF r(1)])
        (use fit o c p same_format [OF q(2)] same_format [OF r(2)] in \<open>simp_all split: if_splits\<close>)
    then show "steps r k (pending d pre (o' @ t @ c)) (shallower (close_object r))"
      using pending_append [of d pre "o' @ t" c] by (auto elim: steps_weaken)
  qed
qed

lemma key_steps:
  assumes p: "at_end d pre p" "pr_format p = fmt"
    and t: "t = (if fmt then replicate d (CHR 0x09) else []) @ quoted key @ [CHR '':''] @ (if fmt then [CHR 0x09] else [])"
    and fit: "length pre + length t + 2 \<le> k"
    and rest: "\<And>q. at_end d (pre @ t) q \<Longrightarrow> kept p q \<Longrightarrow> steps q k R (f q)"
  shows "steps p k R (pr_then (put_indent p) (\<lambda>p. pr_then (print_string_ptr key p) (\<lambda>p.
    pr_then (update_offset p) (\<lambda>p. pr_then (put_colon p) f))))"
proof (rule steps_then [OF put_indent_steps [OF p] _ order_refl])
  let ?i = "if fmt then replicate d (CHR 0x09) else []"
  show "fmt \<longrightarrow> length pre + d + 1 \<le> k" using fit t by (cases fmt) simp_all
  fix p1
  assume p1: "at_end d (pre @ ?i) p1" "kept p p1"
  show "steps p1 k R (pr_then (print_string_ptr key p1) (\<lambda>p. pr_then (update_offset p) (\<lambda>p. pr_then (put_colon p) f)))"
  proof (rule steps_then [OF print_string_steps [OF p1(1)] _ order_refl])
    show "length (pre @ ?i) + length (quoted key) + 2 \<le> k" using fit t by simp
    fix p2
    assume p2: "pending d (pre @ ?i) (quoted key) p2" "kept p1 p2"
    show "steps p2 k R (pr_then (update_offset p2) (\<lambda>p. pr_then (put_colon p) f))"
    proof (rule steps_then [OF update_offset_steps [OF p2(1) quoted_no_NUL] _ order_refl])
      fix p3
      assume p3: "at_end d ((pre @ ?i) @ quoted key) p3" "kept p2 p3"
      have s: "kept p p3" using kept_trans [OF kept_trans [OF p1(2) p2(2)] p3(2)] .
      show "steps p3 k R (pr_then (put_colon p3) f)"
        by (rule steps_then [OF put_colon_steps [OF p3(1)] _ order_refl])
          (use p fit t rest same_format [OF s] kept_trans [OF s] in auto)
    qed
  qed
qed

text \<open>A value, with what follows it behind the update of the offset.\<close>

lemma value_steps:
  assumes v: "steps p k (pending d pre t) r" and nul: "NUL \<notin> set t"
    and rest: "\<And>q. at_end d (pre @ t) q \<Longrightarrow> kept p q \<Longrightarrow> steps q k R (f q)"
  shows "steps p k R (pr_then r (\<lambda>p. pr_then (update_offset p) f))"
proof (rule steps_then [OF v _ order_refl])
  fix q
  assume q: "pending d pre t q" "kept p q"
  show "steps q k R (pr_then (update_offset q) f)"
    by (rule steps_then [OF update_offset_steps [OF q(1) nul] _ order_refl]) (use rest kept_trans [OF q(2)] in auto)
qed

lemma print_steps:
  "printable c \<Longrightarrow> numbers_ok c \<Longrightarrow> pr_format p = fmt \<Longrightarrow> at_end d pre p \<Longrightarrow> length pre + length (json_text fmt d c) + 2 \<le> k \<Longrightarrow>
     steps p k (pending d pre (json_text fmt d c)) (print_value c p)"
  "list_all printable cs \<Longrightarrow> list_all numbers_ok cs \<Longrightarrow> pr_format p = fmt \<Longrightarrow> at_end d pre p \<Longrightarrow> length pre + length (elements_text fmt d cs) + 3 \<le> k \<Longrightarrow>
     steps p k (at_end d (pre @ elements_text fmt d cs)) (print_elements cs p)"
  "list_all printable cs \<Longrightarrow> list_all numbers_ok cs \<Longrightarrow> pr_format p = fmt \<Longrightarrow> at_end d pre p \<Longrightarrow> length pre + length (members_text fmt d cs) + 3 \<le> k \<Longrightarrow>
     steps p k (at_end d (pre @ members_text fmt d cs)) (print_members cs p)"
proof (induction fmt d c and fmt d cs and fmt d cs arbitrary: pre p k and pre p k and pre p k rule: json_text_elements_text_members_text.induct)
  case (1 fmt d name ty s i x cs)
  note prems = "1.prems"
  note lit = ensure_poke_steps [OF prems(4)]
  show ?case
  proof (cases ty)
    case cJSON_Array
    have "steps p k (pending d pre ([CHR ''[''] @ elements_text fmt (Suc d) cs @ [CHR '']'']))
      (pr_then (ensure_put p 1 [CHR ''[''] 1) (\<lambda>p. pr_then (print_elements cs (deeper p)) (\<lambda>p. shallower (ensure_poke p 2 [CHR '']'', NUL]))))"
    proof (rule array_steps [OF prems(4)])
      fix q
      assume q: "at_end (Suc d) (pre @ [CHR ''['']) q" "kept p q"
      show "steps q k (at_end (Suc d) ((pre @ [CHR ''['']) @ elements_text fmt (Suc d) cs)) (print_elements cs q)"
        by (rule "1.IH"(1) [OF cJSON_Array _ _ _ q(1)])
          (use prems cJSON_Array same_format [OF q(2)] in \<open>simp_all add: list_all_iff\<close>)
    qed (use prems cJSON_Array in simp)
    then show ?thesis using cJSON_Array by simp
  next
    case cJSON_Object
    have "steps p k (pending d pre (([CHR 0x7B] @ (if fmt then [CHR 0x0A] else [])) @ members_text fmt (Suc d) cs @
        (if fmt then replicate d (CHR 0x09) else []) @ [CHR 0x7D]))
      (pr_then (open_object p) (\<lambda>p. pr_then (print_members cs p) (\<lambda>p. shallower (close_object p))))"
    proof (rule object_steps [OF prems(4,3) refl refl])
      fix q
      assume q: "at_end (Suc d) (pre @ [CHR 0x7B] @ (if fmt then [CHR 0x0A] else [])) q" "kept p q"
      show "steps q k (at_end (Suc d) ((pre @ [CHR 0x7B] @ (if fmt then [CHR 0x0A] else [])) @ members_text fmt (Suc d) cs)) (print_members cs q)"
        by (rule "1.IH"(2) [OF cJSON_Object _ _ _ q(1)])
          (use prems cJSON_Object same_format [OF q(2)] in \<open>simp_all add: list_all_iff split: if_splits\<close>)
    qed (use prems cJSON_Object in simp)
    then show ?thesis using cJSON_Object by simp
  next
    case cJSON_Raw
    then show ?thesis using prems lit [of "c_str (the s)" "length (c_str (the s)) + 1" k] by auto
  next
    case cJSON_String
    then show ?thesis using prems print_string_steps [OF prems(4)] by simp
  next
    case cJSON_Number
    then show ?thesis using prems print_number_steps [OF prems(4), of x i k] by simp
  next
    case cJSON_NULL
    then show ?thesis using prems lit [of "''null''" 5 k] by simp
  next
    case cJSON_True
    then show ?thesis using prems lit [of "''true''" 5 k] by simp
  next
    case cJSON_False
    then show ?thesis using prems lit [of "''false''" 6 k] by simp
  next
    case cJSON_Invalid
    then show ?thesis using prems by simp
  qed
next
  case (2 fmt d)
  then show ?case by simp
next
  case (3 fmt d c cs)
  note prems = "3.prems"
  let ?t = "json_text fmt d c" and ?e = "elements_text fmt d cs"
  let ?s = "if cs = [] then [] else [CHR '',''] @ (if fmt then [CHR '' ''] else [])"
  have fit: "length pre + length ?t + length ?s + length ?e + 3 \<le> k" using prems(5) by simp
  have "steps p k (at_end d (((pre @ ?t) @ ?s) @ ?e)) (print_elements (c # cs) p)"
    unfolding print_elements.simps
  proof (rule value_steps [OF "3.IH"(1) [OF _ _ prems(3,4)] json_text_no_NUL(1)])
    show "printable c" "numbers_ok c" "length pre + length ?t + 2 \<le> k" using prems fit by simp_all
    fix r
    assume r: "at_end d (pre @ ?t) r" "kept p r"
    have comma: "steps r k (at_end d ((pre @ ?t) @ ?s)) (if cs \<noteq> [] then put_comma r else Inr (True, r))"
      using put_comma_steps [OF r(1), of fmt k] same_format [OF r(2)] prems(3) fit r(1) by auto
    show "steps r k (at_end d (((pre @ ?t) @ ?s) @ ?e)) (pr_then (if cs \<noteq> [] then put_comma r else Inr (True, r)) (print_elements cs))"
      by (rule steps_then [OF comma _ order_refl], rule "3.IH"(2))
        (use prems fit same_format [OF r(2)] in \<open>auto dest: same_format\<close>)
  qed
  then show ?case by simp
next
  case (4 fmt d)
  then show ?case by simp
next
  case (5 fmt d c cs)
  note prems = "5.prems"
  let ?i = "if fmt then replicate d (CHR 0x09) else []" and ?c = "if fmt then [CHR 0x09] else []"
  let ?k = "?i @ quoted (cj_name c) @ [CHR '':''] @ ?c" and ?t = "json_text fmt d c"
  let ?s = "(if cs = [] then [] else [CHR '','']) @ (if fmt then [CHR 0x0A] else [])" and ?e = "members_text fmt d cs"
  have fit: "length pre + length ?k + length ?t + length ?s + length ?e + 3 \<le> k" using prems(5) by simp
  have "steps p k (at_end d ((((pre @ ?k) @ ?t) @ ?s) @ ?e)) (print_members (c # cs) p)"
    unfolding print_members.simps
  proof (rule key_steps [OF prems(4,3) refl])
    show "length pre + length ?k + 2 \<le> k" using fit by simp
    fix q
    assume q: "at_end d (pre @ ?k) q" "kept p q"
    note f = same_format [OF q(2), unfolded prems(3)]
    show "steps q k (at_end d ((((pre @ ?k) @ ?t) @ ?s) @ ?e))
      (pr_then (print_value c q) (\<lambda>p. pr_then (update_offset p) (\<lambda>p. pr_then (end_member (cs = []) p) (print_members cs))))"
    proof (rule value_steps [OF "5.IH"(1) [OF _ _ f q(1)] json_text_no_NUL(1)])
      show "printable c" "numbers_ok c" "length (pre @ ?k) + length ?t + 2 \<le> k" using prems fit by simp_all
      fix r
      assume r: "at_end d ((pre @ ?k) @ ?t) r" "kept q r"
      note g = same_format [OF r(2), unfolded f]
      have fit4: "length ((pre @ ?k) @ ?t) + (if fmt then 1 else 0) + (if cs = [] then 0 else 1) + 2 \<le> k"
        using fit by (simp split: if_splits)
      show "steps r k (at_end d ((((pre @ ?k) @ ?t) @ ?s) @ ?e)) (pr_then (end_member (cs = []) r) (print_members cs))"
        by (rule steps_then [OF end_member_steps [OF r(1) g fit4] _ order_refl], rule "5.IH"(2))
          (use prems fit g in \<open>auto dest: same_format\<close>)
    qed
  qed
  then show ?case by simp
qed

section \<open>What the entry points print\<close>

lemma mem_text_prefix:
  assumes "NUL \<notin> set t" "take (length t + 1) mem = map Some (t @ [NUL])"
  shows "mem_text mem = t"
proof -
  have "mem = map Some (t @ [NUL]) @ drop (length t + 1) mem" using assms(2) by (metis append_take_drop_id)
  also have "\<dots> = map Some t @ Some NUL # drop (length t + 1) mem" by simp
  finally have mem: "mem = map Some t @ Some NUL # drop (length t + 1) mem" .
  have "takeWhile (\<lambda>x. x \<noteq> Some NUL) (map Some t @ Some NUL # r) = map Some t" for r
    using assms(1) by (induction t) auto
  then show ?thesis unfolding mem_text_def by (subst mem) (simp add: o_def)
qed

lemma pending_text:
  assumes "pending d [] t p"
  shows "\<exists>mem. pr_buffer p = Some mem \<and> length t < pr_length p \<and> pr_length p \<le> length mem \<and> take (length t + 1) mem = map Some (t @ [NUL])"
  using assms by (auto simp: pending_def wf_buffer_def)

lemma update_offset_pending:
  assumes "pending d [] t p" "NUL \<notin> set t"
  shows "\<exists>p'. update_offset p = Inr (True, p') \<and> pending d [] t p' \<and> pr_offset p' = length t"
proof -
  have s: "steps p 0 (at_end d ([] @ t)) (update_offset p)" by (rule update_offset_steps [OF assms])
  obtain mem where m: "pr_buffer p = Some mem" using pending_text [OF assms(1)] by blast
  then obtain n where u: "update_offset p = Inr (True, forward p n)"
    using s by (cases "strlen_at (drop (pr_offset p) mem)") (simp_all add: update_offset_def)
  then have "pr_offset (forward p n) = length t" using s by (simp add: at_end_def)
  then show ?thesis using u assms(1) m by (auto simp: pending_def forward_def wf_buffer_def)
qed

definition has_memory :: "print_hooks \<Rightarrow> bool" where
  "has_memory hooks \<longleftrightarrow> (\<forall>n. h_allocate hooks n) \<and> (case h_reallocate hooks of None \<Rightarrow> True | Some ok \<Rightarrow> \<forall>n. ok n)"

lemma start_steps:
  assumes "printable n" "numbers_ok n" "p = \<lparr>pr_buffer = Some mem, pr_length = len, pr_offset = 0, pr_depth = 0,
      pr_noalloc = noalloc, pr_format = fmt, pr_hooks = hooks\<rparr>"
    and "len \<le> length mem" "len \<le> int_max" "len = 0 \<Longrightarrow> noalloc \<or> h_reallocate hooks \<noteq> None"
  shows "steps p (length (json_text fmt 0 n) + 2) (pending 0 [] (json_text fmt 0 n)) (print_value n p)"
  by (rule print_steps) (use assms in \<open>auto simp: at_end_def wf_buffer_def\<close>)

text \<open>The block that is handed out, got by shrinking or by copying.\<close>

lemma handed_out:
  assumes "NUL \<notin> set t" "take (length t + 1) mem = map Some (t @ [NUL])"
  shows "mem_text (grown mem (length t + 1)) = t" "length t + 1 \<le> k \<Longrightarrow>
    mem_text (take (length t) (grown (take (min k (length t + 1)) mem) (length t + 1)) @ [Some NUL]) = t"
proof -
  have le: "length t + 1 \<le> length mem" using arg_cong [OF assms(2), of length] by simp
  have g: "take (length t + 1) (grown mem (length t + 1)) = map Some (t @ [NUL])"
    by (simp only: grown_prefix [OF le order_refl] assms(2))
  then show "mem_text (grown mem (length t + 1)) = t" by (rule mem_text_prefix [OF assms(1)])
  assume "length t + 1 \<le> k"
  then have "grown (take (min k (length t + 1)) mem) (length t + 1) = map Some (t @ [NUL])"
    using le assms(2) by (simp add: grown_def min_absorb2)
  then show "mem_text (take (length t) (grown (take (min k (length t + 1)) mem) (length t + 1)) @ [Some NUL]) = t"
    by (intro mem_text_prefix [OF assms(1)]) simp
qed

lemma printed_text:
  assumes "printable n" "numbers_ok n"
  shows "case print_tree (Some n) fmt hooks of
      Inl _ \<Rightarrow> False
    | Inr None \<Rightarrow> \<not> (has_memory hooks \<and> length (json_text fmt 0 n) + 2 \<le> int_max)
    | Inr (Some t) \<Rightarrow> t = json_text fmt 0 n"
proof (cases "h_allocate hooks 256")
  case False
  then show ?thesis by (auto simp: print_tree_def has_memory_def)
next
  case alloc: True
  let ?t = "json_text fmt 0 n"
  let ?p = "\<lparr>pr_buffer = Some (replicate 256 None), pr_length = 256, pr_offset = 0, pr_depth = 0, pr_noalloc = False,
      pr_format = fmt, pr_hooks = hooks\<rparr>"
  note nul = json_text_no_NUL(1) [of fmt 0 n]
  have st: "steps ?p (length ?t + 2) (pending 0 [] ?t) (print_value n ?p)"
    by (rule start_steps [OF assms refl]) (simp_all add: int_max_def)
  show ?thesis
  proof (cases "print_value n ?p")
    case (Inl e)
    then show ?thesis using st by simp
  next
    case (Inr x)
    then obtain ok p where v: "print_value n ?p = Inr (ok, p)" by (cases x) auto
    show ?thesis
    proof (cases ok)
      case False
      then have "\<not> room ?p (length ?t + 2)" using st v by simp
      then have "\<not> (has_memory hooks \<and> length ?t + 2 \<le> int_max)"
        by (auto simp: room_def has_memory_def split: option.splits)
      then show ?thesis using v False alloc by (simp add: print_tree_def pr_then_def split: option.splits)
    next
      case True
      then have "pending 0 [] ?t p" using st v by simp
      from update_offset_pending [OF this nul] obtain q
        where q: "update_offset p = Inr (True, q)" "pending 0 [] ?t q" "pr_offset q = length ?t" by blast
      obtain mem where m: "pr_buffer q = Some mem" "length ?t < pr_length q" "pr_length q \<le> length mem"
        "take (length ?t + 1) mem = map Some (?t @ [NUL])" using pending_text [OF q(2)] by blast
      note out = handed_out [OF nul m(4)]
      show ?thesis
        using v True q m alloc out(1) out(2) [of "pr_length q"]
        by (auto simp: print_tree_def pr_then_def has_memory_def min_def split: option.splits)
    qed
  qed
qed

text \<open>
  C17. \<^verbatim>\<open>cJSON_Print\<close> and \<^verbatim>\<open>cJSON_PrintUnformatted\<close> give the text of the tree: they never touch memory they do
  not have, whatever the allocation functions do, and they give no text only when there is no
  memory for it or it is longer than an \<^verbatim>\<open>int\<close> can say.
\<close>

theorem print_gives_text:
  assumes "printable n" "numbers_ok n"
  shows "case print_tree (Some n) fmt hooks of
      Inl _ \<Rightarrow> False
    | Inr None \<Rightarrow> \<not> (has_memory hooks \<and> length (json_text fmt 0 n) + 2 \<le> int_max)
    | Inr (Some t) \<Rightarrow> t = json_text fmt 0 n"
  by (rule printed_text [OF assms])

definition demo_tree :: cjson where
  "demo_tree = CJson None cJSON_Object None 0 (Finite 0)
     [CJson (Some ''a'') cJSON_Array None 0 (Finite 0) [CJson None cJSON_True None 1 (Finite 0) [], CJson None cJSON_NULL None 0 (Finite 0) []],
      CJson (Some ''b'') cJSON_String (Some (''x'' @ [CHR 0x0A])) 0 (Finite 0) []]"

definition malloc_hooks :: print_hooks where
  "malloc_hooks = \<lparr>h_allocate = (\<lambda>_. True), h_reallocate = Some (\<lambda>_. True)\<rparr>"

lemma demo_ok: "printable demo_tree" "numbers_ok demo_tree"
  by (simp_all add: demo_tree_def dbl_ok_def dbl_limit_def int_limits)

lemma demo_text: "json_text False 0 demo_tree = [CHR 0x7B, CHR 0x22] @ ''a'' @ [CHR 0x22] @ '':[true,null],'' @ [CHR 0x22] @ ''b'' @ [CHR 0x22] @ '':'' @
    [CHR 0x22] @ ''x'' @ [CHR 0x5C] @ ''n'' @ [CHR 0x22, CHR 0x7D]"
  by (simp add: demo_tree_def quoted_def c_str_def escape_text_def short_name_def)

theorem print_gives_text_witness: "print_tree (Some demo_tree) False malloc_hooks = Inr (Some (json_text False 0 demo_tree))"
proof -
  have "has_memory malloc_hooks \<and> length (json_text False 0 demo_tree) + 2 \<le> int_max"
    by (simp add: has_memory_def malloc_hooks_def demo_text int_max_def)
  then show ?thesis using print_gives_text [OF demo_ok, where fmt = False and hooks = malloc_hooks] by (auto split: sum.splits option.splits)
qed

text \<open>
  C36. Printing into the caller's buffer stays inside it and either fails or leaves the text there.
  Two bytes more than the text are always enough (the text, its NUL and one byte; the header asks for
  five more).
\<close>

theorem preallocated_stays_inside:
  assumes "printable n" "numbers_ok n" "length mem = nat len" "0 \<le> len" "len \<le> INT_MAX"
  shows "\<exists>ok mem'. cJSON_PrintPreallocated (Some n) (Some mem) len fmt hooks = Inr (ok, mem') \<and>
    (ok \<longrightarrow> map_option mem_text mem' = Some (json_text fmt 0 n)) \<and>
    (length (json_text fmt 0 n) + 2 \<le> nat len \<longrightarrow> ok)"
proof -
  let ?p = "\<lparr>pr_buffer = Some mem, pr_length = nat len, pr_offset = 0, pr_depth = 0, pr_noalloc = True, pr_format = fmt, pr_hooks = hooks\<rparr>"
  let ?t = "json_text fmt 0 n"
  have st: "steps ?p (length ?t + 2) (pending 0 [] ?t) (print_value n ?p)"
    by (rule start_steps [OF assms(1,2) refl]) (use assms in \<open>auto simp: int_max_def INT_MAX_def\<close>)
  obtain ok p where v: "print_value n ?p = Inr (ok, p)" using st by (cases "print_value n ?p") auto
  have "mem_text mem' = ?t" if "pending 0 [] ?t p" "pr_buffer p = Some mem'" for mem'
    using pending_text [OF that(1)] mem_text_prefix [OF json_text_no_NUL(1)] that(2) by auto
  then have "ok \<Longrightarrow> map_option mem_text (pr_buffer p) = Some ?t" using st v pending_text [of 0 ?t p] by auto
  moreover have "length ?t + 2 \<le> nat len \<Longrightarrow> ok" using st v by (cases ok) (auto simp: room_def)
  ultimately show ?thesis using v assms(4) by (auto simp: cJSON_PrintPreallocated_def)
qed

theorem preallocated_stays_inside_witness:
  "\<exists>mem'. cJSON_PrintPreallocated (Some demo_tree) (Some (replicate 30 None)) 30 False malloc_hooks = Inr (True, mem') \<and>
     map_option mem_text mem' = Some (json_text False 0 demo_tree)"
  using preallocated_stays_inside [OF demo_ok, where mem = "replicate 30 None" and len = 30 and fmt = False and hooks = malloc_hooks]
  by (auto simp: demo_text INT_MAX_def)

text \<open>
  \<^verbatim>\<open>cJSON_PrintBuffered\<close> with an estimate of 0 bytes and allocation functions without
  \<^verbatim>\<open>realloc\<close> copies a byte from the block of no bytes it allocated.
\<close>

theorem buffered_zero_reads_outside:
  "cJSON_PrintBuffered (Some cJSON_CreateNull) 0 fmt \<lparr>h_allocate = (\<lambda>_. True), h_reallocate = None\<rparr> = Inl InvalidRead"
  by (simp add: cJSON_PrintBuffered_def cJSON_CreateNull_def ensure_poke_def ensure_def grow_def pr_then_def int_max_def)

lemma buffered_gives_text:
  assumes "printable n" "numbers_ok n" "prebuffer \<le> INT_MAX" "0 < prebuffer \<or> h_reallocate hooks \<noteq> None"
  shows "case cJSON_PrintBuffered (Some n) prebuffer fmt hooks of
      Inl _ \<Rightarrow> False
    | Inr None \<Rightarrow> prebuffer < 0 \<or> \<not> (has_memory hooks \<and> length (json_text fmt 0 n) + 2 \<le> int_max)
    | Inr (Some t) \<Rightarrow> t = json_text fmt 0 n"
proof (cases "prebuffer < 0 \<or> \<not> h_allocate hooks (nat prebuffer)")
  case True
  then show ?thesis by (auto simp: cJSON_PrintBuffered_def has_memory_def)
next
  case False
  let ?p = "\<lparr>pr_buffer = Some (replicate (nat prebuffer) None), pr_length = nat prebuffer, pr_offset = 0, pr_depth = 0,
      pr_noalloc = False, pr_format = fmt, pr_hooks = hooks\<rparr>"
  let ?t = "json_text fmt 0 n"
  have st: "steps ?p (length ?t + 2) (pending 0 [] ?t) (print_value n ?p)"
    by (rule start_steps [OF assms(1,2) refl]) (use assms False in \<open>auto simp: int_max_def INT_MAX_def\<close>)
  obtain ok p where v: "print_value n ?p = Inr (ok, p)" using st by (cases "print_value n ?p") auto
  show ?thesis
  proof (cases ok)
    case ok: True
    then have "pending 0 [] ?t p" using st v by simp
    then show ?thesis
      using pending_text [of 0 ?t p] mem_text_prefix [OF json_text_no_NUL(1)] v ok False
      by (auto simp: cJSON_PrintBuffered_def)
  next
    case no: False
    then have "\<not> room ?p (length ?t + 2)" using st v by simp
    then have "\<not> (has_memory hooks \<and> length ?t + 2 \<le> int_max)"
      by (auto simp: room_def has_memory_def split: option.splits)
    then show ?thesis using v no False by (auto simp: cJSON_PrintBuffered_def)
  qed
qed

end
