(* ===== verification/Cjson_Round.thy ===== *)
theory Cjson_Round
  imports Cjson_Parse Cjson_Print
begin

text \<open>
  The parser and the printer of \<^verbatim>\<open>file_compare/common/cJSON.cc\<close> together: what is printed of a tree is read
  back as the tree.
\<close>

section \<open>Reading at a known text\<close>

abbreviation rest_at :: "parse_buffer \<Rightarrow> string" where
  "rest_at b \<equiv> drop (pf_offset b) (pf_content b)"

lemma rest_at_advance [simp]: "rest_at (advance b n) = drop n (rest_at b)"
  by (simp add: add.commute)

lemma at_char:
  assumes "rest_at b = c # r"
  shows "can_access_at_index b 0" "byte_at b 0 = c" "is_at b x \<longleftrightarrow> c = x" "read_byte b 0 = Inr c"
proof -
  have l: "pf_offset b < length (pf_content b)" using assms by (metis drop_all list.simps(3) not_le)
  then have "pf_content b ! pf_offset b = c" using assms by (metis nth_via_drop)
  then show "can_access_at_index b 0" "byte_at b 0 = c" "is_at b x \<longleftrightarrow> c = x" "read_byte b 0 = Inr c"
    using l by (simp_all add: can_access_at_index_def byte_at_def is_at_def read_byte_def)
qed

definition low_char :: "char \<Rightarrow> bool" where
  "low_char c \<longleftrightarrow> of_char c \<le> (32 :: nat)"

lemma skip_blanks_text:
  "list_all low_char ws \<Longrightarrow> \<not> low_char c \<Longrightarrow> drop i s = ws @ c # r \<Longrightarrow> skip_blanks s i = i + length ws"
proof (induction ws arbitrary: i)
  case Nil
  then have "s ! i = c" by (metis append_Nil nth_via_drop)
  then show ?case using Nil by (simp add: skip_blanks.simps [of s i] low_char_def)
next
  case (Cons w ws)
  then have i: "s ! i = w" "i < length s" by (metis append_Cons nth_via_drop, metis append_Cons drop_all list.simps(3) not_le)
  have "drop (Suc i) s = ws @ c # r" using Cons.prems(3) by (metis append_Cons drop_Suc list.sel(3) tl_drop)
  then have "skip_blanks s (Suc i) = Suc i + length ws" using Cons by simp
  then show ?case using i Cons.prems by (simp add: skip_blanks.simps [of s i] low_char_def)
qed

lemma skip_text:
  assumes "list_all low_char ws" "\<not> low_char c" "rest_at b = ws @ c # r"
  shows "buffer_skip_whitespace b = advance b (length ws)"
proof -
  have sb: "skip_blanks (pf_content b) (pf_offset b) = pf_offset b + length ws"
    by (rule skip_blanks_text [OF assms])
  have "drop (pf_offset b + length ws) (pf_content b) = c # r" using assms(3) by (metis add.commute append_eq_conv_conj drop_drop)
  then have "pf_offset b + length ws < length (pf_content b)" by (metis drop_all list.simps(3) not_le)
  then show ?thesis using sb by (simp add: buffer_skip_whitespace_def can_access_at_index_def advance_def Let_def)
qed

lemma skip_none: "rest_at b = c # r \<Longrightarrow> \<not> low_char c \<Longrightarrow> buffer_skip_whitespace b = b"
  using skip_text [of "[]" c b r] by (simp add: advance_def)

lemma strncmp_text:
  assumes "lit \<noteq> []"
  shows "strncmp_at b lit \<longleftrightarrow> take (length lit) (rest_at b) = lit"
proof -
  have "can_read b (length lit)" if "take (length lit) (rest_at b) = lit"
  proof -
    have "length lit \<le> length (rest_at b)" using arg_cong [OF that, of length] by simp
    moreover have "0 < length lit" using assms by simp
    ultimately show ?thesis unfolding can_read_def length_drop by linarith
  qed
  then show ?thesis by (auto simp: strncmp_at_def)
qed

section \<open>Strings\<close>

lemma hex_char_value: "n < 16 \<Longrightarrow> hex_value (hex_char n) = Some n"
  by (auto simp: hex_value_def hex_char_def Let_def)

lemma drop_split: "drop i s = xs @ ys \<Longrightarrow> drop (i + length xs) s = ys"
  by (metis add.commute append_eq_conv_conj drop_drop)

lemma drop_Cons_nth: "drop i s = c # r \<Longrightarrow> i < length s \<and> s ! i = c \<and> drop (Suc i) s = r"
  by (metis drop_Suc drop_all list.sel(3) list.simps(3) not_le nth_via_drop tl_drop)

lemma parse_hex4_digits:
  assumes "drop i s = hex_char a # hex_char b # hex_char c # hex_char d # r" "a < 16" "b < 16" "c < 16" "d < 16"
  shows "parse_hex4 s i = Inr (((a * 16 + b) * 16 + c) * 16 + d)"
proof -
  note 0 = drop_Cons_nth [OF assms(1)]
  then have 1: "Suc i < length s \<and> s ! Suc i = hex_char b \<and> drop (Suc (Suc i)) s = hex_char c # hex_char d # r"
    using drop_Cons_nth [of "Suc i" s] by simp
  then have 2: "Suc (Suc i) < length s \<and> s ! Suc (Suc i) = hex_char c \<and> drop (Suc (Suc (Suc i))) s = hex_char d # r"
    using drop_Cons_nth [of "Suc (Suc i)" s] by simp
  then have 3: "Suc (Suc (Suc i)) < length s \<and> s ! Suc (Suc (Suc i)) = hex_char d"
    using drop_Cons_nth [of "Suc (Suc (Suc i))" s] by simp
  show ?thesis using 0 1 2 3 assms(2-) by (simp add: parse_hex4_def eval_nat_numeral hex_char_value)
qed

lemma parse_hex4_text:
  assumes "drop i s = hex4 n @ r" "n < 65536"
  shows "parse_hex4 s i = Inr n"
proof -
  have "n div 16 * 16 + n mod 16 = n" "n div 256 * 16 + n div 16 mod 16 = n div 16" "n div 4096 * 16 + n div 256 mod 16 = n div 256"
    using div_mult_mod_eq [of n 16] div_mult_mod_eq [of "n div 16" 16] div_mult_mod_eq [of "n div 256" 16]
    by (simp_all add: div_mult2_eq [symmetric])
  moreover have "n div 4096 mod 16 = n div 4096" using assms(2) by (simp add: less_mult_imp_div_less)
  ultimately have eq: "((n div 4096 mod 16 * 16 + n div 256 mod 16) * 16 + n div 16 mod 16) * 16 + n mod 16 = n" by simp
  have "parse_hex4 s i = Inr (((n div 4096 mod 16 * 16 + n div 256 mod 16) * 16 + n div 16 mod 16) * 16 + n mod 16)"
    by (rule parse_hex4_digits [of _ _ _ _ _ _ r]) (use assms(1) in \<open>simp_all add: hex4_def\<close>)
  then show ?thesis by (simp only: eq)
qed

text \<open>The scan and the loop over an escaped text.\<close>

lemma scan_plain:
  "drop i s = c # r \<Longrightarrow> c \<noteq> CHR 0x22 \<Longrightarrow> c \<noteq> CHR 0x5C \<Longrightarrow> scan_string s i k = scan_string s (i + 1) k"
  using drop_Cons_nth [of i s c r] by (simp add: scan_string.simps [of s i])

lemma scan_escape:
  assumes "drop i s = CHR 0x5C # c # r"
  shows "scan_string s i k = scan_string s (i + 2) (k + 1)"
  using drop_Cons_nth [OF assms] drop_Cons_nth [of "Suc i" s c r] by (simp add: scan_string.simps [of s i])

lemma hex_char_plain: "n < 16 \<Longrightarrow> hex_char n \<noteq> CHR 0x22 \<and> hex_char n \<noteq> CHR 0x5C"
  using hex_char_value [of n] by (auto simp: hex_value_def)

lemma scan_hex4:
  assumes "drop i s = hex4 n @ r"
  shows "scan_string s i k = scan_string s (i + 4) k"
proof -
  have d: "hex_char (m mod 16) \<noteq> CHR 0x22" "hex_char (m mod 16) \<noteq> CHR 0x5C" for m
    using hex_char_plain [of "m mod 16"] by simp_all
  have 0: "drop i s = hex_char (n div 4096 mod 16) # hex_char (n div 256 mod 16) # hex_char (n div 16 mod 16) # hex_char (n mod 16) # r"
    using assms by (simp add: hex4_def)
  then have 1: "drop (i + 1) s = hex_char (n div 256 mod 16) # hex_char (n div 16 mod 16) # hex_char (n mod 16) # r"
    using drop_Cons_nth [OF 0] by simp
  then have 2: "drop (i + 1 + 1) s = hex_char (n div 16 mod 16) # hex_char (n mod 16) # r"
    using drop_Cons_nth [OF 1] by simp
  then have 3: "drop (i + 1 + 1 + 1) s = hex_char (n mod 16) # r" using drop_Cons_nth [OF 2] by simp
  show ?thesis
    using scan_plain [OF 0 d] scan_plain [OF 1 d] scan_plain [OF 2 d] scan_plain [OF 3 d] by (simp add: eval_nat_numeral)
qed

definition escaped :: "char \<Rightarrow> nat" where
  "escaped c = (if 31 < (of_char c :: nat) \<and> c \<noteq> CHR 0x22 \<and> c \<noteq> CHR 0x5C then 0 else 1)"

lemma scan_escape_text:
  assumes "drop i s = escape_text c @ r"
  shows "scan_string s i k = scan_string s (i + length (escape_text c)) (k + escaped c)"
proof (cases "31 < (of_char c :: nat) \<and> c \<noteq> CHR 0x22 \<and> c \<noteq> CHR 0x5C")
  case True
  then have "drop i s = c # r" using assms by (simp add: escape_text_def)
  then show ?thesis using scan_plain [of i s c r k] True by (simp add: escape_text_def escaped_def)
next
  case False
  then have one: "escaped c = 1" by (auto simp: escaped_def)
  show ?thesis
  proof (cases "short_name c")
    case (Some n)
    then have t: "escape_text c = [CHR 0x5C, n]" using False by (auto simp: escape_text_def)
    then show ?thesis using scan_escape [of i s n r k] assms one by simp
  next
    case None
    then have t: "escape_text c = CHR 0x5C # CHR ''u'' # hex4 (of_char c)" using False by (auto simp: escape_text_def)
    then have "drop (i + 2) s = hex4 (of_char c) @ r"
      using assms drop_split [of i s "[CHR 0x5C, CHR ''u'']" "hex4 (of_char c) @ r"] by simp
    then show ?thesis
      using scan_escape [of i s "CHR ''u''" "hex4 (of_char c) @ r" k] scan_hex4 [of "i + 2" s "of_char c" r "k + 1"] t assms one
      by (simp add: eval_nat_numeral)
  qed
qed

lemma scan_escaped:
  "drop i s = concat (map escape_text t) @ CHR 0x22 # r \<Longrightarrow>
     scan_string s i k = Some (i + length (concat (map escape_text t)), k + sum_list (map escaped t))"
proof (induction t arbitrary: i k)
  case Nil
  then show ?case using drop_Cons_nth [of i s "CHR 0x22" r] by (simp add: scan_string.simps [of s i])
next
  case (Cons c t)
  then have d: "drop i s = escape_text c @ concat (map escape_text t) @ CHR 0x22 # r" by simp
  show ?case using scan_escape_text [OF d] Cons.IH [OF drop_split [OF d]] by (simp add: add.assoc)
qed

lemma short_name_back: "short_name c = Some n \<Longrightarrow> n \<noteq> CHR ''u'' \<and> short_escape n = Some c"
  by (auto simp: short_name_def short_escape_def split: if_splits)

lemma utf16_control:
  assumes "drop (i + 2) s = hex4 (of_char c) @ r" "i + 6 \<le> e" "of_char c < (32 :: nat)"
  shows "utf16_literal_to_utf8 s i e = Inr (6, [c])"
proof -
  have "parse_hex4 s (i + 2) = Inr (of_char c)" by (rule parse_hex4_text [OF assms(1)]) (use assms(3) in simp)
  then show ?thesis using assms(2,3) by (simp add: utf16_literal_to_utf8_def is_low_def is_high_def utf8_bytes_def)
qed

lemma unescape_step:
  assumes d: "drop i s = escape_text c @ r" and e: "i + length (escape_text c) \<le> e" and cap: "length out < cap"
  shows "unescape s e cap i out = unescape s e cap (i + length (escape_text c)) (out @ [c])"
proof -
  have put: "put_out cap out [c] = Inr (out @ [c])" using cap by (simp add: put_out_def)
  show ?thesis
  proof (cases "31 < (of_char c :: nat) \<and> c \<noteq> CHR 0x22 \<and> c \<noteq> CHR 0x5C")
    case True
    then have t: "escape_text c = [c]" by (simp add: escape_text_def)
    then have "i < length s \<and> s ! i = c" using drop_Cons_nth [of i s c r] d by simp
    then show ?thesis using t e True put by (simp add: unescape.simps [of s e cap i])
  next
    case False
    obtain n r' where t: "escape_text c @ r = CHR 0x5C # n # r'"
      "short_name c = Some n \<and> length (escape_text c) = 2 \<or>
       short_name c = None \<and> n = CHR ''u'' \<and> r' = hex4 (of_char c) @ r \<and> length (escape_text c) = 6 \<and> of_char c < (32 :: nat)"
    proof (cases "short_name c")
      case None
      then have "of_char c < (32 :: nat)" using False by (auto simp: short_name_def)
      then show thesis using that None False by (auto simp: escape_text_def)
    next
      case (Some n)
      then show thesis using that False by (auto simp: escape_text_def)
    qed
    have i0: "i < length s \<and> s ! i = CHR 0x5C \<and> drop (Suc i) s = n # r'" using drop_Cons_nth [of i s "CHR 0x5C" "n # r'"] d t(1) by simp
    then have i1: "Suc i < length s \<and> s ! Suc i = n \<and> drop (Suc (Suc i)) s = r'" using drop_Cons_nth [of "Suc i" s n r'] by simp
    from t(2) show ?thesis
    proof
      assume "short_name c = Some n \<and> length (escape_text c) = 2"
      then show ?thesis using i0 i1 e put short_name_back [of c n] by (simp add: unescape.simps [of s e cap i])
    next
      assume a: "short_name c = None \<and> n = CHR ''u'' \<and> r' = hex4 (of_char c) @ r \<and> length (escape_text c) = 6 \<and> of_char c < (32 :: nat)"
      then have "utf16_literal_to_utf8 s i e = Inr (6, [c])" using utf16_control [of i s c r e] i1 e by simp
      then show ?thesis using i0 i1 e put a by (simp add: unescape.simps [of s e cap i])
    qed
  qed
qed

lemma unescape_escaped:
  "drop i s = concat (map escape_text t) @ r \<Longrightarrow> e = i + length (concat (map escape_text t)) \<Longrightarrow> length out + length t < cap \<Longrightarrow>
     unescape s e cap i out = Inr (Inr (out @ t))"
proof (induction t arbitrary: i out)
  case Nil
  then show ?case by (simp add: unescape.simps [of s i cap i] put_out_def)
next
  case (Cons c t)
  then have d: "drop i s = escape_text c @ concat (map escape_text t) @ r" by simp
  have "unescape s e cap i out = unescape s e cap (i + length (escape_text c)) (out @ [c])"
    by (rule unescape_step [OF d]) (use Cons.prems in simp_all)
  also have "\<dots> = Inr (Inr ((out @ [c]) @ t))"
    by (rule Cons.IH [OF drop_split [OF d]]) (use Cons.prems in simp_all)
  finally show ?case by simp
qed

lemma escaped_count: "sum_list (map escaped t) + length t \<le> length (concat (map escape_text t))"
proof (induction t)
  case (Cons c t)
  have "escaped c + 1 \<le> length (escape_text c)"
    by (cases "short_name c") (auto simp: escaped_def escape_text_def)
  then show ?case using Cons by simp
qed simp

lemma parse_string_quoted:
  assumes "rest_at b = quoted (Some t) @ r" "NUL \<notin> set t"
  shows "parse_string b = Inr (Some t, advance b (length (quoted (Some t))))"
proof -
  let ?s = "pf_content b" and ?o = "pf_offset b" and ?E = "concat (map escape_text t)"
  let ?e = "?o + 1 + length ?E"
  have d: "rest_at b = CHR 0x22 # ?E @ CHR 0x22 # r" using assms by (simp add: quoted_def)
  have d1: "drop (?o + 1) ?s = ?E @ CHR 0x22 # r" using drop_Cons_nth [OF d] by simp
  have sc: "scan_string ?s (?o + 1) 0 = Some (?e, sum_list (map escaped t))" using scan_escaped [OF d1, of 0] by simp
  have "unescape ?s ?e (?e - ?o - sum_list (map escaped t) + 1) (?o + 1) [] = Inr (Inr ([] @ t))"
    by (rule unescape_escaped [OF d1 refl]) (use escaped_count [of t] in simp)
  then show ?thesis
    using sc at_char(4) [OF d] assms(2) by (simp add: parse_string_def advance_def quoted_def Let_def)
qed

section \<open>Numbers\<close>

text \<open>What may follow a value: a character that is in no number.\<close>

definition stops :: "string \<Rightarrow> bool" where
  "stops r \<longleftrightarrow> (case r of [] \<Rightarrow> False | c # _ \<Rightarrow> \<not> number_char c)"

lemma show_nat_nonempty [simp]: "show_nat n \<noteq> []"
  by (subst show_nat.simps) simp

lemma show_nat_sign: "hd (show_nat n) \<noteq> CHR ''-'' \<and> hd (show_nat n) \<noteq> CHR ''+''"
proof -
  have "isdigit (hd (show_nat n))" using show_nat_digits [of n] by (metis hd_in_set list_all_iff show_nat_nonempty)
  then show ?thesis by (auto simp: isdigit_def)
qed

lemma strtod_digits: "strtod (show_nat n) = (to_double (of_nat n), length (show_nat n))"
proof -
  have s: "split_sign (show_nat n) = (False, show_nat n)"
    using show_nat_sign [of n] by (cases "show_nat n") (auto simp: split_sign_def)
  have d: "takeWhile isdigit (show_nat n) = show_nat n" "dropWhile isdigit (show_nat n) = []"
    using show_nat_digits [of n] by (simp_all add: list_all_iff)
  show ?thesis by (simp add: strtod_def s d frac_digits_def exp_part_def read_show_nat Let_def)
qed

lemma strtod_minus: "strtod (CHR ''-'' # show_nat n) = (to_double (- of_nat n), Suc (length (show_nat n)))"
proof -
  have d: "takeWhile isdigit (show_nat n) = show_nat n" "dropWhile isdigit (show_nat n) = []"
    using show_nat_digits [of n] by (simp_all add: list_all_iff)
  show ?thesis by (simp add: strtod_def d split_sign_def frac_digits_def exp_part_def read_show_nat Let_def)
qed

lemma strtod_show_int: "strtod (show_int i) = (to_double (of_int i), length (show_int i))"
  by (simp add: show_int_def strtod_digits strtod_minus)

lemma show_int_chars: "list_all number_char (show_int i)"
  using show_nat_digits by (auto simp: show_int_def list_all_iff number_char_def)

lemma number_string:
  assumes "rest_at b = t @ r" "list_all number_char t" "length t < 63" "stops r"
  shows "number_c_string b = t"
proof -
  obtain c r' where r: "r = c # r'" "\<not> number_char c" using assms(4) by (auto simp: stops_def split: list.splits)
  have "take 63 (rest_at b) = t @ c # take (62 - length t) r'"
    using assms(1,3) r by (simp add: take_Cons')
  then show ?thesis using assms(2) r by (simp add: number_c_string_def list_all_iff takeWhile_append2)
qed

lemma saturated_int: "INT_MIN \<le> i \<Longrightarrow> i \<le> INT_MAX \<Longrightarrow> saturated (Finite (of_int i)) = Some i"
  by (auto simp: saturated_def trunc_def)

lemma number_text_int: "number_text i (Finite (of_int i)) = show_int i"
  by (simp add: number_text_def isnan_def isinf_def dbl_eq_def)

lemma parse_number_int:
  assumes "rest_at b = show_int i @ r" "stops r" "INT_MIN \<le> i" "i \<le> INT_MAX"
  shows "parse_number name b = (Some (CJson name cJSON_Number None i (Finite (of_int i)) []), advance b (length (show_int i)))"
proof -
  have "number_c_string b = show_int i"
    by (rule number_string [OF assms(1) show_int_chars _ assms(2)]) (use show_int_length [of i] assms in simp)
  moreover have "to_double (of_int i) = Finite (of_int i)"
    by (rule to_double_int) (use assms in \<open>simp add: int_limits\<close>)
  moreover have "show_int i \<noteq> []" by (simp add: show_int_def)
  ultimately show ?thesis using assms by (simp add: parse_number_def strtod_show_int saturated_int)
qed

section \<open>Values\<close>

text \<open>The numbers that are read back exactly by this file's means: those that are their integer.\<close>

fun whole_numbers :: "cjson \<Rightarrow> bool" where
  "whole_numbers (CJson name ty s i d cs) = ((ty = cJSON_Number \<longrightarrow> d = Finite (of_int i)) \<and> list_all whole_numbers cs)"

lemma advance_advance [simp]: "advance (advance b m) n = advance b (m + n)"
  by (simp add: advance_def add.assoc)

lemma advance_depth [simp]: "pf_depth (advance b n) = pf_depth b"
  by (simp add: advance_def)

lemma no_word:
  assumes "rest_at b = c # r" "c \<noteq> CHR ''n''" "c \<noteq> CHR ''f''" "c \<noteq> CHR ''t''"
  shows "\<not> strncmp_at b ''null''" "\<not> strncmp_at b ''false''" "\<not> strncmp_at b ''true''"
  using assms by (simp_all add: strncmp_text)

text \<open>What a parser of values has to do of a tree, where at most \<open>l\<close> bytes are left and the depth is \<open>d\<close>.\<close>

definition reads_back :: "value_parser \<Rightarrow> nat \<Rightarrow> nat \<Rightarrow> string \<Rightarrow> cjson \<Rightarrow> bool" where
  "reads_back pv l d t n \<longleftrightarrow>
     (\<forall>b r. rest_at b = t @ r \<longrightarrow> stops r \<longrightarrow> pf_depth b = d \<longrightarrow> length (rest_at b) \<le> l \<longrightarrow>
       pv (cj_name n) b = done_with (Some n, advance b (length t)))"

lemma reads_backD:
  "reads_back pv l d t n \<Longrightarrow> rest_at b = t @ r \<Longrightarrow> stops r \<Longrightarrow> pf_depth b = d \<Longrightarrow> length (rest_at b) \<le> l \<Longrightarrow>
     pv (cj_name n) b = done_with (Some n, advance b (length t))"
  by (simp add: reads_back_def)

lemma show_int_head: "\<exists>c r. show_int i = c # r \<and> (c = CHR ''-'' \<or> isdigit c)"
proof (cases "show_nat (nat i)")
  case (Cons c r)
  then show ?thesis using show_nat_digits [of "nat i"] by (auto simp: show_int_def)
qed simp

lemma digit_char: "c = CHR ''-'' \<or> isdigit c \<Longrightarrow> \<not> low_char c \<and> c \<notin> {CHR ''n'', CHR ''f'', CHR ''t'', CHR 0x22, CHR '']'', CHR 0x7D, CHR 0xEF}"
  by (auto simp: isdigit_def low_char_def)

lemma json_text_head:
  assumes "node_ok n" "whole_numbers n"
  shows "\<exists>c r. json_text fmt d n = c # r \<and> \<not> low_char c \<and> c \<noteq> CHR '']'' \<and> c \<noteq> CHR 0x7D \<and> c \<noteq> CHR 0xEF"
proof (cases n)
  case (CJson name ty s i x cs)
  show ?thesis
  proof (cases "ty = cJSON_Number")
    case True
    then have t: "json_text fmt d n = show_int i" using assms CJson by (simp add: number_text_int)
    obtain c r where c: "show_int i = c # r" "c = CHR ''-'' \<or> isdigit c" using show_int_head [of i] by blast
    show ?thesis using digit_char [OF c(2)] unfolding t c(1) by blast
  next
    case False
    then show ?thesis using assms CJson by (cases ty) (auto simp: quoted_def low_char_def)
  qed
qed

lemma rest_step: "rest_at b = xs @ ys \<Longrightarrow> rest_at (advance b (length xs)) = ys"
  by (simp add: drop_split)

lemma skip_next:
  "rest_at b = xs @ ws @ c # r \<Longrightarrow> list_all low_char ws \<Longrightarrow> \<not> low_char c \<Longrightarrow>
     buffer_skip_whitespace (advance b (length xs)) = advance b (length (xs @ ws))"
  using skip_text [of ws c "advance b (length xs)" r] rest_step [of b xs "ws @ c # r"] by simp

text \<open>The place behind \<open>xs\<close>, as long as what follows is not looked at.\<close>

definition behind :: "parse_buffer \<Rightarrow> string \<Rightarrow> parse_buffer" where
  "behind b xs = advance b (length xs)"

lemma behind_depth [simp]: "pf_depth (behind b xs) = pf_depth b"
  by (simp add: behind_def)

lemma behind_behind [simp]: "behind (behind b xs) ys = behind b (xs @ ys)"
  by (simp add: behind_def)

lemma behind_rest: "rest_at b = xs @ ys \<Longrightarrow> rest_at (behind b xs) = ys"
  unfolding behind_def by (rule rest_step)

lemma behind_skip:
  "rest_at b = xs @ ws @ c # r \<Longrightarrow> list_all low_char ws \<Longrightarrow> \<not> low_char c \<Longrightarrow> buffer_skip_whitespace (behind b xs) = behind b (xs @ ws)"
  unfolding behind_def by (rule skip_next)

lemma behind_stay: "rest_at b = xs @ c # r \<Longrightarrow> \<not> low_char c \<Longrightarrow> buffer_skip_whitespace (behind b xs) = behind b xs"
  using behind_skip [of b xs "[]" c r] by simp

lemma advance_behind: "advance b 1 = behind b [x]" "advance (behind b xs) 1 = behind b (xs @ [x])"
  by (simp_all add: behind_def)

lemma reads_behind:
  "reads_back pv l d t n \<Longrightarrow> rest_at b = xs @ t @ r \<Longrightarrow> stops r \<Longrightarrow> pf_depth b = d \<Longrightarrow> length (rest_at b) \<le> l + length xs \<Longrightarrow>
     pv (cj_name n) (behind b xs) = done_with (Some n, behind b (xs @ t))"
  using reads_backD [of pv l d t n "behind b xs" r] by (simp add: behind_rest) (simp add: behind_def)

definition comma :: "bool \<Rightarrow> string" where
  "comma m = (if m then '','' else [])"

definition space :: "bool \<Rightarrow> string \<Rightarrow> string" where
  "space fmt t = (if fmt then t else [])"

lemma space_blank: "list_all low_char t \<Longrightarrow> list_all low_char (space fmt t)"
  by (simp add: space_def)

lemma elements_text_space: "elements_text fmt d (c # cs) = json_text fmt d c @ comma (cs \<noteq> []) @ space (fmt \<and> cs \<noteq> []) '' '' @ elements_text fmt d cs"
  by (simp add: comma_def space_def)

lemma members_text_space:
  "members_text fmt d (c # cs) = space fmt (replicate d (CHR 0x09)) @ quoted (cj_name c) @ '':'' @ space fmt [CHR 0x09] @ json_text fmt d c @
     comma (cs \<noteq> []) @ space fmt [CHR 0x0A] @ members_text fmt d cs"
  by (simp add: comma_def space_def)

lemma reads_elements:
  assumes "list_all (\<lambda>c. cj_name c = None \<and> node_ok c \<and> whole_numbers c \<and> reads_back pv l (pf_depth b) (json_text fmt d c) c) cs"
    and "cs \<noteq> []" "rest_at b = x # ws @ elements_text fmt d cs @ CHR '']'' # r" "list_all low_char ws"
    and "length (rest_at b) \<le> Suc l" "length cs \<le> k"
  shows "parse_elements k pv name acc b = finish cJSON_Array name (acc @ cs) (behind b (x # ws @ elements_text fmt d cs))"
  using assms
proof (induction cs arbitrary: k acc b ws x)
  case Nil
  then show ?case by simp
next
  case (Cons c cs)
  obtain j where k: "k = Suc j" "length cs \<le> j" using Cons.prems(6) by (cases k) auto
  define sp where "sp = space (fmt \<and> cs \<noteq> []) '' ''"
  have sp: "list_all low_char sp" unfolding sp_def by (rule space_blank) (simp add: low_char_def)
  let ?v = "json_text fmt d c"
  define rs where "rs = comma (cs \<noteq> []) @ sp @ elements_text fmt d cs @ CHR '']'' # r"
  have tx: "elements_text fmt d (c # cs) = ?v @ comma (cs \<noteq> []) @ sp @ elements_text fmt d cs"
    unfolding sp_def by (rule elements_text_space)
  have rest: "rest_at b = (x # ws) @ ?v @ rs" using Cons.prems(3) unfolding tx rs_def by simp
  obtain h t where h: "?v = h # t" "\<not> low_char h" using Cons.prems(1) json_text_head [of c fmt d] by fastforce
  have skip: "buffer_skip_whitespace (advance b 1) = behind b (x # ws)"
    using behind_skip [of b "[x]" ws h "t @ rs"] Cons.prems(4) h rest unfolding advance_behind(1) [of b x] by simp
  have "stops rs" by (cases "cs = []") (auto simp: rs_def sp_def space_def comma_def stops_def number_char_def isdigit_def)
  then have val: "pv None (behind b (x # ws)) = done_with (Some c, behind b ((x # ws) @ ?v))"
    using reads_behind [of pv l "pf_depth b" ?v c b "x # ws" rs] rest Cons.prems(1,5) by simp
  have r2: "rest_at (behind b ((x # ws) @ ?v)) = rs" using rest by (intro behind_rest) simp
  have step: "parse_elements k pv name acc b =
     (let b2 = behind b ((x # ws) @ ?v) in
      if is_at b2 (CHR '','') then parse_elements j pv name (acc @ [c]) b2
      else if \<not> is_at b2 (CHR '']'') then done_with (None, b2) else finish cJSON_Array name (acc @ [c]) b2)"
  proof -
    obtain y ys where y: "rs = y # ys" "\<not> low_char y"
      by (cases "cs = []") (auto simp: rs_def sp_def space_def comma_def low_char_def)
    have "buffer_skip_whitespace (behind b ((x # ws) @ ?v)) = behind b ((x # ws) @ ?v)"
      by (rule behind_stay [OF _ y(2), of _ _ ys]) (use rest y(1) in simp)
    then show ?thesis unfolding k(1) parse_elements.simps skip val by (simp add: Let_def)
  qed
  show ?case
  proof (cases "cs = []")
    case True
    then have "rest_at (behind b ((x # ws) @ ?v)) = CHR '']'' # r" using r2 by (simp add: rs_def sp_def space_def comma_def)
    then show ?thesis unfolding step tx using True at_char(3) by (simp add: Let_def comma_def sp_def space_def)
  next
    case False
    then have r: "rest_at (behind b ((x # ws) @ ?v)) = CHR '','' # sp @ elements_text fmt d cs @ CHR '']'' # r"
      using r2 by (simp add: rs_def comma_def)
    have "parse_elements j pv name (acc @ [c]) (behind b ((x # ws) @ ?v)) =
       finish cJSON_Array name ((acc @ [c]) @ cs) (behind (behind b ((x # ws) @ ?v)) (CHR '','' # sp @ elements_text fmt d cs))"
      by (rule Cons.IH [OF _ False r sp _ k(2)]) (use Cons.prems(1,5) rest r2 in simp_all)
    then show ?thesis unfolding step tx using at_char(3) [OF r] False by (simp add: Let_def comma_def)
  qed
qed

lemma text_okE: "text_ok s \<Longrightarrow> \<exists>t. s = Some t \<and> NUL \<notin> set t"
  by (auto simp: text_ok_def split: option.splits)

lemma parse_string_behind:
  assumes "rest_at b = xs @ quoted (Some t) @ r" "NUL \<notin> set t"
  shows "parse_string (behind b xs) = Inr (Some t, behind b (xs @ quoted (Some t)))"
  using parse_string_quoted [of "behind b xs" t r] behind_rest [OF assms(1)] assms(2) by (simp add: behind_def)

lemma reads_members:
  assumes "list_all (\<lambda>c. text_ok (cj_name c) \<and> node_ok c \<and> whole_numbers c \<and> reads_back pv l (pf_depth b) (json_text fmt d c) c) cs"
    and "cs \<noteq> []" "rest_at b = x # ws @ members_text fmt d cs @ es @ CHR 0x7D # r" "list_all low_char ws" "list_all low_char es"
    and "length (rest_at b) \<le> Suc l" "length cs \<le> k"
  shows "parse_members k pv name acc b = finish cJSON_Object name (acc @ cs) (behind b (x # ws @ members_text fmt d cs @ es))"
  using assms
proof (induction cs arbitrary: k acc b ws x)
  case Nil
  then show ?case by simp
next
  case (Cons c cs)
  obtain j where k: "k = Suc j" "length cs \<le> j" using Cons.prems(7) by (cases k) auto
  obtain key where key: "cj_name c = Some key" "NUL \<notin> set key" using text_okE [of "cj_name c"] Cons.prems(1) by auto
  define ind tab nl where defs: "ind = space fmt (replicate d (CHR 0x09))" "tab = space fmt [CHR 0x09]" "nl = space fmt [CHR 0x0A]"
  have blanks: "list_all low_char ind" "list_all low_char tab" "list_all low_char nl"
    unfolding defs by (rule space_blank, simp add: low_char_def list_all_iff)+
  let ?q = "quoted (Some key)" and ?v = "json_text fmt d c"
  define rs where "rs = comma (cs \<noteq> []) @ nl @ members_text fmt d cs @ es @ CHR 0x7D # r"
  have tx: "members_text fmt d (c # cs) = ind @ ?q @ '':'' @ tab @ ?v @ comma (cs \<noteq> []) @ nl @ members_text fmt d cs"
    unfolding defs key(1) [symmetric] by (rule members_text_space)
  have rest: "rest_at b = [x] @ (ws @ ind) @ ?q @ CHR '':'' # tab @ ?v @ rs" using Cons.prems(3) unfolding tx rs_def by simp
  obtain h t where h: "?v = h # t" "\<not> low_char h" using Cons.prems(1) json_text_head [of c fmt d] by fastforce
  obtain qt where q: "?q = CHR 0x22 # qt" by (simp add: quoted_def)
  let ?p1 = "[x] @ ws @ ind" let ?p2 = "?p1 @ ?q" let ?p3 = "(?p2 @ [CHR '':'']) @ tab" let ?p4 = "?p3 @ ?v"
  have quote: "\<not> low_char (CHR 0x22)" by (simp add: low_char_def)
  have skip1: "buffer_skip_whitespace (advance b 1) = behind b ?p1"
    unfolding advance_behind(1) [of b x]
    by (rule behind_skip [of _ _ _ "CHR 0x22" "qt @ CHR '':'' # tab @ ?v @ rs"]) (use Cons.prems(4) blanks rest q quote in simp_all)
  have str: "parse_string (behind b ?p1) = Inr (Some key, behind b ?p2)"
    using parse_string_behind [of b ?p1 key "CHR '':'' # tab @ ?v @ rs"] rest key(2) by simp
  have skip2: "buffer_skip_whitespace (behind b ?p2) = behind b ?p2"
    by (rule behind_stay [of _ _ "CHR '':''" "tab @ ?v @ rs"]) (use rest in \<open>simp_all add: low_char_def\<close>)
  have colon: "is_at (behind b ?p2) (CHR '':'')"
  proof -
    have "rest_at (behind b ?p2) = CHR '':'' # tab @ ?v @ rs" using rest by (intro behind_rest) simp
    then show ?thesis using at_char(3) by blast
  qed
  have skip3: "buffer_skip_whitespace (advance (behind b ?p2) 1) = behind b ?p3"
    unfolding advance_behind(2) [of b ?p2 "CHR '':''"]
    by (rule behind_skip [of _ _ _ h "t @ rs"]) (use rest blanks(2) h in simp_all)
  have "stops rs" using Cons.prems(5)
    by (cases es; cases "cs = []") (auto simp: rs_def comma_def defs space_def stops_def number_char_def isdigit_def low_char_def)
  then have val: "pv (Some key) (behind b ?p3) = done_with (Some c, behind b ?p4)"
    using reads_behind [of pv l "pf_depth b" ?v c b ?p3 rs] rest Cons.prems(1,6) key(1) by simp
  have r4: "rest_at (behind b ?p4) = rs" using rest by (intro behind_rest) simp
  have step: "parse_members k pv name acc b =
      (let b4 = buffer_skip_whitespace (behind b ?p4); cs' = acc @ [c] in
       if is_at b4 (CHR '','') then parse_members j pv name cs' b4
       else if \<not> is_at b4 (CHR 0x7D) then done_with (None, b4) else finish cJSON_Object name cs' b4)"
    unfolding k(1) parse_members.simps skip1 str lift_error_def
    by (simp only: run_then_simps prod.case option.case Let_def skip2 colon skip3 val not_True_eq_False if_False)
  show ?case
  proof (cases "cs = []")
    case True
    have e: "rest_at b = ?p4 @ (nl @ es) @ CHR 0x7D # r" using rest True by (simp add: rs_def comma_def)
    have "\<not> low_char (CHR 0x7D)" by (simp add: low_char_def)
    then have "buffer_skip_whitespace (behind b ?p4) = behind b (?p4 @ nl @ es)"
      by (intro behind_skip [OF e]) (use Cons.prems(5) blanks in simp_all)
    moreover have "rest_at (behind b (?p4 @ nl @ es)) = CHR 0x7D # r" using e by (intro behind_rest) simp
    ultimately show ?thesis unfolding step tx using at_char(3) True by (simp add: Let_def comma_def)
  next
    case False
    then have r: "rest_at (behind b ?p4) = CHR '','' # nl @ members_text fmt d cs @ es @ CHR 0x7D # r"
      using r4 by (simp add: rs_def comma_def)
    have e: "rest_at b = ?p4 @ CHR '','' # nl @ members_text fmt d cs @ es @ CHR 0x7D # r" using rest False by (simp add: rs_def comma_def)
    have s4: "buffer_skip_whitespace (behind b ?p4) = behind b ?p4" by (rule behind_stay [OF e]) (simp add: low_char_def)
    have "parse_members j pv name (acc @ [c]) (behind b ?p4) =
       finish cJSON_Object name ((acc @ [c]) @ cs) (behind (behind b ?p4) (CHR '','' # nl @ members_text fmt d cs @ es))"
      by (rule Cons.IH [OF _ False r blanks(3) Cons.prems(5) _ k(2)]) (use Cons.prems(1,6) rest r4 in simp_all)
    then show ?thesis unfolding step tx using at_char(3) [OF r] s4 False by (simp add: Let_def comma_def)
  qed
qed

text \<open>The loops only look at what is behind the blanks after the next byte.\<close>

lemma loops_start:
  assumes "buffer_skip_whitespace (advance b 1) = buffer_skip_whitespace (advance b' 1)"
  shows "parse_elements k pv name cs b = parse_elements k pv name cs b'" "parse_members k pv name cs b = parse_members k pv name cs b'"
  using assms by (cases k; simp)+

lemma step_back_next: "xs \<noteq> [] \<Longrightarrow> advance (step_back (behind b xs)) 1 = behind b xs"
  by (simp add: advance_def step_back_def behind_def)

lemma elements_count: "list_all (\<lambda>c. node_ok c \<and> whole_numbers c) cs \<Longrightarrow> length cs \<le> length (elements_text fmt d cs)"
proof (induction cs)
  case (Cons c cs)
  then obtain h t where "json_text fmt d c = h # t" using json_text_head [of c fmt d] by fastforce
  then show ?case using Cons by simp
qed simp

lemma members_count: "length cs \<le> length (members_text fmt d cs)"
  by (induction cs) auto

lemma finished:
  "finish ty name cs (behind (b\<lparr>pf_depth := Suc (pf_depth b)\<rparr>) xs) = done_with (Some (CJson name ty None 0 (Finite 0) cs), behind b (xs @ [x]))"
  by (simp add: finish_def behind_def advance_def)

lemma reads_array:
  assumes "list_all (\<lambda>c. cj_name c = None \<and> node_ok c \<and> whole_numbers c \<and> reads_back pv k (pf_depth b + 1) (json_text fmt (Suc d) c) c) cs"
    and "rest_at b = CHR ''['' # elements_text fmt (Suc d) cs @ CHR '']'' # r" "length (rest_at b) \<le> Suc k" "pf_depth b < CJSON_NESTING_LIMIT"
  shows "parse_array k pv name b =
     done_with (Some (CJson name cJSON_Array None 0 (Finite 0) cs), behind b (CHR ''['' # elements_text fmt (Suc d) cs @ [CHR '']'']))"
proof -
  let ?b1 = "b\<lparr>pf_depth := pf_depth b + 1\<rparr>"
  have r1: "rest_at ?b1 = [CHR ''[''] @ elements_text fmt (Suc d) cs @ CHR '']'' # r" using assms(2) by simp
  have c1: "read_byte ?b1 0 = Inr (CHR ''['')" using at_char(4) [of ?b1] r1 by simp
  have r2: "rest_at (behind ?b1 [CHR ''['']) = elements_text fmt (Suc d) cs @ CHR '']'' # r" by (rule behind_rest [OF r1])
  have start: "parse_array k pv name b =
     (let b2 = buffer_skip_whitespace (behind ?b1 [CHR ''['']) in
      if is_at b2 (CHR '']'') then finish cJSON_Array name [] b2
      else if \<not> can_access_at_index b2 0 then done_with (None, step_back b2)
      else parse_elements k pv name [] (step_back b2))"
    using assms(4) c1 advance_behind(1) [of ?b1 "CHR ''[''"] by (simp add: parse_array_def lift_error_def)
  show ?thesis
  proof (cases "cs = []")
    case True
    then have r: "rest_at (behind ?b1 [CHR ''['']) = CHR '']'' # r" using r2 by simp
    have "buffer_skip_whitespace (behind ?b1 [CHR ''['']) = behind ?b1 [CHR ''['']" by (rule skip_none [OF r]) (simp add: low_char_def)
    then show ?thesis unfolding start using at_char(3) [OF r] True by (simp add: Let_def finished [where x = "CHR '']''"])
  next
    case False
    then obtain c cs' where cs: "cs = c # cs'" by (cases cs) auto
    then obtain h t where h: "json_text fmt (Suc d) c = h # t" "\<not> low_char h" "h \<noteq> CHR '']''"
      using assms(1) json_text_head [of c fmt "Suc d"] by fastforce
    then obtain t' where r: "rest_at (behind ?b1 [CHR ''['']) = h # t'" using r2 cs by simp
    have s: "buffer_skip_whitespace (behind ?b1 [CHR ''['']) = behind ?b1 [CHR ''['']" by (rule skip_none [OF r h(2)])
    have "parse_elements k pv name [] (step_back (behind ?b1 [CHR ''[''])) = parse_elements k pv name [] ?b1"
      by (rule loops_start) (simp only: step_back_next not_Cons_self2 list.distinct not_False_eq_True advance_behind(1) [of ?b1 "CHR ''[''"])
    also have "\<dots> = finish cJSON_Array name ([] @ cs) (behind ?b1 (CHR ''['' # [] @ elements_text fmt (Suc d) cs))"
    proof (rule reads_elements [where l = k and r = r])
      show "length cs \<le> k" using elements_count [of cs fmt "Suc d"] assms(1,2,3) by (auto simp: list_all_iff)
    qed (use assms False in simp_all)
    finally show ?thesis unfolding start using s at_char(1,3) [OF r] h(3) by (simp add: Let_def finished [where x = "CHR '']''"])
  qed
qed

lemma reads_object:
  assumes "list_all (\<lambda>c. text_ok (cj_name c) \<and> node_ok c \<and> whole_numbers c \<and> reads_back pv k (pf_depth b + 1) (json_text fmt (Suc d) c) c) cs"
    and "rest_at b = CHR 0x7B # ws @ members_text fmt (Suc d) cs @ es @ CHR 0x7D # r" "list_all low_char ws" "list_all low_char es"
    and "length (rest_at b) \<le> Suc k" "pf_depth b < CJSON_NESTING_LIMIT"
  shows "parse_object k pv name b =
     done_with (Some (CJson name cJSON_Object None 0 (Finite 0) cs), behind b (CHR 0x7B # ws @ members_text fmt (Suc d) cs @ es @ [CHR 0x7D]))"
proof -
  let ?b1 = "b\<lparr>pf_depth := pf_depth b + 1\<rparr>" and ?o = "[CHR 0x7B]"
  have r1: "rest_at ?b1 = ?o @ ws @ members_text fmt (Suc d) cs @ es @ CHR 0x7D # r" using assms(2) by simp
  have c1: "is_at ?b1 (CHR 0x7B)" using at_char(3) [of ?b1] r1 by simp
  have start: "parse_object k pv name b =
     (let b2 = buffer_skip_whitespace (behind ?b1 ?o) in
      if is_at b2 (CHR 0x7D) then finish cJSON_Object name [] b2
      else if \<not> can_access_at_index b2 0 then done_with (None, step_back b2)
      else parse_members k pv name [] (step_back b2))"
    using assms(6) c1 advance_behind(1) [of ?b1 "CHR 0x7B"] by (simp add: parse_object_def)
  show ?thesis
  proof (cases "cs = []")
    case True
    then have e: "rest_at ?b1 = ?o @ (ws @ es) @ CHR 0x7D # r" using r1 by simp
    have "\<not> low_char (CHR 0x7D)" by (simp add: low_char_def)
    then have s: "buffer_skip_whitespace (behind ?b1 ?o) = behind ?b1 (?o @ ws @ es)"
      by (intro behind_skip [OF e]) (use assms in simp_all)
    have "rest_at (behind ?b1 (?o @ ws @ es)) = CHR 0x7D # r" using e by (intro behind_rest) simp
    then show ?thesis unfolding start s using at_char(3) True by (simp add: Let_def finished [where x = "CHR 0x7D"])
  next
    case False
    then obtain c cs' where cs: "cs = c # cs'" by (cases cs) auto
    define ind where "ind = space fmt (replicate (Suc d) (CHR 0x09))"
    have ind: "list_all low_char ind" unfolding ind_def by (rule space_blank) (simp add: low_char_def list_all_iff)
    obtain t where t: "members_text fmt (Suc d) cs = ind @ CHR 0x22 # t"
      unfolding cs members_text_space ind_def by (simp add: quoted_def)
    let ?p = "?o @ ws @ ind" and ?t = "t @ es @ CHR 0x7D # r"
    have e: "rest_at ?b1 = ?o @ (ws @ ind) @ CHR 0x22 # ?t" using r1 t by simp
    have quote: "\<not> low_char (CHR 0x22)" by (simp add: low_char_def)
    have s: "buffer_skip_whitespace (behind ?b1 ?o) = behind ?b1 ?p"
      using behind_skip [OF e _ quote] assms(3) ind by simp
    have s2: "buffer_skip_whitespace (behind ?b1 ?p) = behind ?b1 ?p" by (rule behind_stay [OF _ quote]) (use e in simp)
    have r: "rest_at (behind ?b1 ?p) = CHR 0x22 # ?t" using e by (intro behind_rest) simp
    have "parse_members k pv name [] (step_back (behind ?b1 ?p)) = parse_members k pv name [] ?b1"
    proof (rule loops_start)
      have "advance (step_back (behind ?b1 ?p)) 1 = behind ?b1 ?p" by (rule step_back_next) simp
      then show "buffer_skip_whitespace (advance (step_back (behind ?b1 ?p)) 1) = buffer_skip_whitespace (advance ?b1 1)"
        unfolding advance_behind(1) [of ?b1 "CHR 0x7B"] s by (simp only: s2)
    qed
    also have "\<dots> = finish cJSON_Object name ([] @ cs) (behind ?b1 (CHR 0x7B # ws @ members_text fmt (Suc d) cs @ es))"
    proof (rule reads_members [where l = k and r = r])
      show "length cs \<le> k" using members_count [of cs fmt "Suc d"] assms(2,5) by simp
    qed (use assms False in simp_all)
    finally show ?thesis unfolding start s using at_char(1,3) [OF r] by (simp add: Let_def finished [where x = "CHR 0x7D"])
  qed
qed

lemma foldr_max_less: "foldr max (map f xs) 0 \<le> m - Suc d \<Longrightarrow> list_all (\<lambda>x. f x \<le> (m - Suc d :: nat)) xs"
  by (simp add: foldr_max_le)

lemma behind_Suc: "behind b (c # xs) = advance b (Suc (length xs))"
  by (simp add: behind_def)

text \<open>The value is read to its end, whatever the format it was printed with.\<close>

lemma value_reads_back:
  "node_ok n \<Longrightarrow> whole_numbers n \<Longrightarrow> d + nesting n \<le> CJSON_NESTING_LIMIT \<Longrightarrow> reads_back (parse_value k) k d (json_text fmt e n) n"
proof (induction k arbitrary: n d e)
  case 0
  then show ?case using json_text_head [of n fmt e] by (auto simp: reads_back_def)
next
  case (Suc k)
  obtain name ty s i x cs where n: "n = CJson name ty s i x cs" by (cases n) auto
  have whole: "list_all whole_numbers cs" using Suc.prems(2) n by simp
  have children: "list_all (\<lambda>c. reads_back (parse_value k) k (d + 1) (json_text fmt (Suc e) c) c) cs"
    if "ty = cJSON_Array \<or> ty = cJSON_Object"
  proof -
    have "list_all node_ok cs" using Suc.prems(1) n that by (auto simp: list_all_iff)
    moreover have "foldr max (map nesting cs) 0 \<le> CJSON_NESTING_LIMIT - Suc d" using Suc.prems(3) n that by auto
    then have "list_all (\<lambda>c. nesting c \<le> CJSON_NESTING_LIMIT - Suc d) cs" by (rule foldr_max_less)
    moreover have "Suc d \<le> CJSON_NESTING_LIMIT" using Suc.prems(3) n that by auto
    ultimately show ?thesis using whole Suc.IH [of _ "d + 1" "Suc e"] by (auto simp: list_all_iff)
  qed
  have main: "parse_value (Suc k) name b = done_with (Some n, advance b (length (json_text fmt e n)))"
    if b: "rest_at b = json_text fmt e n @ r" "stops r" "pf_depth b = d" "length (rest_at b) \<le> Suc k" for b r
  proof (cases ty)
    case cJSON_NULL
    then show ?thesis using b(1) Suc.prems n by (simp add: strncmp_text)
  next
    case cJSON_False
    then show ?thesis using b(1) Suc.prems n by (simp add: strncmp_text)
  next
    case cJSON_True
    then show ?thesis using b(1) Suc.prems n by (simp add: strncmp_text)
  next
    case cJSON_Number
    then have v: "n = CJson name cJSON_Number None i (Finite (of_int i)) []" "saturated (Finite (of_int i)) = Some i"
      using Suc.prems n by simp_all
    then have t: "json_text fmt e n = show_int i" by (simp add: number_text_int)
    obtain c r' where c: "show_int i = c # r'" "c = CHR ''-'' \<or> isdigit c" using show_int_head [of i] by blast
    have h: "rest_at b = c # r' @ r" using b(1) t c(1) by simp
    have "at_number b" using at_char(1,2) [OF h] c(2) by (simp add: at_number_def)
    moreover have "c \<notin> {CHR ''n'', CHR ''f'', CHR ''t'', CHR 0x22}" using digit_char [OF c(2)] by simp
    moreover have "parse_number name b = (Some n, advance b (length (show_int i)))"
      unfolding v(1) using parse_number_int [of b i r name] b t saturated_range [OF v(2)] by simp
    ultimately show ?thesis using no_word [OF h] at_char(3) [OF h] by (simp add: t)
  next
    case cJSON_String
    then obtain u where v: "n = CJson name cJSON_String (Some u) 0 (Finite 0) []" "NUL \<notin> set u"
      using Suc.prems n by (auto simp: text_ok_def split: option.splits)
    have t: "rest_at b = quoted (Some u) @ r" using b(1) v by simp
    obtain q where q: "quoted (Some u) = CHR 0x22 # q" by (simp add: quoted_def)
    have h: "rest_at b = CHR 0x22 # q @ r" using t q by simp
    show ?thesis using no_word [OF h] at_char(3) [OF h] parse_string_quoted [OF t v(2)] by (simp add: v(1) lift_error_def)
  next
    case cJSON_Array
    then have v: "n = CJson name cJSON_Array None 0 (Finite 0) cs" "list_all (\<lambda>c. cj_name c = None \<and> node_ok c) cs"
      using Suc.prems n by simp_all
    have h: "rest_at b = CHR ''['' # elements_text fmt (Suc e) cs @ CHR '']'' # r" using b(1) v by simp
    have "parse_array k (parse_value k) name b =
       done_with (Some (CJson name cJSON_Array None 0 (Finite 0) cs), behind b (CHR ''['' # elements_text fmt (Suc e) cs @ [CHR '']'']))"
      by (rule reads_array [OF _ h]) (use v(2) whole children [OF disjI1 [OF cJSON_Array]] b Suc.prems(3) n cJSON_Array in \<open>auto simp: list_all_iff\<close>)
    then show ?thesis using no_word [OF h] at_char(2,3) [OF h] v(1) by (simp add: at_number_def isdigit_def behind_Suc)
  next
    case cJSON_Object
    then have v: "n = CJson name cJSON_Object None 0 (Finite 0) cs" "list_all (\<lambda>c. text_ok (cj_name c) \<and> node_ok c) cs"
      using Suc.prems n by simp_all
    define ws es where w: "ws = space fmt [CHR 0x0A]" "es = space fmt (replicate e (CHR 0x09))"
    have blanks: "list_all low_char ws" "list_all low_char es" unfolding w by (rule space_blank, simp add: low_char_def list_all_iff)+
    have t: "json_text fmt e n = CHR 0x7B # ws @ members_text fmt (Suc e) cs @ es @ [CHR 0x7D]" by (simp add: v(1) w space_def)
    have h: "rest_at b = CHR 0x7B # ws @ members_text fmt (Suc e) cs @ es @ CHR 0x7D # r" using b(1) t by simp
    have "parse_object k (parse_value k) name b =
       done_with (Some (CJson name cJSON_Object None 0 (Finite 0) cs), behind b (CHR 0x7B # ws @ members_text fmt (Suc e) cs @ es @ [CHR 0x7D]))"
      by (rule reads_object [OF _ h blanks]) (use v(2) whole children [OF disjI2 [OF cJSON_Object]] b Suc.prems(3) n cJSON_Object in \<open>auto simp: list_all_iff\<close>)
    moreover have "behind b (CHR 0x7B # ws @ members_text fmt (Suc e) cs @ es @ [CHR 0x7D]) = advance b (length (json_text fmt e n))"
      by (simp only: t behind_def)
    ultimately have "parse_object k (parse_value k) name b = done_with (Some n, advance b (length (json_text fmt e n)))"
      by (simp only: v(1) [symmetric])
    then show ?thesis using no_word [OF h] at_char(2,3) [OF h] by (simp add: at_number_def isdigit_def)
  qed (use Suc.prems n in simp_all)
  have nm: "cj_name n = name" using n by simp
  show ?case unfolding reads_back_def nm using main by blast
qed

lemma node_ok_prints: "node_ok n \<Longrightarrow> printable n \<and> numbers_ok n"
proof (induction n)
  case (CJson name ty s i d cs)
  have zero: "dbl_ok (Finite 0)" by (simp add: dbl_ok_def dbl_limit_def)
  have one: "INT_MIN \<le> 0 \<and> 0 \<le> INT_MAX \<and> INT_MIN \<le> 1 \<and> 1 \<le> INT_MAX" by (simp add: int_limits)
  show ?case
    using CJson zero one saturated_range [of d i] by (cases ty) (auto simp: list_all_iff text_ok_def split: option.splits)
qed

lemma parse_text:
  assumes "node_ok n" "whole_numbers n" "cj_name n = None" "nesting n \<le> CJSON_NESTING_LIMIT"
  shows "cJSON_Parse (json_text fmt 0 n) = done_with (Some n)"
proof -
  let ?t = "json_text fmt 0 n"
  let ?b = "\<lparr>pf_content = ?t @ [NUL], pf_offset = 0, pf_depth = 0\<rparr>"
  obtain c r where c: "?t = c # r" "\<not> low_char c" "c \<noteq> CHR 0xEF" using json_text_head [OF assms(1,2)] by blast
  have rest: "rest_at ?b = ?t @ [NUL]" by simp
  then have h: "rest_at ?b = c # r @ [NUL]" unfolding c(1) by simp
  have bom: "skip_utf8_bom ?b = Some ?b" using c(3) unfolding skip_utf8_bom_def strncmp_text [OF list.distinct(2)] h by simp
  have skip: "buffer_skip_whitespace ?b = ?b" by (rule skip_none [OF h c(2)])
  have "parse_value (Suc (length (?t @ [NUL]))) (cj_name n) ?b = done_with (Some n, advance ?b (length ?t))"
    by (rule reads_backD [OF value_reads_back rest]) (use assms in \<open>simp_all add: stops_def number_char_def isdigit_def\<close>)
  then have v: "parse_value (Suc (length (?t @ [NUL]))) None ?b = done_with (Some n, advance ?b (length ?t))"
    by (simp only: assms(3))
  have e: "?t @ [NUL] \<noteq> []" by simp
  show ?thesis
    unfolding cJSON_Parse_def cJSON_ParseWithOpts_def c_str_id [OF json_text_no_NUL(1)] cJSON_ParseWithLengthOpts_def if_not_P [OF e]
      Let_def bom option.case skip v parsed_tree_def
    by simp
qed

text \<open>
  C14. What the printer prints of a tree whose numbers are integers is read back as the tree, formatted
  or not: the printer touches no memory it does not have, gives no text only when memory is short, and
  the parser makes the same nodes of the text it gives.
\<close>

theorem print_parse_round_trip:
  assumes "node_ok n" "whole_numbers n" "cj_name n = None" "nesting n \<le> CJSON_NESTING_LIMIT"
  shows "case print_tree (Some n) fmt hooks of
      Inl _ \<Rightarrow> False
    | Inr None \<Rightarrow> \<not> (has_memory hooks \<and> length (json_text fmt 0 n) + 2 \<le> int_max)
    | Inr (Some t) \<Rightarrow> cJSON_Parse t = done_with (Some n)"
  using printed_text [of n hooks fmt] node_ok_prints [OF assms(1)] parse_text [OF assms, of fmt]
  by (auto split: sum.splits option.splits)

lemma demo_plain: "node_ok demo_tree" "whole_numbers demo_tree" "cj_name demo_tree = None" "nesting demo_tree \<le> CJSON_NESTING_LIMIT"
  by (simp_all add: demo_tree_def text_ok_def CJSON_NESTING_LIMIT_def)

theorem print_parse_round_trip_witness:
  "\<exists>t. print_tree (Some demo_tree) True malloc_hooks = Inr (Some t) \<and> cJSON_Parse t = done_with (Some demo_tree)"
proof -
  have "length (json_text True 0 demo_tree) + 2 \<le> int_max"
    by (simp add: demo_tree_def quoted_def c_str_def escape_text_def short_name_def int_max_def)
  then have "has_memory malloc_hooks \<and> length (json_text True 0 demo_tree) + 2 \<le> int_max"
    by (simp add: has_memory_def malloc_hooks_def)
  then show ?thesis using print_parse_round_trip [OF demo_plain, where fmt = True and hooks = malloc_hooks]
    by (auto split: sum.splits option.splits)
qed

end
