(* ===== verification/Cjson_Task.thy ===== *)
theory Cjson_Task
  imports Dc_Task Cjson_Round
begin

text \<open>
  The reader of tasks of \<^verbatim>\<open>file_compare/api/dc_api_task.cc\<close> on the parser of \<^verbatim>\<open>file_compare/common/cJSON.cc\<close>.
  \<open>Dc_Task\<close> takes the parser as an argument; here it is \<open>cJSON_Parse\<close>, and a task written down as the
  JSON the reader expects is read as that task.
\<close>

text \<open>The parser never faults, so that its result is all there is to it.\<close>

definition parse_json :: "string \<Rightarrow> cjson option" where
  "parse_json s = (case cJSON_Parse s of Some (Inr r) \<Rightarrow> r | _ \<Rightarrow> None)"

lemma parse_json: "cJSON_Parse s = done_with (parse_json s)"
  using parse_safe [of s] by (auto simp: parse_json_def done_with_def split: option.splits sum.splits)

section \<open>The text of a task\<close>

definition text_item :: "string option \<Rightarrow> string \<Rightarrow> cjson" where
  "text_item name s = CJson name cJSON_String (Some s) 0 (Finite 0) []"

definition int_item :: "string \<Rightarrow> int \<Rightarrow> cjson" where
  "int_item name i = CJson (Some name) cJSON_Number None i (Finite (of_int i)) []"

definition bool_item :: "string \<Rightarrow> bool \<Rightarrow> cjson" where
  "bool_item name b = CJson (Some name) (if b then cJSON_True else cJSON_False) None (if b then 1 else 0) (Finite 0) []"

definition array_item :: "string \<Rightarrow> cjson list \<Rightarrow> cjson" where
  "array_item name cs = CJson (Some name) cJSON_Array None 0 (Finite 0) cs"

definition object_item :: "cjson list \<Rightarrow> cjson" where
  "object_item cs = CJson None cJSON_Object None 0 (Finite 0) cs"

definition server_tree :: "server_info \<Rightarrow> cjson" where
  "server_tree s = object_item
     [text_item (Some ''center'') (c_center s), text_item (Some ''host'') (c_host s), text_item (Some ''user'') (c_user s),
      text_item (Some ''password'') (c_password s), int_item ''port'' (c_port s), bool_item ''standard'' (c_standard s),
      array_item ''excluded_file_regex'' (map (text_item None) (c_excluded_file_regex s)),
      text_item (Some ''path_to_compare'') (c_path_to_compare s), text_item (Some ''base_dir'') (c_base_dir s)]"

definition task_tree :: "api_task \<Rightarrow> cjson" where
  "task_tree t = object_item
     [text_item (Some ''uuid'') (t_task_uuid t), int_item ''result_type'' (t_result_type t),
      array_item ''excluded_file_regex'' (map (text_item None) (t_excluded_file_regex t)),
      array_item ''servers'' (map server_tree (t_server_info_arr t))]"

lemmas item_defs = text_item_def int_item_def bool_item_def array_item_def object_item_def

text \<open>What can be said in a text: ports that are an \<^verbatim>\<open>int\<close>, and no result yet.\<close>

definition sayable :: "api_task \<Rightarrow> bool" where
  "sayable t \<longleftrightarrow>
     valid_task t \<and> list_all (\<lambda>s. c_port s \<le> INT_MAX) (t_server_info_arr t) \<and> list_all (\<lambda>r. NUL \<notin> set r) (t_excluded_file_regex t) \<and>
     t_error t = S_SUCCESS \<and> t_error_msg t = [] \<and> t_compare_result_json t = JNull"

lemma valid_text_c_str: "valid_text s \<Longrightarrow> c_str s = s \<and> s \<noteq> [] \<and> NUL \<notin> set s"
  by (simp add: valid_text_def)

lemmas name_eqs = case_insensitive_strcmp_def strcasecmp_eq_def fold_case_def c_str_def tolower_def

text \<open>The reader on what was written down.\<close>

lemma server_regexes_items:
  "list_all valid_text rs \<Longrightarrow> server_regexes (map (text_item None) rs) acc = Inr (acc @ rs)"
  by (induction rs arbitrary: acc) (simp_all add: text_item_def valid_text_c_str)

lemma task_regexes_items:
  "list_all (\<lambda>r. NUL \<notin> set r) rs \<Longrightarrow> task_regexes (map (text_item None) rs) acc = (acc @ rs, True)"
  by (induction rs arbitrary: acc) (simp_all add: text_item_def)

lemma member_lookup:
  "cJSON_GetObjectItem (object_item cs) name = find (\<lambda>c. \<not> case_insensitive_strcmp name (cj_name c)) cs"
  by (simp add: cJSON_GetObjectItem_find object_item_def)

lemma server_members:
  "cJSON_GetObjectItem (server_tree s) ''center'' = Some (text_item (Some ''center'') (c_center s))"
  "cJSON_GetObjectItem (server_tree s) ''host'' = Some (text_item (Some ''host'') (c_host s))"
  "cJSON_GetObjectItem (server_tree s) ''user'' = Some (text_item (Some ''user'') (c_user s))"
  "cJSON_GetObjectItem (server_tree s) ''password'' = Some (text_item (Some ''password'') (c_password s))"
  "cJSON_GetObjectItem (server_tree s) ''port'' = Some (int_item ''port'' (c_port s))"
  "cJSON_GetObjectItem (server_tree s) ''standard'' = Some (bool_item ''standard'' (c_standard s))"
  "cJSON_GetObjectItem (server_tree s) ''excluded_file_regex'' =
     Some (array_item ''excluded_file_regex'' (map (text_item None) (c_excluded_file_regex s)))"
  "cJSON_GetObjectItem (server_tree s) ''path_to_compare'' = Some (text_item (Some ''path_to_compare'') (c_path_to_compare s))"
  "cJSON_GetObjectItem (server_tree s) ''base_dir'' = Some (text_item (Some ''base_dir'') (c_base_dir s))"
  by (simp_all add: server_tree_def member_lookup text_item_def int_item_def bool_item_def array_item_def name_eqs)

lemma task_members:
  "cJSON_GetObjectItem (task_tree t) ''uuid'' = Some (text_item (Some ''uuid'') (t_task_uuid t))"
  "cJSON_GetObjectItem (task_tree t) ''result_type'' = Some (int_item ''result_type'' (t_result_type t))"
  "cJSON_GetObjectItem (task_tree t) ''excluded_file_regex'' =
     Some (array_item ''excluded_file_regex'' (map (text_item None) (t_excluded_file_regex t)))"
  "cJSON_GetObjectItem (task_tree t) ''servers'' = Some (array_item ''servers'' (map server_tree (t_server_info_arr t)))"
  by (simp_all add: task_tree_def member_lookup text_item_def int_item_def array_item_def name_eqs)

lemma text_member_item:
  "cJSON_GetObjectItem n name = Some (text_item x v) \<Longrightarrow> valid_text v \<Longrightarrow> text_member n name m = Inr v"
  by (simp add: text_member_def text_item_def valid_text_c_str)

lemma msg_then_value [simp]: "msg_then (Inr x) k = k x"
  by (simp add: msg_then_def)

lemma server_read_back:
  assumes "valid_server s"
  shows "build_task_server_info (server_tree s) = Inr s"
proof -
  note v = assms [unfolded valid_server_def list.pred_inject]
  note m = server_members [of s]
  have t: "text_member (server_tree s) ''center'' m = Inr (c_center s)" "text_member (server_tree s) ''host'' m = Inr (c_host s)"
    "text_member (server_tree s) ''user'' m = Inr (c_user s)" "text_member (server_tree s) ''password'' m = Inr (c_password s)"
    "text_member (server_tree s) ''path_to_compare'' m = Inr (c_path_to_compare s)"
    "text_member (server_tree s) ''base_dir'' m = Inr (c_base_dir s)" for m
    using v m by (simp_all add: text_member_item)
  have p: "cj_type (int_item n i) = cJSON_Number" "cj_int (int_item n i) = i" for n i by (simp_all add: int_item_def)
  have b: "cj_type (bool_item n x) = (if x then cJSON_True else cJSON_False)" for n x by (simp add: bool_item_def)
  have a: "cj_type (array_item n cs) = cJSON_Array" "cj_children (array_item n cs) = cs" for n cs by (simp_all add: array_item_def)
  have r: "server_regexes (map (text_item None) (c_excluded_file_regex s)) [] = Inr (c_excluded_file_regex s)"
    using v server_regexes_items [of "c_excluded_file_regex s" "[]"] by simp
  have port: "\<not> c_port s \<le> 0" using v by simp
  show ?thesis
    unfolding build_task_server_info_def t msg_then_value m(5,6,7) option.case p b a r
    by (simp add: port)
qed

lemma servers_read_back:
  "list_all valid_server ss \<Longrightarrow> server_loop (map server_tree ss) t = Inr (S_SUCCESS, t\<lparr>t_server_info_arr := t_server_info_arr t @ ss\<rparr>)"
  by (induction ss arbitrary: t) (simp_all add: server_read_back, simp_all add: server_tree_def object_item_def)

lemma std_loop_one:
  assumes "one_standard ss i"
  shows "std_loop 0 ss (-1) = Some i"
proof -
  obtain xs s ys where s: "ss = xs @ s # ys" "i = int (length xs)" "c_standard s" "list_all (\<lambda>s. \<not> c_standard s) (xs @ ys)"
    using assms by (auto simp: one_standard_def)
  have "std_loop k (xs @ s # ys) (-1) = Some (int (k + length xs))" if "list_all (\<lambda>s. \<not> c_standard s) xs" for k
    using that
  proof (induction xs arbitrary: k)
    case Nil
    then show ?case using s(3,4) std_loop_after [of "int k" "Suc k" ys] by (simp add: list_ex_iff list_all_iff)
  qed simp
  then show ?thesis using s by simp
qed

lemma build_tree_back:
  assumes "sayable t"
  shows "build_result_type (task_tree t) (new_api_task\<lparr>t_task_uuid := t_task_uuid t\<rparr>) = Inr (S_SUCCESS, t)"
proof -
  have v: "t_result_type t = FC_TASK_RESULT_GIT_DIFF" "list_all valid_server (t_server_info_arr t)" "std_loop 0 (t_server_info_arr t) (-1) = Some (t_std_idx t)"
    "t_std_idx t \<noteq> -1" "list_all (\<lambda>r. NUL \<notin> set r) (t_excluded_file_regex t)"
    "t_error t = S_SUCCESS" "t_error_msg t = []" "t_compare_result_json t = JNull"
    using assms std_loop_one by (auto simp: sayable_def valid_task_def one_standard_def)
  show ?thesis
    by (simp add: build_result_type_def build_excluded_def build_servers_def task_members array_item_def int_item_def Let_def
      v task_regexes_items servers_read_back log_check_err_return_def find_standard_def new_api_task_def
      FC_TASK_RESULT_GIT_DIFF_def FC_TASK_RESULT_INVALID_def)
qed

text \<open>The tree is one the printer and the parser agree on.\<close>

lemma text_items_ok:
  "list_all (\<lambda>r. NUL \<notin> set r) rs \<Longrightarrow> list_all (\<lambda>c. cj_name c = None \<and> node_ok c \<and> whole_numbers c \<and> nesting c = 0) (map (text_item None) rs)"
  by (simp add: list_all_iff text_item_def text_ok_def)

lemma list_all_conj: "list_all (\<lambda>x. P x \<and> Q x) xs \<longleftrightarrow> list_all P xs \<and> list_all Q xs"
  by (auto simp: list_all_iff)

lemma foldr_max_0: "list_all (\<lambda>c. f c = 0) cs \<Longrightarrow> foldr max (map f cs) 0 = (0 :: nat)"
  using foldr_max_le [of f cs 0] by (simp add: list_all_iff)

lemma array_item_ok:
  assumes "list_all (\<lambda>r. NUL \<notin> set r) rs"
  shows "node_ok (array_item name (map (text_item None) rs))" "whole_numbers (array_item name (map (text_item None) rs))"
    "nesting (array_item name (map (text_item None) rs)) = 1"
  using text_items_ok [OF assms] foldr_max_0 [of nesting "map (text_item None) rs"]
  by (simp_all add: array_item_def list_all_conj)

lemma int_node_ok:
  assumes "INT_MIN \<le> i" "i \<le> INT_MAX"
  shows "saturated (Finite (of_int i)) = Some i \<and> dbl_ok (Finite (of_int i))"
proof -
  have "to_double (of_int i) = Finite (of_int i)" by (rule to_double_int) (use assms in \<open>simp add: int_limits\<close>)
  then show ?thesis using saturated_int [OF assms] to_double_ok [of "of_int i"] by simp
qed

lemma server_tree_ok:
  assumes "valid_server s" "c_port s \<le> INT_MAX"
  shows "node_ok (server_tree s)" "whole_numbers (server_tree s)" "nesting (server_tree s) = 2" "cj_name (server_tree s) = None"
proof -
  have r: "list_all (\<lambda>r. NUL \<notin> set r) (c_excluded_file_regex s)" using assms by (auto simp: valid_server_def valid_text_def list_all_iff)
  have p: "saturated (Finite (of_int (c_port s))) = Some (c_port s)" "dbl_ok (Finite (of_int (c_port s)))"
    using assms int_node_ok [of "c_port s"] by (auto simp: valid_server_def int_limits)
  note a = array_item_ok [OF r, of "''excluded_file_regex''"]
  show "node_ok (server_tree s)"
    using assms p a by (simp add: server_tree_def object_item_def text_item_def int_item_def bool_item_def valid_server_def valid_text_def text_ok_def)
      (simp add: array_item_def)
  show "whole_numbers (server_tree s)"
    using a by (simp add: server_tree_def object_item_def text_item_def int_item_def bool_item_def)
  show "nesting (server_tree s) = 2"
    using a by (simp add: server_tree_def object_item_def text_item_def int_item_def bool_item_def)
  show "cj_name (server_tree s) = None" by (simp add: server_tree_def object_item_def)
qed

lemma task_tree_ok:
  assumes "sayable t"
  shows "node_ok (task_tree t)" "whole_numbers (task_tree t)" "nesting (task_tree t) \<le> CJSON_NESTING_LIMIT" "cj_name (task_tree t) = None"
proof -
  have v: "NUL \<notin> set (t_task_uuid t)" "t_result_type t = 0" "list_all (\<lambda>r. NUL \<notin> set r) (t_excluded_file_regex t)"
    using assms by (auto simp: sayable_def valid_task_def valid_text_def FC_TASK_RESULT_GIT_DIFF_def)
  note a = array_item_ok [OF v(3), of "''excluded_file_regex''"]
  have ss: "list_all (\<lambda>c. cj_name c = None \<and> node_ok c \<and> whole_numbers c \<and> nesting c \<le> 2) (map server_tree (t_server_info_arr t))"
    using assms server_tree_ok by (auto simp: sayable_def valid_task_def list_all_iff)
  have arr: "node_ok (array_item ''servers'' (map server_tree (t_server_info_arr t)))"
    "whole_numbers (array_item ''servers'' (map server_tree (t_server_info_arr t)))"
    "nesting (array_item ''servers'' (map server_tree (t_server_info_arr t))) \<le> 3"
    using ss foldr_max_le [of nesting "map server_tree (t_server_info_arr t)" 2] by (simp_all add: array_item_def list_all_conj)
  have i: "node_ok (int_item ''result_type'' 0)" "whole_numbers (int_item ''result_type'' 0)" "nesting (int_item ''result_type'' 0) = 0"
    using int_node_ok [of 0] by (simp_all add: int_item_def int_limits)
  have u: "node_ok (text_item (Some ''uuid'') (t_task_uuid t))" "whole_numbers (text_item (Some ''uuid'') (t_task_uuid t))"
    "nesting (text_item (Some ''uuid'') (t_task_uuid t)) = 0" using v by (simp_all add: text_item_def text_ok_def)
  have n: "text_ok (cj_name (array_item m cs)) \<longleftrightarrow> NUL \<notin> set m" "text_ok (cj_name (int_item m k)) \<longleftrightarrow> NUL \<notin> set m"
    "text_ok (cj_name (text_item (Some m) x)) \<longleftrightarrow> NUL \<notin> set m" for m cs k x
    by (simp_all add: item_defs text_ok_def)
  show "node_ok (task_tree t)" using u(1) i(1) a(1) arr(1) v(2) by (simp add: task_tree_def object_item_def n)
  show "whole_numbers (task_tree t)" using u(2) i(2) a(2) arr(2) v(2) by (simp add: task_tree_def object_item_def)
  show "nesting (task_tree t) \<le> CJSON_NESTING_LIMIT"
    using u(3) i(3) a(3) arr(3) v(2) by (simp add: task_tree_def object_item_def CJSON_NESTING_LIMIT_def)
  show "cj_name (task_tree t) = None" by (simp add: task_tree_def object_item_def)
qed

text \<open>
  C15. Every task can be said: what \<^verbatim>\<open>cJSON_Print\<close> prints of a task, formatted or not, is read by
  \<^verbatim>\<open>build_task_from_json\<close> as that task, down to its servers and the index of the standard one.
\<close>

theorem task_round_trip:
  assumes "sayable t" "length (json_text fmt 0 (task_tree t)) < 2 ^ 32"
  shows "case print_tree (Some (task_tree t)) fmt hooks of
      Inl _ \<Rightarrow> False
    | Inr None \<Rightarrow> \<not> (has_memory hooks \<and> length (json_text fmt 0 (task_tree t)) + 2 \<le> int_max)
    | Inr (Some s) \<Rightarrow> build_task_from_json parse_json s new_api_task = Inr (S_SUCCESS, t)"
proof -
  note ok = task_tree_ok [OF assms(1)]
  let ?t = "json_text fmt 0 (task_tree t)"
  have p: "parse_json ?t = Some (task_tree t)"
    using parse_text [OF ok(1,2,4,3), of fmt] by (simp add: parse_json_def done_with_def)
  have u: "valid_text (t_task_uuid t)" using assms(1) by (simp add: sayable_def valid_task_def)
  have ne: "?t \<noteq> []" using json_text_head [OF ok(1,2), of fmt 0] by auto
  then have len: "length ?t mod 2 ^ 32 \<noteq> 0" using assms(2) by (simp del: json_text.simps)
  have uu: "cj_type (text_item x y) = cJSON_String" "cj_string (text_item x y) = Some y" for x y by (simp_all add: text_item_def)
  have "build_task_from_json parse_json ?t new_api_task = Inr (S_SUCCESS, t)"
    unfolding build_task_from_json_def c_str_id [OF json_text_no_NUL(1)] p option.case task_members uu if_not_P [OF len]
    using u build_tree_back [OF assms(1)] by (simp add: valid_text_c_str Let_def)
  then show ?thesis using printed_text [of "task_tree t" hooks fmt] node_ok_prints [OF ok(1)]
    by (auto split: sum.splits option.splits)
qed

definition said_server :: server_info where
  "said_server = \<lparr>c_center = ''m1'', c_host = ''h'', c_user = ''u'', c_password = ''p'', c_port = 8091, c_standard = True,
     c_excluded_file_regex = [''a.*''], c_base_dir = ''/opt'', c_path_to_compare = ''.''\<rparr>"

definition said_task :: api_task where
  "said_task = new_api_task\<lparr>t_task_uuid := ''x'', t_server_info_arr := [said_server]\<rparr>"

lemma demo_sayable: "sayable said_task"
proof -
  have "one_standard [said_server] 0"
    unfolding one_standard_def by (intro exI [of _ "[]"] exI [of _ said_server]) (simp add: said_server_def)
  then show ?thesis
    by (simp add: sayable_def valid_task_def said_task_def new_api_task_def valid_text_def valid_server_def FC_TASK_RESULT_GIT_DIFF_def)
      (simp add: said_server_def valid_text_def int_limits)
qed

theorem task_round_trip_witness:
  "\<exists>s. print_tree (Some (task_tree said_task)) False malloc_hooks = Inr (Some s) \<and>
     build_task_from_json parse_json s new_api_task = Inr (S_SUCCESS, said_task)"
proof -
  have n: "show_int 8091 = ''8091''" "show_int 0 = ''0''" by (simp_all add: show_int_def show_nat.simps char_of_def bit_0)
  have num: "number_text 0 (Finite 0) = show_int 0" "number_text 8091 (Finite 8091) = show_int 8091"
    using number_text_int [of 0] number_text_int [of 8091] by simp_all
  have l: "length (json_text False 0 (task_tree said_task)) = 216"
    by (simp add: task_tree_def said_task_def said_server_def server_tree_def item_defs new_api_task_def quoted_def c_str_def
      escape_text_def num n)
  have "has_memory malloc_hooks" by (simp add: has_memory_def malloc_hooks_def)
  then show ?thesis using task_round_trip [OF demo_sayable, of False malloc_hooks] l
    by (auto simp: int_max_def split: sum.splits option.splits)
qed
end
