(* ===== verification/Cjson_Compare.thy ===== *)
theory Cjson_Compare
  imports Cjson
begin

text \<open>
  What \<^verbatim>\<open>cJSON_Compare\<close> says of two trees, and of a tree and its copy made by \<^verbatim>\<open>cJSON_Duplicate\<close>.
\<close>

lemma compare_double_sym: "compare_double x y = compare_double y x"
  by (cases x; cases y) (auto simp: abs_minus_commute max.commute)

lemma option_case_cong2: "(case a of None \<Rightarrow> False | Some y \<Rightarrow> P y) \<longleftrightarrow> (\<exists>y. a = Some y \<and> P y)"
  by (cases a) auto

text \<open>
  Comparing two trees does not depend on which one comes first, with or without regard to case.
\<close>

theorem compare_symmetric: "cJSON_Compare a b cs = cJSON_Compare b a cs"
proof (induction a b cs rule: cJSON_Compare.induct)
  case (1 a b cs)
  show ?case
  proof (cases "cj_type a = cj_type b")
    case False
    then show ?thesis by (simp add: cJSON_Compare.simps [of a b] cJSON_Compare.simps [of b a])
  next
    case ty: True
    show ?thesis
    proof (cases "cj_type a")
      case cJSON_Number
      then show ?thesis using ty by (simp add: cJSON_Compare.simps [of a b] cJSON_Compare.simps [of b a] compare_double_sym)
    next
      case cJSON_Array
      have IH: "cJSON_Compare x y cs = cJSON_Compare y x cs" if "(x, y) \<in> set (zip (cj_children a) (cj_children b))" for x y
        using "1.IH"(1) [OF _ _ that refl] ty cJSON_Array by simp
      have "list_all (\<lambda>(x, y). cJSON_Compare x y cs) (zip (cj_children a) (cj_children b)) \<longleftrightarrow>
        list_all (\<lambda>(x, y). cJSON_Compare y x cs) (zip (cj_children a) (cj_children b))"
        by (intro list.pred_cong [OF refl]) (use IH in auto)
      also have "\<dots> \<longleftrightarrow> list_all (\<lambda>(x, y). cJSON_Compare x y cs) (zip (cj_children b) (cj_children a))"
        by (subst zip_commute) (auto simp: list_all_iff)
      finally show ?thesis using ty cJSON_Array by (auto simp: cJSON_Compare.simps [of a b] cJSON_Compare.simps [of b a])
    next
      case cJSON_Object
      show ?thesis using ty cJSON_Object
        by (simp add: cJSON_Compare.simps [of a b] cJSON_Compare.simps [of b a]) blast
    qed (use ty in \<open>auto simp: cJSON_Compare.simps [of a b] cJSON_Compare.simps [of b a] split: option.splits\<close>)
  qed
qed

text \<open>What can be compared with its copy: finite numbers, texts that are there, no name twice.\<close>

definition same_name :: "bool \<Rightarrow> string \<Rightarrow> string \<Rightarrow> bool" where
  "same_name cs a b \<longleftrightarrow> (if cs then c_str a = c_str b else strcasecmp_eq a b)"

definition names_distinct :: "bool \<Rightarrow> cjson list \<Rightarrow> bool" where
  "names_distinct cs xs \<longleftrightarrow>
     list_all (\<lambda>c. cj_name c \<noteq> None) xs \<and>
     sorted_wrt (\<lambda>x y. \<not> same_name cs (the (cj_name x)) (the (cj_name y))) xs"

fun comparable :: "bool \<Rightarrow> cjson \<Rightarrow> bool" where
  "comparable cs (CJson name ty s i d xs) =
     (case ty of
        cJSON_Invalid \<Rightarrow> False
      | cJSON_Number \<Rightarrow> (case d of Finite _ \<Rightarrow> True | _ \<Rightarrow> False)
      | cJSON_String \<Rightarrow> s \<noteq> None
      | cJSON_Raw \<Rightarrow> s \<noteq> None
      | cJSON_Array \<Rightarrow> list_all (comparable cs) xs
      | cJSON_Object \<Rightarrow> names_distinct cs xs \<and> list_all (comparable cs) xs
      | _ \<Rightarrow> True)"

abbreviation copy :: "cjson \<Rightarrow> cjson" where
  "copy n \<equiv> cJSON_Duplicate n True"

lemma copy_parts [simp]:
  "cj_type (copy n) = cj_type n" "cj_name (copy n) = map_option c_str (cj_name n)" "cj_double (copy n) = cj_double n"
  "cj_string (copy n) = map_option c_str (cj_string n)" "cj_children (copy n) = map copy (cj_children n)"
  by (cases n; simp)+

lemma item_found:
  assumes "list_all (\<lambda>c. cj_name c \<noteq> None) xs"
  shows "cj_children n = xs \<Longrightarrow> get_object_item (Some n) (Some name) cs = find (\<lambda>c. same_name cs name (the (cj_name c))) xs"
proof -
  have "find_sensitive name xs = find (\<lambda>c. c_str name = c_str (the (cj_name c))) xs"
    using assms by (induction xs) auto
  moreover have "find (\<lambda>c. \<not> case_insensitive_strcmp name (cj_name c)) xs = find (\<lambda>c. strcasecmp_eq name (the (cj_name c))) xs"
    using assms by (induction xs) (auto simp: case_insensitive_strcmp_def)
  ultimately show "cj_children n = xs \<Longrightarrow> ?thesis"
    by (simp add: get_object_item_def same_name_def)
qed

lemma same_name_sym: "same_name cs a b = same_name cs b a"
  by (auto simp: same_name_def strcasecmp_eq_def)

lemma same_name_c_str [simp]: "same_name cs (c_str a) b = same_name cs a b" "same_name cs a (c_str b) = same_name cs a b"
  by (simp_all add: same_name_def strcasecmp_eq_def fold_case_def c_str_id [OF c_str_no_NUL])

lemma same_name_refl [simp]: "same_name cs a a"
  by (simp add: same_name_def strcasecmp_eq_def)

lemma find_own:
  "sorted_wrt (\<lambda>x y. \<not> same_name cs (the (cj_name x)) (the (cj_name y))) xs \<Longrightarrow> x \<in> set xs \<Longrightarrow>
     find (\<lambda>c. same_name cs (the (cj_name x)) (the (cj_name c))) xs = Some x"
  by (induction xs) (auto simp: same_name_sym)

lemma find_map: "find P (map f xs) = map_option f (find (P \<circ> f) xs)"
  by (induction xs) auto

lemma compare_double_refl: "compare_double (Finite q) (Finite q)"
proof -
  have "to_double 0 = Finite 0" using to_double_int [of 0] by simp
  then show ?thesis using to_double_nonneg [of "\<bar>q\<bar> / 2 ^ 52"] by simp
qed

lemma item_of_copy:
  assumes "names_distinct cs xs" "x \<in> set xs" "cj_children n = xs"
  shows "get_object_item (Some (copy n)) (cj_name x) cs = Some (copy x)"
    "get_object_item (Some n) (cj_name (copy x)) cs = Some x"
proof -
  obtain m where m: "cj_name x = Some m" using assms by (auto simp: names_distinct_def list_all_iff)
  have some: "list_all (\<lambda>c. cj_name c \<noteq> None) xs" "list_all (\<lambda>c. cj_name c \<noteq> None) (map copy xs)"
    using assms by (auto simp: names_distinct_def list_all_iff)
  have f: "find (\<lambda>c. same_name cs m (the (cj_name c))) xs = Some x"
    using find_own [of cs xs x] assms m by (simp add: names_distinct_def)
  have "find ((\<lambda>c. same_name cs m (the (cj_name c))) \<circ> copy) xs = find (\<lambda>c. same_name cs m (the (cj_name c))) xs"
    by (rule find_cong [OF refl]) (use some(1) in \<open>auto simp: list_all_iff\<close>)
  then show "get_object_item (Some (copy n)) (cj_name x) cs = Some (copy x)"
    using item_found [OF some(2), of "copy n" m cs] assms(3) m f by (simp add: find_map)
  show "get_object_item (Some n) (cj_name (copy x)) cs = Some x"
    using item_found [OF some(1) assms(3), of "c_str m" cs] m f by simp
qed

lemma copy_equal: "comparable cs n \<Longrightarrow> cJSON_Compare n (copy n) cs \<and> cJSON_Compare (copy n) n cs"
proof (induction n)
  case (CJson name ty s i d xs)
  let ?n = "CJson name ty s i d xs"
  have ch: "list_all (\<lambda>x. cJSON_Compare x (copy x) cs \<and> cJSON_Compare (copy x) x cs) xs"
    if "ty = cJSON_Array \<or> ty = cJSON_Object"
    using CJson that by (auto simp: list_all_iff)
  note eqs = cJSON_Compare.simps [of ?n "copy ?n"] cJSON_Compare.simps [of "copy ?n" ?n]
  show ?case
  proof (cases ty)
    case cJSON_Array
    have "list_all (\<lambda>(x, y). cJSON_Compare x y cs) (zip xs (map copy xs))" "list_all (\<lambda>(x, y). cJSON_Compare x y cs) (zip (map copy xs) xs)"
      using ch [OF disjI1 [OF cJSON_Array]] by (auto simp: list_all_iff zip_map1 zip_map2 zip_same_conv_map)
    then show ?thesis unfolding eqs copy_parts cjson.sel using cJSON_Array by simp
  next
    case cJSON_Object
    then have d: "names_distinct cs xs" using CJson.prems by simp
    have look: "get_object_item (Some (copy ?n)) (cj_name x) cs = Some (copy x)"
      "get_object_item (Some ?n) (cj_name (copy x)) cs = Some x" if "x \<in> set xs" for x
      using item_of_copy [OF d that, of ?n] by simp_all
    have "list_all (\<lambda>x. case get_object_item (Some (copy ?n)) (cj_name x) cs of None \<Rightarrow> False | Some y \<Rightarrow> cJSON_Compare x y cs) xs"
      "list_all (\<lambda>y. case get_object_item (Some ?n) (cj_name y) cs of None \<Rightarrow> False | Some x \<Rightarrow> cJSON_Compare y x cs) (map copy xs)"
      using ch [OF disjI2 [OF cJSON_Object]] look by (auto simp: list_all_iff simp del: cJSON_Duplicate.simps copy_parts)
    then show ?thesis unfolding eqs copy_parts cjson.sel using cJSON_Object by simp
  qed (use CJson.prems in \<open>unfold eqs copy_parts cjson.sel, auto simp: compare_double_refl [simplified] c_str_id [OF c_str_no_NUL] split: c_double.splits\<close>)
qed

text \<open>
  A copy compares equal to what it was made of, where the numbers are finite and no object has a
  name twice.
\<close>

theorem copy_compares_equal:
  assumes "comparable cs n"
  shows "cJSON_Compare n (cJSON_Duplicate n True) cs"
  using copy_equal [OF assms] ..

theorem copy_compares_equal_witness:
  "cJSON_Compare (CJson None cJSON_Object None 0 (Finite 0) [CJson (Some ''a'') cJSON_True None 1 (Finite 0) [], CJson (Some ''A'') cJSON_NULL None 0 (Finite 0) []])
     (cJSON_Duplicate (CJson None cJSON_Object None 0 (Finite 0) [CJson (Some ''a'') cJSON_True None 1 (Finite 0) [], CJson (Some ''A'') cJSON_NULL None 0 (Finite 0) []]) True) True"
  by (rule copy_compares_equal) (simp add: names_distinct_def same_name_def c_str_def)

text \<open>
  An infinite number, which \<^verbatim>\<open>1e999\<close> is read as, compares equal to every finite one, and not to
  itself: the tolerance is a multiple of the greater of the two.
\<close>

theorem infinity_equals_every_number:
  "cJSON_Compare (CJson x cJSON_Number None i (Infinite n) []) (CJson y cJSON_Number None j (Finite q) []) cs \<and>
   \<not> cJSON_Compare (CJson x cJSON_Number None i (Infinite n) []) (CJson x cJSON_Number None i (Infinite n) []) cs"
  by (simp add: cJSON_Compare.simps)

end
