(* ===== verification/Cjson_Minify.thy ===== *)
theory Cjson_Minify
  imports Cjson_Round
begin

text \<open>
  \<^verbatim>\<open>cJSON_Minify\<close> of \<^verbatim>\<open>file_compare/common/cJSON.cc\<close>, which removes the blanks and the comments of a text
  within its own memory: \<open>i\<close> is the position that is read, \<open>j\<close> the one that is written. A read or a
  write outside the memory is an error. \<open>minified\<close> is the text it leaves.
\<close>

section \<open>The code\<close>

definition get_at :: "string \<Rightarrow> nat \<Rightarrow> cpp_error + char" where
  "get_at s i = (if i < length s then Inr (s ! i) else Inl InvalidRead)"

definition put_at :: "string \<Rightarrow> nat \<Rightarrow> char \<Rightarrow> cpp_error + string" where
  "put_at s j c = (if j < length s then Inr (s[j := c]) else Inl InvalidWrite)"

definition err_then :: "cpp_error + 'a \<Rightarrow> ('a \<Rightarrow> cpp_error + 'b) \<Rightarrow> cpp_error + 'b" where
  "err_then r k = (case r of Inl e \<Rightarrow> Inl e | Inr x \<Rightarrow> k x)"

lemma err_then_simps [simp]: "err_then (Inl e) k = Inl e" "err_then (Inr x) k = k x"
  by (simp_all add: err_then_def)

text \<open>The loops of the two comments, behind their first two characters.\<close>

function oneline_loop :: "string \<Rightarrow> nat \<Rightarrow> cpp_error + nat" where
  "oneline_loop s i =
     (if length s \<le> i then Inl InvalidRead
      else if s ! i = NUL then Inr i
      else if s ! i = CHR 0x0A then Inr (i + 1)
      else oneline_loop s (i + 1))"
  by pat_completeness auto

termination
  by (relation "measure (\<lambda>(s, i). length s - i)") auto

function multiline_loop :: "string \<Rightarrow> nat \<Rightarrow> cpp_error + nat" where
  "multiline_loop s i =
     (if length s \<le> i then Inl InvalidRead
      else if s ! i = NUL then Inr i
      else if s ! i = CHR ''*'' \<and> length s \<le> i + 1 then Inl InvalidRead
      else if s ! i = CHR ''*'' \<and> s ! (i + 1) = CHR ''/'' then Inr (i + 2)
      else multiline_loop s (i + 1))"
  by pat_completeness auto

termination
  by (relation "measure (\<lambda>(s, i). length s - i)") auto

definition skip_oneline_comment :: "string \<Rightarrow> nat \<Rightarrow> cpp_error + nat" where
  "skip_oneline_comment s i = oneline_loop s (i + 2)"

definition skip_multiline_comment :: "string \<Rightarrow> nat \<Rightarrow> cpp_error + nat" where
  "skip_multiline_comment s i = multiline_loop s (i + 2)"

text \<open>
  A string is copied byte for byte up to its end; \<open>[1]\<close> of the output is written when a quote is
  escaped. The writes are behind the reads or at them.
\<close>

function string_loop :: "string \<Rightarrow> nat \<Rightarrow> nat \<Rightarrow> cpp_error + string \<times> nat \<times> nat" where
  "string_loop s i j =
     (if length s \<le> i then Inl InvalidRead
      else if s ! i = NUL then Inr (s, i, j)
      else
        let c = s ! i; s1 = s[j := c] in
        if length s \<le> j then Inl InvalidWrite
        else if s1 ! i = CHR 0x22 then Inr (s1[j := CHR 0x22], i + 1, j + 1)
        else if s1 ! i = CHR 0x5C \<and> length s \<le> i + 1 then Inl InvalidRead
        else if s1 ! i = CHR 0x5C \<and> s1 ! (i + 1) = CHR 0x22 then
          (if length s \<le> j + 1 then Inl InvalidWrite else string_loop (s1[j + 1 := s1 ! (i + 1)]) (i + 2) (j + 2))
        else string_loop s1 (i + 1) (j + 1))"
  by pat_completeness auto

termination
  by (relation "measure (\<lambda>(s, i, j). length s - i)") (auto simp: Let_def)

declare oneline_loop.simps [simp del] multiline_loop.simps [simp del] string_loop.simps [simp del]

definition minify_string :: "string \<Rightarrow> nat \<Rightarrow> nat \<Rightarrow> cpp_error + string \<times> nat \<times> nat" where
  "minify_string s i j =
     err_then (get_at s i) (\<lambda>c.
     err_then (put_at s j c) (\<lambda>s. string_loop s (i + 1) (j + 1)))"

definition minify_space :: "char \<Rightarrow> bool" where
  "minify_space c \<longleftrightarrow> c \<in> {CHR '' '', CHR 0x09, CHR 0x0D, CHR 0x0A}"

text \<open>The loop of \<^verbatim>\<open>cJSON_Minify\<close>; every round reads on, so that as many rounds as there are bytes are enough.\<close>

fun minify_loop :: "nat \<Rightarrow> string \<Rightarrow> nat \<Rightarrow> nat \<Rightarrow> (string \<times> nat) run" where
  "minify_loop 0 s i j = None"
| "minify_loop (Suc k) s i j =
     run_then (Some (get_at s i)) (\<lambda>c.
       if c = NUL then done_with (s, j)
       else if minify_space c then minify_loop k s (i + 1) j
       else if c = CHR ''/'' then
         run_then (Some (get_at s (i + 1))) (\<lambda>d.
           if d = CHR ''/'' then run_then (Some (skip_oneline_comment s i)) (\<lambda>i. minify_loop k s i j)
           else if d = CHR ''*'' then run_then (Some (skip_multiline_comment s i)) (\<lambda>i. minify_loop k s i j)
           else minify_loop k s (i + 1) j)
       else if c = CHR 0x22 then run_then (Some (minify_string s i j)) (\<lambda>(s, i, j). minify_loop k s i j)
       else run_then (Some (put_at s j c)) (\<lambda>s. minify_loop k s (i + 1) (j + 1)))"

text \<open>\<open>mem\<close> is the memory from \<^verbatim>\<open>json\<close> on.\<close>

definition cJSON_Minify :: "string \<Rightarrow> string run" where
  "cJSON_Minify mem =
     run_then (minify_loop (Suc (length mem)) mem 0 0) (\<lambda>(s, j). Some (put_at s j NUL))"

section \<open>The text it leaves\<close>

fun after_line :: "string \<Rightarrow> string" where
  "after_line [] = []"
| "after_line (c # s) = (if c = CHR 0x0A then s else after_line s)"

fun after_comment :: "string \<Rightarrow> string" where
  "after_comment [] = []"
| "after_comment [c] = []"
| "after_comment (c # d # s) = (if c = CHR ''*'' \<and> d = CHR ''/'' then s else after_comment (d # s))"

text \<open>A string up to the quote that is taken for its end, and what is behind it.\<close>

fun string_part :: "string \<Rightarrow> string \<times> string" where
  "string_part [] = ([], [])"
| "string_part [c] = ([c], [])"
| "string_part (c # d # s) =
     (if c = CHR 0x22 then ([c], d # s)
      else if c = CHR 0x5C \<and> d = CHR 0x22 then (case string_part s of (a, b) \<Rightarrow> (c # d # a, b))
      else (case string_part (d # s) of (a, b) \<Rightarrow> (c # a, b)))"

lemma after_line_length: "length (after_line s) < Suc (length s)"
  by (induction s) auto

lemma after_comment_length: "length (after_comment s) < Suc (length s)"
  by (induction s rule: after_comment.induct) auto

lemma string_part_length: "length (snd (string_part s)) < Suc (length s)"
  by (induction s rule: string_part.induct) (auto split: prod.splits)

function minified :: "string \<Rightarrow> string" where
  "minified s =
     (case s of
        [] \<Rightarrow> []
      | c # t \<Rightarrow>
          if minify_space c then minified t
          else if c = CHR ''/'' then
            (if t = [] then []
             else if hd t = CHR ''/'' then minified (after_line (tl t))
             else if hd t = CHR ''*'' then minified (after_comment (tl t))
             else minified t)
          else if c = CHR 0x22 then c # fst (string_part t) @ minified (snd (string_part t))
          else c # minified t)"
  by pat_completeness auto

termination
proof (relation "measure length")
  fix s :: string and c t
  assume "s = c # t" "t \<noteq> []"
  then show "(after_line (tl t), s) \<in> measure length" "(after_comment (tl t), s) \<in> measure length"
    using after_line_length [of "tl t"] after_comment_length [of "tl t"] by (cases t; simp)+
qed (simp_all add: string_part_length)

declare minified.simps [simp del]

lemma minified_Nil [simp]: "minified [] = []"
  by (simp add: minified.simps)

lemma minified_Cons:
  "minified (c # t) =
     (if minify_space c then minified t
      else if c = CHR ''/'' then
        (if t = [] then []
         else if hd t = CHR ''/'' then minified (after_line (tl t))
         else if hd t = CHR ''*'' then minified (after_comment (tl t))
         else minified t)
      else if c = CHR 0x22 then c # fst (string_part t) @ minified (snd (string_part t))
      else c # minified t)"
  by (simp add: minified.simps [of "c # t"])

section \<open>In place\<close>

text \<open>A byte written at or before the one it was read from.\<close>

lemma write_step:
  assumes "drop i s = c # u" "j \<le> i"
  shows "drop i (s[j := c]) = c # u" "take (Suc j) (s[j := c]) = take j s @ [c]" "i < length s" "s ! i = c" "j < length s" "s[j := c] ! i = c"
proof -
  show i: "i < length s" "s ! i = c" using drop_Cons_nth [OF assms(1)] by auto
  then show j: "j < length s" using assms(2) by simp
  show "take (Suc j) (s[j := c]) = take j s @ [c]" using j by (simp add: take_Suc_conv_app_nth)
  show "drop i (s[j := c]) = c # u"
  proof (cases "j = i")
    case True
    then have "s[j := c] = s" using i by (metis list_update_id)
    then show ?thesis using assms by simp
  next
    case False
    then show ?thesis using assms by simp
  qed
  show "s[j := c] ! i = c" using i by (cases "j = i") simp_all
qed

lemma string_loop_runs:
  "drop i s = t @ NUL # r \<Longrightarrow> NUL \<notin> set t \<Longrightarrow> j \<le> i \<Longrightarrow>
     \<exists>s' i' j'. string_loop s i j = Inr (s', i', j') \<and> length s' = length s \<and> j' \<le> i' \<and> i \<le> i' \<and>
       take j' s' = take j s @ fst (string_part t) \<and> drop i' s' = snd (string_part t) @ NUL # r"
proof (induction t arbitrary: s i j rule: string_part.induct)
  case 1
  then show ?case using drop_Cons_nth [of i s NUL r] by (simp add: string_loop.simps [of s i j])
next
  case (2 c)
  then have d: "drop i s = c # NUL # r" and c: "c \<noteq> NUL" by auto
  note w = write_step [OF d \<open>j \<le> i\<close>]
  have n: "drop (Suc i) (s[j := c]) = NUL # r" using drop_Cons_nth [OF w(1)] by simp
  have n1: "Suc i < length s" "s[j := c] ! Suc i = NUL" using drop_Cons_nth [OF n] by simp_all
  have "string_loop (s[j := c]) (Suc i) (Suc j) = Inr (s[j := c], Suc i, Suc j)"
    using drop_Cons_nth [OF n] by (simp add: string_loop.simps [of "s[j := c]"])
  then show ?case using w n n1 c \<open>j \<le> i\<close> by (auto simp: string_loop.simps [of s i j] Let_def)
next
  case (3 c d t)
  then have dr: "drop i s = c # d # t @ NUL # r" and c: "c \<noteq> NUL" "d \<noteq> NUL" by auto
  note w = write_step [OF dr \<open>j \<le> i\<close>]
  have n: "drop (Suc i) (s[j := c]) = d # t @ NUL # r" using drop_Cons_nth [OF w(1)] by simp
  have n1: "Suc i < length s" "s[j := c] ! Suc i = d" using drop_Cons_nth [OF n] by simp_all
  consider (close) "c = CHR 0x22" | (escape) "c = CHR 0x5C" "d = CHR 0x22" | (other) "c \<noteq> CHR 0x22" "\<not> (c = CHR 0x5C \<and> d = CHR 0x22)" by blast
  then show ?case
  proof cases
    case close
    then show ?thesis using w n n1 c \<open>j \<le> i\<close> by (auto simp: string_loop.simps [of s i j] Let_def)
  next
    case escape
    let ?s = "s[j := c, Suc j := d]"
    note w2 = write_step [OF n, of "Suc j"]
    have n2: "drop (Suc (Suc i)) ?s = t @ NUL # r" using drop_Cons_nth [OF w2(1)] \<open>j \<le> i\<close> by simp
    have st: "string_loop s i j = string_loop ?s (Suc (Suc i)) (Suc (Suc j))"
      using w w2 n1 c escape \<open>j \<le> i\<close> by (simp add: string_loop.simps [of s i j] Let_def)
    obtain s' i' j' where ih: "string_loop ?s (Suc (Suc i)) (Suc (Suc j)) = Inr (s', i', j')" "length s' = length ?s" "j' \<le> i'" "Suc (Suc i) \<le> i'"
      "take j' s' = take (Suc (Suc j)) ?s @ fst (string_part t)" "drop i' s' = snd (string_part t) @ NUL # r"
      using "3.IH"(1) [OF _ _ n2, of "Suc (Suc j)"] "3.prems" escape by auto
    then show ?thesis using st w w2(2) escape \<open>j \<le> i\<close> by (simp split: prod.splits)
  next
    case other
    have st: "string_loop s i j = string_loop (s[j := c]) (Suc i) (Suc j)"
      using w n1 c other \<open>j \<le> i\<close> by (auto simp: string_loop.simps [of s i j] Let_def)
    have dr': "drop (Suc i) (s[j := c]) = (d # t) @ NUL # r" using n by simp
    obtain s' i' j' where ih: "string_loop (s[j := c]) (Suc i) (Suc j) = Inr (s', i', j')" "length s' = length (s[j := c])" "j' \<le> i'" "Suc i \<le> i'"
      "take j' s' = take (Suc j) (s[j := c]) @ fst (string_part (d # t))" "drop i' s' = snd (string_part (d # t)) @ NUL # r"
      using "3.IH"(2) [OF _ _ dr', of "Suc j"] "3.prems" other by auto
    moreover have "string_part (c # d # t) = (case string_part (d # t) of (a, b) \<Rightarrow> (c # a, b))"
      using other by auto
    ultimately show ?thesis using st w(2) by (simp del: string_part.simps split: prod.splits)
  qed
qed

lemma oneline_runs:
  "drop i s = t @ NUL # r \<Longrightarrow> NUL \<notin> set t \<Longrightarrow> \<exists>i'. oneline_loop s i = Inr i' \<and> i \<le> i' \<and> drop i' s = after_line t @ NUL # r"
proof (induction t arbitrary: i)
  case Nil
  then show ?case using drop_Cons_nth [of i s NUL r] by (simp add: oneline_loop.simps [of s i])
next
  case (Cons c t)
  then have n: "i < length s" "s ! i = c" "drop (Suc i) s = t @ NUL # r" "c \<noteq> NUL" using drop_Cons_nth [of i s c "t @ NUL # r"] by auto
  then show ?case using Cons.IH [OF n(3)] Cons.prems by (cases "c = CHR 0x0A") (auto simp: oneline_loop.simps [of s i] dest: Suc_leD)
qed

lemma multiline_runs:
  "drop i s = t @ NUL # r \<Longrightarrow> NUL \<notin> set t \<Longrightarrow> \<exists>i'. multiline_loop s i = Inr i' \<and> i \<le> i' \<and> drop i' s = after_comment t @ NUL # r"
proof (induction t arbitrary: i rule: after_comment.induct)
  case (3 c d t)
  then have n: "i < length s" "s ! i = c" "drop (Suc i) s = (d # t) @ NUL # r" "c \<noteq> NUL" using drop_Cons_nth [of i s c "d # t @ NUL # r"] by auto
  then have m: "Suc i < length s" "s ! Suc i = d" "drop (Suc (Suc i)) s = t @ NUL # r" using drop_Cons_nth [of "Suc i" s d "t @ NUL # r"] by auto
  show ?case
  proof (cases "c = CHR ''*'' \<and> d = CHR ''/''")
    case True
    then show ?thesis using n m by (auto simp: multiline_loop.simps [of s i])
  next
    case False
    then have "multiline_loop s i = multiline_loop s (Suc i)" using n m by (auto simp: multiline_loop.simps [of s i])
    then show ?thesis using "3.IH" [OF False n(3)] "3.prems" False by (auto dest: Suc_leD)
  qed
next
  case 1
  then show ?case using drop_Cons_nth [of i s NUL r] by (simp add: multiline_loop.simps [of s i])
next
  case (2 c)
  then have n: "i < length s" "s ! i = c" "drop (Suc i) s = NUL # r" "c \<noteq> NUL" using drop_Cons_nth [of i s c "NUL # r"] by auto
  then have m: "Suc i < length s" "s ! Suc i = NUL" using drop_Cons_nth [of "Suc i" s NUL r] by auto
  then have "multiline_loop s (Suc i) = Inr (Suc i)" by (simp add: multiline_loop.simps [of s "Suc i"])
  then show ?case using n m by (simp add: multiline_loop.simps [of s i])
qed

lemma get_at_drop: "drop i s = c # r \<Longrightarrow> get_at s i = Inr c"
  using drop_Cons_nth [of i s c r] by (simp add: get_at_def)

lemma put_at_drop: "drop i s = c # r \<Longrightarrow> j \<le> i \<Longrightarrow> put_at s j x = Inr (s[j := x])"
  using drop_Cons_nth [of i s c r] by (simp add: put_at_def)

lemma parts_no_NUL:
  "NUL \<notin> set t \<Longrightarrow> NUL \<notin> set (after_line t)" "NUL \<notin> set t \<Longrightarrow> NUL \<notin> set (after_comment t)"
  "NUL \<notin> set t \<Longrightarrow> NUL \<notin> set (fst (string_part t)) \<and> NUL \<notin> set (snd (string_part t))"
  subgoal by (induction t) auto
  subgoal by (induction t rule: after_comment.induct) auto
  subgoal by (induction t rule: string_part.induct) (auto split: prod.splits if_splits)
  done

lemma minify_loop_runs:
  "drop i s = t @ NUL # r \<Longrightarrow> NUL \<notin> set t \<Longrightarrow> j \<le> i \<Longrightarrow> length t < k \<Longrightarrow>
     \<exists>s' j'. minify_loop k s i j = done_with (s', j') \<and> length s' = length s \<and> take j' s' = take j s @ minified t \<and>
       j' + length (NUL # r) \<le> length s' \<and> drop (length s - length (NUL # r)) s' = NUL # r"
proof (induction k arbitrary: s i j t)
  case 0
  then show ?case by simp
next
  case (Suc k)
  have end_at: "i + length t + Suc (length r) = length s"
  proof -
    have "length (drop i s) = length t + Suc (length r)" using Suc.prems(1) by simp
    then show ?thesis by simp
  qed
  show ?case
  proof (cases t)
    case Nil
    then have "drop i s = NUL # r" using Suc.prems by simp
    moreover have "length s - length (NUL # r) = i" using end_at Nil by simp
    ultimately show ?thesis using get_at_drop Nil Suc.prems(3) end_at by simp
  next
    case (Cons c u)
    have d: "drop i s = c # u @ NUL # r" and c: "c \<noteq> NUL" and u: "NUL \<notin> set u" using Suc.prems Cons by auto
    have d1: "drop (Suc i) s = u @ NUL # r" using drop_Cons_nth [OF d] by simp
    have sub: "\<exists>s' j'. minify_loop k s2 i2 j2 = done_with (s', j') \<and> length s' = length s \<and> take j' s' = take j2 s2 @ minified v \<and>
       j' + length (NUL # r) \<le> length s' \<and> drop (length s - length (NUL # r)) s' = NUL # r"
      if "drop i2 s2 = v @ NUL # r" "NUL \<notin> set v" "j2 \<le> i2" "length v \<le> length u" "length s2 = length s" for s2 i2 j2 v
      using Suc.IH [OF that(1,2,3)] that Suc.prems(4) Cons by simp
    consider (space) "minify_space c" | (slash) "\<not> minify_space c" "c = CHR ''/''" | (quote) "c = CHR 0x22" "\<not> minify_space c"
      | (other) "\<not> minify_space c" "c \<noteq> CHR ''/''" "c \<noteq> CHR 0x22" by blast
    then show ?thesis
    proof cases
      case space
      then have "minify_loop (Suc k) s i j = minify_loop k s (Suc i) j" "minified t = minified u"
        using get_at_drop [OF d] c Cons by (simp_all add: minified_Cons)
      then show ?thesis using sub [OF d1 u] Suc.prems(3) by simp
    next
      case slash
      show ?thesis
      proof (cases u)
        case Nil
        then have "get_at s (Suc i) = Inr NUL" using get_at_drop [of "Suc i" s NUL r] d1 by simp
        then have "minify_loop (Suc k) s i j = minify_loop k s (Suc i) j" "minified t = minified u"
          using get_at_drop [OF d] slash c Cons Nil by (simp_all add: minified_Cons)
        then show ?thesis using sub [OF d1 u] Suc.prems(3) by simp
      next
        case u2: (Cons e v)
        then have "drop (Suc i) s = e # v @ NUL # r" using d1 by simp
        then have g: "get_at s (Suc i) = Inr e" and d2: "drop (i + 2) s = v @ NUL # r" and v: "NUL \<notin> set v"
          using drop_Cons_nth [of "Suc i" s e "v @ NUL # r"] get_at_drop u u2 by (simp_all add: numeral_2_eq_2)
        consider (line) "e = CHR ''/''" | (many) "e = CHR ''*''" | (alone) "e \<noteq> CHR ''/''" "e \<noteq> CHR ''*''" by blast
        then show ?thesis
        proof cases
          case line
          obtain i' where i': "oneline_loop s (i + 2) = Inr i'" "i + 2 \<le> i'" "drop i' s = after_line v @ NUL # r"
            using oneline_runs [OF d2 v] by blast
          then have "minify_loop (Suc k) s i j = minify_loop k s i' j" "minified t = minified (after_line v)"
            using get_at_drop [OF d] g slash line Cons u2 c by (simp_all add: skip_oneline_comment_def minified_Cons)
          then show ?thesis
            using sub [OF i'(3) parts_no_NUL(1) [OF v], of j] i'(2) Suc.prems(3) after_line_length [of v] u2 by simp
        next
          case many
          obtain i' where i': "multiline_loop s (i + 2) = Inr i'" "i + 2 \<le> i'" "drop i' s = after_comment v @ NUL # r"
            using multiline_runs [OF d2 v] by blast
          then have "minify_loop (Suc k) s i j = minify_loop k s i' j" "minified t = minified (after_comment v)"
            using get_at_drop [OF d] g slash many Cons u2 c by (simp_all add: skip_multiline_comment_def minified_Cons)
          then show ?thesis
            using sub [OF i'(3) parts_no_NUL(2) [OF v], of j] i'(2) Suc.prems(3) after_comment_length [of v] u2 by simp
        next
          case alone
          then have "minify_loop (Suc k) s i j = minify_loop k s (Suc i) j" "minified t = minified u"
            using get_at_drop [OF d] g slash c Cons u2 by (simp_all add: minified_Cons)
          then show ?thesis using sub [OF d1 u] Suc.prems(3) by simp
        qed
      qed
    next
      case quote
      note w = write_step [OF d Suc.prems(3)]
      have n: "drop (Suc i) (s[j := c]) = u @ NUL # r" using drop_Cons_nth [OF w(1)] by simp
      obtain s' i' j' where l: "string_loop (s[j := c]) (Suc i) (Suc j) = Inr (s', i', j')" "length s' = length s" "j' \<le> i'"
        "take j' s' = take (Suc j) (s[j := c]) @ fst (string_part u)" "drop i' s' = snd (string_part u) @ NUL # r"
        using string_loop_runs [OF n u, of "Suc j"] Suc.prems(3) by auto
      have "minify_loop (Suc k) s i j = minify_loop k s' i' j'"
        using get_at_drop [OF d] put_at_drop [OF d Suc.prems(3)] quote l(1) by (simp add: minify_string_def)
      moreover have "minified t = c # fst (string_part u) @ minified (snd (string_part u))"
        using quote Cons by (simp add: minified_Cons)
      ultimately show ?thesis
        using sub [OF l(5) _ l(3)] parts_no_NUL(3) [OF u] string_part_length [of u] l w(2) by simp
    next
      case other
      note w = write_step [OF d Suc.prems(3)]
      have n: "drop (Suc i) (s[j := c]) = u @ NUL # r" using drop_Cons_nth [OF w(1)] by simp
      have "minify_loop (Suc k) s i j = minify_loop k (s[j := c]) (Suc i) (Suc j)" "minified t = c # minified u"
        using get_at_drop [OF d] put_at_drop [OF d Suc.prems(3)] other c Cons by (simp_all add: minified_Cons)
      then show ?thesis using sub [OF n u, of "Suc j"] w(2) Suc.prems(3) by simp
    qed
  qed
qed

lemma minified_no_NUL: "NUL \<notin> set t \<Longrightarrow> NUL \<notin> set (minified t)"
proof (induction t rule: minified.induct)
  case (1 s)
  show ?case
  proof (cases s)
    case Nil
    then show ?thesis by simp
  next
    case (Cons c t)
    then have t: "NUL \<notin> set t" "NUL \<noteq> c" "NUL \<notin> set (tl t)" using "1.prems" by (auto, cases t, auto)
      note IH = "1.IH" [OF Cons]
    consider (space) "minify_space c" | (slash) "\<not> minify_space c" "c = CHR ''/''" | (quote) "\<not> minify_space c" "c = CHR 0x22"
      | (other) "\<not> minify_space c" "c \<noteq> CHR ''/''" "c \<noteq> CHR 0x22" by blast
    then show ?thesis
    proof cases
      case slash
      then show ?thesis using IH(2-4) t parts_no_NUL(1,2) [OF t(3)] unfolding Cons minified_Cons [of c t] by auto
    next
      case quote
      then show ?thesis using IH(5) t parts_no_NUL(3) [OF t(1)] unfolding Cons minified_Cons [of c t] by simp
    qed (use IH t in \<open>simp_all add: Cons minified_Cons [of c t]\<close>)
  qed
qed

lemma minified_in_place:
  "\<exists>mem. cJSON_Minify (c_str s @ NUL # r) = done_with mem \<and> c_str mem = minified (c_str s) \<and>
     length mem = length (c_str s @ NUL # r) \<and> drop (length (c_str s)) mem = NUL # r"
proof -
  let ?m = "c_str s @ NUL # r"
  obtain s' j' where l: "minify_loop (Suc (length ?m)) ?m 0 0 = done_with (s', j')" "length s' = length ?m" "take j' s' = minified (c_str s)"
    "j' + length (NUL # r) \<le> length s'" "drop (length ?m - length (NUL # r)) s' = NUL # r"
    using minify_loop_runs [of 0 ?m "c_str s" r 0 "Suc (length ?m)"] c_str_no_NUL [of s] by auto
  have j: "j' \<le> length (c_str s)" "j' < length s'" using l(2,4) by simp_all
  have tail: "drop (length (c_str s)) s' = NUL # r" using l(5) by simp
  let ?mem = "s'[j' := NUL]"
  have "?mem = take j' s' @ NUL # drop (Suc j') s'" using j(2) by (rule upd_conv_take_nth_drop)
  then have "c_str ?mem = minified (c_str s)"
    using l(3) minified_no_NUL [OF c_str_no_NUL [of s]] by (simp add: c_str_def takeWhile_append)
  moreover have "drop (length (c_str s)) ?mem = NUL # r"
  proof (cases "j' = length (c_str s)")
    case True
    then have "s' ! j' = NUL" using tail j(2) by (metis nth_via_drop)
    then show ?thesis using tail by (metis list_update_id)
  next
    case False
    then show ?thesis using tail j by simp
  qed
  ultimately show ?thesis using l j by (simp add: cJSON_Minify_def put_at_def done_with_def)
qed

text \<open>
  C34. \<^verbatim>\<open>cJSON_Minify\<close> ends on every text, reads nothing behind its NUL, writes nothing behind it, and
  leaves the text without the blanks and the comments.
\<close>

theorem minify_in_place:
  "\<exists>mem. cJSON_Minify (c_str s @ NUL # r) = done_with mem \<and> c_str mem = minified (c_str s) \<and>
     length mem = length (c_str s @ NUL # r) \<and> drop (length (c_str s)) mem = NUL # r"
  by (rule minified_in_place)

section \<open>What it does to a printed tree\<close>

definition kept_char :: "char \<Rightarrow> bool" where
  "kept_char c \<longleftrightarrow> \<not> minify_space c \<and> c \<noteq> CHR ''/'' \<and> c \<noteq> CHR 0x22"

lemma minified_kept: "list_all kept_char t \<Longrightarrow> minified (t @ r) = t @ minified r"
  by (induction t) (simp_all add: kept_char_def minified_Cons)

lemma minified_blanks: "list_all minify_space t \<Longrightarrow> minified (t @ r) = minified r"
  by (induction t) (simp_all add: minified_Cons)

lemma digits_kept: "list_all isdigit t \<Longrightarrow> list_all kept_char t"
  by (auto simp: list_all_iff kept_char_def minify_space_def isdigit_def)

lemma with_point_kept:
  assumes "list_all kept_char a" "list_all kept_char b"
  shows "list_all kept_char (with_point a b)"
proof -
  have "list_all kept_char (rstrip_zeros b)" using rstrip_zeros_set [of b] assms(2) by (auto simp: list_all_iff)
  moreover have "kept_char (CHR ''.'')" by (simp add: kept_char_def minify_space_def)
  ultimately show ?thesis using assms(1) by (simp add: with_point_def Let_def)
qed

lemma printf_g_kept: "list_all kept_char (printf_g p v)"
proof -
  have z: "list_all kept_char (replicate k (CHR ''0''))" for k by (simp add: list_all_iff kept_char_def minify_space_def)
  have s: "list_all kept_char (show_nat n)" for n using show_nat_digits by (rule digits_kept)
  then have td: "list_all kept_char (take k (show_nat n))" "list_all kept_char (drop k (show_nat n))" for k n
    by (auto simp: list_all_iff dest: in_set_takeD in_set_dropD)
  have e: "list_all kept_char (show_exp x)" for x
    using s by (simp add: show_exp_def) (simp add: kept_char_def minify_space_def)
  have c: "kept_char (CHR ''0'')" "kept_char (CHR ''-'')" by (simp_all add: kept_char_def minify_space_def)
  show ?thesis
    using s td e z c by (auto simp: printf_g_def Let_def intro!: with_point_kept split: prod.splits)
qed

lemma number_kept: "list_all kept_char (number_text i d)"
proof -
  have "list_all kept_char (show_int i)"
    using digits_kept [OF show_nat_digits] by (simp add: show_int_def) (simp add: kept_char_def minify_space_def)
  moreover have "list_all kept_char ''null''" by (simp add: kept_char_def minify_space_def)
  ultimately show ?thesis using printf_g_kept by (auto simp: number_text_def Let_def split: c_double.splits prod.splits)
qed

text \<open>A string whose last character is not a backslash is taken for what it is.\<close>

definition ends_well :: "string option \<Rightarrow> bool" where
  "ends_well s \<longleftrightarrow> (case s of None \<Rightarrow> True | Some t \<Rightarrow> c_str t = [] \<or> last (c_str t) \<noteq> CHR 0x5C)"

lemma string_part_plain:
  "u \<noteq> [] \<Longrightarrow> list_all (\<lambda>c. c \<noteq> CHR 0x22 \<and> c \<noteq> CHR 0x5C) t \<Longrightarrow> string_part (t @ u) = (t @ fst (string_part u), snd (string_part u))"
proof (induction t)
  case (Cons c t)
  obtain d v where "t @ u = d # v" using Cons.prems(1) by (cases "t @ u") auto
  then show ?case using Cons by (auto split: prod.splits)
qed simp

lemma hex4_plain: "list_all (\<lambda>c. c \<noteq> CHR 0x22 \<and> c \<noteq> CHR 0x5C) (hex4 n)"
  using hex_char_plain by (simp add: hex4_def)

lemma string_part_backslash:
  "d \<noteq> CHR 0x22 \<Longrightarrow> string_part (CHR 0x5C # d # u) = (CHR 0x5C # fst (string_part (d # u)), snd (string_part (d # u)))"
  by (auto split: prod.splits)

lemma string_part_escape:
  assumes "u \<noteq> []" "c = CHR 0x5C \<longrightarrow> hd u \<noteq> CHR 0x22"
  shows "string_part (escape_text c @ u) = (escape_text c @ fst (string_part u), snd (string_part u))"
proof (cases "31 < (of_char c :: nat) \<and> c \<noteq> CHR 0x22 \<and> c \<noteq> CHR 0x5C")
  case True
  then show ?thesis using string_part_plain [of u "[c]"] assms(1) by (simp add: escape_text_def del: string_part.simps)
next
  case False
  obtain h v where u: "u = h # v" using assms(1) by (cases u) auto
  show ?thesis
  proof (cases "short_name c")
    case None
    then have t: "escape_text c = CHR 0x5C # CHR ''u'' # hex4 (of_char c)" using False by (auto simp: escape_text_def)
    have "list_all (\<lambda>c. c \<noteq> CHR 0x22 \<and> c \<noteq> CHR 0x5C) (CHR ''u'' # hex4 (of_char c))" using hex4_plain by simp
    from string_part_plain [OF assms(1) this] show ?thesis
      using string_part_backslash [of "CHR ''u''" "hex4 (of_char c) @ u"] unfolding t by simp
  next
    case (Some n)
    then have t: "escape_text c = [CHR 0x5C, n]" using False by (auto simp: escape_text_def)
    consider (quote) "n = CHR 0x22" | (slash) "n = CHR 0x5C" "c = CHR 0x5C" | (other) "n \<noteq> CHR 0x22" "n \<noteq> CHR 0x5C"
      using Some by (auto simp: short_name_def split: if_splits)
    then show ?thesis
    proof cases
      case quote
      then show ?thesis unfolding t by (simp split: prod.splits)
    next
      case slash
      then have "h \<noteq> CHR 0x22" using assms(2) u by simp
      then show ?thesis using string_part_backslash [of "CHR 0x5C" u] string_part_backslash [of h v] slash unfolding t u
        by (simp del: string_part.simps)
    next
      case other
      then show ?thesis using string_part_backslash [of n u] string_part_plain [of u "[n]"] assms(1) unfolding t
        by (simp del: string_part.simps)
    qed
  qed
qed

lemma escape_text_start: "hd (escape_text c @ u) \<noteq> CHR 0x22"
  by (auto simp: escape_text_def split: option.splits)

lemma string_part_escaped:
  "t = [] \<or> last t \<noteq> CHR 0x5C \<Longrightarrow>
     string_part (concat (map escape_text t) @ CHR 0x22 # r) = (concat (map escape_text t) @ [CHR 0x22], r)"
proof (induction t)
  case Nil
  then show ?case by (cases r) auto
next
  case (Cons c t)
  let ?u = "concat (map escape_text t) @ CHR 0x22 # r"
  have "c = CHR 0x5C \<longrightarrow> hd ?u \<noteq> CHR 0x22"
    using Cons.prems escape_text_start by (cases t) auto
  from string_part_escape [of ?u c, OF _ this] show ?case using Cons by (auto split: if_splits)
qed

lemma minified_quoted:
  assumes "ends_well s"
  shows "minified (quoted s @ r) = quoted s @ minified r"
proof -
  define t where "t = (case s of None \<Rightarrow> [] | Some t \<Rightarrow> c_str t)"
  have t: "t = [] \<or> last t \<noteq> CHR 0x5C" using assms by (auto simp: t_def ends_well_def split: option.splits)
  have q: "quoted s = CHR 0x22 # concat (map escape_text t) @ [CHR 0x22]"
    by (simp add: quoted_def t_def split: option.splits)
  show ?thesis unfolding q using string_part_escaped [OF t, of r]
    by (simp add: minified_Cons minify_space_def)
qed

fun minifiable :: "cjson \<Rightarrow> bool" where
  "minifiable (CJson name ty s i x cs) = (ty \<noteq> cJSON_Raw \<and> ends_well s \<and> list_all (\<lambda>c. ends_well (cj_name c) \<and> minifiable c) cs)"

lemma minified_text:
  "fmt \<Longrightarrow> minifiable n \<Longrightarrow> minified (json_text fmt d n @ r) = json_text False d n @ minified r"
  "fmt \<Longrightarrow> list_all minifiable cs \<Longrightarrow> minified (elements_text fmt d cs @ r) = elements_text False d cs @ minified r"
  "fmt \<Longrightarrow> list_all (\<lambda>c. ends_well (cj_name c) \<and> minifiable c) cs \<Longrightarrow> minified (members_text fmt d cs @ r) = members_text False d cs @ minified r"
proof (induction fmt d n and fmt d cs and fmt d cs arbitrary: r and r and r rule: json_text_elements_text_members_text.induct)
  case (1 fmt d name ty s i x cs)
  have k: "list_all kept_char t \<Longrightarrow> minified (t @ r) = t @ minified r" for t r by (rule minified_kept)
  have kc: "kept_char c \<Longrightarrow> minified (c # r) = c # minified r" for c r using minified_kept [of "[c]" r] by simp
  have tabs: "minified (replicate k (CHR 0x09) @ r) = minified r" for k r
    by (rule minified_blanks) (simp add: list_all_iff minify_space_def)
  have nl: "minified (CHR 0x0A # r) = minified r" for r using minified_blanks [of "[CHR 0x0A]" r] by (simp add: minify_space_def)
  have kept: "kept_char (CHR ''['')" "kept_char (CHR '']'')" "kept_char (CHR 0x7B)" "kept_char (CHR 0x7D)"
    "list_all kept_char ''null''" "list_all kept_char ''true''" "list_all kept_char ''false''"
    by (simp_all add: kept_char_def minify_space_def)
  show ?case
  proof (cases ty)
    case cJSON_Array
    then show ?thesis using 1 kc kept by (simp add: list_all_iff)
  next
    case cJSON_Object
    then show ?thesis using 1 kc kept tabs nl by (simp add: list_all_iff)
  qed (use 1 k [OF kept(5), of r] k [OF kept(6), of r] k [OF kept(7), of r] k [OF number_kept, of _ _ r] minified_quoted [of s r] in simp_all)
next
  case (3 fmt d c cs)
  have kc: "kept_char c \<Longrightarrow> minified (c # r) = c # minified r" for c r using minified_kept [of "[c]" r] by simp
  have sp: "minified (CHR '' '' # r) = minified r" for r using minified_blanks [of "'' ''" r] by (simp add: minify_space_def)
  have "kept_char (CHR '','')" by (simp add: kept_char_def minify_space_def)
  then show ?case using 3 kc sp by (cases "cs = []") simp_all
next
  case (5 fmt d c cs)
  have kc: "kept_char c \<Longrightarrow> minified (c # r) = c # minified r" for c r using minified_kept [of "[c]" r] by simp
  have tabs: "minified (replicate k (CHR 0x09) @ r) = minified r" for k r
    by (rule minified_blanks) (simp add: list_all_iff minify_space_def)
  have b: "minified (CHR 0x0A # r) = minified r" "minified (CHR 0x09 # r) = minified r" for r
    using minified_blanks [of "[CHR 0x0A]" r] minified_blanks [of "[CHR 0x09]" r] by (simp_all add: minify_space_def)
  have kept: "kept_char (CHR '','')" "kept_char (CHR '':'')" by (simp_all add: kept_char_def minify_space_def)
  then show ?case using 5 kc [OF kept(1)] kc [OF kept(2)] b tabs minified_quoted [of "cj_name c"]
    by (cases "cs = []") simp_all
qed simp_all

text \<open>
  C35. Minifying a formatted text in place gives the text that is printed without a format, where no
  string of the tree ends in a backslash.
\<close>

theorem minify_undoes_format:
  assumes "minifiable n"
  shows "\<exists>mem. cJSON_Minify (json_text True 0 n @ [NUL]) = done_with mem \<and> c_str mem = json_text False 0 n"
proof -
  have "minified (json_text True 0 n) = json_text False 0 n"
    using minified_text(1) [of True n 0 "[]"] assms by simp
  then show ?thesis using minified_in_place [of "json_text True 0 n" "[]"] json_text_no_NUL(1) [of True 0 n] by (auto simp del: json_text.simps)
qed

theorem minify_undoes_format_witness:
  "\<exists>mem. cJSON_Minify (json_text True 0 demo_tree @ [NUL]) = done_with mem \<and> c_str mem = json_text False 0 demo_tree"
  by (rule minify_undoes_format) (simp add: demo_tree_def ends_well_def c_str_def)

text \<open>
  A string that ends in a backslash is not seen to end: its closing quote is taken for an escaped
  one, and what is a string and what is not is the wrong way round behind it.
\<close>

theorem minify_changes_strings:
  "cJSON_Minify (''['' @ [CHR 0x22, CHR 0x5C, CHR 0x5C, CHR 0x22] @ '', '' @ [CHR 0x22] @ '' '' @ [CHR 0x22] @ '']'' @ [NUL]) =
     done_with (''['' @ [CHR 0x22, CHR 0x5C, CHR 0x5C, CHR 0x22] @ '', '' @ [CHR 0x22, CHR 0x22] @ '']'' @ [NUL, NUL])"
  by code_simp
end
