(* ===== verification/Cjson_List.thy ===== *)
theory Cjson_List
  imports Cjson
begin

text \<open>
  The editing of trees in \<^verbatim>\<open>file_compare/common/cJSON.cc\<close>, on the heap: nodes and texts have addresses,
  the children of a node are linked by pointers (the first child's \<^verbatim>\<open>prev\<close> is the last child), and nodes
  and texts are allocated and freed. A read of a node or text that is not there (never allocated, or
  freed) and a read through a null pointer are \<open>InvalidRead\<close>, a write to one \<open>InvalidWrite\<close>; so is a
  second free. Whether an allocation succeeds is part of the heap. \<open>children\<close> is the list a node's
  pointers stand for.
\<close>

section \<open>The heap\<close>

type_synonym addr = nat

text \<open>The flags of the type are members of their own.\<close>

record cell =
  k_next :: "addr option"
  k_prev :: "addr option"
  k_child :: "addr option"
  k_type :: cj_type
  k_reference :: bool
  k_const :: bool
  k_valuestring :: "addr option"
  k_valueint :: int
  k_valuedouble :: c_double
  k_string :: "addr option"

record heap =
  h_nodes :: "addr \<Rightarrow> cell option"
  h_texts :: "addr \<Rightarrow> string option"
  h_top :: addr
  h_avail :: "addr \<Rightarrow> bool"

type_synonym 'a on_heap = "heap \<Rightarrow> ('a \<times> heap) run"

definition give :: "'a \<Rightarrow> 'a on_heap" where
  "give x h = done_with (x, h)"

definition h_then :: "'a on_heap \<Rightarrow> ('a \<Rightarrow> 'b on_heap) \<Rightarrow> 'b on_heap" where
  "h_then m k h = run_then (m h) (\<lambda>(x, h). k x h)"

definition fault :: "cpp_error \<Rightarrow> 'a on_heap" where
  "fault e h = Some (Inl e)"

text \<open>Reading and writing the node a pointer points to.\<close>

definition node_of :: "addr option \<Rightarrow> cell on_heap" where
  "node_of a h = (case Option.bind a (h_nodes h) of None \<Rightarrow> fault InvalidRead h | Some c \<Rightarrow> give c h)"

definition change :: "addr option \<Rightarrow> (cell \<Rightarrow> cell) \<Rightarrow> unit on_heap" where
  "change a f h =
     (case a of
        None \<Rightarrow> fault InvalidWrite h
      | Some x \<Rightarrow>
          (case h_nodes h x of
             None \<Rightarrow> fault InvalidWrite h
           | Some c \<Rightarrow> give () (h\<lparr>h_nodes := (h_nodes h)(x \<mapsto> f c)\<rparr>)))"

definition text_of :: "addr option \<Rightarrow> string on_heap" where
  "text_of a h = (case Option.bind a (h_texts h) of None \<Rightarrow> fault InvalidRead h | Some s \<Rightarrow> give (c_str s) h)"

text \<open>Allocation gives a fresh address or a null pointer.\<close>

definition zero_cell :: cell where
  "zero_cell = \<lparr>k_next = None, k_prev = None, k_child = None, k_type = cJSON_Invalid, k_reference = False, k_const = False,
     k_valuestring = None, k_valueint = 0, k_valuedouble = Finite 0, k_string = None\<rparr>"

definition new_item :: "addr option on_heap" where
  "new_item h =
     (if h_avail h (h_top h) then give (Some (h_top h)) (h\<lparr>h_nodes := (h_nodes h)(h_top h \<mapsto> zero_cell), h_top := h_top h + 1\<rparr>)
      else give None (h\<lparr>h_top := h_top h + 1\<rparr>))"

definition cJSON_strdup :: "addr option \<Rightarrow> addr option on_heap" where
  "cJSON_strdup s =
     (if s = None then give None
      else h_then (text_of s) (\<lambda>t h.
        if h_avail h (h_top h) then give (Some (h_top h)) (h\<lparr>h_texts := (h_texts h)(h_top h \<mapsto> t), h_top := h_top h + 1\<rparr>)
        else give None (h\<lparr>h_top := h_top h + 1\<rparr>)))"

definition free_text :: "addr option \<Rightarrow> unit on_heap" where
  "free_text a h =
     (case a of
        None \<Rightarrow> give () h
      | Some x \<Rightarrow> if h_texts h x = None then fault InvalidWrite h else give () (h\<lparr>h_texts := (h_texts h)(x := None)\<rparr>))"

definition free_node :: "addr \<Rightarrow> unit on_heap" where
  "free_node x h = (if h_nodes h x = None then fault InvalidWrite h else give () (h\<lparr>h_nodes := (h_nodes h)(x := None)\<rparr>))"

section \<open>Deleting\<close>

definition free_member :: "bool \<Rightarrow> addr option \<Rightarrow> unit on_heap" where
  "free_member owned a = (if owned \<and> a \<noteq> None then free_text a else give ())"

text \<open>The loop over the siblings with the recursion into the children; a chain that is a circle has no end.\<close>

partial_function (option) cJSON_Delete :: "addr option \<Rightarrow> unit on_heap" where
  "cJSON_Delete item h =
     (case item of
        None \<Rightarrow> give () h
      | Some x \<Rightarrow>
          run_then (node_of item h) (\<lambda>(c, h).
          run_then (if \<not> k_reference c \<and> k_child c \<noteq> None then cJSON_Delete (k_child c) h else give () h) (\<lambda>(_, h).
          run_then (free_member (\<not> k_reference c) (k_valuestring c) h) (\<lambda>(_, h).
          run_then (free_member (\<not> k_const c) (k_string c) h) (\<lambda>(_, h).
          run_then (free_node x h) (\<lambda>(_, h). cJSON_Delete (k_next c) h))))))"

section \<open>Adding\<close>

definition suffix_object :: "addr option \<Rightarrow> addr option \<Rightarrow> unit on_heap" where
  "suffix_object prev item =
     h_then (change prev (\<lambda>c. c\<lparr>k_next := item\<rparr>)) (\<lambda>_. change item (\<lambda>c. c\<lparr>k_prev := prev\<rparr>))"

definition create_reference :: "addr option \<Rightarrow> addr option on_heap" where
  "create_reference item =
     (if item = None then give None
      else h_then new_item (\<lambda>r.
        if r = None then give None
        else h_then (node_of item) (\<lambda>c.
          h_then (change r (\<lambda>_. c\<lparr>k_string := None, k_reference := True, k_next := None, k_prev := None\<rparr>)) (\<lambda>_. give r))))"

definition add_item_to_array :: "addr option \<Rightarrow> addr option \<Rightarrow> bool on_heap" where
  "add_item_to_array array item =
     (if item = None \<or> array = None \<or> array = item then give False
      else h_then (node_of array) (\<lambda>a.
        if k_child a = None then
          h_then (change array (\<lambda>c. c\<lparr>k_child := item\<rparr>)) (\<lambda>_.
          h_then (change item (\<lambda>c. c\<lparr>k_prev := item, k_next := None\<rparr>)) (\<lambda>_. give True))
        else
          h_then (node_of (k_child a)) (\<lambda>child.
          if k_prev child \<noteq> None then
            h_then (suffix_object (k_prev child) item) (\<lambda>_.
            h_then (node_of array) (\<lambda>a.
            h_then (change (k_child a) (\<lambda>c. c\<lparr>k_prev := item\<rparr>)) (\<lambda>_. give True)))
          else give True)))"

definition cJSON_AddItemToArray :: "addr option \<Rightarrow> addr option \<Rightarrow> bool on_heap" where
  "cJSON_AddItemToArray array item = add_item_to_array array item"

definition add_item_to_object :: "addr option \<Rightarrow> addr option \<Rightarrow> addr option \<Rightarrow> bool \<Rightarrow> bool on_heap" where
  "add_item_to_object obj str item constant_key =
     (if obj = None \<or> str = None \<or> item = None \<or> obj = item then give False
      else
        h_then (if constant_key then give str else cJSON_strdup str) (\<lambda>new_key.
        if new_key = None then give False
        else
          h_then (node_of item) (\<lambda>c.
          h_then (free_member (\<not> k_const c) (k_string c)) (\<lambda>_.
          h_then (change item (\<lambda>c. c\<lparr>k_string := new_key, k_const := constant_key\<rparr>)) (\<lambda>_.
          add_item_to_array obj item)))))"

definition cJSON_AddItemToObject :: "addr option \<Rightarrow> addr option \<Rightarrow> addr option \<Rightarrow> bool on_heap" where
  "cJSON_AddItemToObject obj str item = add_item_to_object obj str item False"

definition cJSON_AddItemToObjectCS :: "addr option \<Rightarrow> addr option \<Rightarrow> addr option \<Rightarrow> bool on_heap" where
  "cJSON_AddItemToObjectCS obj str item = add_item_to_object obj str item True"

definition cJSON_AddItemReferenceToArray :: "addr option \<Rightarrow> addr option \<Rightarrow> bool on_heap" where
  "cJSON_AddItemReferenceToArray array item =
     (if array = None then give False else h_then (create_reference item) (add_item_to_array array))"

definition cJSON_AddItemReferenceToObject :: "addr option \<Rightarrow> addr option \<Rightarrow> addr option \<Rightarrow> bool on_heap" where
  "cJSON_AddItemReferenceToObject obj str item =
     (if obj = None \<or> str = None then give False
      else h_then (create_reference item) (\<lambda>r. add_item_to_object obj str r False))"

text \<open>New nodes: a value of a type, and one with a copy of a text.\<close>

definition create_item :: "(cell \<Rightarrow> cell) \<Rightarrow> addr option on_heap" where
  "create_item f =
     h_then new_item (\<lambda>a. if a = None then give None else h_then (change a f) (\<lambda>_. give a))"

definition create_text :: "cj_type \<Rightarrow> addr option \<Rightarrow> addr option on_heap" where
  "create_text ty str =
     h_then (create_item (\<lambda>c. c\<lparr>k_type := ty\<rparr>)) (\<lambda>a.
       if a = None then give None
       else h_then (cJSON_strdup str) (\<lambda>t.
         if t = None then h_then (cJSON_Delete a) (\<lambda>_. give None)
         else h_then (change a (\<lambda>c. c\<lparr>k_valuestring := t\<rparr>)) (\<lambda>_. give a)))"

definition create_number :: "c_double \<Rightarrow> addr option on_heap" where
  "create_number num =
     (case saturated num of
        None \<Rightarrow> fault InvalidArgument
      | Some i \<Rightarrow> create_item (\<lambda>c. c\<lparr>k_type := cJSON_Number, k_valuedouble := num, k_valueint := i\<rparr>))"

text \<open>What all the functions that add a new item to an object do: a node that cannot be added is deleted.\<close>

definition add_or_delete :: "addr option \<Rightarrow> addr option \<Rightarrow> addr option on_heap \<Rightarrow> addr option on_heap" where
  "add_or_delete obj name create =
     h_then create (\<lambda>item.
     h_then (add_item_to_object obj name item False) (\<lambda>ok.
       if ok then give item else h_then (cJSON_Delete item) (\<lambda>_. give None)))"

definition cJSON_AddNullToObject :: "addr option \<Rightarrow> addr option \<Rightarrow> addr option on_heap" where
  "cJSON_AddNullToObject obj name = add_or_delete obj name (create_item (\<lambda>c. c\<lparr>k_type := cJSON_NULL\<rparr>))"

definition cJSON_AddTrueToObject :: "addr option \<Rightarrow> addr option \<Rightarrow> addr option on_heap" where
  "cJSON_AddTrueToObject obj name = add_or_delete obj name (create_item (\<lambda>c. c\<lparr>k_type := cJSON_True\<rparr>))"

definition cJSON_AddFalseToObject :: "addr option \<Rightarrow> addr option \<Rightarrow> addr option on_heap" where
  "cJSON_AddFalseToObject obj name = add_or_delete obj name (create_item (\<lambda>c. c\<lparr>k_type := cJSON_False\<rparr>))"

definition cJSON_AddBoolToObject :: "addr option \<Rightarrow> addr option \<Rightarrow> bool \<Rightarrow> addr option on_heap" where
  "cJSON_AddBoolToObject obj name b =
     add_or_delete obj name (create_item (\<lambda>c. c\<lparr>k_type := (if b then cJSON_True else cJSON_False)\<rparr>))"

definition cJSON_AddNumberToObject :: "addr option \<Rightarrow> addr option \<Rightarrow> c_double \<Rightarrow> addr option on_heap" where
  "cJSON_AddNumberToObject obj name number = add_or_delete obj name (create_number number)"

definition cJSON_AddStringToObject :: "addr option \<Rightarrow> addr option \<Rightarrow> addr option \<Rightarrow> addr option on_heap" where
  "cJSON_AddStringToObject obj name str = add_or_delete obj name (create_text cJSON_String str)"

definition cJSON_AddRawToObject :: "addr option \<Rightarrow> addr option \<Rightarrow> addr option \<Rightarrow> addr option on_heap" where
  "cJSON_AddRawToObject obj name raw = add_or_delete obj name (create_text cJSON_Raw raw)"

definition cJSON_AddObjectToObject :: "addr option \<Rightarrow> addr option \<Rightarrow> addr option on_heap" where
  "cJSON_AddObjectToObject obj name = add_or_delete obj name (create_item (\<lambda>c. c\<lparr>k_type := cJSON_Object\<rparr>))"

definition cJSON_AddArrayToObject :: "addr option \<Rightarrow> addr option \<Rightarrow> addr option on_heap" where
  "cJSON_AddArrayToObject obj name = add_or_delete obj name (create_item (\<lambda>c. c\<lparr>k_type := cJSON_Array\<rparr>))"

section \<open>Finding\<close>

text \<open>The walk along the siblings, for \<open>i\<close> of them at most.\<close>

fun walk_items :: "addr option \<Rightarrow> nat \<Rightarrow> addr option on_heap" where
  "walk_items item 0 = give item"
| "walk_items item (Suc i) =
     (if item = None then give None else h_then (node_of item) (\<lambda>c. walk_items (k_next c) i))"

definition item_at :: "addr option \<Rightarrow> nat \<Rightarrow> addr option on_heap" where
  "item_at array i = (if array = None then give None else h_then (node_of array) (\<lambda>a. walk_items (k_child a) i))"

partial_function (option) walk_names :: "string \<Rightarrow> bool \<Rightarrow> addr option \<Rightarrow> addr option on_heap" where
  "walk_names name case_sensitive item h =
     (case item of
        None \<Rightarrow> give None h
      | Some x \<Rightarrow>
          run_then (node_of item h) (\<lambda>(c, h).
            if k_string c = None then (if case_sensitive then give None h else walk_names name case_sensitive (k_next c) h)
            else
              run_then (text_of (k_string c) h) (\<lambda>(t, h).
                if (if case_sensitive then t = name else strcasecmp_eq name t) then give item h
                else walk_names name case_sensitive (k_next c) h)))"

definition item_named :: "addr option \<Rightarrow> addr option \<Rightarrow> bool \<Rightarrow> addr option on_heap" where
  "item_named obj name case_sensitive =
     (if obj = None \<or> name = None then give None
      else h_then (node_of obj) (\<lambda>o'. h_then (text_of name) (\<lambda>n. walk_names n case_sensitive (k_child o'))))"

section \<open>Detaching\<close>

definition cJSON_DetachItemViaPointer :: "addr option \<Rightarrow> addr option \<Rightarrow> addr option on_heap" where
  "cJSON_DetachItemViaPointer parent item =
     (if parent = None \<or> item = None then give None
      else
        h_then (node_of parent) (\<lambda>p.
        h_then (node_of item) (\<lambda>i.
        h_then (if item \<noteq> k_child p then change (k_prev i) (\<lambda>c. c\<lparr>k_next := k_next i\<rparr>) else give ()) (\<lambda>_.
        h_then (node_of item) (\<lambda>i.
        h_then (if k_next i \<noteq> None then change (k_next i) (\<lambda>c. c\<lparr>k_prev := k_prev i\<rparr>) else give ()) (\<lambda>_.
        h_then (node_of parent) (\<lambda>p.
        h_then (node_of item) (\<lambda>i.
        h_then
          (if item = k_child p then change parent (\<lambda>c. c\<lparr>k_child := k_next i\<rparr>)
           else if k_next i = None then change (k_child p) (\<lambda>c. c\<lparr>k_prev := k_prev i\<rparr>)
           else give ()) (\<lambda>_.
        h_then (change item (\<lambda>c. c\<lparr>k_prev := None, k_next := None\<rparr>)) (\<lambda>_. give item))))))))))"

definition cJSON_DetachItemFromArray :: "addr option \<Rightarrow> int \<Rightarrow> addr option on_heap" where
  "cJSON_DetachItemFromArray array which =
     (if which < 0 then give None else h_then (item_at array (nat which)) (cJSON_DetachItemViaPointer array))"

definition cJSON_DeleteItemFromArray :: "addr option \<Rightarrow> int \<Rightarrow> unit on_heap" where
  "cJSON_DeleteItemFromArray array which = h_then (cJSON_DetachItemFromArray array which) cJSON_Delete"

definition cJSON_DetachItemFromObject :: "addr option \<Rightarrow> addr option \<Rightarrow> addr option on_heap" where
  "cJSON_DetachItemFromObject obj str = h_then (item_named obj str False) (cJSON_DetachItemViaPointer obj)"

definition cJSON_DetachItemFromObjectCaseSensitive :: "addr option \<Rightarrow> addr option \<Rightarrow> addr option on_heap" where
  "cJSON_DetachItemFromObjectCaseSensitive obj str = h_then (item_named obj str True) (cJSON_DetachItemViaPointer obj)"

definition cJSON_DeleteItemFromObject :: "addr option \<Rightarrow> addr option \<Rightarrow> unit on_heap" where
  "cJSON_DeleteItemFromObject obj str = h_then (cJSON_DetachItemFromObject obj str) cJSON_Delete"

definition cJSON_DeleteItemFromObjectCaseSensitive :: "addr option \<Rightarrow> addr option \<Rightarrow> unit on_heap" where
  "cJSON_DeleteItemFromObjectCaseSensitive obj str = h_then (cJSON_DetachItemFromObjectCaseSensitive obj str) cJSON_Delete"

section \<open>Inserting and replacing\<close>

definition cJSON_InsertItemInArray :: "addr option \<Rightarrow> int \<Rightarrow> addr option \<Rightarrow> bool on_heap" where
  "cJSON_InsertItemInArray array which newitem =
     (if which < 0 then give False
      else
        h_then (item_at array (nat which)) (\<lambda>after.
        if after = None then add_item_to_array array newitem
        else
          h_then (change newitem (\<lambda>c. c\<lparr>k_next := after\<rparr>)) (\<lambda>_.
          h_then (node_of after) (\<lambda>a.
          h_then (change newitem (\<lambda>c. c\<lparr>k_prev := k_prev a\<rparr>)) (\<lambda>_.
          h_then (change after (\<lambda>c. c\<lparr>k_prev := newitem\<rparr>)) (\<lambda>_.
          h_then (node_of array) (\<lambda>p.
          h_then
            (if after = k_child p then change array (\<lambda>c. c\<lparr>k_child := newitem\<rparr>)
             else h_then (node_of newitem) (\<lambda>n. change (k_prev n) (\<lambda>c. c\<lparr>k_next := newitem\<rparr>)))
            (\<lambda>_. give True))))))))"

definition cJSON_ReplaceItemViaPointer :: "addr option \<Rightarrow> addr option \<Rightarrow> addr option \<Rightarrow> bool on_heap" where
  "cJSON_ReplaceItemViaPointer parent item replacement =
     (if parent = None \<or> replacement = None \<or> item = None then give False
      else if replacement = item then give True
      else
        h_then (node_of item) (\<lambda>i.
        h_then (change replacement (\<lambda>c. c\<lparr>k_next := k_next i, k_prev := k_prev i\<rparr>)) (\<lambda>_.
        h_then (node_of replacement) (\<lambda>r.
        h_then (if k_next r \<noteq> None then change (k_next r) (\<lambda>c. c\<lparr>k_prev := replacement\<rparr>) else give ()) (\<lambda>_.
        h_then (node_of parent) (\<lambda>p.
        h_then
          (if k_child p = item then
             h_then (node_of (k_child p)) (\<lambda>first.
             h_then (if k_prev first = k_child p then change replacement (\<lambda>c. c\<lparr>k_prev := replacement\<rparr>) else give ()) (\<lambda>_.
             change parent (\<lambda>c. c\<lparr>k_child := replacement\<rparr>)))
           else
             h_then (node_of replacement) (\<lambda>r.
             h_then (if k_prev r \<noteq> None then change (k_prev r) (\<lambda>c. c\<lparr>k_next := replacement\<rparr>) else give ()) (\<lambda>_.
             h_then (node_of replacement) (\<lambda>r.
             if k_next r = None then
               h_then (node_of parent) (\<lambda>p. change (k_child p) (\<lambda>c. c\<lparr>k_prev := replacement\<rparr>))
             else give ())))) (\<lambda>_.
        h_then (change item (\<lambda>c. c\<lparr>k_next := None, k_prev := None\<rparr>)) (\<lambda>_.
        h_then (cJSON_Delete item) (\<lambda>_. give True)))))))))"

definition cJSON_ReplaceItemInArray :: "addr option \<Rightarrow> int \<Rightarrow> addr option \<Rightarrow> bool on_heap" where
  "cJSON_ReplaceItemInArray array which newitem =
     (if which < 0 then give False
      else h_then (item_at array (nat which)) (\<lambda>item. cJSON_ReplaceItemViaPointer array item newitem))"

definition replace_item_in_object :: "addr option \<Rightarrow> addr option \<Rightarrow> addr option \<Rightarrow> bool \<Rightarrow> bool on_heap" where
  "replace_item_in_object obj str replacement case_sensitive =
     (if replacement = None \<or> str = None then give False
      else
        h_then (node_of replacement) (\<lambda>r.
        h_then (free_member (\<not> k_const r) (k_string r)) (\<lambda>_.
        h_then (cJSON_strdup str) (\<lambda>t.
        h_then (change replacement (\<lambda>c. c\<lparr>k_string := t\<rparr>)) (\<lambda>_.
        if t = None then give False
        else
          h_then (change replacement (\<lambda>c. c\<lparr>k_const := False\<rparr>)) (\<lambda>_.
          h_then (item_named obj str case_sensitive) (\<lambda>item. cJSON_ReplaceItemViaPointer obj item replacement)))))))"

definition cJSON_ReplaceItemInObject :: "addr option \<Rightarrow> addr option \<Rightarrow> addr option \<Rightarrow> bool on_heap" where
  "cJSON_ReplaceItemInObject obj str newitem = replace_item_in_object obj str newitem False"

definition cJSON_ReplaceItemInObjectCaseSensitive :: "addr option \<Rightarrow> addr option \<Rightarrow> addr option \<Rightarrow> bool on_heap" where
  "cJSON_ReplaceItemInObjectCaseSensitive obj str newitem = replace_item_in_object obj str newitem True"

section \<open>Arrays of a C array, and setters\<close>

text \<open>The loop over the new items \<open>mks\<close>; \<open>p\<close> is the last one that was linked.\<close>

fun fill_array :: "addr option on_heap list \<Rightarrow> addr option \<Rightarrow> bool \<Rightarrow> addr option \<Rightarrow> addr option on_heap" where
  "fill_array [] a first p =
     h_then (node_of a) (\<lambda>c. h_then (if k_child c \<noteq> None then change (k_child c) (\<lambda>c. c\<lparr>k_prev := p\<rparr>) else give ()) (\<lambda>_. give a))"
| "fill_array (mk # mks) a first p =
     h_then mk (\<lambda>n.
       if n = None then h_then (cJSON_Delete a) (\<lambda>_. give None)
       else h_then (if first then change a (\<lambda>c. c\<lparr>k_child := n\<rparr>) else suffix_object p n) (\<lambda>_. fill_array mks a False n))"

definition create_filled :: "addr option on_heap list \<Rightarrow> addr option on_heap" where
  "create_filled mks =
     h_then (create_item (\<lambda>c. c\<lparr>k_type := cJSON_Array\<rparr>)) (\<lambda>a. if a = None then give None else fill_array mks a True None)"

text \<open>The elements the caller's array has to have; one that it has not is read outside of it.\<close>

definition elements :: "'a list \<Rightarrow> int \<Rightarrow> ('a \<Rightarrow> addr option on_heap) \<Rightarrow> addr option on_heap list" where
  "elements xs count mk = map (\<lambda>i. if i < length xs then mk (xs ! i) else fault InvalidRead) [0..<nat count]"

definition cJSON_CreateIntArray :: "int list option \<Rightarrow> int \<Rightarrow> addr option on_heap" where
  "cJSON_CreateIntArray numbers count =
     (case numbers of
        None \<Rightarrow> give None
      | Some xs \<Rightarrow> if count < 0 then give None else create_filled (elements xs count (\<lambda>n. create_number (Finite (of_int n)))))"

definition cJSON_CreateFloatArray :: "c_double list option \<Rightarrow> int \<Rightarrow> addr option on_heap" where
  "cJSON_CreateFloatArray numbers count =
     (case numbers of None \<Rightarrow> give None | Some xs \<Rightarrow> if count < 0 then give None else create_filled (elements xs count create_number))"

definition cJSON_CreateDoubleArray :: "c_double list option \<Rightarrow> int \<Rightarrow> addr option on_heap" where
  "cJSON_CreateDoubleArray numbers count =
     (case numbers of None \<Rightarrow> give None | Some xs \<Rightarrow> if count < 0 then give None else create_filled (elements xs count create_number))"

definition cJSON_CreateStringArray :: "addr option list option \<Rightarrow> int \<Rightarrow> addr option on_heap" where
  "cJSON_CreateStringArray strings count =
     (case strings of
        None \<Rightarrow> give None
      | Some xs \<Rightarrow> if count < 0 then give None else create_filled (elements xs count (create_text cJSON_String)))"

text \<open>References to a text and to children that belong to someone else.\<close>

definition cJSON_CreateStringReference :: "addr option \<Rightarrow> addr option on_heap" where
  "cJSON_CreateStringReference str = create_item (\<lambda>c. c\<lparr>k_type := cJSON_String, k_reference := True, k_valuestring := str\<rparr>)"

definition cJSON_CreateObjectReference :: "addr option \<Rightarrow> addr option on_heap" where
  "cJSON_CreateObjectReference child = create_item (\<lambda>c. c\<lparr>k_type := cJSON_Object, k_reference := True, k_child := child\<rparr>)"

definition cJSON_CreateArrayReference :: "addr option \<Rightarrow> addr option on_heap" where
  "cJSON_CreateArrayReference child = create_item (\<lambda>c. c\<lparr>k_type := cJSON_Array, k_reference := True, k_child := child\<rparr>)"

definition cJSON_SetNumberHelper :: "addr option \<Rightarrow> c_double \<Rightarrow> c_double on_heap" where
  "cJSON_SetNumberHelper obj number =
     (case saturated number of
        None \<Rightarrow> fault InvalidArgument
      | Some i \<Rightarrow>
          h_then (change obj (\<lambda>c. c\<lparr>k_valueint := i\<rparr>)) (\<lambda>_.
          h_then (change obj (\<lambda>c. c\<lparr>k_valuedouble := number\<rparr>)) (\<lambda>_. give number)))"

text \<open>A text that is not longer than the old one is copied over it.\<close>

definition cJSON_SetValuestring :: "addr option \<Rightarrow> addr option \<Rightarrow> addr option on_heap" where
  "cJSON_SetValuestring obj valuestring =
     h_then (node_of obj) (\<lambda>c.
       if k_type c \<noteq> cJSON_String \<or> k_reference c then give None
       else
         h_then (text_of valuestring) (\<lambda>new.
         h_then (text_of (k_valuestring c)) (\<lambda>old.
           if length new \<le> length old then
             (\<lambda>h. give (k_valuestring c) (h\<lparr>h_texts := (h_texts h)(the (k_valuestring c) \<mapsto> new)\<rparr>))
           else
             h_then (cJSON_strdup valuestring) (\<lambda>copy.
               if copy = None then give None
               else
                 h_then (free_member True (k_valuestring c)) (\<lambda>_.
                 h_then (change obj (\<lambda>c. c\<lparr>k_valuestring := copy\<rparr>)) (\<lambda>_. give copy))))))"

section \<open>The list of children\<close>

text \<open>
  \<open>chain h q xs nx\<close>: the nodes of \<open>xs\<close> are linked in this order, the first one's \<^verbatim>\<open>prev\<close> is \<open>q\<close>, the last
  one's \<^verbatim>\<open>next\<close> is \<open>nx\<close>.
\<close>

definition first_of :: "addr list \<Rightarrow> addr option \<Rightarrow> addr option" where
  "first_of xs nx = (case xs of [] \<Rightarrow> nx | x # _ \<Rightarrow> Some x)"

lemma first_of_simps [simp]: "first_of [] nx = nx" "first_of (x # xs) nx = Some x"
  by (simp_all add: first_of_def)

lemma first_of_append: "first_of (xs @ ys) nx = first_of xs (first_of ys nx)"
  by (cases xs) simp_all

fun chain :: "heap \<Rightarrow> addr \<Rightarrow> addr list \<Rightarrow> addr option \<Rightarrow> bool" where
  "chain h q [] nx = True"
| "chain h q (x # xs) nx =
     ((\<exists>c. h_nodes h x = Some c \<and> k_prev c = Some q \<and> k_next c = first_of xs nx) \<and> chain h x xs nx)"

definition children :: "heap \<Rightarrow> addr \<Rightarrow> addr list \<Rightarrow> bool" where
  "children h p xs \<longleftrightarrow>
     distinct (p # xs) \<and> (\<exists>c. h_nodes h p = Some c \<and> k_child c = first_of xs None) \<and> (xs \<noteq> [] \<longrightarrow> chain h (last xs) xs None)"

lemma chain_append: "chain h q (xs @ ys) nx \<longleftrightarrow> chain h q xs (first_of ys nx) \<and> chain h (last (q # xs)) ys nx"
  by (induction xs arbitrary: q) (simp_all add: first_of_append)

definition upd :: "addr \<Rightarrow> (cell \<Rightarrow> cell) \<Rightarrow> heap \<Rightarrow> heap" where
  "upd x f h = h\<lparr>h_nodes := (h_nodes h)(x \<mapsto> f (the (h_nodes h x)))\<rparr>"

definition here :: "heap \<Rightarrow> addr \<Rightarrow> bool" where
  "here h x \<longleftrightarrow> h_nodes h x \<noteq> None"

definition cell_at :: "heap \<Rightarrow> addr \<Rightarrow> cell" where
  "cell_at h x = the (h_nodes h x)"

lemma change_here [simp]: "here h x \<Longrightarrow> change (Some x) f h = done_with ((), upd x f h)"
  by (auto simp: here_def change_def upd_def give_def)

lemma node_here [simp]: "here h x \<Longrightarrow> node_of (Some x) h = done_with (cell_at h x, h)"
  by (auto simp: here_def node_of_def cell_at_def give_def)

lemma heap_simps [simp]:
  "h_then m k h = run_then (m h) (\<lambda>(x, h). k x h)" "give x h = done_with (x, h)" "fault e h = Some (Inl e)"
  by (simp_all add: h_then_def give_def fault_def)

lemma upd_here [simp]: "here (upd x f h) y \<longleftrightarrow> here h y \<or> y = x"
  by (auto simp: here_def upd_def)

lemma upd_cell: "cell_at (upd x f h) y = (if y = x then f (cell_at h x) else cell_at h y)"
  by (simp add: cell_at_def upd_def)

lemma chain_cells:
  "chain h q (x # xs) nx \<longleftrightarrow> here h x \<and> k_prev (cell_at h x) = Some q \<and> k_next (cell_at h x) = first_of xs nx \<and> chain h x xs nx"
  by (auto simp: here_def cell_at_def)

lemma chain_here: "chain h q xs nx \<Longrightarrow> x \<in> set xs \<Longrightarrow> here h x"
  by (induction xs arbitrary: q) (auto simp: here_def)

lemma children_cells:
  "children h p xs \<longleftrightarrow> distinct (p # xs) \<and> here h p \<and> k_child (cell_at h p) = first_of xs None \<and> (xs \<noteq> [] \<longrightarrow> chain h (last xs) xs None)"
  by (auto simp: children_def here_def cell_at_def)

declare chain.simps(2) [simp del]

lemma chain_frame: "x \<notin> set xs \<Longrightarrow> chain (upd x f h) q xs nx \<longleftrightarrow> chain h q xs nx"
  by (induction xs arbitrary: q) (auto simp: chain_cells upd_cell)

lemma chain_last:
  assumes "chain h q (xs @ [x]) nx" "distinct (xs @ [x])"
  shows "chain (upd x (\<lambda>c. c\<lparr>k_next := nx'\<rparr>) h) q (xs @ [x]) nx'"
  using assms by (simp add: chain_append chain_frame) (simp add: chain_cells upd_cell)

lemma chain_head:
  assumes "chain h q (x # xs) nx" "x \<notin> set xs"
  shows "chain (upd x (\<lambda>c. c\<lparr>k_prev := Some q'\<rparr>) h) q' (x # xs) nx"
  using assms by (simp add: chain_cells upd_cell chain_frame)

lemma chain_first: "xs \<noteq> [] \<Longrightarrow> chain h q xs nx \<Longrightarrow> here h (hd xs) \<and> k_prev (cell_at h (hd xs)) = Some q"
  by (cases xs) (simp_all add: chain_cells)

text \<open>What stays as it is: the nodes that are not among those of \<open>A\<close>, and the texts.\<close>

definition same_but :: "addr set \<Rightarrow> heap \<Rightarrow> heap \<Rightarrow> bool" where
  "same_but A h h' \<longleftrightarrow> (\<forall>x. x \<notin> A \<longrightarrow> h_nodes h' x = h_nodes h x) \<and> h_texts h' = h_texts h \<and> h_top h' = h_top h \<and> h_avail h' = h_avail h"

lemma same_but_refl [simp]: "same_but A h h"
  by (simp add: same_but_def)

lemma same_but_upd [simp]: "x \<in> A \<Longrightarrow> same_but A h (upd x f g) \<longleftrightarrow> same_but A h g"
  by (auto simp: same_but_def upd_def)

lemma add_appends:
  assumes "children h p xs" "here h n" "n \<notin> set (p # xs)" "k_next (cell_at h n) = None"
  shows "\<exists>h'. add_item_to_array (Some p) (Some n) h = done_with (True, h') \<and> children h' p (xs @ [n]) \<and> same_but (set (p # n # xs)) h h'"
proof (cases "xs = []")
  case True
  then show ?thesis
    using assms by (auto simp: add_item_to_array_def children_cells upd_cell chain_cells)
next
  case False
  then obtain ys y where xs: "xs = ys @ [y]" by (cases xs rule: rev_cases) auto
  obtain x zs where hd: "xs = x # zs" using False by (cases xs) auto
  have in_xs: "x \<in> set xs" "y \<in> set xs" by (simp add: hd, simp add: xs)
  have ly: "last xs = y" using xs by simp
  have fx: "first_of xs None = Some x" using hd by simp
  have c: "chain h y xs None" "here h p" "k_child (cell_at h p) = Some x" "distinct xs" "p \<notin> set xs"
    using assms(1) False by (auto simp: children_cells ly fx)
  have hx: "here h x" "here h y" using chain_here [OF c(1)] in_xs by blast+
  have px: "k_prev (cell_at h x) = Some y" using c(1) unfolding hd by (simp add: chain_cells)
  let ?h1 = "upd y (\<lambda>c. c\<lparr>k_next := Some n\<rparr>) h"
  let ?h2 = "upd n (\<lambda>c. c\<lparr>k_prev := Some y\<rparr>) ?h1"
  let ?h3 = "upd x (\<lambda>c. c\<lparr>k_prev := Some n\<rparr>) ?h2"
  have 1: "chain ?h1 y xs (Some n)" using chain_last [of h y ys y None "Some n"] c(1,4) xs by simp
  have 2: "chain ?h2 y xs (Some n)" using 1 assms(3) by (simp add: chain_frame)
  have 3: "chain ?h3 n xs (Some n)" using chain_head [of ?h2 y x zs "Some n" n] 2 c(4) unfolding hd by simp
  have n: "chain ?h3 y [n] None" using assms in_xs by (auto simp: chain_cells upd_cell)
  have "chain ?h3 n (xs @ [n]) None" unfolding chain_append using 3 n xs by simp
  then have "children ?h3 p (xs @ [n])"
    using c assms(3) in_xs hd by (auto simp: children_cells upd_cell)
  moreover have "add_item_to_array (Some p) (Some n) h = done_with (True, ?h3)"
    using c hx px assms(2,3) in_xs by (auto simp: add_item_to_array_def suffix_object_def upd_cell)
  ultimately show ?thesis using in_xs by auto
qed

lemma chain_middle:
  "chain h q (as @ i # bs) None \<longleftrightarrow>
     chain h q as (Some i) \<and> here h i \<and> k_prev (cell_at h i) = Some (last (q # as)) \<and> k_next (cell_at h i) = first_of bs None \<and>
     chain h i bs None"
  by (simp add: chain_append chain_cells)

lemma last_middle: "last (as @ i # bs) = last (i # bs)"
  by simp

lemma detach_removes:
  assumes "children h p (as @ i # bs)"
  shows "\<exists>h'. cJSON_DetachItemViaPointer (Some p) (Some i) h = done_with (Some i, h') \<and> children h' p (as @ bs) \<and>
     k_next (cell_at h' i) = None \<and> k_prev (cell_at h' i) = None \<and> here h' i \<and> same_but (set (p # as @ i # bs)) h h'"
proof -
  let ?L = "last (i # bs)"
  have d: "distinct (as @ i # bs)" "p \<notin> set (as @ i # bs)" "here h p" "k_child (cell_at h p) = first_of (as @ i # bs) None"
    and ch: "chain h ?L (as @ i # bs) None"
    using assms by (auto simp: children_cells last_middle split: if_splits)
  note m = ch [unfolded chain_middle]
  show ?thesis
  proof (cases "as = []")
    case True
    show ?thesis
    proof (cases bs)
      case Nil
      then show ?thesis using True d m
        by (auto simp: cJSON_DetachItemViaPointer_def children_cells upd_cell)
    next
      case (Cons b bs')
      have b: "here h b" using m Cons by (simp add: chain_cells)
      let ?h1 = "upd b (\<lambda>c. c\<lparr>k_prev := Some ?L\<rparr>) h"
      let ?h2 = "upd p (\<lambda>c. c\<lparr>k_child := Some b\<rparr>) ?h1"
      let ?h3 = "upd i (\<lambda>c. c\<lparr>k_prev := None, k_next := None\<rparr>) ?h2"
      have "chain ?h1 ?L bs None" using chain_head [of h i b bs' None ?L] m d(1) Cons by simp
      then have "chain ?h3 ?L bs None" using d True by (simp add: chain_frame)
      then have "children ?h3 p bs" using d True Cons by (simp add: children_cells upd_cell)
      moreover have "cJSON_DetachItemViaPointer (Some p) (Some i) h = done_with (Some i, ?h3)"
        using True d m b Cons by (auto simp: cJSON_DetachItemViaPointer_def upd_cell)
      ultimately show ?thesis using True Cons d by (auto simp: upd_cell)
    qed
  next
    case False
    then obtain cs a where as: "as = cs @ [a]" by (cases as rule: rev_cases) auto
    obtain x zs where hd: "as = x # zs" using False by (cases as) auto
    have in_as: "a \<in> set as" "x \<in> set as" by (simp add: as, simp add: hd)
    have la: "last (?L # as) = a" using as by simp
    have fx: "first_of (as @ i # bs) None = Some x" using hd by simp
    have ax: "here h a" "here h x" using chain_here [of h ?L as "Some i"] m in_as by blast+
    have ne: "a \<noteq> i" "x \<noteq> i" "a \<noteq> p" "x \<noteq> p" "i \<noteq> p" "i \<notin> set as" "i \<notin> set bs" "a \<notin> set bs" "x \<notin> set bs" using d in_as by auto
    let ?h1 = "upd a (\<lambda>c. c\<lparr>k_next := first_of bs None\<rparr>) h"
    have 1: "chain ?h1 ?L as (first_of bs None)" using chain_last [of h ?L cs a "Some i" "first_of bs None"] m d(1) unfolding as by auto
    have rest1: "chain ?h1 i bs None" using m ne by (simp add: chain_frame)
    show ?thesis
    proof (cases bs)
      case Nil
      let ?h2 = "upd x (\<lambda>c. c\<lparr>k_prev := Some a\<rparr>) ?h1"
      let ?h3 = "upd i (\<lambda>c. c\<lparr>k_prev := None, k_next := None\<rparr>) ?h2"
      have "chain ?h2 a as None" using chain_head [of ?h1 ?L x zs None a] 1 d(1) Nil unfolding hd by simp
      then have "chain ?h3 a as None" using ne by (simp add: chain_frame)
      moreover have "last as = a" "first_of as None = Some x" by (simp add: as, simp add: hd)
      ultimately have "children ?h3 p as" using d Nil ne fx False by (simp add: children_cells upd_cell)
      moreover have "cJSON_DetachItemViaPointer (Some p) (Some i) h = done_with (Some i, ?h3)"
        using d m ax ne Nil la fx by (auto simp: cJSON_DetachItemViaPointer_def upd_cell)
      ultimately show ?thesis using Nil in_as by (auto simp: upd_cell)
    next
      case (Cons b bs')
      have b: "here h b" "b \<noteq> i" "b \<noteq> p" "b \<noteq> a" "b \<notin> set as" "b \<notin> set bs'" using m d Cons in_as by (auto simp: chain_cells)
      let ?h2 = "upd b (\<lambda>c. c\<lparr>k_prev := Some a\<rparr>) ?h1"
      let ?h3 = "upd i (\<lambda>c. c\<lparr>k_prev := None, k_next := None\<rparr>) ?h2"
      have "chain ?h2 a bs None" using chain_head [of ?h1 i b bs' None a] rest1 b Cons by simp
      moreover have "chain ?h2 ?L as (first_of bs None)" using 1 b by (simp add: chain_frame)
      ultimately have "chain ?h3 ?L (as @ bs) None" using ne la by (simp add: chain_append chain_frame)
      then have "children ?h3 p (as @ bs)" using d Cons ne fx hd by (auto simp: children_cells upd_cell)
      moreover have "cJSON_DetachItemViaPointer (Some p) (Some i) h = done_with (Some i, ?h3)"
        using d m ax ne b Cons la fx by (auto simp: cJSON_DetachItemViaPointer_def upd_cell)
      ultimately show ?thesis using Cons in_as by (auto simp: upd_cell)
    qed
  qed
qed

lemma walk_chain: "chain h q (as @ xs) None \<Longrightarrow> walk_items (first_of (as @ xs) None) (length as) h = done_with (first_of xs None, h)"
  by (induction as arbitrary: q) (auto simp: chain_cells)

lemma walk_past: "chain h q xs None \<Longrightarrow> length xs \<le> k \<Longrightarrow> walk_items (first_of xs None) k h = done_with (None, h)"
proof (induction xs arbitrary: q k)
  case Nil
  then show ?case by (cases k) simp_all
next
  case (Cons x xs)
  then show ?case by (cases k) (auto simp: chain_cells)
qed

lemma item_at_children:
  assumes "children h p xs"
  shows "item_at (Some p) i h = done_with (if i < length xs then Some (xs ! i) else None, h)"
proof (cases "i < length xs")
  case True
  then have x: "xs = take i xs @ xs ! i # drop (Suc i) xs" by (rule id_take_nth_drop)
  have "chain h (last xs) (take i xs @ xs ! i # drop (Suc i) xs) None"
    using assms True by (auto simp: children_cells id_take_nth_drop [OF True, symmetric])
  from walk_chain [OF this] show ?thesis
    using assms True by (auto simp: item_at_def children_cells id_take_nth_drop [OF True, symmetric] min_def)
next
  case False
  then show ?thesis
    using assms walk_past [of h "last xs" xs i] by (cases "xs = []"; cases i) (auto simp: item_at_def children_cells)
qed

lemma insert_links:
  assumes "children h p (as @ a # bs)" "here h n" "n \<notin> set (p # as @ a # bs)"
  shows "\<exists>h'. cJSON_InsertItemInArray (Some p) (int (length as)) (Some n) h = done_with (True, h') \<and>
     children h' p (as @ n # a # bs) \<and> same_but (set (p # n # as @ a # bs)) h h'"
proof -
  let ?L = "last (a # bs)"
  have d: "distinct (as @ a # bs)" "p \<notin> set (as @ a # bs)" "here h p" "k_child (cell_at h p) = first_of (as @ a # bs) None"
    and ch: "chain h ?L (as @ a # bs) None"
    using assms(1) by (auto simp: children_cells last_middle split: if_splits)
  note m = ch [unfolded chain_middle]
  have at: "item_at (Some p) (length as) h = done_with (Some a, h)" using item_at_children [OF assms(1), of "length as"] by simp
  have n: "n \<noteq> p" "n \<notin> set as" "n \<noteq> a" "n \<notin> set bs" "a \<noteq> p" using assms(3) d by auto
  have ab: "chain h (last (?L # as)) (a # bs) None" using m by (simp add: chain_cells)
  let ?h1 = "upd n (\<lambda>c. c\<lparr>k_next := Some a\<rparr>) h"
  let ?h2 = "upd n (\<lambda>c. c\<lparr>k_prev := Some (last (?L # as))\<rparr>) ?h1"
  let ?h3 = "upd a (\<lambda>c. c\<lparr>k_prev := Some n\<rparr>) ?h2"
  have "chain ?h2 (last (?L # as)) (a # bs) None" using ab n by (simp add: chain_frame del: last.simps)
  then have 3: "chain ?h3 n (a # bs) None" using chain_head [of ?h2 "last (?L # as)" a bs None n] d(1) by simp
  have cn: "here ?h3 n" "k_prev (cell_at ?h3 n) = Some (last (?L # as))" "k_next (cell_at ?h3 n) = Some a"
    using n by (simp_all add: upd_cell)
  show ?thesis
  proof (cases "as = []")
    case True
    let ?h4 = "upd p (\<lambda>c. c\<lparr>k_child := Some n\<rparr>) ?h3"
    have "chain ?h3 ?L (n # a # bs) None" using 3 cn True by (simp add: chain_cells [of _ _ n])
    then have "chain ?h4 ?L (n # a # bs) None" using d n by (subst chain_frame) auto
    then have "children ?h4 p (n # a # bs)" using d n True by (simp add: children_cells upd_cell)
    moreover have "cJSON_InsertItemInArray (Some p) 0 (Some n) h = done_with (True, ?h4)"
      using d at True assms(2) m n by (simp add: cJSON_InsertItemInArray_def upd_cell)
    ultimately show ?thesis using True by auto
  next
    case False
    then obtain cs l where as: "as = cs @ [l]" by (cases as rule: rev_cases) auto
    obtain x zs where hd: "as = x # zs" using False by (cases as) auto
    have l: "last (?L # as) = l" "last as = l" "l \<in> set as" "x \<in> set as" by (simp add: as, simp add: as, simp add: as, simp add: hd)
    have fx: "first_of (as @ xs) None = Some x" for xs using hd by simp
    have hl: "here h l" using chain_here [of h ?L as "Some a"] m l by blast
    have ne: "l \<noteq> n" "l \<noteq> a" "l \<noteq> p" "x \<noteq> a" "l \<notin> set bs" "l \<notin> set (a # bs)" using n d l by auto
    let ?h4 = "upd l (\<lambda>c. c\<lparr>k_next := Some n\<rparr>) ?h3"
    have "chain ?h3 ?L as (Some a)" using m n d by (simp add: chain_frame)
    then have 4: "chain ?h4 ?L as (Some n)" using chain_last [of ?h3 ?L cs l "Some a" "Some n"] d(1) unfolding as by auto
    have "chain ?h4 n (a # bs) None" using 3 ne by (simp only: chain_frame not_False_eq_True)
    moreover have "here ?h4 n" "k_prev (cell_at ?h4 n) = Some l" "k_next (cell_at ?h4 n) = Some a" using cn ne l n by (simp_all add: upd_cell)
    ultimately have "chain ?h4 ?L (as @ n # a # bs) None" using 4 l by (simp add: chain_append chain_cells [of _ _ n])
    then have "children ?h4 p (as @ n # a # bs)" using d n ne fx by (simp add: children_cells upd_cell)
    moreover have "cJSON_InsertItemInArray (Some p) (int (length as)) (Some n) h = done_with (True, ?h4)"
      using d at assms(2) m n ne l fx hl by (simp add: cJSON_InsertItemInArray_def upd_cell del: last.simps)
    ultimately show ?thesis using l by auto
  qed
qed

lemma replace_links:
  assumes "children h p (as @ i # bs)" "here h r" "r \<notin> set (p # as @ i # bs)"
  shows "\<exists>h'. cJSON_ReplaceItemViaPointer (Some p) (Some i) (Some r) h = run_then (cJSON_Delete (Some i) h') (\<lambda>(_, h). done_with (True, h)) \<and>
     children h' p (as @ r # bs) \<and> here h' i \<and> cell_at h' i = (cell_at h i)\<lparr>k_next := None, k_prev := None\<rparr> \<and> same_but (set (p # r # as @ i # bs)) h h'"
proof -
  let ?L = "last (i # bs)"
  have d: "distinct (as @ i # bs)" "p \<notin> set (as @ i # bs)" "here h p" "k_child (cell_at h p) = first_of (as @ i # bs) None"
    and ch: "chain h ?L (as @ i # bs) None"
    using assms(1) by (auto simp: children_cells last_middle split: if_splits)
  note m = ch [unfolded chain_middle]
  have r: "r \<noteq> p" "r \<notin> set as" "r \<noteq> i" "r \<notin> set bs" "i \<noteq> p" "i \<notin> set as" "i \<notin> set bs" using assms(3) d by auto
  let ?q = "last (?L # as)"
  let ?h1 = "upd r (\<lambda>c. c\<lparr>k_next := first_of bs None, k_prev := Some ?q\<rparr>) h"
  let ?h2 = "case bs of [] \<Rightarrow> ?h1 | b # _ \<Rightarrow> upd b (\<lambda>c. c\<lparr>k_prev := Some r\<rparr>) ?h1"
  have 1: "chain ?h1 i bs None" using m r by (simp add: chain_frame)
  have hb: "b \<in> set bs \<Longrightarrow> here h b" for b using chain_here [of h i bs None] m by blast
  have 2: "chain ?h2 r bs None"
  proof (cases bs)
    case (Cons b bs')
    then show ?thesis using chain_head [of ?h1 i b bs' None r] 1 d by simp
  qed simp
  have c2: "cell_at ?h2 r = (cell_at h r)\<lparr>k_next := first_of bs None, k_prev := Some ?q\<rparr>" "cell_at ?h2 i = cell_at h i" "cell_at ?h2 p = cell_at h p"
    using r d by (auto simp: upd_cell split: list.split)
  have h2: "here ?h2 r" "here ?h2 i" "here ?h2 p" using d m assms(2) by (auto split: list.split)
  have s2: "same_but (set (p # r # as @ i # bs)) h ?h2" by (simp split: list.split)
  have run2: "run_then (if first_of bs None \<noteq> None then change (first_of bs None) (\<lambda>c. c\<lparr>k_prev := Some r\<rparr>) ?h1 else done_with ((), ?h1)) k = k ((), ?h2)" for k
    using hb by (auto split: list.split)
  show ?thesis
  proof (cases "as = []")
    case True
    let ?h3 = "if bs = [] then upd r (\<lambda>c. c\<lparr>k_prev := Some r\<rparr>) ?h2 else ?h2"
    let ?h4 = "upd p (\<lambda>c. c\<lparr>k_child := Some r\<rparr>) ?h3"
    let ?h5 = "upd i (\<lambda>c. c\<lparr>k_next := None, k_prev := None\<rparr>) ?h4"
    have L: "?L = i \<longleftrightarrow> bs = []" using r by auto
    have "chain ?h3 r bs None" using 2 r by (auto simp: chain_frame)
    moreover have "here ?h3 r" "k_prev (cell_at ?h3 r) = Some (last (r # bs))" "k_next (cell_at ?h3 r) = first_of bs None"
      using h2 c2 True by (auto simp: upd_cell)
    ultimately have "chain ?h3 (last (r # bs)) (r # bs) None" by (simp add: chain_cells)
    then have "chain ?h5 (last (r # bs)) (r # bs) None" using d r by (simp add: chain_frame)
    then have "children ?h5 p (r # bs)" using d r h2 True by (simp add: children_cells upd_cell)
    moreover have "cell_at ?h5 i = (cell_at h i)\<lparr>k_next := None, k_prev := None\<rparr>" using c2 r by (simp add: upd_cell)
    moreover have "cJSON_ReplaceItemViaPointer (Some p) (Some i) (Some r) h = run_then (cJSON_Delete (Some i) ?h5) (\<lambda>(_, h). done_with (True, h))"
    proof (cases bs)
      case Nil
      then show ?thesis using True m d r assms(2) by (simp add: cJSON_ReplaceItemViaPointer_def upd_cell)
    next
      case (Cons b bs')
      then have "here h b" "b \<noteq> i" "b \<noteq> p" "b \<noteq> r" "last bs \<noteq> i" using hb d r by auto
      then show ?thesis using True m d r assms(2) Cons by (simp add: cJSON_ReplaceItemViaPointer_def upd_cell)
    qed
    ultimately show ?thesis using True s2 by (intro exI [of _ ?h5]) auto
  next
    case False
    then obtain cs l where as: "as = cs @ [l]" by (cases as rule: rev_cases) auto
    obtain x zs where hd: "as = x # zs" using False by (cases as) auto
    have l: "?q = l" "last as = l" "l \<in> set as" "x \<in> set as" by (simp add: as, simp add: as, simp add: as, simp add: hd)
    have fx: "first_of (as @ xs) None = Some x" for xs using hd by simp
    have hl: "here h l" "here h x" using chain_here [of h ?L as "Some i"] m l by blast+
    have ne: "l \<noteq> r" "l \<noteq> i" "l \<noteq> p" "x \<noteq> r" "x \<noteq> i" "x \<noteq> p" "l \<notin> set bs" "x \<notin> set bs" using r d l by auto
    let ?h3 = "upd l (\<lambda>c. c\<lparr>k_next := Some r\<rparr>) ?h2"
    let ?h4 = "if bs = [] then upd x (\<lambda>c. c\<lparr>k_prev := Some r\<rparr>) ?h3 else ?h3"
    let ?h5 = "upd i (\<lambda>c. c\<lparr>k_next := None, k_prev := None\<rparr>) ?h4"
    have "chain ?h2 ?L as (Some i)" using m r d by (auto simp: chain_frame split: list.split)
    then have "chain ?h3 ?L as (Some r)" using chain_last [of ?h2 ?L cs l "Some i" "Some r"] d(1) unfolding as by auto
    then have 4: "chain ?h4 (last (r # bs)) as (Some r)"
      using chain_head [of ?h3 ?L x zs "Some r" r] d(1) r unfolding hd by auto
    have "chain ?h3 r bs None" using 2 ne by (simp add: chain_frame)
    then have "chain ?h4 r bs None" by simp
    moreover have "here ?h4 r" "k_prev (cell_at ?h4 r) = Some l" "k_next (cell_at ?h4 r) = first_of bs None"
      using h2 c2 ne l by (auto simp: upd_cell)
    ultimately have "chain ?h4 (last (r # bs)) (as @ r # bs) None" using 4 l False by (simp add: chain_append chain_cells [of _ _ r] del: last.simps) simp
    then have "chain ?h5 (last (r # bs)) (as @ r # bs) None" using d r by (subst chain_frame) auto
    then have "children ?h5 p (as @ r # bs)" using d r h2 c2 ne fx by (simp add: children_cells upd_cell)
    moreover have "cell_at ?h5 i = (cell_at h i)\<lparr>k_next := None, k_prev := None\<rparr>" using c2 ne by (simp add: upd_cell)
    moreover have "cJSON_ReplaceItemViaPointer (Some p) (Some i) (Some r) h = run_then (cJSON_Delete (Some i) ?h5) (\<lambda>(_, h). done_with (True, h))"
    proof (cases bs)
      case Nil
      then show ?thesis using m d r assms(2) ne l fx hl by (simp add: cJSON_ReplaceItemViaPointer_def upd_cell del: last.simps)
    next
      case (Cons b bs')
      then have "here h b" "b \<noteq> i" "b \<noteq> p" "b \<noteq> r" "b \<noteq> l" "b \<noteq> x" using hb d r ne by auto
      then show ?thesis using m d r assms(2) Cons ne l fx hl by (simp add: cJSON_ReplaceItemViaPointer_def upd_cell del: last.simps)
    qed
    ultimately show ?thesis using s2 l by (intro exI [of _ ?h5]) auto
  qed
qed

section \<open>What a deletion frees\<close>

text \<open>The nodes that belong to a chain of siblings: each with the chain of its children, unless it is a reference.\<close>

datatype owned = Owned (o_addr: addr) (o_children: "owned list")

fun owns :: "heap \<Rightarrow> owned \<Rightarrow> addr option \<Rightarrow> bool"
and owns_list :: "heap \<Rightarrow> owned list \<Rightarrow> bool" where
  "owns h (Owned x ts) nx =
     (here h x \<and> k_next (cell_at h x) = nx \<and>
      (if k_reference (cell_at h x) then ts = [] else k_child (cell_at h x) = first_of (map o_addr ts) None) \<and> owns_list h ts)"
| "owns_list h [] = True"
| "owns_list h (t # ts) = (owns h t (first_of (map o_addr ts) None) \<and> owns_list h ts)"

fun o_nodes :: "owned \<Rightarrow> addr list" where
  "o_nodes (Owned x ts) = x # concat (map o_nodes ts)"

definition own_texts :: "cell \<Rightarrow> addr list" where
  "own_texts c =
     (case k_valuestring c of Some a \<Rightarrow> if k_reference c then [] else [a] | None \<Rightarrow> []) @
     (case k_string c of Some a \<Rightarrow> if k_const c then [] else [a] | None \<Rightarrow> [])"

definition texts_at :: "heap \<Rightarrow> addr list \<Rightarrow> addr list" where
  "texts_at h xs = concat (map (\<lambda>x. own_texts (cell_at h x)) xs)"

definition freed :: "heap \<Rightarrow> addr set \<Rightarrow> addr set \<Rightarrow> heap" where
  "freed h ns ts = h\<lparr>h_nodes := (\<lambda>x. if x \<in> ns then None else h_nodes h x), h_texts := (\<lambda>x. if x \<in> ts then None else h_texts h x)\<rparr>"

lemma freed_simps [simp]:
  "h_nodes (freed h ns ts) x = (if x \<in> ns then None else h_nodes h x)" "h_texts (freed h ns ts) x = (if x \<in> ts then None else h_texts h x)"
  "freed (freed h ns ts) ns' ts' = freed h (ns \<union> ns') (ts \<union> ts')" "freed h {} {} = h"
  by (auto simp: freed_def fun_eq_iff)

lemma freed_cells [simp]:
  "x \<notin> ns \<Longrightarrow> here (freed h ns ts) x = here h x" "x \<notin> ns \<Longrightarrow> cell_at (freed h ns ts) x = cell_at h x"
  by (simp_all add: here_def cell_at_def)

lemma owns_freed:
  "set (o_nodes t) \<inter> ns = {} \<Longrightarrow> owns (freed h ns ts) t nx \<longleftrightarrow> owns h t nx"
  "set (concat (map o_nodes us)) \<inter> ns = {} \<Longrightarrow> owns_list (freed h ns ts) us \<longleftrightarrow> owns_list h us"
  by (induction h t nx and h us rule: owns_owns_list.induct) auto

lemma texts_freed: "set xs \<inter> ns = {} \<Longrightarrow> texts_at (freed h ns ts) xs = texts_at h xs"
  by (induction xs) (auto simp: texts_at_def)

lemma free_text_freed: "h_texts h a \<noteq> None \<Longrightarrow> free_text (Some a) h = done_with ((), freed h {} {a})"
  by (auto simp: free_text_def freed_def fun_eq_iff)

lemma free_node_freed: "here h x \<Longrightarrow> free_node x h = done_with ((), freed h {x} {})"
  by (auto simp: free_node_def freed_def here_def fun_eq_iff)

lemma free_members:
  assumes "distinct (own_texts c)" "\<forall>a \<in> set (own_texts c). h_texts h a \<noteq> None"
  shows "run_then (free_member (\<not> k_reference c) (k_valuestring c) h) (\<lambda>(_, h). run_then (free_member (\<not> k_const c) (k_string c) h) k) =
     k ((), freed h {} (set (own_texts c)))"
  using assms
  by (cases "k_valuestring c"; cases "k_string c"; cases "k_reference c"; cases "k_const c")
     (auto simp: own_texts_def free_member_def free_text_freed insert_commute)

lemma delete_frees:
  "owns_list h us \<Longrightarrow> distinct (concat (map o_nodes us)) \<Longrightarrow> distinct (texts_at h (concat (map o_nodes us))) \<Longrightarrow>
     \<forall>a \<in> set (texts_at h (concat (map o_nodes us))). h_texts h a \<noteq> None \<Longrightarrow>
     cJSON_Delete (first_of (map o_addr us) None) h =
       done_with ((), freed h (set (concat (map o_nodes us))) (set (texts_at h (concat (map o_nodes us)))))"
proof (induction "size_list size us" arbitrary: us h rule: less_induct)
  case less
  show ?case
  proof (cases us)
    case Nil
    then show ?thesis by (simp add: cJSON_Delete.simps texts_at_def)
  next
    case (Cons t us')
    obtain x ts where t: "t = Owned x ts" by (cases t) auto
    let ?c = "cell_at h x" and ?N = "concat (map o_nodes ts)" and ?M = "concat (map o_nodes us')"
    let ?T = "texts_at h ?N" and ?U = "texts_at h ?M"
    have nodes: "concat (map o_nodes us) = x # ?N @ ?M" using Cons t by simp
    have texts: "texts_at h (x # ?N @ ?M) = own_texts ?c @ ?T @ ?U" by (simp add: texts_at_def)
    note d = less.prems(2-4) [unfolded nodes texts]
    have o: "here h x" "k_next ?c = first_of (map o_addr us') None" "owns_list h ts" "owns_list h us'"
      "if k_reference ?c then ts = [] else k_child ?c = first_of (map o_addr ts) None"
      using less.prems(1) Cons t by auto
    have sizes: "size_list size ts < size_list size us" "size_list size us' < size_list size us" using Cons t by simp_all
    let ?h1 = "freed h (set ?N) (set ?T)"
    have ch: "(if \<not> k_reference ?c \<and> k_child ?c \<noteq> None then cJSON_Delete (k_child ?c) h else done_with ((), h)) = done_with ((), ?h1)"
    proof (cases "ts = []")
      case True
      then show ?thesis using o(5) by (auto simp: texts_at_def)
    next
      case False
      then have "\<not> k_reference ?c" "k_child ?c = first_of (map o_addr ts) None" "k_child ?c \<noteq> None" using o(5) by (auto split: if_splits, cases ts, auto)
      then show ?thesis using less.hyps [OF sizes(1) o(3)] d by auto
    qed
    have x: "x \<notin> set ?N" using d by auto
    let ?h2 = "freed ?h1 {} (set (own_texts ?c))"
    have mem: "run_then (free_member (\<not> k_reference ?c) (k_valuestring ?c) ?h1) (\<lambda>(_, h). run_then (free_member (\<not> k_const ?c) (k_string ?c) h) k) = k ((), ?h2)" for k
      by (rule free_members) (use d in auto)
    let ?h3 = "freed ?h2 {x} {}"
    have nod: "free_node x ?h2 = done_with ((), ?h3)" by (rule free_node_freed) (use o(1) x in simp)
    have h3: "?h3 = freed h (insert x (set ?N)) (set (own_texts ?c) \<union> set ?T)" by (simp add: Un_commute)
    have frame: "owns_list ?h3 us'" "texts_at ?h3 ?M = ?U" unfolding h3
      using d o(4) by (subst owns_freed(2), auto, subst texts_freed, auto)
    have dd: "distinct ?M" "distinct ?U" using d by auto
    have "h_texts ?h3 a \<noteq> None" if "a \<in> set ?U" for a
    proof -
      have "a \<notin> set (own_texts ?c) \<union> set ?T" "h_texts h a \<noteq> None" using d(2,3) that by auto
      then show ?thesis unfolding h3 by simp
    qed
    then have left: "\<forall>a \<in> set ?U. h_texts ?h3 a \<noteq> None" by blast
    have "cJSON_Delete (first_of (map o_addr us') None) ?h3 = done_with ((), freed ?h3 (set ?M) (set ?U))"
      by (rule less.hyps [OF sizes(2) frame(1) dd(1), unfolded frame(2), OF dd(2) left])
    moreover have "freed ?h3 (set ?M) (set ?U) = freed h (set (x # ?N @ ?M)) (set (own_texts ?c @ ?T @ ?U))"
      by (simp add: Un_ac insert_commute)
    ultimately have rest: "cJSON_Delete (first_of (map o_addr us') None) ?h3 =
      done_with ((), freed h (set (x # ?N @ ?M)) (set (own_texts ?c @ ?T @ ?U)))" by (simp only:)
    have "first_of (map o_addr us) None = Some x" using Cons t by simp
    then show ?thesis unfolding nodes texts
      by (simp only: cJSON_Delete.simps [of "Some x" h] option.case node_here [OF o(1)] run_then_simps prod.case heap_simps(2) ch mem nod o(2) rest)
  qed
qed

section \<open>Properties\<close>

text \<open>
  C31. The pointers as a list: where \<^verbatim>\<open>prev\<close> and \<^verbatim>\<open>next\<close> make a list of the children, adding appends to
  it, detaching removes the item from it and leaves the item with no neighbours, and inserting puts
  the new item before the one at the index. No other node and no text is touched, and nothing faults.
\<close>

theorem children_edited:
  assumes "children h p (as @ i # bs)" "here h n" "n \<notin> set (p # as @ i # bs)" "k_next (cell_at h n) = None"
  shows "(\<exists>h'. cJSON_AddItemToArray (Some p) (Some n) h = done_with (True, h') \<and> children h' p (as @ i # bs @ [n]) \<and>
            same_but (set (p # n # as @ i # bs)) h h') \<and>
    (\<exists>h'. cJSON_DetachItemFromArray (Some p) (int (length as)) h = done_with (Some i, h') \<and> children h' p (as @ bs) \<and>
            k_next (cell_at h' i) = None \<and> k_prev (cell_at h' i) = None \<and> same_but (set (p # as @ i # bs)) h h') \<and>
    (\<exists>h'. cJSON_InsertItemInArray (Some p) (int (length as)) (Some n) h = done_with (True, h') \<and> children h' p (as @ n # i # bs) \<and>
            same_but (set (p # n # as @ i # bs)) h h')"
proof (intro conjI)
  show "\<exists>h'. cJSON_AddItemToArray (Some p) (Some n) h = done_with (True, h') \<and> children h' p (as @ i # bs @ [n]) \<and>
            same_but (set (p # n # as @ i # bs)) h h'"
    using add_appends [OF assms] by (simp add: cJSON_AddItemToArray_def)
  show "\<exists>h'. cJSON_DetachItemFromArray (Some p) (int (length as)) h = done_with (Some i, h') \<and> children h' p (as @ bs) \<and>
            k_next (cell_at h' i) = None \<and> k_prev (cell_at h' i) = None \<and> same_but (set (p # as @ i # bs)) h h'"
    using detach_removes [OF assms(1)] item_at_children [OF assms(1), of "length as"] by (auto simp: cJSON_DetachItemFromArray_def)
  show "\<exists>h'. cJSON_InsertItemInArray (Some p) (int (length as)) (Some n) h = done_with (True, h') \<and> children h' p (as @ n # i # bs) \<and>
            same_but (set (p # n # as @ i # bs)) h h'"
    by (rule insert_links [OF assms(1-3)])
qed

text \<open>An array at 0 with the children 1 and 2, and a string at 3 that owns the text at 4 and is named by the one at 5.\<close>

definition demo_cell :: "addr option \<Rightarrow> addr option \<Rightarrow> addr option \<Rightarrow> cj_type \<Rightarrow> cell" where
  "demo_cell prev nxt child ty = zero_cell\<lparr>k_prev := prev, k_next := nxt, k_child := child, k_type := ty\<rparr>"

definition demo_heap :: heap where
  "demo_heap = \<lparr>h_nodes = Map.empty(0 \<mapsto> demo_cell None None (Some 1) cJSON_Array, 1 \<mapsto> demo_cell (Some 2) (Some 2) None cJSON_True,
       2 \<mapsto> demo_cell (Some 1) None None cJSON_NULL,
       3 \<mapsto> (demo_cell None None None cJSON_String)\<lparr>k_valuestring := Some 4, k_string := Some 5\<rparr>),
     h_texts = [4 \<mapsto> ''x'', 5 \<mapsto> ''name''], h_top = 6, h_avail = (\<lambda>_. True)\<rparr>"

lemma demo_children: "children demo_heap 0 ([1] @ 2 # [])"
  by (simp add: children_cells chain_cells here_def cell_at_def demo_heap_def demo_cell_def)

theorem children_edited_witness:
  "\<exists>h'. cJSON_InsertItemInArray (Some 0) 1 (Some 3) demo_heap = done_with (True, h') \<and> children h' 0 [1, 3, 2]"
proof -
  have "here demo_heap 3" "(3 :: addr) \<notin> set (0 # [1] @ 2 # [])" "k_next (cell_at demo_heap 3) = None"
    by (simp_all add: here_def cell_at_def demo_heap_def demo_cell_def)
  from children_edited [OF demo_children this] show ?thesis by auto
qed

text \<open>
  C32. Deleting: from the first of a chain of siblings \<^verbatim>\<open>cJSON_Delete\<close> frees every node of their trees and
  every text these own exactly once, what a reference points to and a name that is constant stay, and
  nothing that was freed is looked at again.
\<close>

theorem delete_frees_once:
  assumes "owns_list h us" "distinct (concat (map o_nodes us))" "distinct (texts_at h (concat (map o_nodes us)))"
    and "\<forall>a \<in> set (texts_at h (concat (map o_nodes us))). h_texts h a \<noteq> None"
  shows "cJSON_Delete (first_of (map o_addr us) None) h =
    done_with ((), freed h (set (concat (map o_nodes us))) (set (texts_at h (concat (map o_nodes us)))))"
  by (rule delete_frees [OF assms])

theorem delete_frees_once_witness: "cJSON_Delete (Some 3) demo_heap = done_with ((), freed demo_heap {3} {4, 5})"
proof -
  have "owns_list demo_heap [Owned 3 []]" "texts_at demo_heap [3] = [4, 5]" "h_texts demo_heap 4 \<noteq> None" "h_texts demo_heap 5 \<noteq> None"
    by (simp_all add: here_def cell_at_def demo_heap_def demo_cell_def zero_cell_def texts_at_def own_texts_def)
  then show ?thesis using delete_frees_once [of demo_heap "[Owned 3 []]"] by simp
qed

lemma chain_freed: "set xs \<inter> ns = {} \<Longrightarrow> chain (freed h ns ts) q xs nx \<longleftrightarrow> chain h q xs nx"
  by (induction xs arbitrary: q) (auto simp: chain_cells)

lemma children_freed: "set (p # xs) \<inter> ns = {} \<Longrightarrow> children (freed h ns ts) p xs \<longleftrightarrow> children h p xs"
  by (auto simp: children_cells chain_freed)

lemma same_but_cells: "same_but A h h' \<Longrightarrow> x \<notin> A \<Longrightarrow> here h' x = here h x \<and> cell_at h' x = cell_at h x"
  by (simp add: same_but_def here_def cell_at_def)

lemma owns_same:
  "same_but A h h' \<Longrightarrow> set (o_nodes t) \<inter> A = {} \<Longrightarrow> owns h t nx \<longleftrightarrow> owns h' t nx"
  "same_but A h h' \<Longrightarrow> set (concat (map o_nodes us)) \<inter> A = {} \<Longrightarrow> owns_list h us \<longleftrightarrow> owns_list h' us"
  by (induction h t nx and h us rule: owns_owns_list.induct) (auto simp: same_but_cells)

lemma texts_same: "\<forall>x \<in> set xs. own_texts (cell_at h' x) = own_texts (cell_at h x) \<Longrightarrow> texts_at h' xs = texts_at h xs"
  by (simp add: texts_at_def cong: map_cong)

text \<open>
  C33. Replacing a child puts the new node in its place and frees the old one with all it owns, each
  node and text once; the list of children is as it was but for the place.
\<close>

theorem replaced_child:
  assumes "children h p (as @ i # bs)" "here h r" "r \<notin> set (p # as @ i # bs)"
    and "owns h (Owned i ts) (first_of bs None)" "distinct (o_nodes (Owned i ts))"
    and "set (concat (map o_nodes ts)) \<inter> set (p # r # as @ i # bs) = {}"
    and "distinct (texts_at h (o_nodes (Owned i ts)))" "\<forall>a \<in> set (texts_at h (o_nodes (Owned i ts))). h_texts h a \<noteq> None"
  shows "\<exists>h'. cJSON_ReplaceItemViaPointer (Some p) (Some i) (Some r) h = done_with (True, h') \<and> children h' p (as @ r # bs) \<and>
    (\<forall>x. x \<notin> set (p # r # as @ bs) \<longrightarrow> h_nodes h' x = (if x \<in> set (o_nodes (Owned i ts)) then None else h_nodes h x)) \<and>
    (\<forall>a. h_texts h' a = (if a \<in> set (texts_at h (o_nodes (Owned i ts))) then None else h_texts h a))"
proof -
  obtain g where g: "cJSON_ReplaceItemViaPointer (Some p) (Some i) (Some r) h = run_then (cJSON_Delete (Some i) g) (\<lambda>(_, h). done_with (True, h))"
    "children g p (as @ r # bs)" "here g i" "cell_at g i = (cell_at h i)\<lparr>k_next := None, k_prev := None\<rparr>" "same_but (set (p # r # as @ i # bs)) h g"
    using replace_links [OF assms(1-3)] by blast
  let ?N = "o_nodes (Owned i ts)"
  have i: "i \<notin> set (concat (map o_nodes ts))" "i \<notin> set (p # r # as @ bs)" using assms(1,3,5) by (auto simp: children_cells)
  have off: "cell_at g x = cell_at h x" if "x \<in> set (concat (map o_nodes ts))" for x
    using same_but_cells [OF g(5), of x] assms(6) that by blast
  have "\<forall>x \<in> set ?N. own_texts (cell_at g x) = own_texts (cell_at h x)" 
  proof -
    have "own_texts (cell_at g i) = own_texts (cell_at h i)" unfolding g(4) by (simp add: own_texts_def cong: option.case_cong)
    then show ?thesis using off by simp
  qed
  then have t: "texts_at g ?N = texts_at h ?N" by (rule texts_same)
  have "owns_list g ts" using owns_same(2) [OF g(5) assms(6)] assms(4) by simp
  then have o: "owns_list g [Owned i ts]" using g(3,4) assms(4) by simp
  have N: "concat (map o_nodes [Owned i ts]) = ?N" by simp
  have tx: "h_texts g = h_texts h" using g(5) by (simp add: same_but_def)
  have "cJSON_Delete (first_of (map o_addr [Owned i ts]) None) g = done_with ((), freed g (set ?N) (set (texts_at h ?N)))"
    using delete_frees [OF o, unfolded N t] assms(5,7,8) tx by simp
  then have run: "cJSON_ReplaceItemViaPointer (Some p) (Some i) (Some r) h = done_with (True, freed g (set ?N) (set (texts_at h ?N)))"
    using g(1) by simp
  have "set (p # as @ r # bs) \<inter> set ?N = {}" using i assms(6) by auto
  then have "children (freed g (set ?N) (set (texts_at h ?N))) p (as @ r # bs)" using g(2) children_freed by blast
  moreover have "h_nodes (freed g (set ?N) (set (texts_at h ?N))) x = (if x \<in> set ?N then None else h_nodes h x)"
    if "x \<notin> set (p # r # as @ bs)" for x
    using g(5) that by (auto simp: same_but_def)
  ultimately show ?thesis using run tx by (intro exI [of _ "freed g (set ?N) (set (texts_at h ?N))"]) simp
qed

theorem replaced_child_witness:
  "\<exists>h'. cJSON_ReplaceItemViaPointer (Some 0) (Some 2) (Some 3) demo_heap = done_with (True, h') \<and> children h' 0 [1, 3]"
proof -
  have "here demo_heap 3" "(3 :: addr) \<notin> set (0 # [1] @ 2 # [])" "owns demo_heap (Owned 2 []) (first_of [] None)"
    "distinct (o_nodes (Owned 2 []))" "set (concat (map o_nodes [])) \<inter> set (0 # 3 # [1] @ 2 # []) = {}"
    "distinct (texts_at demo_heap (o_nodes (Owned 2 [])))"
    "\<forall>a \<in> set (texts_at demo_heap (o_nodes (Owned 2 []))). h_texts demo_heap a \<noteq> None"
    by (simp_all add: here_def cell_at_def demo_heap_def demo_cell_def zero_cell_def texts_at_def own_texts_def)
  from replaced_child [OF demo_children this] show ?thesis by auto
qed

section \<open>Where the pointers are not what they should be\<close>

text \<open>
  Inserting a null pointer: past the end it is refused, before an element it is written through.
\<close>

theorem insert_null_faults:
  assumes "children h p xs" "0 \<le> w"
  shows "cJSON_InsertItemInArray (Some p) w None h =
    (if nat w < length xs then Some (Inl InvalidWrite) else done_with (False, h))"
  using assms item_at_children [OF assms(1), of "nat w"]
  by (simp add: cJSON_InsertItemInArray_def change_def add_item_to_array_def)

text \<open>Detaching an item that is detached already writes through a null pointer.\<close>

theorem detach_twice_faults:
  assumes "here h p" "here h i" "k_child (cell_at h p) \<noteq> Some i" "k_prev (cell_at h i) = None"
  shows "cJSON_DetachItemViaPointer (Some p) (Some i) h = Some (Inl InvalidWrite)"
  using assms by (simp add: cJSON_DetachItemViaPointer_def change_def)

text \<open>Setting the text of a string that has none reads through a null pointer.\<close>

theorem set_valuestring_null_faults:
  assumes "here h x" "k_type (cell_at h x) = cJSON_String" "\<not> k_reference (cell_at h x)" "k_valuestring (cell_at h x) = None"
    and "h_texts h t = Some s"
  shows "cJSON_SetValuestring (Some x) (Some t) h = Some (Inl InvalidRead)"
  using assms by (simp add: cJSON_SetValuestring_def text_of_def)

text \<open>
  Replacing an item of an object by a node under that node's own name: the name is freed before it is
  copied.
\<close>

theorem replace_by_own_name_faults:
  assumes "here h r" "k_string (cell_at h r) = Some s" "\<not> k_const (cell_at h r)" "h_texts h s \<noteq> None"
  shows "replace_item_in_object (Some p) (Some s) (Some r) cs h = Some (Inl InvalidRead)"
  using assms by (simp add: replace_item_in_object_def free_member_def free_text_def cJSON_strdup_def text_of_def)

end
