(* ===== verification/Timestamp_Sec.thy ===== *)
theory Timestamp_Sec
  imports Timestamps C_Double
begin

text \<open>
  The operators of \<^verbatim>\<open>src/base/Timestamp.h\<close> on floating-point seconds. A number of seconds that does not
  fit an unsigned 64-bit number of microseconds has no result: its conversion is undefined.
\<close>

definition times_million :: "c_double \<Rightarrow> c_double" where
  "times_million d = (case d of Finite q \<Rightarrow> to_double (q * 1000000) | _ \<Rightarrow> d)"

definition to_uint64 :: "c_double \<Rightarrow> 64 word option" where
  "to_uint64 d = (case d of Finite q \<Rightarrow> if - 1 < q \<and> q < 2 ^ 64 then Some (of_int (trunc q)) else None | _ \<Rightarrow> None)"

definition ts_add_sec :: "timestamp \<Rightarrow> c_double \<Rightarrow> timestamp option" where
  "ts_add_sec lhs seconds = map_option (ts_add lhs) (to_uint64 (times_million seconds))"

definition ts_sub_sec :: "timestamp \<Rightarrow> c_double \<Rightarrow> timestamp option" where
  "ts_sub_sec lhs seconds = map_option (ts_sub lhs) (to_uint64 (times_million seconds))"

definition ts_diff :: "timestamp \<Rightarrow> timestamp \<Rightarrow> c_double" where
  "ts_diff high low =
     (case to_double (of_nat (unat (micro_sec_since_epoch high - micro_sec_since_epoch low))) of
        Finite q \<Rightarrow> to_double (q / 1000000)
      | d \<Rightarrow> d)"

lemma to_double_nat: "n < 2 ^ 53 \<Longrightarrow> to_double (of_nat n) = Finite (of_nat n)"
  using to_double_int [of "int n"] by simp

text \<open>
  Whole seconds, up to 285 years of them: adding is exact, subtracting takes back what was added, and the
  difference of the two timestamps is the number of seconds, across the wrap-around as well.
\<close>

theorem whole_seconds:
  assumes "n * 1000000 < 2 ^ 53"
  shows "ts_add_sec t (Finite (of_nat n)) = Some (ts_add t (of_nat (n * 1000000))) \<and>
    ts_sub_sec (ts_add t (of_nat (n * 1000000))) (Finite (of_nat n)) = Some t \<and>
    ts_diff (ts_add t (of_nat (n * 1000000))) t = Finite (of_nat n)"
proof -
  have m: "times_million (Finite (of_nat n)) = Finite (of_nat (n * 1000000))"
    using to_double_nat [OF assms] by (simp add: times_million_def)
  have lt: "(of_nat (n * 1000000) :: rat) < 2 ^ 64"
  proof -
    have "n * 1000000 < 2 ^ 64" using assms by simp
    then have "(of_nat (n * 1000000) :: rat) < of_nat (2 ^ 64)" by (simp only: of_nat_less_iff)
    then show ?thesis by simp
  qed
  have "to_uint64 (Finite (of_nat (n * 1000000))) = Some (of_int (trunc (of_nat (n * 1000000))))"
    using lt by (simp add: to_uint64_def)
  also have "trunc (of_nat (n * 1000000)) = int (n * 1000000)" by (simp add: trunc_def del: of_nat_mult)
  finally have u: "to_uint64 (Finite (of_nat (n * 1000000))) = Some (of_nat (n * 1000000))" by simp
  have w: "unat (of_nat (n * 1000000) :: 64 word) = n * 1000000" using assms by (simp add: unat_of_nat take_bit_nat_eq_self del: of_nat_mult)
  have d: "ts_diff (ts_add t (of_nat (n * 1000000))) t = to_double (of_nat (n * 1000000) / 1000000)"
    using to_double_nat [OF assms] w by (simp add: ts_diff_def ts_add_def ts_of_micro_def del: of_nat_mult)
  have "n < 2 ^ 53" using assms by simp
  then have "to_double (of_nat n) = Finite (of_nat n)" by (rule to_double_nat)
  then show ?thesis using m u d by (cases t) (simp add: ts_add_sec_def ts_sub_sec_def ts_sub_def ts_add_def ts_of_micro_def)
qed

text \<open>
  A negative number of seconds cannot be added, and the difference to a later timestamp is not
  negative: it wraps around first.
\<close>

theorem seconds_are_unsigned:
  "ts_add_sec t (Finite (- 1)) = None \<and> dbl_le (Finite 0) (ts_diff high low)"
proof
  have "to_double (- 1000000) = Finite (- 1000000)" using to_double_int [of "- 1000000"] by simp
  then show "ts_add_sec t (Finite (- 1)) = None" by (simp add: ts_add_sec_def times_million_def to_uint64_def)
  show "dbl_le (Finite 0) (ts_diff high low)"
    unfolding ts_diff_def
  proof -
    let ?d = "to_double (of_nat (unat (micro_sec_since_epoch high - micro_sec_since_epoch low)))"
    have "dbl_le (Finite 0) ?d"
      by (rule to_double_nonneg) (simp only: of_nat_0_le_iff)
    then show "dbl_le (Finite 0) (case ?d of Finite q \<Rightarrow> to_double (q / 1000000) | d \<Rightarrow> d)"
      by (cases ?d) (simp_all add: to_double_nonneg)
  qed
qed

end
