(* ===== verification/Spec2Isabelle.thy ===== *)
theory Spec2Isabelle
  imports Http_Server Base64 Dc_Internal Dc_Agent Dc_Batch Dc_Diff Db_Json Cjson_Task Cjson_Compare Cjson_Minify Cjson_List Timestamp_Sec
begin

text \<open>
  \<^bold>\<open>wfrest\<close> is a web framework in C++ over an asynchronous task library: an application registers
  handlers for routes, groups of routes can be mounted under a prefix, aspects run before and after
  handlers, and a request goes from the parsed message through the router to its handler, whose
  response is compressed, encoded and sent. The repository also has an application of it, an agent
  that compares directories between servers. This development models both function by
  function and proves what makes them correct. A file \<^verbatim>\<open>X\<close> below is \<^verbatim>\<open>src/X\<close> of the repository.

  \<^bold>\<open>Parts and theories.\<close> From the bottom up:

  \<^item> \<open>Prelude\<close>: C strings, \<^verbatim>\<open>size_t\<close> and \<^verbatim>\<open>int\<close> arithmetic, and \<^verbatim>\<open>std::map\<close> as an association
    list kept in the order of its comparator. The locale \<open>std_map\<close> proves the laws of lookup,
    insertion and assignment once for every strict weak order; it is interpreted for the plain and
    the caseless order of strings and for the order of methods.
  \<^item> \<open>String_Piece\<close> (\<^verbatim>\<open>base/StringPiece.h\<close>), \<open>Str_Util\<close> (\<^verbatim>\<open>util/StrUtil\<close>), \<open>Code_Util\<close>
    (\<^verbatim>\<open>util/CodeUtil\<close>), \<open>Uri_Util\<close> (\<^verbatim>\<open>util/UriUtil\<close>), \<open>Path_Util\<close> (\<^verbatim>\<open>util/PathUtil\<close>,
    \<^verbatim>\<open>util/FileUtil\<close>, \<^verbatim>\<open>base/ErrorCode\<close>), \<open>Base64\<close> (\<^verbatim>\<open>base/base64.cc\<close>), \<open>Timestamps\<close> and
    \<open>Timestamp_Sec\<close> (\<^verbatim>\<open>base/Timestamp\<close>): loops over characters, each with the list function it computes and, where
    there are two directions, the round trip. Windows into a buffer keep the buffer, because the
    code reads past the window.
  \<^item> \<open>Http_Def\<close> (\<^verbatim>\<open>core/HttpDef\<close>), \<open>Http_Cookie\<close> (\<^verbatim>\<open>core/HttpCookie\<close>): the table of content
    types with its four conversions; the cookie header in both directions.
  \<^item> \<open>Multipart_Parser\<close> (\<^verbatim>\<open>core/MultiPartParser.c\<close>): the byte state machine. \<open>mp_step\<close> is one
    iteration; \<open>mp_reach\<close> is the reachability relation over it, on which the bounds of the indices
    into the boundary and the look-behind buffer are an invariant; \<open>mp_execute\<close> is the loop with its
    termination proof. \<open>Http_Content\<close> (\<^verbatim>\<open>core/HttpContent\<close>): the callbacks that build a form from
    the events, and the encoder's list of parts.
  \<^item> \<open>Compressor\<close> (\<^verbatim>\<open>base/Compress\<close>): the loops that call zlib with a growing buffer. A loop that
    zlib could keep going for ever has the value \<open>None\<close>; the theorems prove that it returns, from
    hypotheses on zlib that a concrete stream satisfies.
  \<^item> \<open>Verb_Handler\<close> (\<^verbatim>\<open>core/VerbHandler.h\<close>), \<open>Route_Table\<close> (\<^verbatim>\<open>core/RouteTable\<close>): the tree of
    path segments. \<open>wf_node\<close> is its invariant (children in strict order, keys without a slash);
    \<open>segs\<close> is the specification of how a path is cut; insertion is shown to be insertion along
    \<open>segs\<close>, lookup is shown sound against \<open>covers\<close> and complete for literal paths.
  \<^item> \<open>Router\<close> (\<^verbatim>\<open>core/Router\<close>), \<open>Aspects\<close> (\<^verbatim>\<open>core/Aspect\<close>, \<^verbatim>\<open>core/AopUtil.h\<close>, the request
    side of \<^verbatim>\<open>core/BluePrint\<close>), \<open>Blue_Print\<close> (the registration side and mounting). A closure
    of the C++ code is the data it captures, run by a function.
  \<^item> \<open>Http_Req\<close>, \<open>Http_Resp\<close> (\<^verbatim>\<open>core/HttpMsg\<close>, \<^verbatim>\<open>core/HttpFile\<close>): the request with its caches,
    the response with its headers, body, compression, file ranges, proxying and the multipart
    encoder; \<open>Db_Json\<close> (\<^verbatim>\<open>core/HttpMsg.cc\<close>, \<^verbatim>\<open>util/MysqlUtil\<close>): MySQL and Redis results as JSON.
    \<open>Server_Task\<close> (\<^verbatim>\<open>core/HttpServerTask\<close>): connection headers and keep-alive.
  \<^item> \<open>Http_Server\<close> (\<^verbatim>\<open>core/HttpServer\<close>): the server, with \<open>process\<close> as the composition of all of
    the above, and static files.
  \<^item> \<open>Chan\<close> (\<^verbatim>\<open>file_compare/diff/chan.h\<close>): the ring between one producer and one consumer thread,
    as functions and as the step relation \<open>chan_step\<close> of their atomic actions. Its abstract
    specification is the queue of the locale \<open>bounded_fifo\<close>, which the ring implements.

  The agent, in \<^verbatim>\<open>file_compare\<close>. A client posts a task; the comparing worker takes it off a channel,
  walks the directory of the standard server, asks a content object per server for attributes and
  writes the report; the content object of another server exchanges messages with the agent there.

  \<^item> \<open>Dc_Error\<close> (\<^verbatim>\<open>common/dc_common_error\<close>): codes, messages, and which codes the checking macros
    return. \<open>Dc_Json\<close>: JSON values with the operations of \<^verbatim>\<open>base/json.hpp\<close> the agent uses, those that
    throw with their error.
  \<^item> \<open>Dc_Content\<close> (the local half of \<^verbatim>\<open>content/dc_content\<close>): the reader with its worker thread.
    \<open>reader_step\<close> interleaves the poller and the worker; the specification of reading a file is the
    list of hashes of its lines that are not blank.
  \<^item> \<open>Dc_Internal\<close> (the remote half, \<^verbatim>\<open>internal/dc_internal_task\<close>, and two handlers of \<^verbatim>\<open>main.cc\<close>):
    the executor, whose list elements have addresses because the worker keeps a reference to one
    outside the mutex, and the exchange of messages between two agents. \<open>exec_step\<close> and
    \<open>exec_reach\<close> are its steps and reachable states.
  \<^item> \<open>Dc_Task\<close> (\<^verbatim>\<open>api/dc_api_task\<close>): reading a task. \<open>valid_task\<close> is what the worker relies on.
  \<^item> \<open>Dc_Compare\<close> (\<^verbatim>\<open>compare/dc_compare\<close>): the worker. \<open>items_in\<close> is the specification of the walk
    over a tree, \<open>entry_tells\<close> and \<open>to_report\<close> that of the report on a directory. It uses content
    objects through their interface: \<open>Dc_Batch\<close> states the contract of the interface in the locale
    \<open>dir_content\<close>, proves polling, report and whole task in it, and interprets it for the local
    reader with its worker thread, for every delay of that thread.
  \<^item> \<open>Dc_Diff\<close> (\<^verbatim>\<open>diff/dc_diff\<close>): the rows of one key; \<open>row_key\<close> is what the comparison sees of a row,
    and \<open>grouped\<close> the invariant of the index. The thread that writes the file is \<open>diff_step\<close>.
  \<^item> \<open>Dc_Agent\<close> (the other two handlers of \<^verbatim>\<open>main.cc\<close>): posting a task and asking for its result.

  The JSON library of the agent, \<^verbatim>\<open>file_compare/common/cJSON.cc\<close>, which is kept in the tree:

  \<^item> \<open>C_Double\<close>: the type \<^verbatim>\<open>double\<close> as far as the library uses it: finite values as rational numbers
    rounded to 53 bits, infinities and NaN, \<^verbatim>\<open>strtod\<close> and \<^verbatim>\<open>printf\<close> for the conversions it asks for.
  \<^item> \<open>Cjson\<close>: the nodes as values with their children as a list, their creation, lookup, copy and
    comparison. \<open>node_ok\<close> is what a tree that was read is like. \<open>Cjson_Compare\<close>: what a comparison says.
  \<^item> \<open>Cjson_Parse\<close>: the parser over a buffer with an offset and a depth, from bytes to trees. A read
    outside the buffer or a write outside the memory of a string is an error; \<open>weight_at\<close> is the
    invariant that bounds what a literal can still give. \<open>utf8_reference\<close> is the definition of UTF-8.
  \<^item> \<open>Cjson_Print\<close>: the printer over a buffer that grows or is the caller's. Its abstract
    specification is \<open>json_text\<close>, the text of a tree; \<open>pending\<close> and \<open>at_end\<close> relate the buffer to it.
  \<^item> \<open>Cjson_Round\<close>: the parser on \<open>json_text\<close>; \<open>reads_back\<close> is the contract of the parser of values.
    \<open>Cjson_Task\<close>: the reader of tasks on this parser. \<open>Cjson_Minify\<close>: the removal of blanks in place,
    which refines \<open>minified\<close>.
  \<^item> \<open>Cjson_List\<close>: the editing of trees on the heap. Nodes and texts have addresses, a read or write of
    one that is not there is an error, and whether an allocation succeeds is part of the heap.
    \<open>children\<close> is the list that \<^verbatim>\<open>child\<close>, \<^verbatim>\<open>next\<close> and \<^verbatim>\<open>prev\<close> stand for, \<open>owns_list\<close> the trees a chain of
    siblings owns; the operations are shown to be those of lists, and deletion to free what is owned once.

  \<^bold>\<open>What is proved.\<close> End to end: a request for a registered route runs exactly the handler
  registered for it, through registration, mounting, header and URI processing and dispatch, and
  every way a request can be rejected answers with the stated status. Invariants and refinement:
  the order and type invariant of tables under registration, the bounds of the multipart parser, the
  ring as a queue under every interleaving, with its slots never read unwritten. Order of aspects and
  what their failure stops. Round trips: base64, percent coding, gzip, splitting.
  Bounds: keep-alive, file ranges. Termination and liveness: the parser's loop returns, a producer
  that waits is released. Several theorems state where the code does less than it means to (a second
  method registered for the root, a parameter left over from an abandoned branch, an interior route
  of a blueprint that is not mounted, a static path that leaves its directory, an exception on a lone
  quote); they are listed as findings. For the agent: what a reader hashes and that its threads can
  finish, that the executor's reference stays valid and its answers are those of the task asked for,
  that a task which was read is one the worker can work on, what a walk and a report contain, how rows
  are grouped; and, again as theorems, where it goes wrong: replies that the other agent cannot read,
  the result of one task given to the client of another, a queue that is not cleared and aborts the
  next round, a single file that throws, a file of differences that is never closed.

  \<^bold>\<open>Numbers.\<close> \<^verbatim>\<open>size_t\<close> is \<open>nat\<close> with the subtraction wrapped where the code can subtract below
  zero; \<^verbatim>\<open>int\<close> results of \<^verbatim>\<open>strtol\<close> and arithmetic that can overflow go through \<open>to_int32\<close>; bytes
  in base64 are masked to eight bits; a time is a 64-bit word. zlib's 32-bit counters appear as size
  hypotheses of the theorems about it. Loops are structural, have a measure, or are partial functions
  into \<open>option\<close>. Two loops are bounded by fuel: the recursion of the JSON parser, by one more than
  the bytes of the text, and the loop of the minifier, by one more than those of its memory; every
  step of either reads on, and the theorems about them say that they never run out of it.

  \<^bold>\<open>Parameters.\<close> What is not in the repository is an argument: the parsed message, the URI parser
  and the timers of the task library, zlib, the clock and time formatting, and the
  file system, message digests and the users of the system. The JSON library is an argument of the
  request and response models, and of the agent as far as it parses and prints. Hypotheses about
  them state what their documentation promises, and each theorem that has one has a witness with a
  concrete function in their place.

  \<^bold>\<open>Not modelled.\<close> The variants of MySQL and Redis that only hand the result to a user function,
  route parameters read as floating-point numbers, move constructors, logging, the tests, examples and benchmarks,
  the JSON library \<^verbatim>\<open>base/json.hpp\<close> (third-party code kept in the tree). Of \<^verbatim>\<open>cJSON.cc\<close>: memory that
  runs out while it parses or copies, the replacement of the memory functions, and the position of the
  last error. Of the agent: that a thread changes the working directory of the whole process, memory
  that is not freed, and the functions that only answer \<^verbatim>\<open>E_NOT_IMPL\<close>.
\<close>

end
